(* ===== verification/Prelude.thy ===== *)
theory Prelude
  imports Main "HOL-Library.Char_ord" "HOL-Library.List_Lexorder" "HOL-Library.Monad_Syntax"
    "HOL-Library.Multiset"
begin

text \<open>
  Shared material of the development: the C string comparison the server's containers are
  ordered by, checked array accesses (the model of a C array write or read that would leave
  its allocation is \<open>None\<close>), and generic facts on lists that several components use.
\<close>

named_theorems arr_simps \<open>checked array accesses inside their bounds\<close>

section \<open>C strings\<close>

text \<open>
  A C string is a list of bytes without its terminating NUL.  \<open>strcmp\<close> compares bytes as
  \<open>unsigned char\<close>; the C standard fixes only the sign of its result.
\<close>

fun strcmp :: "string \<Rightarrow> string \<Rightarrow> int" where
  "strcmp [] [] = 0"
| "strcmp [] (b # bs) = -1"
| "strcmp (a # as) [] = 1"
| "strcmp (a # as) (b # bs) = (if a = b then strcmp as bs else if a < b then -1 else 1)"

lemma strcmp_neg [simp]: "strcmp a b < 0 \<longleftrightarrow> a < b"
  by (induction a b rule: strcmp.induct) auto

lemma strcmp_zero [simp]: "strcmp a b = 0 \<longleftrightarrow> a = b"
  by (induction a b rule: strcmp.induct) auto

lemma strcmp_pos [simp]: "0 < strcmp a b \<longleftrightarrow> b < a"
  using strcmp_neg [of a b] strcmp_zero [of a b] by (metis linorder_neqE not_less_iff_gr_or_eq)

text \<open>The C string a pointer to the given bytes stands for: it ends at the first NUL.\<close>

definition cstr :: "string \<Rightarrow> string" where
  "cstr s = takeWhile (\<lambda>c. c \<noteq> CHR 0x00) s"

lemma cstr_id: "CHR 0x00 \<notin> set s \<Longrightarrow> cstr s = s"
  by (auto simp: cstr_def takeWhile_eq_all_conv)

lemma cstr_no_nul [simp]: "CHR 0x00 \<notin> set (cstr s)"
  by (auto simp: cstr_def dest: set_takeWhileD)

section \<open>Checked array accesses\<close>

definition arr_write :: "'a list \<Rightarrow> nat \<Rightarrow> 'a \<Rightarrow> 'a list option" where
  "arr_write a i v = (if i < length a then Some (a[i := v]) else None)"

definition arr_read :: "'a list \<Rightarrow> nat \<Rightarrow> 'a option" where
  "arr_read a i = (if i < length a then Some (a ! i) else None)"

text \<open>\<open>realloc\<close> keeps the common prefix; slots beyond it are uninitialised (\<open>None\<close>).\<close>

definition arr_realloc :: "'a option list \<Rightarrow> nat \<Rightarrow> 'a option list" where
  "arr_realloc a m = take m a @ replicate (m - length a) None"

lemma arr_write_in [arr_simps]: "i < length a \<Longrightarrow> arr_write a i v = Some (a[i := v])"
  by (simp add: arr_write_def)

lemma arr_read_in [arr_simps]: "i < length a \<Longrightarrow> arr_read a i = Some (a ! i)"
  by (simp add: arr_read_def)

lemma length_arr_realloc [simp]: "length (arr_realloc a m) = m"
  by (simp add: arr_realloc_def)

lemma take_arr_realloc: "k \<le> length a \<Longrightarrow> k \<le> m \<Longrightarrow> take k (arr_realloc a m) = take k a"
  by (simp add: arr_realloc_def min_def)

section \<open>Lists\<close>

lemma sorted_wrt_insert_at:
  assumes "sorted xs" and "\<And>i. i < p \<Longrightarrow> i < length xs \<Longrightarrow> xs ! i \<le> x"
    and "\<And>i. p \<le> i \<Longrightarrow> i < length xs \<Longrightarrow> x \<le> xs ! i"
  shows "sorted (take p xs @ x # drop p xs)"
proof -
  have "\<forall>y \<in> set (take p xs). y \<le> x"
    using assms(2) by (auto simp: in_set_conv_nth)
  moreover have "\<forall>y \<in> set (drop p xs). x \<le> y"
    using assms(3) by (auto simp: in_set_conv_nth)
  ultimately show ?thesis
    using assms(1) by (auto simp: sorted_append sorted_wrt_take sorted_wrt_drop intro: order_trans)
qed

lemma mset_insert_at: "mset (take p xs @ x # drop p xs) = add_mset x (mset xs)"
  by (metis append_take_drop_id mset_append union_mset_add_mset_right mset.simps(2))

lemma set_insert_at: "set (take p xs @ x # drop p xs) = insert x (set xs)"
  by (metis mset_insert_at set_mset_add_mset_insert set_mset_mset)

lemma distinct_insert_at:
  "distinct (take p xs @ x # drop p xs) \<longleftrightarrow> distinct xs \<and> x \<notin> set xs"
  by (metis distinct.simps(2) mset.simps(2) mset_eq_imp_distinct_iff mset_insert_at)

lemma distinct_filter_key:
  "distinct (map f xs) \<Longrightarrow> i < length xs \<Longrightarrow> filter (\<lambda>e. f e = f (xs ! i)) xs = [xs ! i]"
proof (induction xs arbitrary: i)
  case (Cons x xs)
  then show ?case
  proof (cases i)
    case 0
    with Cons.prems have "filter (\<lambda>e. f e = f x) xs = []" by (auto simp: filter_empty_conv) (metis imageI)
    with 0 show ?thesis by simp
  next
    case (Suc j)
    with Cons.prems have "f x \<noteq> f (xs ! j)" by auto
    with Suc Cons show ?thesis by simp
  qed
qed simp

lemma filter_take_none: "(\<And>j. j < p \<Longrightarrow> j < length xs \<Longrightarrow> \<not> P (xs ! j)) \<Longrightarrow> filter P (take p xs) = []"
  by (auto simp: filter_empty_conv in_set_conv_nth)

lemma filter_take_all: "(\<And>j. j < p \<Longrightarrow> j < length xs \<Longrightarrow> P (xs ! j)) \<Longrightarrow> filter P (take p xs) = take p xs"
  by (auto simp: filter_id_conv in_set_conv_nth)

lemma filter_drop_none: "(\<And>j. p \<le> j \<Longrightarrow> j < length xs \<Longrightarrow> \<not> P (xs ! j)) \<Longrightarrow> filter P (drop p xs) = []"
  by (auto simp: filter_empty_conv in_set_conv_nth)

lemma filter_split3:
  "filter P xs = filter P (take p xs) @ filter P (take i (drop p xs)) @ filter P (drop (p + i) xs)"
  by (metis append_take_drop_id drop_drop add.commute filter_append)

lemma find_distinct_iff:
  "distinct (map f xs) \<Longrightarrow> find (\<lambda>e. f e = k) xs = Some e \<longleftrightarrow> e \<in> set xs \<and> f e = k"
proof (induction xs)
  case (Cons x xs)
  then show ?case by (cases "f x = k") (auto intro: rev_image_eqI)
qed simp

lemma find_none_iff: "find (\<lambda>e. f e = k) xs = None \<longleftrightarrow> k \<notin> f ` set xs"
  by (auto simp: find_None_iff)

lemma find_cong_set:
  assumes "distinct (map f xs)" "distinct (map f ys)"
    and "\<And>e. f e = k \<Longrightarrow> e \<in> set xs \<longleftrightarrow> e \<in> set ys"
  shows "find (\<lambda>e. f e = k) xs = find (\<lambda>e. f e = k) ys"
proof (cases "find (\<lambda>e. f e = k) xs")
  case None
  then have "find (\<lambda>e. f e = k) ys = None" using assms(3) by (auto simp: find_None_iff)
  with None show ?thesis by simp
next
  case (Some e)
  then have "e \<in> set xs" "f e = k" using find_distinct_iff [OF assms(1)] by auto
  then have "find (\<lambda>e. f e = k) ys = Some e"
    using assms(3) find_distinct_iff [OF assms(2)] by simp
  with Some show ?thesis by simp
qed

lemma find_append: "find P (xs @ ys) = (case find P xs of None \<Rightarrow> find P ys | Some x \<Rightarrow> Some x)"
  by (induction xs) auto

lemma find_map: "find P (map f xs) = map_option f (find (\<lambda>x. P (f x)) xs)"
  by (induction xs) auto

lemma rev_upt_Suc: "rev [0..<Suc (Suc n)] = map Suc (rev [0..<Suc n]) @ [0]"
  by (metis map_Suc_upt rev_map rev.simps(2) upt_conv_Cons zero_less_Suc)

lemma find_SomeD: "find P xs = Some x \<Longrightarrow> x \<in> set xs \<and> P x"
  by (auto simp: find_Some_iff)

section \<open>Case-insensitive comparison\<close>

text \<open>\<open>tolower\<close>, \<open>toupper\<close> and \<open>strcasecmp\<close> in the C locale.\<close>

definition tolower :: "char \<Rightarrow> char" where
  "tolower c = (let n = of_char c :: nat in if 65 \<le> n \<and> n \<le> 90 then char_of (n + 32) else c)"

definition toupper :: "char \<Rightarrow> char" where
  "toupper c = (let n = of_char c :: nat in if 97 \<le> n \<and> n \<le> 122 then char_of (n - 32) else c)"

definition strcasecmp :: "string \<Rightarrow> string \<Rightarrow> int" where
  "strcasecmp a b = strcmp (map tolower a) (map tolower b)"

lemma of_char_lt_256: "(of_char c :: nat) < 256"
  by (metis (no_types, lifting) nat_of_char_less_256)

lemma upt_0_Suc: "[0..<Suc n] = 0 # map Suc [0..<n]"
  by (simp add: upt_conv_Cons map_Suc_upt del: upt_Suc)

end
