(* ===== verification/Index.thy ===== *)
theory Index
  imports Prelude
begin

text \<open>
  The ordered pointer array of \<open>nsd/index.c\<close>.  \<open>idx_el\<close> is the allocated block with all its
  \<open>max\<close> slots, of which the first \<open>n\<close> are in use; every write is checked, so \<open>None\<close> is a write
  outside the block.  \<open>idx_els\<close> is the abstraction, the list of the elements in use, and
  \<open>index_insert\<close> what adding means on it.  The locale \<open>index_order\<close> is the contract between an
  index and its two comparison procedures.
\<close>

section \<open>The data structure and its searches\<close>

record ('k, 'e) Ns_Index =
  idx_el :: "'e option list"
  idx_n :: nat
  idx_max :: nat
  idx_inc :: nat
  CmpEls :: "'e \<Rightarrow> 'e \<Rightarrow> int"
  CmpKeyWithEl :: "'k \<Rightarrow> 'e \<Rightarrow> int"

definition idx_els :: "('k, 'e) Ns_Index \<Rightarrow> 'e list" where
  "idx_els ix = map the (take (idx_n ix) (idx_el ix))"

definition Ns_IndexInit :: "nat \<Rightarrow> ('e \<Rightarrow> 'e \<Rightarrow> int) \<Rightarrow> ('k \<Rightarrow> 'e \<Rightarrow> int) \<Rightarrow> ('k, 'e) Ns_Index" where
  "Ns_IndexInit inc cmpEls cmpKey =
     \<lparr>idx_el = replicate inc None, idx_n = 0, idx_max = inc, idx_inc = inc,
      CmpEls = cmpEls, CmpKeyWithEl = cmpKey\<rparr>"

definition Ns_IndexTrunc :: "('k, 'e) Ns_Index \<Rightarrow> ('k, 'e) Ns_Index" where
  "Ns_IndexTrunc ix =
     ix\<lparr>idx_n := 0, idx_max := idx_inc ix, idx_el := replicate (idx_inc ix) None\<rparr>"

definition Ns_IndexDup :: "('k, 'e) Ns_Index \<Rightarrow> ('k, 'e) Ns_Index" where
  "Ns_IndexDup ix =
     ix\<lparr>idx_el := take (idx_n ix) (idx_el ix) @ replicate (idx_max ix - idx_n ix) None\<rparr>"

text \<open>The search loop shared by \<open>BinSearch\<close> and \<open>BinSearchKey\<close>.\<close>

function BinSearch_loop :: "('k \<Rightarrow> 'e \<Rightarrow> int) \<Rightarrow> 'k \<Rightarrow> 'e list \<Rightarrow> int \<Rightarrow> int \<Rightarrow> int \<Rightarrow> int" where
  "BinSearch_loop cmpProc k xs low high mid =
     (if low \<le> high then
        (let mid' = (low + high) div 2; cond = cmpProc k (xs ! nat mid')
         in if cond < 0 then BinSearch_loop cmpProc k xs low (mid' - 1) mid'
            else if cond > 0 then BinSearch_loop cmpProc k xs (mid' + 1) high mid'
            else mid')
      else if high < mid then mid else low)"
  by pat_completeness auto
termination
  by (relation "measure (\<lambda>(c, k, xs, low, high, mid). nat (high - low + 1))") auto

declare BinSearch_loop.simps [simp del]

definition BinSearch :: "'e \<Rightarrow> 'e list \<Rightarrow> nat \<Rightarrow> ('e \<Rightarrow> 'e \<Rightarrow> int) \<Rightarrow> nat" where
  "BinSearch el xs n cmpProc = nat (BinSearch_loop cmpProc el xs 0 (int n - 1) 0)"

definition BinSearchKey :: "'k \<Rightarrow> 'e list \<Rightarrow> nat \<Rightarrow> ('k \<Rightarrow> 'e \<Rightarrow> int) \<Rightarrow> nat" where
  "BinSearchKey key xs n cmpProc = nat (BinSearch_loop cmpProc key xs 0 (int n - 1) 0)"

text \<open>\<open>bsearch\<close>, as the file's own replacement of it computes it: the index found, if any.\<close>

function NsBsearch :: "'k \<Rightarrow> 'e list \<Rightarrow> nat \<Rightarrow> nat \<Rightarrow> ('k \<Rightarrow> 'e \<Rightarrow> int) \<Rightarrow> nat option" where
  "NsBsearch key xs base nmemb compar =
     (if nmemb > 0 then
        (let mid_point = base + nmemb div 2; cmp = compar key (xs ! mid_point)
         in if cmp = 0 then Some mid_point
            else if cmp \<ge> 0 then NsBsearch key xs (mid_point + 1) ((nmemb - 1) div 2) compar
            else NsBsearch key xs base (nmemb div 2) compar)
      else None)"
  by pat_completeness auto
termination
  by (relation "measure (\<lambda>(k, xs, b, n, c). n)") auto

declare NsBsearch.simps [simp del]

definition index_find :: "('k \<Rightarrow> 'e \<Rightarrow> int) \<Rightarrow> 'k \<Rightarrow> 'e list \<Rightarrow> nat option" where
  "index_find cmp key xs = NsBsearch key xs 0 (length xs) cmp"

definition Ns_IndexFind :: "('k, 'e) Ns_Index \<Rightarrow> 'k \<Rightarrow> 'e option" where
  "Ns_IndexFind ix key =
     (case NsBsearch key (idx_els ix) 0 (idx_n ix) (CmpKeyWithEl ix) of
        Some i \<Rightarrow> Some (idx_els ix ! i) | None \<Rightarrow> None)"

definition Ns_IndexFindInf :: "('k, 'e) Ns_Index \<Rightarrow> 'k \<Rightarrow> 'e option" where
  "Ns_IndexFindInf ix key =
     (if idx_n ix > 0 then
        (let i = BinSearchKey key (idx_els ix) (idx_n ix) (CmpKeyWithEl ix)
         in if i \<ge> idx_n ix then None
            else if i > 0 \<and> CmpKeyWithEl ix key (idx_els ix ! i) \<noteq> 0
                 then Some (idx_els ix ! (i - 1))
            else Some (idx_els ix ! i))
      else None)"

text \<open>The two linear scans of \<open>Ns_IndexFindMultiple\<close> around the position \<open>bsearch\<close> found.\<close>

fun scan_back :: "('k \<Rightarrow> 'e \<Rightarrow> int) \<Rightarrow> 'k \<Rightarrow> 'e list \<Rightarrow> nat \<Rightarrow> nat" where
  "scan_back cmp key xs 0 = 0"
| "scan_back cmp key xs (Suc i) =
     (if cmp key (xs ! i) = 0 then scan_back cmp key xs i else Suc i)"

function scan_forward :: "('k \<Rightarrow> 'e \<Rightarrow> int) \<Rightarrow> 'k \<Rightarrow> 'e list \<Rightarrow> nat \<Rightarrow> nat \<Rightarrow> nat \<Rightarrow> nat" where
  "scan_forward cmp key xs first n i =
     (if i < n \<and> cmp key (xs ! (first + i)) = 0
      then scan_forward cmp key xs first n (i + 1) else i)"
  by pat_completeness auto
termination
  by (relation "measure (\<lambda>(c, k, xs, f, n, i). n - i)") auto

declare scan_forward.simps [simp del]

definition Ns_IndexFindMultiple :: "('k, 'e) Ns_Index \<Rightarrow> 'k \<Rightarrow> 'e list option" where
  "Ns_IndexFindMultiple ix key =
     (let xs = idx_els ix; cmp = CmpKeyWithEl ix
      in case NsBsearch key xs 0 (idx_n ix) cmp of
           None \<Rightarrow> None
         | Some f \<Rightarrow>
             (let first = scan_back cmp key xs f;
                  i = scan_forward cmp key xs first (idx_n ix - first) 1
              in Some (take i (drop first xs))))"

section \<open>Insertion and deletion\<close>

text \<open>The two shifting loops, one checked write per iteration.\<close>

fun shift_up :: "'a list \<Rightarrow> nat \<Rightarrow> nat \<Rightarrow> 'a list option" where
  "shift_up a i 0 = Some a"
| "shift_up a i (Suc j) =
     (if Suc j > i then
        do { v \<leftarrow> arr_read a j; a' \<leftarrow> arr_write a (Suc j) v; shift_up a' i j }
      else Some a)"

function shift_down :: "'a list \<Rightarrow> nat \<Rightarrow> nat \<Rightarrow> 'a list option" where
  "shift_down a j n =
     (if j < n then
        do { v \<leftarrow> arr_read a (j + 1); a' \<leftarrow> arr_write a j v; shift_down a' (j + 1) n }
      else Some a)"
  by pat_completeness auto
termination
  by (relation "measure (\<lambda>(a, j, n). n - j)") auto

declare shift_down.simps [simp del]

definition index_grow :: "('k, 'e) Ns_Index \<Rightarrow> ('k, 'e) Ns_Index" where
  "index_grow ix =
     (if idx_n ix = idx_max ix then
        ix\<lparr>idx_max := idx_max ix + idx_inc ix,
           idx_el := arr_realloc (idx_el ix) (idx_max ix + idx_inc ix)\<rparr>
      else if idx_max ix = 0 then
        ix\<lparr>idx_max := idx_max ix + idx_inc ix,
           idx_el := replicate (idx_max ix + idx_inc ix) None\<rparr>
      else ix)"

definition Ns_IndexAdd :: "('k, 'e) Ns_Index \<Rightarrow> 'e \<Rightarrow> ('k, 'e) Ns_Index option" where
  "Ns_IndexAdd ix el =
     (let ix1 = index_grow ix;
          i = (if idx_n ix1 > 0 then BinSearch el (idx_els ix1) (idx_n ix1) (CmpEls ix1) else 0)
      in do {
           a \<leftarrow> (if i < idx_n ix1 then shift_up (idx_el ix1) i (idx_n ix1) else Some (idx_el ix1));
           a' \<leftarrow> arr_write a i (Some el);
           Some (ix1\<lparr>idx_el := a', idx_n := idx_n ix1 + 1\<rparr>)
         })"

function Ns_IndexDel_loop :: "('k, 'e) Ns_Index \<Rightarrow> 'e \<Rightarrow> nat \<Rightarrow> ('k, 'e) Ns_Index option" where
  "Ns_IndexDel_loop ix el i =
     (if i < idx_n ix then
        (if idx_els ix ! i = el then
           (let n' = idx_n ix - 1
            in do {
                 a \<leftarrow> (if i < n' then shift_down (idx_el ix) i n' else Some (idx_el ix));
                 Some (ix\<lparr>idx_n := n', idx_el := a\<rparr>)
               })
         else Ns_IndexDel_loop ix el (i + 1))
      else Some ix)"
  by pat_completeness auto
termination
  by (relation "measure (\<lambda>(ix, e, i). idx_n ix - i)") auto

declare Ns_IndexDel_loop.simps [simp del]

definition Ns_IndexDel :: "('k, 'e) Ns_Index \<Rightarrow> 'e \<Rightarrow> ('k, 'e) Ns_Index option" where
  "Ns_IndexDel ix el = Ns_IndexDel_loop ix el 0"

definition Ns_IndexEl :: "('k, 'e) Ns_Index \<Rightarrow> nat \<Rightarrow> 'e option" where
  "Ns_IndexEl ix i = do { v \<leftarrow> arr_read (idx_el ix) i; v }"

section \<open>The comparison procedures of the file\<close>

definition CmpStr :: "string \<Rightarrow> string \<Rightarrow> int" where
  "CmpStr left right = strcmp left right"

definition CmpKeyWithStr :: "string \<Rightarrow> string \<Rightarrow> int" where
  "CmpKeyWithStr key el = strcmp key el"

definition CmpInts :: "int \<Rightarrow> int \<Rightarrow> int" where
  "CmpInts left right = (if left = right then 0 else if left < right then -1 else 1)"

definition CmpKeyWithInt :: "int \<Rightarrow> int \<Rightarrow> int" where
  "CmpKeyWithInt key el = (if key = el then 0 else if key < el then -1 else 1)"

definition Ns_IndexStringInit :: "nat \<Rightarrow> (string, string) Ns_Index" where
  "Ns_IndexStringInit inc = Ns_IndexInit inc CmpStr CmpKeyWithStr"

definition Ns_IndexIntInit :: "nat \<Rightarrow> (int, int) Ns_Index" where
  "Ns_IndexIntInit inc = Ns_IndexInit inc CmpInts CmpKeyWithInt"

fun index_add_all :: "('k, 'e) Ns_Index \<Rightarrow> 'e list \<Rightarrow> ('k, 'e) Ns_Index option" where
  "index_add_all ix [] = Some ix"
| "index_add_all ix (x # xs) = do { ix' \<leftarrow> Ns_IndexAdd ix x; index_add_all ix' xs }"

definition Ns_IndexStringAppend ::
  "(string, string) Ns_Index \<Rightarrow> (string, string) Ns_Index \<Rightarrow> (string, string) Ns_Index option" where
  "Ns_IndexStringAppend addto addfrom = index_add_all addto (idx_els addfrom)"


section \<open>Conditional equations for evaluation\<close>

lemma BinSearch_loop_eval:
  "high < low \<Longrightarrow> BinSearch_loop cmp k xs low high mid = (if high < mid then mid else low)"
  "low \<le> high \<Longrightarrow> cmp k (xs ! nat ((low + high) div 2)) < 0 \<Longrightarrow>
     BinSearch_loop cmp k xs low high mid = BinSearch_loop cmp k xs low ((low + high) div 2 - 1) ((low + high) div 2)"
  "low \<le> high \<Longrightarrow> 0 < cmp k (xs ! nat ((low + high) div 2)) \<Longrightarrow>
     BinSearch_loop cmp k xs low high mid = BinSearch_loop cmp k xs ((low + high) div 2 + 1) high ((low + high) div 2)"
  "low \<le> high \<Longrightarrow> cmp k (xs ! nat ((low + high) div 2)) = 0 \<Longrightarrow>
     BinSearch_loop cmp k xs low high mid = (low + high) div 2"
  by (simp_all add: BinSearch_loop.simps [of cmp k xs low high mid] Let_def)

lemma NsBsearch_eval:
  "NsBsearch k xs base 0 cmp = None"
  "0 < m \<Longrightarrow> cmp k (xs ! (base + m div 2)) = 0 \<Longrightarrow> NsBsearch k xs base m cmp = Some (base + m div 2)"
  "0 < m \<Longrightarrow> 0 < cmp k (xs ! (base + m div 2)) \<Longrightarrow>
     NsBsearch k xs base m cmp = NsBsearch k xs (base + m div 2 + 1) ((m - 1) div 2) cmp"
  "0 < m \<Longrightarrow> cmp k (xs ! (base + m div 2)) < 0 \<Longrightarrow> NsBsearch k xs base m cmp = NsBsearch k xs base (m div 2) cmp"
  by (simp_all add: NsBsearch.simps [of k xs base m cmp] NsBsearch.simps [of k xs base 0 cmp] Let_def)

section \<open>Binary search\<close>

text \<open>
  \<open>cmp_sorted\<close>: the signs of the comparison results fall along the array, which is what
  binary search needs.  Every lemma of this section is about the raw loops.
\<close>

definition cmp_sorted :: "('k \<Rightarrow> 'e \<Rightarrow> int) \<Rightarrow> 'k \<Rightarrow> 'e list \<Rightarrow> bool" where
  "cmp_sorted cmp k xs \<longleftrightarrow>
     (\<forall>i j. i \<le> j \<longrightarrow> j < length xs \<longrightarrow>
        (cmp k (xs ! i) < 0 \<longrightarrow> cmp k (xs ! j) < 0) \<and> (0 < cmp k (xs ! j) \<longrightarrow> 0 < cmp k (xs ! i)))"

text \<open>The final conditional of the loop always yields \<open>low\<close>.\<close>

lemma BinSearch_loop_range:
  assumes "0 \<le> low" "low \<le> high + 1" "high < n"
    and "high < low \<Longrightarrow> (high < mid \<longrightarrow> mid = low)"
  shows "low \<le> BinSearch_loop cmp k xs low high mid \<and>
         BinSearch_loop cmp k xs low high mid \<le> high + 1"
  using assms
proof (induction cmp k xs low high mid rule: BinSearch_loop.induct)
  case (1 cmp k xs low high mid)
  show ?case
  proof (cases "low \<le> high")
    case False
    with 1 show ?thesis by (auto simp: BinSearch_loop.simps [of cmp k xs low high mid])
  next
    case True
    let ?m = "(low + high) div 2"
    have m: "low \<le> ?m" "?m \<le> high" using True by auto
    consider (neg) "cmp k (xs ! nat ?m) < 0" | (pos) "0 < cmp k (xs ! nat ?m)"
      | (zero) "cmp k (xs ! nat ?m) = 0" by linarith
    then show ?thesis
    proof cases
      case neg
      with True m 1 show ?thesis
        by (subst (1 2) BinSearch_loop.simps) (fastforce simp: Let_def)
    next
      case pos
      with True m 1 show ?thesis
        by (subst (1 2) BinSearch_loop.simps) (fastforce simp: Let_def)
    next
      case zero
      with True m show ?thesis
        by (simp add: BinSearch_loop.simps [of cmp k xs low high mid] Let_def)
    qed
  qed
qed

lemma BinSearch_loop_pos:
  assumes "cmp_sorted cmp k xs" "0 \<le> low" "low \<le> high + 1" "high < int (length xs)"
    and "high < low \<Longrightarrow> (high < mid \<longrightarrow> mid = low)"
    and "\<And>i. i < nat low \<Longrightarrow> 0 < cmp k (xs ! i)"
    and "\<And>i. high < int i \<Longrightarrow> i < length xs \<Longrightarrow> cmp k (xs ! i) < 0"
    and "p = nat (BinSearch_loop cmp k xs low high mid)"
  shows "(p < length xs \<and> cmp k (xs ! p) = 0) \<or>
     ((\<forall>i. i < p \<longrightarrow> 0 < cmp k (xs ! i)) \<and> (\<forall>i. p \<le> i \<longrightarrow> i < length xs \<longrightarrow> cmp k (xs ! i) < 0))"
  using assms
proof (induction cmp k xs low high mid rule: BinSearch_loop.induct)
  case (1 cmp k xs low high mid)
  note unfold = BinSearch_loop.simps [of cmp k xs low high mid]
  show ?case
  proof (cases "low \<le> high")
    case False
    then have "BinSearch_loop cmp k xs low high mid = low"
      using 1(7) by (auto simp: unfold)
    with 1(5-) False show ?thesis by auto
  next
    case True
    let ?m = "(low + high) div 2"
    have m: "low \<le> ?m" "?m \<le> high" "nat ?m < length xs"
      using True 1(4,6) by auto
    have below: "\<And>i. i \<le> nat ?m \<Longrightarrow> 0 < cmp k (xs ! nat ?m) \<Longrightarrow> 0 < cmp k (xs ! i)"
      and above: "\<And>i. nat ?m \<le> i \<Longrightarrow> i < length xs \<Longrightarrow> cmp k (xs ! nat ?m) < 0 \<Longrightarrow> cmp k (xs ! i) < 0"
      using 1(3) m(3) by (auto simp: cmp_sorted_def)
    consider (neg) "cmp k (xs ! nat ?m) < 0" | (pos) "0 < cmp k (xs ! nat ?m)"
      | (zero) "cmp k (xs ! nat ?m) = 0" by linarith
    then show ?thesis
    proof cases
      case neg
      have p: "p = nat (BinSearch_loop cmp k xs low (?m - 1) ?m)"
        using True neg 1(10) by (simp add: unfold Let_def)
      have "\<And>i. ?m - 1 < int i \<Longrightarrow> i < length xs \<Longrightarrow> cmp k (xs ! i) < 0"
        using above neg by simp
      with 1(1) [OF True refl refl neg 1(3) 1(4) _ _ _ 1(8) _ p] m show ?thesis by simp
    next
      case pos
      have p: "p = nat (BinSearch_loop cmp k xs (?m + 1) high ?m)"
        using True pos 1(10) by (simp add: unfold Let_def)
      have npos: "\<not> cmp k (xs ! nat ?m) < 0" using pos by simp
      have "\<And>i. i < nat (?m + 1) \<Longrightarrow> 0 < cmp k (xs ! i)"
        using below pos by simp
      with 1(2) [OF True refl refl npos pos 1(3) _ _ 1(6) _ _ 1(9) p] m 1(4) show ?thesis by simp
    next
      case zero
      then have "p = nat ?m" using True 1(10) by (simp add: unfold Let_def)
      with zero m show ?thesis by simp
    qed
  qed
qed

lemma BinSearchKey_cases:
  assumes "cmp_sorted cmp k xs" "p = BinSearchKey k xs (length xs) cmp"
  shows "(p < length xs \<and> cmp k (xs ! p) = 0) \<or>
     ((\<forall>i. i < p \<longrightarrow> 0 < cmp k (xs ! i)) \<and> (\<forall>i. p \<le> i \<longrightarrow> i < length xs \<longrightarrow> cmp k (xs ! i) < 0))"
  using BinSearch_loop_pos [OF assms(1), of 0 "int (length xs) - 1" 0 p] assms(2)
  by (simp add: BinSearchKey_def)

lemma BinSearch_pos:
  assumes "cmp_sorted cmp x xs"
  shows "i < BinSearch x xs (length xs) cmp \<Longrightarrow> 0 \<le> cmp x (xs ! i)"
    and "BinSearch x xs (length xs) cmp \<le> i \<Longrightarrow> i < length xs \<Longrightarrow> cmp x (xs ! i) \<le> 0"
proof -
  let ?p = "BinSearch x xs (length xs) cmp"
  consider (hit) "?p < length xs" "cmp x (xs ! ?p) = 0"
    | (gap) "\<And>i. i < ?p \<Longrightarrow> 0 < cmp x (xs ! i)" "\<And>i. ?p \<le> i \<Longrightarrow> i < length xs \<Longrightarrow> cmp x (xs ! i) < 0"
    using BinSearch_loop_pos [OF assms, of 0 "int (length xs) - 1" 0 ?p]
    by (auto simp: BinSearch_def)
  note cases = this
  show "i < ?p \<Longrightarrow> 0 \<le> cmp x (xs ! i)"
    using cases
  proof cases
    case hit
    assume "i < ?p"
    then have "cmp x (xs ! i) < 0 \<longrightarrow> cmp x (xs ! ?p) < 0"
      using assms hit(1) unfolding cmp_sorted_def by (meson less_imp_le)
    with hit(2) show ?thesis by simp
  qed (simp add: less_imp_le)
  show "?p \<le> i \<Longrightarrow> i < length xs \<Longrightarrow> cmp x (xs ! i) \<le> 0"
    using cases
  proof cases
    case hit
    assume "?p \<le> i" "i < length xs"
    then have "0 < cmp x (xs ! i) \<longrightarrow> 0 < cmp x (xs ! ?p)"
      using assms by (simp add: cmp_sorted_def)
    with hit(2) show ?thesis by simp
  qed (simp add: less_imp_le)
qed

lemma BinSearch_le: "BinSearch x xs (length xs) cmp \<le> length xs"
  using BinSearch_loop_range [of 0 "int (length xs) - 1" "int (length xs)" 0 cmp x xs]
  by (simp add: BinSearch_def nat_le_iff)

lemma NsBsearch_Some:
  assumes "NsBsearch k xs b m cmp = Some i"
  shows "b \<le> i \<and> i < b + m \<and> cmp k (xs ! i) = 0"
  using assms
proof (induction k xs b m cmp rule: NsBsearch.induct)
  case (1 k xs b m cmp)
  let ?mid = "b + m div 2"
  have mpos: "m > 0" using 1(3) by (auto simp: NsBsearch.simps [of k xs b m cmp] split: if_splits)
  consider (zero) "cmp k (xs ! ?mid) = 0" | (pos) "0 < cmp k (xs ! ?mid)" | (neg) "cmp k (xs ! ?mid) < 0"
    by linarith
  then show ?case
  proof cases
    case zero
    with 1(3) mpos show ?thesis by (simp add: NsBsearch.simps [of k xs b m cmp] Let_def)
  next
    case pos
    with 1(3) mpos have "NsBsearch k xs (?mid + 1) ((m - 1) div 2) cmp = Some i"
      by (simp add: NsBsearch.simps [of k xs b m cmp] Let_def)
    with 1(1) [OF mpos refl refl] pos have "?mid + 1 \<le> i \<and> i < ?mid + 1 + (m - 1) div 2 \<and> cmp k (xs ! i) = 0"
      by simp
    then show ?thesis using mpos by auto
  next
    case neg
    with 1(3) mpos have "NsBsearch k xs b (m div 2) cmp = Some i"
      by (simp add: NsBsearch.simps [of k xs b m cmp] Let_def)
    with 1(2) [OF mpos refl refl] neg have "b \<le> i \<and> i < b + m div 2 \<and> cmp k (xs ! i) = 0"
      by simp
    then show ?thesis by auto
  qed
qed

lemma NsBsearch_None:
  assumes "cmp_sorted cmp k xs" "b + m \<le> length xs" "NsBsearch k xs b m cmp = None"
    and "b \<le> i" "i < b + m"
  shows "cmp k (xs ! i) \<noteq> 0"
  using assms
proof (induction k xs b m cmp rule: NsBsearch.induct)
  case (1 k xs b m cmp)
  let ?mid = "b + m div 2"
  have mpos: "m > 0" and mid: "?mid < length xs" using 1(4,6,7) by auto
  have nz: "cmp k (xs ! ?mid) \<noteq> 0"
    using 1(5) mpos by (auto simp: NsBsearch.simps [of k xs b m cmp] Let_def)
  show ?case
  proof (cases "0 < cmp k (xs ! ?mid)")
    case True
    with 1(5) mpos have none: "NsBsearch k xs (?mid + 1) ((m - 1) div 2) cmp = None"
      by (simp add: NsBsearch.simps [of k xs b m cmp] Let_def)
    show ?thesis
    proof (cases "i \<le> ?mid")
      case le: True
      with True 1(3) mid have "0 < cmp k (xs ! i)" unfolding cmp_sorted_def by blast
      then show ?thesis by simp
    next
      case False
      then show ?thesis
        using 1(1) [OF mpos refl refl nz] True none 1(3,4,7) by simp
    qed
  next
    case False
    with nz have neg: "cmp k (xs ! ?mid) < 0" by simp
    with 1(5) mpos have none: "NsBsearch k xs b (m div 2) cmp = None"
      by (simp add: NsBsearch.simps [of k xs b m cmp] Let_def)
    show ?thesis
    proof (cases "?mid \<le> i")
      case True
      with neg 1(3,4,7) have "cmp k (xs ! i) < 0" unfolding cmp_sorted_def by (meson less_le_trans)
      then show ?thesis by simp
    next
      case lt: False
      then show ?thesis
        using 1(2) [OF mpos refl refl nz] False none 1(3,4,6) by (simp add: nz)
    qed
  qed
qed


section \<open>Refinement of the array by a list\<close>

definition idx_inv :: "('k, 'e) Ns_Index \<Rightarrow> bool" where
  "idx_inv ix \<longleftrightarrow> length (idx_el ix) = idx_max ix \<and> idx_n ix \<le> idx_max ix \<and> 0 < idx_inc ix \<and>
     (\<forall>i < idx_n ix. idx_el ix ! i \<noteq> None)"

definition index_insert :: "('e \<Rightarrow> 'e \<Rightarrow> int) \<Rightarrow> 'e \<Rightarrow> 'e list \<Rightarrow> 'e list" where
  "index_insert cmp x xs =
     (let i = BinSearch x xs (length xs) cmp in take i xs @ x # drop i xs)"

lemmas index_eval = index_find_def index_insert_def BinSearch_def BinSearch_loop_eval NsBsearch_eval

lemma shift_up_spec:
  assumes "i \<le> n" "n < length a"
  shows "\<exists>b. shift_up a i n = Some b \<and> length b = length a \<and>
     (\<forall>k < length a. b ! k = (if i < k \<and> k \<le> n then a ! (k - 1) else a ! k))"
  using assms
proof (induction n arbitrary: a)
  case (Suc j)
  show ?case
  proof (cases "Suc j > i")
    case True
    let ?a = "a[Suc j := a ! j]"
    obtain b where "shift_up ?a i j = Some b" "length b = length a"
      "\<forall>k < length a. b ! k = (if i < k \<and> k \<le> j then ?a ! (k - 1) else ?a ! k)"
      using Suc.IH [of ?a] Suc.prems True by auto
    with True Suc.prems show ?thesis
      by (auto simp: arr_simps nth_list_update le_Suc_eq)
  next
    case False
    with Suc.prems show ?thesis by auto
  qed
qed auto

lemma shift_down_spec:
  assumes "j \<le> n" "n < length a"
  shows "\<exists>b. shift_down a j n = Some b \<and> length b = length a \<and>
     (\<forall>k < length a. b ! k = (if j \<le> k \<and> k < n then a ! (k + 1) else a ! k))"
  using assms
proof (induction a j n rule: shift_down.induct)
  case (1 a j n)
  show ?case
  proof (cases "j < n")
    case True
    let ?a = "a[j := a ! (j + 1)]"
    have rd: "arr_read a (j + 1) = Some (a ! (j + 1))" "arr_write a j (a ! (j + 1)) = Some ?a"
      using True 1(3) by (simp_all add: arr_simps)
    obtain b where b: "shift_down ?a (j + 1) n = Some b" "length b = length a"
      "\<forall>k < length a. b ! k = (if j + 1 \<le> k \<and> k < n then ?a ! (k + 1) else ?a ! k)"
      using 1(1) [OF True, of "a ! (j + 1)" ?a] 1(3) True rd by auto
    have "shift_down a j n = Some b"
      using True rd b(1) by (subst shift_down.simps) simp
    with b(2,3) True 1(3) show ?thesis
      by (auto simp: nth_list_update not_le less_Suc_eq_le intro!: arg_cong [where f = "nth a"])
  next
    case False
    then have "shift_down a j n = Some a" by (simp add: shift_down.simps [of a j n])
    with False show ?thesis by auto
  qed
qed

lemma length_idx_els [simp]: "idx_inv ix \<Longrightarrow> length (idx_els ix) = idx_n ix"
  by (simp add: idx_inv_def idx_els_def)

lemma nth_idx_els: "idx_inv ix \<Longrightarrow> i < idx_n ix \<Longrightarrow> idx_els ix ! i = the (idx_el ix ! i)"
  by (simp add: idx_inv_def idx_els_def)

lemma index_grow_facts:
  assumes "idx_inv ix"
  shows "idx_els (index_grow ix) = idx_els ix" "idx_n (index_grow ix) = idx_n ix"
    "idx_n ix < length (idx_el (index_grow ix))" "idx_inv (index_grow ix)"
    "CmpEls (index_grow ix) = CmpEls ix" "CmpKeyWithEl (index_grow ix) = CmpKeyWithEl ix"
    "idx_inc (index_grow ix) = idx_inc ix"
  using assms
  by (auto simp: index_grow_def idx_els_def idx_inv_def take_arr_realloc arr_realloc_def nth_append)

text \<open>
  Adding never writes outside the block, keeps the invariant, and on the elements in use is
  insertion at the position the binary search returns.
\<close>

lemma Ns_IndexAdd_refines:
  assumes inv: "idx_inv ix"
  shows "\<exists>ix'. Ns_IndexAdd ix x = Some ix' \<and> idx_inv ix' \<and>
     idx_els ix' = index_insert (CmpEls ix) x (idx_els ix) \<and>
     CmpEls ix' = CmpEls ix \<and> CmpKeyWithEl ix' = CmpKeyWithEl ix"
proof -
  let ?g = "index_grow ix"
  note g = index_grow_facts [OF inv]
  let ?n = "idx_n ix"
  let ?i = "BinSearch x (idx_els ix) ?n (CmpEls ix)"
  have i: "?i \<le> ?n" using BinSearch_le [of x "idx_els ix" "CmpEls ix"] inv by simp
  have i0: "?n = 0 \<Longrightarrow> ?i = 0" using i by simp
  obtain b where b: "shift_up (idx_el ?g) ?i ?n = Some b" "length b = length (idx_el ?g)"
    "\<forall>k < length b. b ! k = (if ?i < k \<and> k \<le> ?n then idx_el ?g ! (k - 1) else idx_el ?g ! k)"
    using shift_up_spec [OF i g(3)] by auto
  have up: "(if ?i < ?n then shift_up (idx_el ?g) ?i ?n else Some (idx_el ?g)) = Some b"
    using b i by (auto intro!: nth_equalityI)
  let ?ix' = "?g\<lparr>idx_el := b[?i := Some x], idx_n := ?n + 1\<rparr>"
  have add: "Ns_IndexAdd ix x = Some ?ix'"
    using up b(2) g i i0 by (auto simp: Ns_IndexAdd_def Let_def arr_simps)
  have inv': "idx_inv ?ix'"
    using g(3,4) b(2,3) i by (auto simp: idx_inv_def nth_list_update g(2))
  have "idx_els ?ix' = index_insert (CmpEls ix) x (idx_els ix)"
  proof (rule nth_equalityI)
    show "length (idx_els ?ix') = length (index_insert (CmpEls ix) x (idx_els ix))"
      using inv inv' i by (simp add: index_insert_def Let_def min_def)
  next
    fix k assume "k < length (idx_els ?ix')"
    then have k: "k \<le> ?n" using inv' by simp
    have old: "\<And>j. j < ?n \<Longrightarrow> the (idx_el ?g ! j) = idx_els ix ! j"
      using nth_idx_els [OF g(4)] g(1,2) by simp
    have "idx_els ?ix' ! k = the (b[?i := Some x] ! k)"
      using nth_idx_els [OF inv', of k] k by simp
    also have "\<dots> = index_insert (CmpEls ix) x (idx_els ix) ! k"
      using k i old b(2,3) g(3) inv
      by (auto simp: index_insert_def Let_def nth_append nth_list_update min_def nth_Cons
            split: nat.split intro!: arg_cong [where f = "nth (idx_els ix)"])
    finally show "idx_els ?ix' ! k = index_insert (CmpEls ix) x (idx_els ix) ! k" .
  qed
  with add inv' g show ?thesis by simp
qed

lemma Ns_IndexDel_loop_refines:
  assumes inv: "idx_inv ix" and "i \<le> idx_n ix" and "x \<notin> set (take i (idx_els ix))"
  shows "\<exists>ix'. Ns_IndexDel_loop ix x i = Some ix' \<and> idx_inv ix' \<and>
     idx_els ix' = remove1 x (idx_els ix) \<and>
     CmpEls ix' = CmpEls ix \<and> CmpKeyWithEl ix' = CmpKeyWithEl ix"
  using assms
proof (induction ix x i rule: Ns_IndexDel_loop.induct)
  case (1 ix x i)
  note unfold = Ns_IndexDel_loop.simps [of ix x i]
  let ?n = "idx_n ix"
  consider (hit) "i < ?n" "idx_els ix ! i = x" | (miss) "i < ?n" "idx_els ix ! i \<noteq> x"
    | (stop) "\<not> i < ?n" by blast
  then show ?case
  proof cases
    case hit
    have len: "?n - 1 < length (idx_el ix)" and ile: "i \<le> ?n - 1"
      using hit 1(2) by (auto simp: idx_inv_def)
    obtain b where b: "shift_down (idx_el ix) i (?n - 1) = Some b" "length b = length (idx_el ix)"
      "\<forall>k < length b. b ! k = (if i \<le> k \<and> k < ?n - 1 then idx_el ix ! (k + 1) else idx_el ix ! k)"
      using shift_down_spec [OF ile len] by auto
    have dn: "(if i < ?n - 1 then shift_down (idx_el ix) i (?n - 1) else Some (idx_el ix)) = Some b"
      using b hit by (auto intro!: nth_equalityI)
    let ?ix' = "ix\<lparr>idx_n := ?n - 1, idx_el := b\<rparr>"
    have del: "Ns_IndexDel_loop ix x i = Some ?ix'"
      using hit dn b(1) by (auto simp: unfold Let_def split: if_splits)
    have inv': "idx_inv ?ix'"
      using 1(2) b hit by (auto simp: idx_inv_def)
    have split: "idx_els ix = take i (idx_els ix) @ x # drop (Suc i) (idx_els ix)"
      using hit 1(2) by (metis id_take_nth_drop length_idx_els)
    then have rem: "remove1 x (idx_els ix) = take i (idx_els ix) @ drop (Suc i) (idx_els ix)"
      using 1(4) by (metis remove1.simps(2) remove1_append)
    have "idx_els ?ix' = remove1 x (idx_els ix)"
      unfolding rem
      using hit 1(2) inv' b
      by (intro nth_equalityI) (auto simp: nth_idx_els nth_append min_def idx_inv_def)
    with del inv' show ?thesis by simp
  next
    case miss
    have "x \<notin> set (take (i + 1) (idx_els ix))"
      using miss 1(2,4) by (simp add: take_Suc_conv_app_nth)
    with 1(1) [OF miss(1) miss(2) 1(2)] miss show ?thesis by (simp add: unfold)
  next
    case stop
    then have "Ns_IndexDel_loop ix x i = Some ix" by (simp add: unfold)
    with stop 1(2,3,4) show ?thesis by (simp add: remove1_idem)
  qed
qed

lemma Ns_IndexDel_refines:
  "idx_inv ix \<Longrightarrow> \<exists>ix'. Ns_IndexDel ix x = Some ix' \<and> idx_inv ix' \<and>
     idx_els ix' = remove1 x (idx_els ix) \<and>
     CmpEls ix' = CmpEls ix \<and> CmpKeyWithEl ix' = CmpKeyWithEl ix"
  using Ns_IndexDel_loop_refines [of ix 0 x] by (simp add: Ns_IndexDel_def)

lemma Ns_IndexInit_inv: "0 < inc \<Longrightarrow> idx_inv (Ns_IndexInit inc c k)"
  by (simp add: idx_inv_def Ns_IndexInit_def)

lemma idx_els_Init [simp]: "idx_els (Ns_IndexInit inc c k) = []"
  by (simp add: idx_els_def Ns_IndexInit_def)

lemma Ns_IndexTrunc_refines: "idx_inv ix \<Longrightarrow> idx_inv (Ns_IndexTrunc ix) \<and> idx_els (Ns_IndexTrunc ix) = []"
  by (simp add: idx_inv_def idx_els_def Ns_IndexTrunc_def)

lemma Ns_IndexDup_refines: "idx_inv ix \<Longrightarrow> idx_inv (Ns_IndexDup ix) \<and> idx_els (Ns_IndexDup ix) = idx_els ix"
  by (auto simp: idx_inv_def idx_els_def Ns_IndexDup_def nth_append)

lemma Ns_IndexEl_refines: "idx_inv ix \<Longrightarrow> i < idx_n ix \<Longrightarrow> Ns_IndexEl ix i = Some (idx_els ix ! i)"
  by (auto simp: Ns_IndexEl_def nth_idx_els idx_inv_def arr_simps)

section \<open>The contract with the comparison procedures\<close>

text \<open>
  An index works for the comparison procedures that agree, in sign, with one linear order on
  the keys of the elements.  Under that contract a search finds exactly the keys present, and
  insertion keeps the order.
\<close>

locale index_order =
  fixes key :: "'e \<Rightarrow> 'k::linorder"
    and cmp_els :: "'e \<Rightarrow> 'e \<Rightarrow> int"
    and cmp_key :: "'k \<Rightarrow> 'e \<Rightarrow> int"
  assumes els_less: "cmp_els x y < 0 \<longleftrightarrow> key x < key y"
    and els_eq: "cmp_els x y = 0 \<longleftrightarrow> key x = key y"
    and key_less: "cmp_key k y < 0 \<longleftrightarrow> k < key y"
    and key_eq: "cmp_key k y = 0 \<longleftrightarrow> k = key y"
begin

lemma els_greater: "0 < cmp_els x y \<longleftrightarrow> key y < key x"
  using els_less els_eq by (metis less_linear not_less_iff_gr_or_eq)

lemma key_greater: "0 < cmp_key k y \<longleftrightarrow> key y < k"
  using key_less key_eq by (metis less_linear not_less_iff_gr_or_eq)

lemma sorted_nth: "sorted (map key xs) \<Longrightarrow> i \<le> j \<Longrightarrow> j < length xs \<Longrightarrow> key (xs ! i) \<le> key (xs ! j)"
  using sorted_nth_mono [of "map key xs" i j] by simp

lemma cmp_sorted_els: "sorted (map key xs) \<Longrightarrow> cmp_sorted cmp_els x xs"
  unfolding cmp_sorted_def els_less els_greater using sorted_nth by (meson le_less_trans less_le_trans)

lemma cmp_sorted_key: "sorted (map key xs) \<Longrightarrow> cmp_sorted cmp_key k xs"
  unfolding cmp_sorted_def key_less key_greater using sorted_nth by (meson le_less_trans less_le_trans)

lemma sorted_insert:
  assumes "sorted (map key xs)"
  shows "sorted (map key (index_insert cmp_els x xs))"
proof -
  let ?p = "BinSearch x xs (length xs) cmp_els"
  have "\<And>i. i < ?p \<Longrightarrow> i < length xs \<Longrightarrow> key (xs ! i) \<le> key x"
    using BinSearch_pos(1) [OF cmp_sorted_els [OF assms]] els_less by (metis not_less)
  moreover have "\<And>i. ?p \<le> i \<Longrightarrow> i < length xs \<Longrightarrow> key x \<le> key (xs ! i)"
    using BinSearch_pos(2) [OF cmp_sorted_els [OF assms]] els_greater by (metis not_less)
  ultimately have "sorted (take ?p (map key xs) @ key x # drop ?p (map key xs))"
    using assms by (intro sorted_wrt_insert_at) auto
  then show ?thesis by (simp add: index_insert_def Let_def take_map drop_map)
qed

lemma set_insert: "set (index_insert cmp_els x xs) = insert x (set xs)"
  by (simp add: index_insert_def Let_def set_insert_at del: set_append)

lemma find_Some: "index_find cmp_key k xs = Some i \<Longrightarrow> i < length xs \<and> key (xs ! i) = k"
  using NsBsearch_Some [of k xs 0 "length xs" cmp_key i] key_eq by (auto simp: index_find_def)

lemma find_None:
  assumes "sorted (map key xs)"
  shows "index_find cmp_key k xs = None \<longleftrightarrow> k \<notin> key ` set xs"
proof
  assume "index_find cmp_key k xs = None"
  then show "k \<notin> key ` set xs"
    using NsBsearch_None [OF cmp_sorted_key [OF assms], of 0 "length xs" k] key_eq
    by (force simp: index_find_def in_set_conv_nth)
next
  assume "k \<notin> key ` set xs"
  then show "index_find cmp_key k xs = None"
    using find_Some [of k xs] by (metis image_eqI not_None_eq nth_mem)
qed

lemma find_unique:
  assumes "sorted (map key xs)" "distinct (map key xs)" "i < length xs"
  shows "index_find cmp_key (key (xs ! i)) xs = Some i"
proof -
  obtain j where j: "index_find cmp_key (key (xs ! i)) xs = Some j"
    using find_None [OF assms(1)] assms(3) by (metis image_eqI not_None_eq nth_mem)
  with find_Some have "j < length xs" "key (xs ! j) = key (xs ! i)" by auto
  with assms(2,3) have "j = i" by (metis length_map nth_eq_iff_index_eq nth_map)
  with j show ?thesis by simp
qed

lemma find_iff:
  assumes "sorted (map key xs)" "distinct (map key xs)"
  shows "index_find cmp_key k xs = Some i \<longleftrightarrow> i < length xs \<and> key (xs ! i) = k"
  using find_Some find_unique [OF assms] by blast

text \<open>With distinct keys the binary search is the linear search, whatever the search order.\<close>

lemma find_linear:
  assumes "sorted (map key xs)" "distinct (map key xs)"
  shows "map_option (nth xs) (index_find cmp_key k xs) = find (\<lambda>e. key e = k) xs"
proof (cases "index_find cmp_key k xs")
  case None
  with find_None [OF assms(1)] have "find (\<lambda>e. key e = k) xs = None" by (simp add: find_none_iff)
  with None show ?thesis by simp
next
  case (Some i)
  with find_Some have "i < length xs" "key (xs ! i) = k" by auto
  then have "find (\<lambda>e. key e = k) xs = Some (xs ! i)"
    using find_distinct_iff [OF assms(2)] by simp
  with Some show ?thesis by simp
qed

lemma find_update:
  assumes d: "distinct (map key xs)" and i: "i < length xs" and y: "key y = key (xs ! i)"
  shows "find (\<lambda>e. key e = k) (xs[i := y]) =
     (if k = key y then Some y else find (\<lambda>e. key e = k) xs)"
proof -
  have keys: "map key (xs[i := y]) = map key xs" using y i by (simp add: map_update list_update_same_conv)
  then have d': "distinct (map key (xs[i := y]))" using d by simp
  show ?thesis
  proof (cases "k = key y")
    case True
    then show ?thesis using find_distinct_iff [OF d'] i by (simp add: set_update_memI)
  next
    case False
    have "find (\<lambda>e. key e = k) (xs[i := y]) = find (\<lambda>e. key e = k) xs"
    proof (rule find_cong_set [OF d' d])
      fix e assume "key e = k"
      then show "e \<in> set (xs[i := y]) \<longleftrightarrow> e \<in> set xs"
        using False i y by (auto simp: in_set_conv_nth nth_list_update)
    qed
    with False show ?thesis by simp
  qed
qed

lemma distinct_insert:
  "distinct (map key (index_insert cmp_els x xs)) \<longleftrightarrow> distinct (map key xs) \<and> key x \<notin> key ` set xs"
  using distinct_insert_at [of "BinSearch x xs (length xs) cmp_els" "map key xs" "key x"]
  by (simp add: index_insert_def Let_def take_map drop_map)

lemma find_insert:
  assumes "distinct (map key xs)" "key x \<notin> key ` set xs"
  shows "find (\<lambda>e. key e = k) (index_insert cmp_els x xs) =
     (if k = key x then Some x else find (\<lambda>e. key e = k) xs)"
proof -
  have d: "distinct (map key (index_insert cmp_els x xs))" using assms distinct_insert by blast
  show ?thesis
  proof (cases "k = key x")
    case True
    then show ?thesis using find_distinct_iff [OF d] by (simp add: set_insert)
  next
    case False
    then show ?thesis using find_cong_set [OF d assms(1), of k] by (auto simp: set_insert)
  qed
qed

end

interpretation str_index: index_order "\<lambda>s. s" CmpStr CmpKeyWithStr
  by unfold_locales (simp_all add: CmpStr_def CmpKeyWithStr_def)

interpretation int_index: index_order "\<lambda>i. i" CmpInts CmpKeyWithInt
  by unfold_locales (auto simp: CmpInts_def CmpKeyWithInt_def)


section \<open>Scans around a match\<close>

lemma scan_back_spec:
  assumes "cmp k (xs ! f) = 0" "p = scan_back cmp k xs f"
  shows "p \<le> f \<and> (\<forall>j. p \<le> j \<longrightarrow> j \<le> f \<longrightarrow> cmp k (xs ! j) = 0) \<and> (0 < p \<longrightarrow> cmp k (xs ! (p - 1)) \<noteq> 0)"
  using assms
proof (induction f arbitrary: p)
  case (Suc f)
  then show ?case
    by (cases "cmp k (xs ! f) = 0") (auto simp: le_Suc_eq)
qed auto

lemma scan_forward_spec:
  assumes "i \<le> n" "\<And>j. j < i \<Longrightarrow> cmp k (xs ! (p + j)) = 0" "r = scan_forward cmp k xs p n i"
  shows "i \<le> r \<and> r \<le> n \<and> (\<forall>j < r. cmp k (xs ! (p + j)) = 0) \<and> (r < n \<longrightarrow> cmp k (xs ! (p + r)) \<noteq> 0)"
  using assms
proof (induction cmp k xs p n i rule: scan_forward.induct)
  case (1 cmp k xs p n i)
  show ?case
  proof (cases "i < n \<and> cmp k (xs ! (p + i)) = 0")
    case True
    with 1(4) have r: "r = scan_forward cmp k xs p n (i + 1)"
      by (simp add: scan_forward.simps [of cmp k xs p n i])
    have "\<And>j. j < i + 1 \<Longrightarrow> cmp k (xs ! (p + j)) = 0"
      using 1(3) True by (metis Suc_eq_plus1 less_Suc_eq)
    with 1(1) [OF True _ _ r] True show ?thesis by auto
  next
    case False
    with 1(4) have "r = i" by (simp add: scan_forward.simps [of cmp k xs p n i])
    with False 1(2,3) show ?thesis by auto
  qed
qed

context index_order
begin

lemma find_multiple_eq:
  assumes srt: "sorted (map key xs)" and f: "NsBsearch k xs 0 (length xs) cmp_key = Some f"
    and p: "p = scan_back cmp_key k xs f"
    and i: "i = scan_forward cmp_key k xs p (length xs - p) 1"
  shows "take i (drop p xs) = filter (\<lambda>e. key e = k) xs"
proof -
  have f': "f < length xs" "cmp_key k (xs ! f) = 0" using NsBsearch_Some [OF f] by auto
  have p': "p \<le> f" "cmp_key k (xs ! p) = 0" "0 < p \<longrightarrow> cmp_key k (xs ! (p - 1)) \<noteq> 0"
    using scan_back_spec [OF f'(2) p] by auto
  have i': "i \<le> length xs - p" "\<forall>j < i. cmp_key k (xs ! (p + j)) = 0"
    "i < length xs - p \<longrightarrow> cmp_key k (xs ! (p + i)) \<noteq> 0"
    using scan_forward_spec [OF _ _ i] f'(1) p'(1,2) by auto
  have "filter (\<lambda>e. key e = k) (take p xs) = []"
  proof (rule filter_take_none)
    fix j assume "j < p" "j < length xs"
    then have "key (xs ! j) \<le> key (xs ! (p - 1))" "key (xs ! (p - 1)) \<le> key (xs ! p)"
      using srt f'(1) p'(1) by (auto intro: sorted_nth)
    moreover have "key (xs ! (p - 1)) \<noteq> k" "key (xs ! p) = k"
      using p'(2,3) \<open>j < p\<close> key_eq by force+
    ultimately show "key (xs ! j) \<noteq> k" by auto
  qed
  moreover have "filter (\<lambda>e. key e = k) (take i (drop p xs)) = take i (drop p xs)"
  proof (rule filter_take_all)
    fix j assume "j < i" "j < length (drop p xs)"
    then show "key (drop p xs ! j) = k" using i'(2) key_eq by force
  qed
  moreover have "filter (\<lambda>e. key e = k) (drop (p + i) xs) = []"
  proof (rule filter_drop_none)
    fix j assume j: "p + i \<le> j" "j < length xs"
    then have "key (xs ! p) \<le> key (xs ! (p + i))" "key (xs ! (p + i)) \<le> key (xs ! j)"
      using srt by (auto intro: sorted_nth)
    moreover have "key (xs ! (p + i)) \<noteq> k" "key (xs ! p) = k" using p'(2) i'(3) j key_eq by force+
    ultimately show "key (xs ! j) \<noteq> k" by auto
  qed
  ultimately show ?thesis using filter_split3 [of "\<lambda>e. key e = k" xs p i] by simp
qed

lemma search_key_spec:
  assumes "sorted (map key xs)" "p = BinSearchKey k xs (length xs) cmp_key"
  shows "(p < length xs \<and> key (xs ! p) = k) \<or>
     (p \<le> length xs \<and> k \<notin> key ` set xs \<and> filter (\<lambda>e. key e < k) xs = take p xs)"
proof (cases "p < length xs \<and> key (xs ! p) = k")
  case False
  then have "\<not> (p < length xs \<and> cmp_key k (xs ! p) = 0)" using key_eq by auto
  then have lt: "\<And>i. i < p \<Longrightarrow> key (xs ! i) < k" and gt: "\<And>i. p \<le> i \<Longrightarrow> i < length xs \<Longrightarrow> k < key (xs ! i)"
    using BinSearchKey_cases [OF cmp_sorted_key [OF assms(1)] assms(2)]
    by (auto simp: key_less key_greater)
  have ple: "p \<le> length xs"
    using BinSearch_loop_range [of 0 "int (length xs) - 1" "int (length xs)" 0 cmp_key k xs] assms(2)
    by (simp add: BinSearchKey_def nat_le_iff)
  have "filter (\<lambda>e. key e < k) (take p xs) = take p xs"
    by (rule filter_take_all) (rule lt)
  moreover have "filter (\<lambda>e. key e < k) (drop p xs) = []"
    by (rule filter_drop_none) (meson gt order.asym)
  ultimately have "filter (\<lambda>e. key e < k) xs = take p xs"
    by (metis append.right_neutral append_take_drop_id filter_append)
  moreover have "k \<notin> key ` set xs"
  proof
    assume "k \<in> key ` set xs"
    then obtain j where "j < length xs" "key (xs ! j) = k" by (auto simp: in_set_conv_nth)
    then show False using lt [of j] gt [of j] by (cases "j < p") auto
  qed
  ultimately show ?thesis using ple by simp
qed simp

end

section \<open>Properties\<close>

text \<open>
  C27: \<open>Ns_IndexAdd\<close> on any index whose comparison procedures follow a linear order never writes
  outside its block, keeps the representation invariant and the order of the array, holds
  exactly the old elements and the new one afterwards, and a search for the new element's key
  then succeeds with an element of that key.
\<close>

theorem index_add_ordered:
  assumes "idx_inv ix" and "index_order key (CmpEls ix) (CmpKeyWithEl ix)"
    and "sorted (map key (idx_els ix))"
  shows "\<exists>ix'. Ns_IndexAdd ix x = Some ix' \<and> idx_inv ix' \<and> sorted (map key (idx_els ix')) \<and>
     mset (idx_els ix') = add_mset x (mset (idx_els ix)) \<and>
     (\<exists>y. Ns_IndexFind ix' (key x) = Some y \<and> key y = key x)"
proof -
  obtain ix' where ix': "Ns_IndexAdd ix x = Some ix'" "idx_inv ix'"
    "idx_els ix' = index_insert (CmpEls ix) x (idx_els ix)" "CmpKeyWithEl ix' = CmpKeyWithEl ix"
    using Ns_IndexAdd_refines [OF assms(1)] by blast
  have srt: "sorted (map key (idx_els ix'))"
    unfolding ix'(3) by (rule index_order.sorted_insert [OF assms(2,3)])
  have ms: "mset (idx_els ix') = add_mset x (mset (idx_els ix))"
    unfolding ix'(3) index_insert_def Let_def by (rule mset_insert_at)
  then have "key x \<in> key ` set (idx_els ix')"
    by (metis image_eqI set_mset_mset union_single_eq_member)
  then obtain i where i: "index_find (CmpKeyWithEl ix) (key x) (idx_els ix') = Some i"
    using index_order.find_None [OF assms(2) srt] by (metis not_None_eq)
  then have "Ns_IndexFind ix' (key x) = Some (idx_els ix' ! i)" "key (idx_els ix' ! i) = key x"
    using index_order.find_Some [OF assms(2) i] ix'(2,4)
    by (simp_all add: Ns_IndexFind_def index_find_def)
  with ix'(1,2) srt ms show ?thesis by blast
qed

lemma index_add_ordered_witness:
  "\<exists>ix'. Ns_IndexAdd (Ns_IndexStringInit 2) ''GET'' = Some ix' \<and>
     mset (idx_els ix') = {#''GET''#} \<and> Ns_IndexFind ix' ''GET'' = Some ''GET''"
proof -
  have inv: "idx_inv (Ns_IndexStringInit 2)" and e: "idx_els (Ns_IndexStringInit 2) = []"
    by (simp_all add: Ns_IndexStringInit_def Ns_IndexInit_inv)
  have ord: "index_order (\<lambda>s. s) (CmpEls (Ns_IndexStringInit 2)) (CmpKeyWithEl (Ns_IndexStringInit 2))"
    using str_index.index_order_axioms by (simp add: Ns_IndexStringInit_def Ns_IndexInit_def)
  show ?thesis
    using index_add_ordered [OF inv ord, of "''GET''"] by (auto simp: e)
qed

text \<open>
  \<open>Ns_IndexDel\<close> removes the first slot that holds the given pointer and closes the gap,
  without leaving the block; an absent pointer leaves the elements as they were.
\<close>

theorem index_del_removes:
  assumes "idx_inv ix"
  shows "\<exists>ix'. Ns_IndexDel ix x = Some ix' \<and> idx_inv ix' \<and> idx_els ix' = remove1 x (idx_els ix)"
  using Ns_IndexDel_refines [OF assms] by blast

lemma index_del_removes_witness:
  "\<exists>ix'. Ns_IndexDel (Ns_IndexIntInit 3) 5 = Some ix' \<and> idx_inv ix' \<and> idx_els ix' = []"
proof -
  have inv: "idx_inv (Ns_IndexIntInit 3)" and e: "idx_els (Ns_IndexIntInit 3) = []"
    by (simp_all add: Ns_IndexIntInit_def Ns_IndexInit_inv)
  show ?thesis using index_del_removes [OF inv, of 5] e by simp
qed

text \<open>
  \<open>Ns_IndexFindMultiple\<close> returns all the elements with the key, in array order, and NULL
  exactly when there is none.
\<close>

theorem index_find_multiple:
  assumes "idx_inv ix" and "index_order key (CmpEls ix) (CmpKeyWithEl ix)"
    and "sorted (map key (idx_els ix))"
  shows "Ns_IndexFindMultiple ix k =
     (let ms = filter (\<lambda>e. key e = k) (idx_els ix) in if ms = [] then None else Some ms)"
proof -
  let ?xs = "idx_els ix"
  have n: "idx_n ix = length ?xs" using assms(1) by simp
  show ?thesis
  proof (cases "NsBsearch k ?xs 0 (length ?xs) (CmpKeyWithEl ix)")
    case None
    then have "k \<notin> key ` set ?xs"
      using index_order.find_None [OF assms(2,3)] by (simp add: index_find_def)
    then have "filter (\<lambda>e. key e = k) ?xs = []" by (auto simp: filter_empty_conv)
    with None show ?thesis by (simp add: Ns_IndexFindMultiple_def n)
  next
    case (Some f)
    have "f < length ?xs \<and> key (?xs ! f) = k"
      using index_order.find_Some [OF assms(2), of k ?xs f] Some by (simp add: index_find_def)
    then have "filter (\<lambda>e. key e = k) ?xs \<noteq> []"
      by (metis (mono_tags, lifting) filter_empty_conv nth_mem)
    with index_order.find_multiple_eq [OF assms(2,3) Some refl refl] Some show ?thesis
      by (simp add: Ns_IndexFindMultiple_def n Let_def)
  qed
qed

lemma index_find_multiple_witness:
  "Ns_IndexFindMultiple (Ns_IndexIntInit 3) 5 = None"
proof -
  have inv: "idx_inv (Ns_IndexIntInit 3)" and e: "idx_els (Ns_IndexIntInit 3) = []"
    by (simp_all add: Ns_IndexIntInit_def Ns_IndexInit_inv)
  have ord: "index_order (\<lambda>s. s) (CmpEls (Ns_IndexIntInit 3)) (CmpKeyWithEl (Ns_IndexIntInit 3))"
    using int_index.index_order_axioms by (simp add: Ns_IndexIntInit_def Ns_IndexInit_def)
  show ?thesis using index_find_multiple [OF inv ord, of 5] e by simp
qed

text \<open>
  \<open>Ns_IndexFindInf\<close> on an index with distinct keys: the element with the key if there is
  one; else NULL if every key is smaller; else the greatest element below the key, or the first
  element if none is below.  The comment in the source promises the element \<^emph>\<open>before which\<close> the
  key would appear; what is returned is the one after which it would appear.
\<close>

theorem index_find_inf:
  assumes inv: "idx_inv ix" and ord: "index_order key (CmpEls ix) (CmpKeyWithEl ix)"
    and srt: "sorted (map key (idx_els ix))" and dst: "distinct (map key (idx_els ix))"
  shows "Ns_IndexFindInf ix k =
     (let xs = idx_els ix; below = filter (\<lambda>e. key e < k) xs
      in case filter (\<lambda>e. key e = k) xs of
           e # _ \<Rightarrow> Some e
         | [] \<Rightarrow> if below = xs then None else if below = [] then Some (hd xs) else Some (last below))"
proof -
  let ?xs = "idx_els ix"
  define i where "i = BinSearchKey k ?xs (length ?xs) (CmpKeyWithEl ix)"
  have n: "idx_n ix = length ?xs" using inv by simp
  have eq0: "\<And>y. CmpKeyWithEl ix k y = 0 \<longleftrightarrow> k = key y" by (rule index_order.key_eq [OF ord])
  consider (hit) "i < length ?xs" "key (?xs ! i) = k"
    | (gap) "i \<le> length ?xs" "k \<notin> key ` set ?xs" "filter (\<lambda>e. key e < k) ?xs = take i ?xs"
    using index_order.search_key_spec [OF ord srt i_def] by blast
  then show ?thesis
  proof cases
    case hit
    have "filter (\<lambda>e. key e = k) ?xs = [?xs ! i]"
      using distinct_filter_key [OF dst hit(1)] hit(2) by simp
    moreover have "Ns_IndexFindInf ix k = Some (?xs ! i)"
      using hit eq0 i_def n by (auto simp: Ns_IndexFindInf_def Let_def)
    ultimately show ?thesis by simp
  next
    case gap
    have none: "filter (\<lambda>e. key e = k) ?xs = []" using gap(2) by (auto simp: filter_empty_conv)
    have nz: "i < length ?xs \<Longrightarrow> CmpKeyWithEl ix k (?xs ! i) \<noteq> 0" using gap(2) eq0 by auto
    have "take i ?xs = ?xs \<longleftrightarrow> \<not> i < length ?xs" by (metis length_take linorder_not_less min_def nat_less_le take_all)
    with none nz gap(1,3) n i_def show ?thesis
      by (auto simp: Ns_IndexFindInf_def Let_def hd_conv_nth last_conv_nth min_def)
  qed
qed

lemma index_find_inf_witness: "Ns_IndexFindInf (Ns_IndexStringInit 4) ''GET'' = None"
proof -
  have inv: "idx_inv (Ns_IndexStringInit 4)" and e: "idx_els (Ns_IndexStringInit 4) = []"
    by (simp_all add: Ns_IndexStringInit_def Ns_IndexInit_inv)
  have ord: "index_order (\<lambda>s. s) (CmpEls (Ns_IndexStringInit 4)) (CmpKeyWithEl (Ns_IndexStringInit 4))"
    using str_index.index_order_axioms by (simp add: Ns_IndexStringInit_def Ns_IndexInit_def)
  show ?thesis using index_find_inf [OF inv ord, of "''GET''"] e by simp
qed

end
