(* ===== verification/UrlSpace.thy ===== *)
theory UrlSpace
  imports Index "HOL-Library.Word"
begin

unbundle bit_operations_syntax

text \<open>
  URL-specific data of \<open>nsd/urlspace.c\<close>: the trie of URL words, the junction of channels (one per
  filename filter) and the \<open>Ns_UrlSpecific*\<close> calls on a server's array of junctions.  A
  \<open>void *\<close> datum is an option (NULL is \<open>None\<close>); a call of a delete procedure is recorded in the
  list of calls an operation returns.  A word sequence \<open>"method\0word\0...\0\0"\<close> is the list of its
  words; the code's \<open>*p = '\0'\<close> on the last word leaves an empty word, at which every traversal
  stops.  Channels live in a store and the two indices of a junction hold their addresses, as
  the code shares the channel pointers.  \<open>Tcl_StringMatch\<close> is a parameter \<open>sm\<close>: \<open>sm s p\<close> says
  that \<open>s\<close> matches the pattern \<open>p\<close>.
\<close>

section \<open>Nodes and tries\<close>

type_synonym flags = "32 word"

definition NS_OP_NOINHERIT :: flags where "NS_OP_NOINHERIT = 2"
definition NS_OP_NODELETE :: flags where "NS_OP_NODELETE = 4"
definition NS_OP_RECURSE :: flags where "NS_OP_RECURSE = 8"

abbreviation has_flag :: "flags \<Rightarrow> flags \<Rightarrow> bool" where
  "has_flag fl f \<equiv> fl AND f \<noteq> 0"

record ('d, 'f) Node =
  dataInherit :: "'d option"
  dataNoInherit :: "'d option"
  deletefuncInherit :: "'f option"
  deletefuncNoInherit :: "'f option"

datatype ('d, 'f) Trie = Trie (branches: "('d, 'f) Branch list") (node: "('d, 'f) Node option")
  and ('d, 'f) Branch = Branch (br_word: string) (br_trie: "('d, 'f) Trie")

type_synonym ('d, 'f) calls = "('f \<times> 'd option) list"

definition call :: "'f option \<Rightarrow> 'd option \<Rightarrow> ('d, 'f) calls" where
  "call df d = (case df of None \<Rightarrow> [] | Some f \<Rightarrow> [(f, d)])"

definition NodeDestroy :: "('d, 'f) Node \<Rightarrow> ('d, 'f) calls" where
  "NodeDestroy nd = call (deletefuncNoInherit nd) (dataNoInherit nd) @
                    call (deletefuncInherit nd) (dataInherit nd)"

definition CmpBranches :: "('d, 'f) Branch \<Rightarrow> ('d, 'f) Branch \<Rightarrow> int" where
  "CmpBranches left right = strcmp (br_word left) (br_word right)"

definition CmpKeyWithBranch :: "string \<Rightarrow> ('d, 'f) Branch \<Rightarrow> int" where
  "CmpKeyWithBranch key branch = strcmp key (br_word branch)"

definition TrieInit :: "('d, 'f) Trie" where
  "TrieInit = Trie [] None"

definition node_calloc :: "('d, 'f) Node" where
  "node_calloc = \<lparr>dataInherit = None, dataNoInherit = None,
                  deletefuncInherit = None, deletefuncNoInherit = None\<rparr>"

text \<open>The end of the sequence: make or reuse the node and store the data in it.\<close>

definition TrieAdd_node ::
  "('d, 'f) Node option \<Rightarrow> 'd \<Rightarrow> flags \<Rightarrow> 'f option \<Rightarrow> ('d, 'f) Node \<times> ('d, 'f) calls" where
  "TrieAdd_node ndo d fl df =
     (let (nd, cs) =
        (case ndo of
           None \<Rightarrow> (node_calloc, [])
         | Some nd \<Rightarrow>
             (nd, if \<not> has_flag fl NS_OP_NODELETE then
                    (if has_flag fl NS_OP_NOINHERIT
                     then call (deletefuncNoInherit nd) (dataNoInherit nd)
                     else call (deletefuncInherit nd) (dataInherit nd))
                  else []))
      in (if has_flag fl NS_OP_NOINHERIT
          then nd\<lparr>dataNoInherit := Some d, deletefuncNoInherit := df\<rparr>
          else nd\<lparr>dataInherit := Some d, deletefuncInherit := df\<rparr>, cs))"

fun TrieAdd ::
  "('d, 'f) Trie \<Rightarrow> string list \<Rightarrow> 'd \<Rightarrow> flags \<Rightarrow> 'f option \<Rightarrow> ('d, 'f) Trie \<times> ('d, 'f) calls" where
  "TrieAdd (Trie bs ndo) [] d fl df =
     (let (nd, cs) = TrieAdd_node ndo d fl df in (Trie bs (Some nd), cs))"
| "TrieAdd (Trie bs ndo) (w # ws) d fl df =
     (if w \<noteq> [] then
        (case index_find CmpKeyWithBranch w bs of
           Some i \<Rightarrow>
             (let (t, cs) = TrieAdd (br_trie (bs ! i)) ws d fl df
              in (Trie (bs[i := Branch (br_word (bs ! i)) t]) ndo, cs))
         | None \<Rightarrow>
             (let (t, cs) = TrieAdd TrieInit ws d fl df
              in (Trie (index_insert CmpBranches (Branch w t) bs) ndo, cs)))
      else (let (nd, cs) = TrieAdd_node ndo d fl df in (Trie bs (Some nd), cs)))"

fun TrieTrunc :: "('d, 'f) Trie \<Rightarrow> ('d, 'f) Trie \<times> ('d, 'f) calls"
  and BranchesTrunc :: "('d, 'f) Branch list \<Rightarrow> ('d, 'f) Branch list \<times> ('d, 'f) calls" where
  "TrieTrunc (Trie bs ndo) =
     (let (bs', cs) = BranchesTrunc bs
      in (Trie bs' None, cs @ (case ndo of None \<Rightarrow> [] | Some nd \<Rightarrow> NodeDestroy nd)))"
| "BranchesTrunc [] = ([], [])"
| "BranchesTrunc (Branch w t # bs) =
     (let (t', cs) = TrieTrunc t; (bs', cs') = BranchesTrunc bs in (Branch w t' # bs', cs @ cs'))"

text \<open>Result \<open>False\<close> is the code's \<open>-1\<close>: the sequence has no branch.\<close>

fun TrieTruncBranch :: "('d, 'f) Trie \<Rightarrow> string list \<Rightarrow> ('d, 'f) Trie \<times> ('d, 'f) calls \<times> bool" where
  "TrieTruncBranch t [] = (let (t', cs) = TrieTrunc t in (t', cs, True))"
| "TrieTruncBranch t (w # ws) =
     (if w \<noteq> [] then
        (case index_find CmpKeyWithBranch w (branches t) of
           Some i \<Rightarrow>
             (let (t', cs, ok) = TrieTruncBranch (br_trie (branches t ! i)) ws
              in (Trie ((branches t)[i := Branch (br_word (branches t ! i)) t']) (node t), cs, ok))
         | None \<Rightarrow> (t, [], False))
      else (let (t', cs) = TrieTrunc t in (t', cs, True)))"

text \<open>\<open>TrieDestroy\<close> and \<open>BranchDestroy\<close>: everything is freed, the calls made are the result.\<close>

fun TrieDestroy :: "('d, 'f) Trie \<Rightarrow> ('d, 'f) calls"
  and BranchesDestroy :: "('d, 'f) Branch list \<Rightarrow> ('d, 'f) calls" where
  "TrieDestroy (Trie bs ndo) =
     BranchesDestroy bs @ (case ndo of None \<Rightarrow> [] | Some nd \<Rightarrow> NodeDestroy nd)"
| "BranchesDestroy [] = []"
| "BranchesDestroy (Branch w t # bs) = TrieDestroy t @ BranchesDestroy bs"

text \<open>\<open>TrieFind\<close>: the datum and the value left in \<open>*depthPtr\<close>.\<close>

fun TrieFind :: "('d, 'f) Trie \<Rightarrow> string list \<Rightarrow> nat \<Rightarrow> 'd option \<times> nat" where
  "TrieFind (Trie bs ndo) seq depth =
     (let at_end = (case seq of [] \<Rightarrow> True | w # _ \<Rightarrow> w = []);
          data = (case ndo of
                    None \<Rightarrow> None
                  | Some nd \<Rightarrow> (if at_end \<and> dataNoInherit nd \<noteq> None
                                then dataNoInherit nd else dataInherit nd))
      in case seq of
           [] \<Rightarrow> (data, depth)
         | w # ws \<Rightarrow>
             (if w \<noteq> [] then
                (case index_find CmpKeyWithBranch w bs of
                   Some i \<Rightarrow>
                     (case TrieFind (br_trie (bs ! i)) ws (depth + 1) of
                        (Some p, ldepth) \<Rightarrow> (Some p, ldepth)
                      | (None, _) \<Rightarrow> (data, depth))
                 | None \<Rightarrow> (data, depth))
              else (data, depth)))"

fun TrieFindExact :: "('d, 'f) Trie \<Rightarrow> string list \<Rightarrow> flags \<Rightarrow> 'd option" where
  "TrieFindExact (Trie bs ndo) seq fl =
     (case seq of
        w # ws \<Rightarrow>
          (if w \<noteq> [] then
             (case index_find CmpKeyWithBranch w bs of
                Some i \<Rightarrow> TrieFindExact (br_trie (bs ! i)) ws fl
              | None \<Rightarrow> None)
           else (case ndo of None \<Rightarrow> None
                 | Some nd \<Rightarrow> if has_flag fl NS_OP_NOINHERIT then dataNoInherit nd else dataInherit nd))
      | [] \<Rightarrow> (case ndo of None \<Rightarrow> None
                 | Some nd \<Rightarrow> if has_flag fl NS_OP_NOINHERIT then dataNoInherit nd else dataInherit nd))"

definition TrieDelete_node ::
  "('d, 'f) Node option \<Rightarrow> flags \<Rightarrow> ('d, 'f) Node option \<times> 'd option \<times> ('d, 'f) calls" where
  "TrieDelete_node ndo fl =
     (case ndo of
        None \<Rightarrow> (None, None, [])
      | Some nd \<Rightarrow>
          (if has_flag fl NS_OP_NOINHERIT then
             (Some (nd\<lparr>dataNoInherit := None, deletefuncNoInherit := None\<rparr>), dataNoInherit nd,
              if \<not> has_flag fl NS_OP_NODELETE then call (deletefuncNoInherit nd) (dataNoInherit nd) else [])
           else
             (Some (nd\<lparr>dataInherit := None, deletefuncInherit := None\<rparr>), dataInherit nd,
              if \<not> has_flag fl NS_OP_NODELETE then call (deletefuncInherit nd) (dataInherit nd) else [])))"

fun TrieDelete ::
  "('d, 'f) Trie \<Rightarrow> string list \<Rightarrow> flags \<Rightarrow> ('d, 'f) Trie \<times> 'd option \<times> ('d, 'f) calls" where
  "TrieDelete (Trie bs ndo) [] fl =
     (let (nd', d, cs) = TrieDelete_node ndo fl in (Trie bs nd', d, cs))"
| "TrieDelete (Trie bs ndo) (w # ws) fl =
     (if w \<noteq> [] then
        (case index_find CmpKeyWithBranch w bs of
           Some i \<Rightarrow>
             (let (t, d, cs) = TrieDelete (br_trie (bs ! i)) ws fl
              in (Trie (bs[i := Branch (br_word (bs ! i)) t]) ndo, d, cs))
         | None \<Rightarrow> (Trie bs ndo, None, []))
      else (let (nd', d, cs) = TrieDelete_node ndo fl in (Trie bs nd', d, cs)))"

section \<open>Junctions\<close>

record ('d, 'f) Channel =
  chan_filter :: string
  chan_trie :: "('d, 'f) Trie"

text \<open>\<open>channels\<close> is the store; \<open>byname\<close> and \<open>byuse\<close> hold addresses into it.\<close>

record ('d, 'f) Junction =
  channels :: "('d, 'f) Channel list"
  byname :: "nat list"
  byuse :: "nat list"

type_synonym str_match = "string \<Rightarrow> string \<Rightarrow> bool"

definition cmp_contains :: "str_match \<Rightarrow> string \<Rightarrow> string \<Rightarrow> int" where
  "cmp_contains sm left right =
     (let lcontainsr = sm right left; rcontainsl = sm left right
      in if lcontainsr \<and> rcontainsl then 0 else if lcontainsr then 1 else if rcontainsl then -1 else 0)"

definition CmpChannels :: "str_match \<Rightarrow> ('d, 'f) Channel list \<Rightarrow> nat \<Rightarrow> nat \<Rightarrow> int" where
  "CmpChannels sm chs left right = cmp_contains sm (chan_filter (chs ! left)) (chan_filter (chs ! right))"

definition CmpKeyWithChannel :: "str_match \<Rightarrow> ('d, 'f) Channel list \<Rightarrow> string \<Rightarrow> nat \<Rightarrow> int" where
  "CmpKeyWithChannel sm chs key chan = cmp_contains sm key (chan_filter (chs ! chan))"

definition CmpChannelsAsStrings :: "('d, 'f) Channel list \<Rightarrow> nat \<Rightarrow> nat \<Rightarrow> int" where
  "CmpChannelsAsStrings chs left right = strcmp (chan_filter (chs ! left)) (chan_filter (chs ! right))"

definition CmpKeyWithChannelAsStrings :: "('d, 'f) Channel list \<Rightarrow> string \<Rightarrow> nat \<Rightarrow> int" where
  "CmpKeyWithChannelAsStrings chs key chan = strcmp key (chan_filter (chs ! chan))"

definition junction_new :: "('d, 'f) Junction" where
  "junction_new = \<lparr>channels = [], byname = [], byuse = []\<rparr>"

text \<open>\<open>*p = '\0'\<close> on the last word of a sequence.\<close>

definition cut_last :: "string list \<Rightarrow> string list" where
  "cut_last seq = butlast seq @ [[]]"

definition set_trie :: "('d, 'f) Junction \<Rightarrow> nat \<Rightarrow> ('d, 'f) Trie \<Rightarrow> ('d, 'f) Junction" where
  "set_trie jn c t = jn\<lparr>channels := (channels jn)[c := (channels jn ! c)\<lparr>chan_trie := t\<rparr>]\<rparr>"

fun JunctionTruncBranch_loop ::
  "('d, 'f) Junction \<Rightarrow> nat list \<Rightarrow> string list \<Rightarrow> ('d, 'f) Junction \<times> ('d, 'f) calls" where
  "JunctionTruncBranch_loop jn [] seq = (jn, [])"
| "JunctionTruncBranch_loop jn (c # cs) seq =
     (let (t, k, ok) = TrieTruncBranch (chan_trie (channels jn ! c)) seq;
          (jn', ks) = JunctionTruncBranch_loop (set_trie jn c t) cs seq
      in (jn', k @ ks))"

definition JunctionTruncBranch ::
  "('d, 'f) Junction \<Rightarrow> string list \<Rightarrow> ('d, 'f) Junction \<times> ('d, 'f) calls" where
  "JunctionTruncBranch jn seq = JunctionTruncBranch_loop jn (byuse jn) seq"

definition is_wild :: "string \<Rightarrow> bool" where
  "is_wild p \<longleftrightarrow> CHR ''*'' \<in> set p \<or> CHR ''?'' \<in> set p"

text \<open>Split off the filter: the last word if it is a wildcard below the method, else \<open>"*"\<close>.\<close>

definition seq_filter :: "string list \<Rightarrow> string \<times> string list" where
  "seq_filter seq =
     (let p = last seq; depth = length seq - 1
      in if depth > 0 \<and> is_wild p then (p, cut_last seq) else (''*'', seq))"

definition channel_for ::
  "str_match \<Rightarrow> ('d, 'f) Junction \<Rightarrow> string \<Rightarrow> ('d, 'f) Junction \<times> nat" where
  "channel_for sm jn flt =
     (case index_find (CmpKeyWithChannelAsStrings (channels jn)) flt (byname jn) of
        Some i \<Rightarrow> (jn, byname jn ! i)
      | None \<Rightarrow>
          (let c = length (channels jn);
               chs = channels jn @ [\<lparr>chan_filter = flt, chan_trie = TrieInit\<rparr>]
           in (\<lparr>channels = chs,
                byname = index_insert (CmpChannelsAsStrings chs) c (byname jn),
                byuse = index_insert (CmpChannels sm chs) c (byuse jn)\<rparr>, c)))"

definition JunctionAdd ::
  "str_match \<Rightarrow> ('d, 'f) Junction \<Rightarrow> string list \<Rightarrow> 'd \<Rightarrow> flags \<Rightarrow> 'f option \<Rightarrow>
     ('d, 'f) Junction \<times> ('d, 'f) calls" where
  "JunctionAdd sm jn seq d fl df =
     (let (flt, seq') = seq_filter seq;
          (jn', c) = channel_for sm jn flt;
          (t, cs) = TrieAdd (chan_trie (channels jn' ! c)) seq' d fl df
      in (set_trie jn' c t, cs))"

fun JunctionFind_loop ::
  "str_match \<Rightarrow> ('d, 'f) Channel list \<Rightarrow> nat list \<Rightarrow> string list \<Rightarrow> bool \<Rightarrow> 'd option \<Rightarrow> nat \<Rightarrow> 'd option" where
  "JunctionFind_loop sm chs [] seq fast data depth = data"
| "JunctionFind_loop sm chs (c # cs) seq fast data depth =
     (let p = last seq; flt = chan_filter (chs ! c);
          doit = (if fast then p = flt else sm p flt)
      in if doit then
           (case data of
              None \<Rightarrow>
                (let (data', depth') = TrieFind (chan_trie (chs ! c)) seq 0
                 in JunctionFind_loop sm chs cs seq fast data' depth')
            | Some _ \<Rightarrow>
                (let (candidate, cdepth) = TrieFind (chan_trie (chs ! c)) seq 0
                 in if candidate \<noteq> None \<and> cdepth > depth
                    then JunctionFind_loop sm chs cs seq fast candidate cdepth
                    else JunctionFind_loop sm chs cs seq fast data depth))
         else JunctionFind_loop sm chs cs seq fast data depth)"

definition JunctionFind :: "str_match \<Rightarrow> ('d, 'f) Junction \<Rightarrow> string list \<Rightarrow> bool \<Rightarrow> 'd option" where
  "JunctionFind sm jn seq fast = JunctionFind_loop sm (channels jn) (byuse jn) seq fast None 0"

definition JunctionFindExact :: "('d, 'f) Junction \<Rightarrow> string list \<Rightarrow> flags \<Rightarrow> 'd option" where
  "JunctionFindExact jn seq fl =
     (let p = last seq; chs = channels jn
      in case find (\<lambda>c. p = chan_filter (chs ! c)) (byuse jn) of
           Some c \<Rightarrow> TrieFindExact (chan_trie (chs ! c)) (cut_last seq) fl
         | None \<Rightarrow>
             (case find (\<lambda>c. ''*'' = chan_filter (chs ! c)) (byuse jn) of
                Some c \<Rightarrow> TrieFindExact (chan_trie (chs ! c)) seq fl
              | None \<Rightarrow> None))"

text \<open>
  The loop of \<open>JunctionDeleteNode\<close> ends at the first datum.  Its state includes the sequence:
  once \<open>*p\<close> has been cut, the later channels see an empty last word.
\<close>

fun JunctionDeleteNode_loop ::
  "str_match \<Rightarrow> ('d, 'f) Junction \<Rightarrow> nat list \<Rightarrow> nat \<Rightarrow> string list \<Rightarrow> flags \<Rightarrow>
     ('d, 'f) Junction \<times> 'd option \<times> ('d, 'f) calls" where
  "JunctionDeleteNode_loop sm jn [] depth seq fl = (jn, None, [])"
| "JunctionDeleteNode_loop sm jn (c # cs) depth seq fl =
     (let p = last seq; ch = channels jn ! c; flt = chan_filter ch;
          exact = (depth = 2 \<and> p = flt);
          seq' = (if exact then cut_last seq else seq)
      in if exact \<or> sm p flt then
           (case TrieFindExact (chan_trie ch) seq' fl of
              Some d \<Rightarrow>
                (let (t, _, k) = TrieDelete (chan_trie ch) seq' fl in (set_trie jn c t, Some d, k))
            | None \<Rightarrow> JunctionDeleteNode_loop sm jn cs depth seq' fl)
         else JunctionDeleteNode_loop sm jn cs depth seq fl)"

definition JunctionDeleteNode ::
  "str_match \<Rightarrow> ('d, 'f) Junction \<Rightarrow> string list \<Rightarrow> flags \<Rightarrow>
     ('d, 'f) Junction \<times> 'd option \<times> ('d, 'f) calls" where
  "JunctionDeleteNode sm jn seq fl = JunctionDeleteNode_loop sm jn (byuse jn) (length seq - 1) seq fl"

section \<open>Sequences and the public calls\<close>

function MkSeq_words :: "string \<Rightarrow> string list" where
  "MkSeq_words url =
     (if url = [] then []
      else if hd url \<noteq> CHR ''/'' then
        (let l = length (takeWhile (\<lambda>c. c \<noteq> CHR ''/'') url)
         in if CHR ''/'' \<in> set url
            then take l url # MkSeq_words (drop (l + 1) url)
            else [url])
      else MkSeq_words (tl url))"
  by pat_completeness auto
termination
  by (relation "measure length") auto

declare MkSeq_words.simps [simp del]

definition MkSeq :: "string \<Rightarrow> string \<Rightarrow> string list" where
  "MkSeq method url = method # MkSeq_words url"

definition MAX_URLSPACES :: nat where "MAX_URLSPACES = 16"

text \<open>\<open>nextid\<close> is the function's static counter; \<open>None\<close> is \<open>Ns_Fatal\<close>.\<close>

definition Ns_UrlSpecificAlloc :: "nat \<Rightarrow> nat \<times> nat option" where
  "Ns_UrlSpecificAlloc nextid =
     (nextid + 1, if nextid \<ge> MAX_URLSPACES then None else Some nextid)"

type_synonym ('d, 'f) urlspace = "('d, 'f) Junction option list"

definition JunctionGet :: "('d, 'f) urlspace \<Rightarrow> nat \<Rightarrow> ('d, 'f) urlspace \<times> ('d, 'f) Junction" where
  "JunctionGet sp i =
     (case sp ! i of
        None \<Rightarrow> (sp[i := Some junction_new], junction_new)
      | Some jn \<Rightarrow> (sp, jn))"

definition Ns_UrlSpecificSet ::
  "str_match \<Rightarrow> ('d, 'f) urlspace \<Rightarrow> string \<Rightarrow> string \<Rightarrow> nat \<Rightarrow> 'd \<Rightarrow> flags \<Rightarrow> 'f option \<Rightarrow>
     ('d, 'f) urlspace \<times> ('d, 'f) calls" where
  "Ns_UrlSpecificSet sm sp method url i d fl df =
     (let (sp', jn) = JunctionGet sp i; (jn', cs) = JunctionAdd sm jn (MkSeq method url) d fl df
      in (sp'[i := Some jn'], cs))"

definition NsUrlSpecificGet ::
  "str_match \<Rightarrow> ('d, 'f) urlspace \<Rightarrow> string \<Rightarrow> string \<Rightarrow> nat \<Rightarrow> bool \<Rightarrow> ('d, 'f) urlspace \<times> 'd option" where
  "NsUrlSpecificGet sm sp method url i fast =
     (let (sp', jn) = JunctionGet sp i in (sp', JunctionFind sm jn (MkSeq method url) fast))"

definition Ns_UrlSpecificGet ::
  "str_match \<Rightarrow> ('d, 'f) urlspace \<Rightarrow> string \<Rightarrow> string \<Rightarrow> nat \<Rightarrow> ('d, 'f) urlspace \<times> 'd option" where
  "Ns_UrlSpecificGet sm sp method url i = NsUrlSpecificGet sm sp method url i False"

definition Ns_UrlSpecificGetFast ::
  "str_match \<Rightarrow> ('d, 'f) urlspace \<Rightarrow> string \<Rightarrow> string \<Rightarrow> nat \<Rightarrow> ('d, 'f) urlspace \<times> 'd option" where
  "Ns_UrlSpecificGetFast sm sp method url i = NsUrlSpecificGet sm sp method url i True"

definition Ns_UrlSpecificGetExact ::
  "('d, 'f) urlspace \<Rightarrow> string \<Rightarrow> string \<Rightarrow> nat \<Rightarrow> flags \<Rightarrow> ('d, 'f) urlspace \<times> 'd option" where
  "Ns_UrlSpecificGetExact sp method url i fl =
     (let (sp', jn) = JunctionGet sp i in (sp', JunctionFindExact jn (MkSeq method url) fl))"

definition Ns_UrlSpecificDestroy ::
  "str_match \<Rightarrow> ('d, 'f) urlspace \<Rightarrow> string \<Rightarrow> string \<Rightarrow> nat \<Rightarrow> flags \<Rightarrow>
     ('d, 'f) urlspace \<times> 'd option \<times> ('d, 'f) calls" where
  "Ns_UrlSpecificDestroy sm sp method url i fl =
     (let (sp', jn) = JunctionGet sp i; seq = MkSeq method url
      in if has_flag fl NS_OP_RECURSE
         then (let (jn', cs) = JunctionTruncBranch jn seq in (sp'[i := Some jn'], None, cs))
         else (let (jn', d, cs) = JunctionDeleteNode sm jn seq fl in (sp'[i := Some jn'], d, cs)))"


section \<open>The trie as a map from word sequences to nodes\<close>

text \<open>
  \<open>trie_at\<close> is the abstraction: the node registered at a sequence of words.  \<open>trie_ok\<close> is the
  invariant: in every trie the branches are strictly ordered by their words, no word is empty,
  and a node never keeps a delete procedure for data it does not have.
\<close>

fun trie_at :: "('d, 'f) Trie \<Rightarrow> string list \<Rightarrow> ('d, 'f) Node option" where
  "trie_at t [] = node t"
| "trie_at t (w # ws) =
     (case find (\<lambda>b. br_word b = w) (branches t) of None \<Rightarrow> None | Some b \<Rightarrow> trie_at (br_trie b) ws)"

definition node_ok :: "('d, 'f) Node \<Rightarrow> bool" where
  "node_ok nd \<longleftrightarrow> (deletefuncInherit nd \<noteq> None \<longrightarrow> dataInherit nd \<noteq> None) \<and>
                (deletefuncNoInherit nd \<noteq> None \<longrightarrow> dataNoInherit nd \<noteq> None)"

fun trie_ok :: "('d, 'f) Trie \<Rightarrow> bool" and branches_ok :: "('d, 'f) Branch list \<Rightarrow> bool" where
  "trie_ok (Trie bs ndo) \<longleftrightarrow> sorted (map br_word bs) \<and> distinct (map br_word bs) \<and> branches_ok bs \<and>
     (case ndo of None \<Rightarrow> True | Some nd \<Rightarrow> node_ok nd)"
| "branches_ok [] \<longleftrightarrow> True"
| "branches_ok (Branch w t # bs) \<longleftrightarrow> w \<noteq> [] \<and> trie_ok t \<and> branches_ok bs"

lemma branches_ok_iff: "branches_ok bs \<longleftrightarrow> (\<forall>b \<in> set bs. br_word b \<noteq> [] \<and> trie_ok (br_trie b))"
proof (induction bs)
  case (Cons b bs)
  then show ?case by (cases b) auto
qed simp

lemma trie_ok_iff:
  "trie_ok t \<longleftrightarrow> sorted (map br_word (branches t)) \<and> distinct (map br_word (branches t)) \<and>
     (\<forall>b \<in> set (branches t). br_word b \<noteq> [] \<and> trie_ok (br_trie b)) \<and>
     (case node t of None \<Rightarrow> True | Some nd \<Rightarrow> node_ok nd)"
  by (cases t) (simp add: branches_ok_iff)

lemma trie_ok_TrieInit [simp]: "trie_ok TrieInit"
  by (simp add: TrieInit_def)

lemma trie_at_TrieInit [simp]: "trie_at TrieInit ws = None"
  by (cases ws) (simp_all add: TrieInit_def)

interpretation branch_index: index_order br_word CmpBranches CmpKeyWithBranch
  by unfold_locales (simp_all add: CmpBranches_def CmpKeyWithBranch_def)

text \<open>Every traversal stops at an empty word, so it only sees the words before the first one.\<close>

abbreviation upto_end :: "string list \<Rightarrow> string list" where
  "upto_end seq \<equiv> takeWhile (\<lambda>w. w \<noteq> []) seq"

lemma TrieFindExact_Nil: "TrieFindExact t [] fl =
   (case node t of None \<Rightarrow> None | Some nd \<Rightarrow> if has_flag fl NS_OP_NOINHERIT then dataNoInherit nd else dataInherit nd)"
  by (cases t) simp

lemma TrieFindExact_Cons: "TrieFindExact t (w # ws) fl =
   (if w \<noteq> [] then (case index_find CmpKeyWithBranch w (branches t) of
        Some i \<Rightarrow> TrieFindExact (br_trie (branches t ! i)) ws fl | None \<Rightarrow> None)
    else TrieFindExact t [] fl)"
  by (cases t) (simp split: option.split)

lemma TrieAdd_upto_end: "TrieAdd t (upto_end seq) d fl df = TrieAdd t seq d fl df"
  by (induction t seq d fl df rule: TrieAdd.induct) (auto split: option.split)

lemma TrieDelete_upto_end: "TrieDelete t (upto_end seq) fl = TrieDelete t seq fl"
  by (induction t seq fl rule: TrieDelete.induct) (auto split: option.split)

lemma TrieTruncBranch_upto_end: "TrieTruncBranch t (upto_end seq) = TrieTruncBranch t seq"
  by (induction t seq rule: TrieTruncBranch.induct) (auto split: option.split)

lemma TrieFindExact_upto_end: "TrieFindExact t (upto_end seq) fl = TrieFindExact t seq fl"
  by (induction seq arbitrary: t) (auto simp: TrieFindExact_Cons split: option.split)

lemma upto_end_clean: "[] \<notin> set seq \<Longrightarrow> upto_end seq = seq"
  by (metis (mono_tags, lifting) takeWhile_eq_all_conv)

lemma upto_end_cut: "[] \<notin> set (butlast seq) \<Longrightarrow> upto_end (cut_last seq) = butlast seq"
  by (simp add: cut_last_def upto_end_clean takeWhile_append2 [of "butlast seq"] takeWhile_append)

text \<open>Looking a word up in the branches of a well-formed trie.\<close>

lemma branch_find:
  assumes "trie_ok t"
  shows "find (\<lambda>b. br_word b = w) (branches t) =
     map_option (nth (branches t)) (index_find CmpKeyWithBranch w (branches t))"
  using assms branch_index.find_linear [of "branches t" w] by (simp add: trie_ok_iff [of t])

lemma branch_find_Some:
  assumes "trie_ok t" "index_find CmpKeyWithBranch w (branches t) = Some i"
  shows "i < length (branches t)" "br_word (branches t ! i) = w" "trie_ok (br_trie (branches t ! i))"
    "w \<noteq> []"
  using branch_index.find_Some [OF assms(2)] assms(1) by (auto simp: trie_ok_iff [of t])

lemma branch_find_None:
  assumes "trie_ok t"
  shows "index_find CmpKeyWithBranch w (branches t) = None \<longleftrightarrow> w \<notin> br_word ` set (branches t)"
  using branch_index.find_None [of "branches t" w] assms by (simp add: trie_ok_iff [of t])

lemma trie_at_Cons:
  assumes "trie_ok t"
  shows "trie_at t (w # ws) =
     (case index_find CmpKeyWithBranch w (branches t) of
        None \<Rightarrow> None | Some i \<Rightarrow> trie_at (br_trie (branches t ! i)) ws)"
  using branch_find [OF assms, of w] by (auto split: option.split)

text \<open>Replacing what the word \<open>w\<close> leads to.\<close>

definition at_word :: "string \<Rightarrow> (string list \<Rightarrow> 'a) \<Rightarrow> (string list \<Rightarrow> 'a) \<Rightarrow> string list \<Rightarrow> 'a" where
  "at_word w f g seq = (if seq \<noteq> [] \<and> hd seq = w then f (tl seq) else g seq)"

lemma at_word_upd: "(\<And>vs. g (w # vs) = f vs) \<Longrightarrow> at_word w (f(ws := x)) g = g(w # ws := x)"
proof
  fix seq assume "\<And>vs. g (w # vs) = f vs"
  then show "at_word w (f(ws := x)) g seq = (g(w # ws := x)) seq"
    by (cases seq) (auto simp: at_word_def)
qed

lemma trie_at_update:
  assumes "trie_ok t" "index_find CmpKeyWithBranch w (branches t) = Some i"
  shows "trie_at (Trie ((branches t)[i := Branch w s]) (node t)) = at_word w (trie_at s) (trie_at t)"
proof
  fix seq
  note i = branch_find_Some [OF assms]
  have "distinct (map br_word (branches t))" using assms(1) by (simp add: trie_ok_iff [of t])
  from branch_index.find_update [OF this i(1), of "Branch w s"] i(2)
  show "trie_at (Trie ((branches t)[i := Branch w s]) (node t)) seq = at_word w (trie_at s) (trie_at t) seq"
    by (cases seq) (auto simp: at_word_def)
qed

lemma trie_at_insert:
  assumes "trie_ok t" "w \<notin> br_word ` set (branches t)"
  shows "trie_at (Trie (index_insert CmpBranches (Branch w s) (branches t)) (node t)) =
     at_word w (trie_at s) (trie_at t)"
proof
  fix seq
  have "distinct (map br_word (branches t))" using assms(1) by (simp add: trie_ok_iff [of t])
  from branch_index.find_insert [OF this, of "Branch w s"] assms(2)
  show "trie_at (Trie (index_insert CmpBranches (Branch w s) (branches t)) (node t)) seq =
     at_word w (trie_at s) (trie_at t) seq"
    by (cases seq) (auto simp: at_word_def)
qed

lemma trie_ok_update:
  assumes "trie_ok t" "index_find CmpKeyWithBranch w (branches t) = Some i" "trie_ok s"
  shows "trie_ok (Trie ((branches t)[i := Branch w s]) (node t))"
proof -
  note i = branch_find_Some [OF assms(1,2)]
  have "map br_word ((branches t)[i := Branch w s]) = map br_word (branches t)"
    using i by (simp add: map_update list_update_same_conv)
  with assms(1,3) i(4) show ?thesis
    by (auto simp: trie_ok_iff [of t] branches_ok_iff dest!: set_update_subset_insert [THEN subsetD])
qed

lemma trie_ok_insert:
  assumes "trie_ok t" "w \<notin> br_word ` set (branches t)" "w \<noteq> []" "trie_ok s"
  shows "trie_ok (Trie (index_insert CmpBranches (Branch w s) (branches t)) (node t))"
  using assms branch_index.sorted_insert [of "branches t" "Branch w s"]
    branch_index.distinct_insert [of "Branch w s" "branches t"]
    branch_index.set_insert [of "Branch w s" "branches t"]
  by (simp add: trie_ok_iff [of t] branches_ok_iff)

lemma node_ok_TrieAdd_node:
  "(case ndo of None \<Rightarrow> True | Some nd \<Rightarrow> node_ok nd) \<Longrightarrow> node_ok (fst (TrieAdd_node ndo d fl df))"
  by (auto simp: TrieAdd_node_def node_ok_def node_calloc_def split: option.splits)

lemma trie_ok_node:
  "trie_ok t \<Longrightarrow> (case nd of None \<Rightarrow> True | Some n \<Rightarrow> node_ok n) \<Longrightarrow> trie_ok (Trie (branches t) nd)"
  by (cases t) simp

lemma trie_at_node: "trie_at (Trie (branches t) nd) = (trie_at t)([] := nd)"
proof
  fix seq show "trie_at (Trie (branches t) nd) seq = ((trie_at t)([] := nd)) seq"
    by (cases seq) auto
qed

lemma TrieAdd_refines:
  assumes "trie_ok t" "[] \<notin> set ws"
  shows "trie_ok (fst (TrieAdd t ws d fl df)) \<and>
     trie_at (fst (TrieAdd t ws d fl df)) = (trie_at t)(ws \<mapsto> fst (TrieAdd_node (trie_at t ws) d fl df)) \<and>
     snd (TrieAdd t ws d fl df) = snd (TrieAdd_node (trie_at t ws) d fl df)"
  using assms
proof (induction t ws d fl df rule: TrieAdd.induct)
  case (1 bs ndo d fl df)
  let ?nd = "Some (fst (TrieAdd_node ndo d fl df))"
  have eq: "TrieAdd (Trie bs ndo) [] d fl df = (Trie bs ?nd, snd (TrieAdd_node ndo d fl df))"
    by (simp add: split_def Let_def)
  have "trie_ok (Trie bs ?nd)"
    using trie_ok_node [OF 1(1), of ?nd] node_ok_TrieAdd_node [of ndo d fl df] 1(1) by simp
  moreover have "trie_at (Trie bs ?nd) = (trie_at (Trie bs ndo))([] := ?nd)"
    using trie_at_node [of "Trie bs ndo" ?nd] by (simp only: Trie.sel)
  ultimately show ?case unfolding eq by simp
next
  case (2 bs ndo w ws d fl df)
  let ?t = "Trie bs ndo"
  have w: "w \<noteq> []" "[] \<notin> set ws" using 2(4) by auto
  show ?case
  proof (cases "index_find CmpKeyWithBranch w (branches ?t)")
    case None
    then have nin: "w \<notin> br_word ` set (branches ?t)" using branch_find_None [OF 2(3)] by simp
    define r where "r = TrieAdd TrieInit ws d fl df"
    have r: "trie_ok (fst r)" "trie_at (fst r) = (trie_at TrieInit)(ws \<mapsto> fst (TrieAdd_node None d fl df))"
      "snd r = snd (TrieAdd_node None d fl df)"
      using 2(1) [OF w(1) _ trie_ok_TrieInit w(2)] None by (auto simp: r_def fun_eq_iff)
    have none: "trie_at ?t (w # vs) = trie_at TrieInit vs" for vs
      using trie_at_Cons [OF 2(3), of w vs] None by simp
    have "TrieAdd ?t (w # ws) d fl df =
        (Trie (index_insert CmpBranches (Branch w (fst r)) (branches ?t)) (node ?t), snd r)"
      using w None by (simp add: r_def split_def Let_def)
    with trie_ok_insert [OF 2(3) nin w(1) r(1)] trie_at_insert [OF 2(3) nin, of "fst r"] r none
      at_word_upd [of "trie_at ?t" w "trie_at TrieInit" ws, OF none]
    show ?thesis by (simp del: trie_at.simps)
  next
    case (Some i)
    let ?u = "br_trie (branches ?t ! i)"
    define r where "r = TrieAdd ?u ws d fl df"
    note i = branch_find_Some [OF 2(3) Some]
    have r: "trie_ok (fst r)" "trie_at (fst r) = (trie_at ?u)(ws \<mapsto> fst (TrieAdd_node (trie_at ?u ws) d fl df))"
      "snd r = snd (TrieAdd_node (trie_at ?u ws) d fl df)"
      using 2(2) [OF w(1) _ _ w(2), of i] i(3) Some by (auto simp: r_def fun_eq_iff)
    have at: "trie_at ?t (w # vs) = trie_at ?u vs" for vs
      using trie_at_Cons [OF 2(3), of w vs] Some by simp
    have "TrieAdd ?t (w # ws) d fl df = (Trie ((branches ?t)[i := Branch w (fst r)]) (node ?t), snd r)"
      using w Some i(2) by (simp add: r_def split_def Let_def)
    with trie_ok_update [OF 2(3) Some r(1)] trie_at_update [OF 2(3) Some, of "fst r"] r at
      at_word_upd [of "trie_at ?t" w "trie_at ?u" ws, OF at]
    show ?thesis by (simp del: trie_at.simps)
  qed
qed


lemma TrieFindExact_refines:
  assumes "trie_ok t" "[] \<notin> set ws"
  shows "TrieFindExact t ws fl =
     (case trie_at t ws of None \<Rightarrow> None
      | Some nd \<Rightarrow> if has_flag fl NS_OP_NOINHERIT then dataNoInherit nd else dataInherit nd)"
  using assms
proof (induction ws arbitrary: t)
  case (Cons w ws)
  show ?case
  proof (cases "index_find CmpKeyWithBranch w (branches t)")
    case (Some i)
    with Cons branch_find_Some [OF Cons.prems(1) Some] show ?thesis
      by (simp add: TrieFindExact_Cons trie_at_Cons del: trie_at.simps)
  qed (use Cons in \<open>auto simp: TrieFindExact_Cons trie_at_Cons simp del: trie_at.simps\<close>)
qed (simp add: TrieFindExact_Nil)

lemma node_ok_TrieDelete_node:
  "(case ndo of None \<Rightarrow> True | Some nd \<Rightarrow> node_ok nd) \<Longrightarrow>
   (case fst (TrieDelete_node ndo fl) of None \<Rightarrow> True | Some nd \<Rightarrow> node_ok nd)"
  by (auto simp: TrieDelete_node_def node_ok_def split: option.splits)

lemma TrieDelete_Nil:
  "TrieDelete t [] fl = (Trie (branches t) (fst (TrieDelete_node (node t) fl)), snd (TrieDelete_node (node t) fl))"
  by (cases t) (simp add: split_def Let_def)

lemma TrieDelete_Cons:
  "w \<noteq> [] \<Longrightarrow> TrieDelete t (w # ws) fl =
     (case index_find CmpKeyWithBranch w (branches t) of
        Some i \<Rightarrow> (let r = TrieDelete (br_trie (branches t ! i)) ws fl
                   in (Trie ((branches t)[i := Branch (br_word (branches t ! i)) (fst r)]) (node t), snd r))
      | None \<Rightarrow> (t, None, []))"
  by (cases t) (simp add: split_def Let_def split: option.split)

lemma TrieDelete_refines:
  assumes "trie_ok t" "[] \<notin> set ws"
  shows "trie_ok (fst (TrieDelete t ws fl)) \<and>
     trie_at (fst (TrieDelete t ws fl)) = (trie_at t)(ws := fst (TrieDelete_node (trie_at t ws) fl)) \<and>
     snd (TrieDelete t ws fl) = snd (TrieDelete_node (trie_at t ws) fl)"
  using assms
proof (induction ws arbitrary: t)
  case Nil
  have "case node t of None \<Rightarrow> True | Some nd \<Rightarrow> node_ok nd" using Nil(1) by (simp add: trie_ok_iff [of t])
  from trie_ok_node [OF Nil(1) node_ok_TrieDelete_node [OF this]]
  show ?case by (simp add: TrieDelete_Nil trie_at_node)
next
  case (Cons w ws)
  have w: "w \<noteq> []" "[] \<notin> set ws" using Cons.prems(2) by auto
  show ?case
  proof (cases "index_find CmpKeyWithBranch w (branches t)")
    case None
    with Cons.prems w show ?thesis
      by (auto simp: TrieDelete_Cons trie_at_Cons TrieDelete_node_def simp del: trie_at.simps)
  next
    case (Some i)
    let ?u = "br_trie (branches t ! i)"
    define r where "r = TrieDelete ?u ws fl"
    note i = branch_find_Some [OF Cons.prems(1) Some]
    have r: "trie_ok (fst r)" "trie_at (fst r) = (trie_at ?u)(ws := fst (TrieDelete_node (trie_at ?u ws) fl))"
      "snd r = snd (TrieDelete_node (trie_at ?u ws) fl)"
      using Cons.IH [OF i(3) w(2), folded r_def] by blast+
    have at: "trie_at t (w # vs) = trie_at ?u vs" for vs
      using trie_at_Cons [OF Cons.prems(1), of w vs] Some by simp
    have "TrieDelete t (w # ws) fl = (Trie ((branches t)[i := Branch w (fst r)]) (node t), snd r)"
      using w Some i(2) by (simp add: TrieDelete_Cons r_def Let_def)
    with trie_ok_update [OF Cons.prems(1) Some r(1)] trie_at_update [OF Cons.prems(1) Some, of "fst r"] r at
      at_word_upd [of "trie_at t" w "trie_at ?u" ws, OF at]
    show ?thesis by (simp del: trie_at.simps)
  qed
qed

text \<open>Truncation removes every node and keeps the shape.\<close>

lemma Trunc_shape:
  fixes t :: "('d, 'f) Trie" and bs :: "('d, 'f) Branch list"
  shows "trie_ok t \<Longrightarrow> trie_ok (fst (TrieTrunc t)) \<and> trie_at (fst (TrieTrunc t)) ws = None"
    and "branches_ok bs \<Longrightarrow> map br_word (fst (BranchesTrunc bs)) = map br_word bs \<and>
     branches_ok (fst (BranchesTrunc bs)) \<and>
     (\<forall>b \<in> set (fst (BranchesTrunc bs)). \<forall>vs. trie_at (br_trie b) vs = None)"
proof (induction t and bs arbitrary: ws and rule: TrieTrunc_BranchesTrunc.induct)
  case (1 bs ndo)
  then have "branches_ok bs" by simp
  note IH = 1(1) [OF this]
  with 1(2) show ?case
    by (cases ws) (auto simp: split_def Let_def split: option.split dest: find_SomeD)
next
  case (3 w t bs)
  have "(fst (TrieTrunc t), snd (TrieTrunc t)) = TrieTrunc t" by simp
  note IH = 3(1) 3(2) [OF refl this]
  with 3(3) show ?case by (auto simp: split_def Let_def)
qed simp

lemma TrieTruncBranch_Nil: "TrieTruncBranch t [] = (fst (TrieTrunc t), snd (TrieTrunc t), True)"
  by (simp add: split_def Let_def)

lemma TrieTruncBranch_Cons:
  "w \<noteq> [] \<Longrightarrow> TrieTruncBranch t (w # ws) =
     (case index_find CmpKeyWithBranch w (branches t) of
        Some i \<Rightarrow> (let r = TrieTruncBranch (br_trie (branches t ! i)) ws
                   in (Trie ((branches t)[i := Branch (br_word (branches t ! i)) (fst r)]) (node t), snd r))
      | None \<Rightarrow> (t, [], False))"
  by (simp add: split_def Let_def split: option.split)

lemma TrieTruncBranch_refines:
  assumes "trie_ok t" "[] \<notin> set ws"
  shows "trie_ok (fst (TrieTruncBranch t ws)) \<and>
     (\<forall>seq. trie_at (fst (TrieTruncBranch t ws)) seq =
        (if take (length ws) seq = ws then None else trie_at t seq))"
  using assms
proof (induction ws arbitrary: t)
  case Nil
  then show ?case using Trunc_shape(1) [OF Nil(1)] by (simp add: TrieTruncBranch_Nil del: TrieTruncBranch.simps)
next
  case (Cons w ws)
  have w: "w \<noteq> []" "[] \<notin> set ws" using Cons.prems(2) by auto
  show ?case
  proof (cases "index_find CmpKeyWithBranch w (branches t)")
    case None
    have "trie_at t seq = None" if "take (length (w # ws)) seq = w # ws" for seq
      using that None trie_at_Cons [OF Cons.prems(1)] by (cases seq) auto
    with None Cons.prems w show ?thesis by (simp add: TrieTruncBranch_Cons)
  next
    case (Some i)
    let ?u = "br_trie (branches t ! i)"
    define r where "r = TrieTruncBranch ?u ws"
    note i = branch_find_Some [OF Cons.prems(1) Some]
    have r: "trie_ok (fst r)"
      "\<And>seq. trie_at (fst r) seq = (if take (length ws) seq = ws then None else trie_at ?u seq)"
      using Cons.IH [OF i(3) w(2)] by (simp_all add: r_def)
    have at: "trie_at t (w # vs) = trie_at ?u vs" for vs
      using trie_at_Cons [OF Cons.prems(1), of w vs] Some by simp
    have eq: "TrieTruncBranch t (w # ws) = (Trie ((branches t)[i := Branch w (fst r)]) (node t), snd r)"
      using w Some i(2) by (simp add: TrieTruncBranch_Cons r_def Let_def del: TrieTruncBranch.simps)
    have "trie_at (fst (TrieTruncBranch t (w # ws))) seq =
        (if take (length (w # ws)) seq = w # ws then None else trie_at t seq)" for seq
      unfolding eq fst_conv trie_at_update [OF Cons.prems(1) Some, of "fst r"]
      using r(2) at by (cases seq) (auto simp: at_word_def)
    moreover have "trie_ok (fst (TrieTruncBranch t (w # ws)))"
      unfolding eq using trie_ok_update [OF Cons.prems(1) Some r(1)] by simp
    ultimately show ?thesis by blast
  qed
qed

text \<open>
  The reference for \<open>TrieFind\<close>: of all the prefixes of the sequence that carry data visible
  from it (inheriting data, or non-inheriting data at the sequence itself), the longest.
\<close>

definition data_at :: "('d, 'f) Trie \<Rightarrow> string list \<Rightarrow> nat \<Rightarrow> 'd option" where
  "data_at t ws k =
     (case trie_at t (take k ws) of
        None \<Rightarrow> None
      | Some nd \<Rightarrow> if k = length ws \<and> dataNoInherit nd \<noteq> None then dataNoInherit nd else dataInherit nd)"

definition best_prefix :: "('d, 'f) Trie \<Rightarrow> string list \<Rightarrow> nat option" where
  "best_prefix t ws = find (\<lambda>k. data_at t ws k \<noteq> None) (rev [0..<Suc (length ws)])"

lemma TrieFind_Nil: "TrieFind t [] depth = (data_at t [] 0, depth)"
  by (cases t) (simp add: data_at_def split: option.split)

lemma TrieFind_Cons:
  "w \<noteq> [] \<Longrightarrow> TrieFind t (w # ws) depth =
     (case index_find CmpKeyWithBranch w (branches t) of
        Some i \<Rightarrow> (let r = TrieFind (br_trie (branches t ! i)) ws (depth + 1)
                   in if fst r \<noteq> None then r else (data_at t (w # ws) 0, depth))
      | None \<Rightarrow> (data_at t (w # ws) 0, depth))"
  by (cases t) (auto simp: data_at_def Let_def split: option.split prod.split)

lemma best_prefix_Cons:
  assumes "\<And>k. data_at t (w # ws) (Suc k) = data_at u ws k"
  shows "best_prefix t (w # ws) =
     (case best_prefix u ws of Some k \<Rightarrow> Some (Suc k)
      | None \<Rightarrow> if data_at t (w # ws) 0 \<noteq> None then Some 0 else None)"
  unfolding best_prefix_def length_Cons rev_upt_Suc
  by (simp add: find_append find_map assms split: option.split)

lemma TrieFind_spec:
  fixes t :: "('d, 'f) Trie"
  assumes "trie_ok t" "[] \<notin> set ws"
  shows "TrieFind t ws depth =
     (case best_prefix t ws of None \<Rightarrow> (None, depth) | Some k \<Rightarrow> (data_at t ws k, depth + k))"
  using assms
proof (induction ws arbitrary: t depth)
  case Nil
  then show ?case by (simp add: TrieFind_Nil best_prefix_def)
next
  case (Cons w ws)
  have w: "w \<noteq> []" "[] \<notin> set ws" using Cons.prems(2) by auto
  show ?case
  proof (cases "index_find CmpKeyWithBranch w (branches t)")
    case None
    have at: "data_at t (w # ws) (Suc k) = data_at (TrieInit :: ('d, 'f) Trie) ws k" for k
      using trie_at_Cons [OF Cons.prems(1), of w "take k ws"] None by (simp add: data_at_def split: option.split)
    moreover have "best_prefix (TrieInit :: ('d, 'f) Trie) ws = None" by (simp add: best_prefix_def data_at_def find_None_iff)
    ultimately show ?thesis
      using None w by (simp add: TrieFind_Cons best_prefix_Cons [of t w ws TrieInit, OF at])
  next
    case (Some i)
    let ?u = "br_trie (branches t ! i)"
    note i = branch_find_Some [OF Cons.prems(1) Some]
    have at: "data_at t (w # ws) (Suc k) = data_at ?u ws k" for k
      using trie_at_Cons [OF Cons.prems(1), of w "take k ws"] Some by (simp add: data_at_def split: option.split)
    have nz: "best_prefix ?u ws = Some k \<Longrightarrow> data_at ?u ws k \<noteq> None" for k
      unfolding best_prefix_def using find_SomeD [of "\<lambda>k. data_at ?u ws k \<noteq> None"] by blast
    from Cons.IH [OF i(3) w(2), of "depth + 1"] best_prefix_Cons [of t w ws ?u, OF at] at nz Some w
    show ?thesis by (auto simp: TrieFind_Cons Let_def split: option.splits)
  qed
qed


section \<open>Junctions as maps from filters to tries\<close>

definition chan_of :: "('d, 'f) Junction \<Rightarrow> string \<Rightarrow> ('d, 'f) Trie option" where
  "chan_of jn flt = map_option chan_trie (find (\<lambda>ch. chan_filter ch = flt) (channels jn))"

text \<open>
  The invariant of a junction: both indices hold every channel once, \<open>byname\<close> is strictly
  ordered by filter, every filter has a wildcard, every trie is well formed.
\<close>

definition junction_ok :: "('d, 'f) Junction \<Rightarrow> bool" where
  "junction_ok jn \<longleftrightarrow>
     mset (byname jn) = mset [0..<length (channels jn)] \<and> mset (byuse jn) = mset [0..<length (channels jn)] \<and>
     sorted (map (\<lambda>c. chan_filter (channels jn ! c)) (byname jn)) \<and>
     distinct (map chan_filter (channels jn)) \<and>
     (\<forall>ch \<in> set (channels jn). is_wild (chan_filter ch) \<and> trie_ok (chan_trie ch))"

interpretation chan_index: index_order "\<lambda>c. chan_filter (chs ! c)"
    "CmpChannelsAsStrings chs" "CmpKeyWithChannelAsStrings chs" for chs :: "('d, 'f) Channel list"
  by unfold_locales (simp_all add: CmpChannelsAsStrings_def CmpKeyWithChannelAsStrings_def)

lemma junction_ok_new [simp]: "junction_ok junction_new"
  by (simp add: junction_ok_def junction_new_def)

lemma junction_okD:
  assumes "junction_ok jn"
  shows "set (byname jn) = {..<length (channels jn)}" "set (byuse jn) = {..<length (channels jn)}"
    "distinct (byname jn)" "distinct (byuse jn)" "distinct (map chan_filter (channels jn))"
    "sorted (map (\<lambda>c. chan_filter (channels jn ! c)) (byname jn))"
  using assms mset_eq_setD [of "byname jn" "[0..<length (channels jn)]"]
    mset_eq_setD [of "byuse jn" "[0..<length (channels jn)]"]
    mset_eq_imp_distinct_iff [of "byname jn" "[0..<length (channels jn)]"]
    mset_eq_imp_distinct_iff [of "byuse jn" "[0..<length (channels jn)]"]
  by (auto simp: junction_ok_def)

lemma chan_of_nth:
  assumes "junction_ok jn" "c < length (channels jn)"
  shows "chan_of jn (chan_filter (channels jn ! c)) = Some (chan_trie (channels jn ! c))"
proof -
  have "find (\<lambda>ch. chan_filter ch = chan_filter (channels jn ! c)) (channels jn) = Some (channels jn ! c)"
    using assms(2) find_distinct_iff [OF junction_okD(5) [OF assms(1)]] by simp
  then show ?thesis by (simp add: chan_of_def)
qed

lemma chan_of_SomeE:
  assumes "chan_of jn flt = Some t"
  obtains c where "c < length (channels jn)" "chan_filter (channels jn ! c) = flt"
    "chan_trie (channels jn ! c) = t"
  using assms by (auto simp: chan_of_def in_set_conv_nth dest!: find_SomeD)

lemma chan_of_ok: "junction_ok jn \<Longrightarrow> chan_of jn flt = Some t \<Longrightarrow> trie_ok t \<and> is_wild flt"
  by (auto simp: junction_ok_def elim!: chan_of_SomeE)

text \<open>A linear scan of \<open>byuse\<close> for a filter finds the channel of that filter.\<close>

lemma find_byuse:
  assumes "junction_ok jn"
  shows "map_option (\<lambda>c. chan_trie (channels jn ! c)) (find (\<lambda>c. flt = chan_filter (channels jn ! c)) (byuse jn)) =
     chan_of jn flt"
proof (cases "find (\<lambda>c. flt = chan_filter (channels jn ! c)) (byuse jn)")
  case None
  then have "\<forall>ch \<in> set (channels jn). chan_filter ch \<noteq> flt"
    using junction_okD(2) [OF assms] by (auto simp: find_None_iff in_set_conv_nth)
  then have "chan_of jn flt = None" by (simp add: chan_of_def find_None_iff)
  with None show ?thesis by simp
next
  case (Some c)
  then have "c < length (channels jn)" "flt = chan_filter (channels jn ! c)"
    using junction_okD(2) [OF assms] by (auto dest!: find_SomeD)
  with Some chan_of_nth [OF assms] show ?thesis by simp
qed

lemma JunctionFindExact_refines:
  assumes "junction_ok jn"
  shows "JunctionFindExact jn seq fl =
     (case chan_of jn (last seq) of
        Some t \<Rightarrow> TrieFindExact t (cut_last seq) fl
      | None \<Rightarrow> (case chan_of jn ''*'' of Some t \<Rightarrow> TrieFindExact t seq fl | None \<Rightarrow> None))"
  using find_byuse [OF assms, of "last seq"] find_byuse [OF assms, of "''*''"]
  by (auto simp: JunctionFindExact_def Let_def split: option.splits)

lemma set_trie_ok:
  assumes "junction_ok jn" "c < length (channels jn)" "trie_ok t"
  shows "junction_ok (set_trie jn c t)"
    and "chan_of (set_trie jn c t) = (chan_of jn)(chan_filter (channels jn ! c) \<mapsto> t)"
proof -
  let ?ch = "(channels jn ! c)\<lparr>chan_trie := t\<rparr>"
  let ?chs = "(channels jn)[c := ?ch]"
  have flt: "chan_filter (?chs ! k) = chan_filter (channels jn ! k)" for k
    using assms(2) by (cases "k = c") auto
  then have keys: "map chan_filter ?chs = map chan_filter (channels jn)"
    by (intro nth_equalityI) auto
  show "junction_ok (set_trie jn c t)"
    using assms keys flt
    by (auto simp: junction_ok_def set_trie_def simp del: map_update
          dest!: set_update_subset_insert [THEN subsetD])
  show "chan_of (set_trie jn c t) = (chan_of jn)(chan_filter (channels jn ! c) \<mapsto> t)"
  proof
    fix flt'
    have d: "distinct (map chan_filter ?chs)" "distinct (map chan_filter (channels jn))"
      using keys junction_okD(5) [OF assms(1)] by simp_all
    show "chan_of (set_trie jn c t) flt' = ((chan_of jn)(chan_filter (channels jn ! c) \<mapsto> t)) flt'"
    proof (cases "flt' = chan_filter (channels jn ! c)")
      case True
      then have "find (\<lambda>ch. chan_filter ch = flt') ?chs = Some ?ch"
        using assms(2) find_distinct_iff [OF d(1)] by (simp add: set_update_memI)
      with True show ?thesis by (simp add: chan_of_def set_trie_def)
    next
      case False
      have "find (\<lambda>ch. chan_filter ch = flt') ?chs = find (\<lambda>ch. chan_filter ch = flt') (channels jn)"
      proof (rule find_cong_set [OF d])
        fix ch :: "('a, 'b) Channel" assume "chan_filter ch = flt'"
        then show "ch \<in> set ?chs \<longleftrightarrow> ch \<in> set (channels jn)"
          using False assms(2) by (auto simp: in_set_conv_nth nth_list_update)
      qed
      with False show ?thesis by (simp add: chan_of_def set_trie_def)
    qed
  qed
qed

lemma find_byname:
  assumes "junction_ok jn"
  shows "index_find (CmpKeyWithChannelAsStrings (channels jn)) flt (byname jn) = None \<longleftrightarrow> chan_of jn flt = None"
  using chan_index.find_None [OF junction_okD(6) [OF assms], of flt] junction_okD(1) [OF assms]
  by (auto simp: chan_of_def find_None_iff in_set_conv_nth)

lemma index_insert_perm: "mset (index_insert cmp x xs) = add_mset x (mset xs)"
  unfolding index_insert_def Let_def by (rule mset_insert_at)

lemma channel_for_refines:
  assumes ok: "junction_ok jn" and wild: "is_wild flt" and r: "channel_for sm jn flt = (jn', c)"
  shows "junction_ok jn'" "c < length (channels jn')" "chan_filter (channels jn' ! c) = flt"
    "chan_of jn' = (chan_of jn)(flt \<mapsto> (case chan_of jn flt of None \<Rightarrow> TrieInit | Some t \<Rightarrow> t))"
proof -
  let ?chs = "channels jn @ [\<lparr>chan_filter = flt, chan_trie = TrieInit\<rparr>]"
  let ?c = "length (channels jn)"
  have "junction_ok jn' \<and> c < length (channels jn') \<and> chan_filter (channels jn' ! c) = flt \<and>
    chan_of jn' = (chan_of jn)(flt \<mapsto> (case chan_of jn flt of None \<Rightarrow> TrieInit | Some t \<Rightarrow> t))"
  proof (cases "index_find (CmpKeyWithChannelAsStrings (channels jn)) flt (byname jn)")
    case (Some i)
    then have "jn' = jn" "c = byname jn ! i" using r by (auto simp: channel_for_def)
    moreover have "i < length (byname jn)" "chan_filter (channels jn ! (byname jn ! i)) = flt"
      using chan_index.find_Some [OF Some] by auto
    moreover from this have "byname jn ! i < length (channels jn)"
      using junction_okD(1) [OF ok] nth_mem [of i "byname jn"] by auto
    ultimately show ?thesis
      using ok chan_of_nth [OF ok, of c] by (auto simp: fun_eq_iff)
  next
    case None
    then have none: "chan_of jn flt = None" using find_byname [OF ok] by simp
    have jn': "channels jn' = ?chs" "byname jn' = index_insert (CmpChannelsAsStrings ?chs) ?c (byname jn)"
      "byuse jn' = index_insert (CmpChannels sm ?chs) ?c (byuse jn)" and c: "c = ?c"
      using r None by (auto simp: channel_for_def Let_def)
    have same: "map (\<lambda>c. chan_filter (?chs ! c)) (byname jn) = map (\<lambda>c. chan_filter (channels jn ! c)) (byname jn)"
      using junction_okD(1) [OF ok] by (auto simp: nth_append)
    have "sorted (map (\<lambda>c. chan_filter (?chs ! c)) (byname jn'))"
      unfolding jn'(2) by (rule chan_index.sorted_insert) (simp only: same junction_okD(6) [OF ok])
    moreover have fresh: "flt \<notin> chan_filter ` set (channels jn)"
      using none by (simp add: chan_of_def find_none_iff)
    moreover have "mset (byname jn') = mset [0..<length ?chs]" "mset (byuse jn') = mset [0..<length ?chs]"
      using ok unfolding jn'(2,3) index_insert_perm by (auto simp: junction_ok_def)
    ultimately have "junction_ok jn'"
      using ok wild unfolding junction_ok_def jn'(1) by (auto simp: junction_ok_def)
    moreover have "chan_of jn' = (chan_of jn)(flt \<mapsto> TrieInit)"
    proof
      fix f show "chan_of jn' f = ((chan_of jn)(flt \<mapsto> TrieInit)) f"
        using fresh none by (auto simp: chan_of_def jn'(1) find_append find_None_iff split: option.split dest: find_SomeD)
    qed
    ultimately show ?thesis using jn'(1) c none by simp
  qed
  then show "junction_ok jn'" "c < length (channels jn')" "chan_filter (channels jn' ! c) = flt"
    "chan_of jn' = (chan_of jn)(flt \<mapsto> (case chan_of jn flt of None \<Rightarrow> TrieInit | Some t \<Rightarrow> t))"
    by blast+
qed

lemma is_wild_star [simp]: "is_wild ''*''"
  by (simp add: is_wild_def)

text \<open>
  \<open>registry\<close> is the abstraction of a junction: the node registered for a filter and a path.
  Adding a sequence updates the registry at the sequence's own filter and path, nowhere else.
\<close>

definition registry :: "('d, 'f) Junction \<Rightarrow> string \<Rightarrow> string list \<Rightarrow> ('d, 'f) Node option" where
  "registry jn flt ws = (case chan_of jn flt of None \<Rightarrow> None | Some t \<Rightarrow> trie_at t ws)"

definition seq_path :: "string list \<Rightarrow> string list" where
  "seq_path seq = upto_end (snd (seq_filter seq))"

lemma JunctionAdd_refines:
  assumes ok: "junction_ok jn"
  shows "junction_ok (fst (JunctionAdd sm jn seq d fl df))"
    "registry (fst (JunctionAdd sm jn seq d fl df)) =
       (registry jn)(fst (seq_filter seq) :=
         (registry jn (fst (seq_filter seq)))(seq_path seq \<mapsto>
            fst (TrieAdd_node (registry jn (fst (seq_filter seq)) (seq_path seq)) d fl df)))"
    "snd (JunctionAdd sm jn seq d fl df) =
       snd (TrieAdd_node (registry jn (fst (seq_filter seq)) (seq_path seq)) d fl df)"
proof -
  let ?f = "fst (seq_filter seq)" and ?s = "snd (seq_filter seq)" and ?p = "seq_path seq"
  obtain jn' c where ch: "channel_for sm jn ?f = (jn', c)" by (cases "channel_for sm jn ?f")
  have wild: "is_wild ?f" by (auto simp: seq_filter_def Let_def)
  note cf = channel_for_refines [OF ok wild ch]
  define t where "t = chan_trie (channels jn' ! c)"
  have some: "chan_of jn' ?f = Some t" using chan_of_nth [OF cf(1,2)] cf(3) by (simp add: t_def)
  then have tok: "trie_ok t" using chan_of_ok [OF cf(1)] by blast
  have t: "t = (case chan_of jn ?f of None \<Rightarrow> TrieInit | Some t \<Rightarrow> t)" using some cf(4) by simp
  have at: "trie_at t = registry jn ?f"
    unfolding t by (auto simp: registry_def split: option.split)
  have clean: "[] \<notin> set ?p" by (auto simp: seq_path_def dest: set_takeWhileD)
  define r where "r = TrieAdd t ?p d fl df"
  have r: "TrieAdd t ?s d fl df = r" by (simp add: r_def seq_path_def TrieAdd_upto_end)
  have spec: "trie_ok (fst r)" "trie_at (fst r) = (trie_at t)(?p \<mapsto> fst (TrieAdd_node (trie_at t ?p) d fl df))"
    "snd r = snd (TrieAdd_node (trie_at t ?p) d fl df)"
    using TrieAdd_refines [OF tok clean, of d fl df] by (simp_all only: r_def)
  have add: "JunctionAdd sm jn seq d fl df = (set_trie jn' c (fst r), snd r)"
    using ch r by (simp add: JunctionAdd_def t_def split_def Let_def)
  note st = set_trie_ok [OF cf(1,2) spec(1)]
  show "junction_ok (fst (JunctionAdd sm jn seq d fl df))" using add st(1) by simp
  show "snd (JunctionAdd sm jn seq d fl df) = snd (TrieAdd_node (registry jn ?f ?p) d fl df)"
    using add spec(3) at by simp
  show "registry (fst (JunctionAdd sm jn seq d fl df)) =
       (registry jn)(?f := (registry jn ?f)(?p \<mapsto> fst (TrieAdd_node (registry jn ?f ?p) d fl df)))"
  proof (intro ext)
    fix f ws
    show "registry (fst (JunctionAdd sm jn seq d fl df)) f ws =
       ((registry jn)(?f := (registry jn ?f)(?p \<mapsto> fst (TrieAdd_node (registry jn ?f ?p) d fl df)))) f ws"
      using spec(2) at cf(3,4) st(2)
      by (cases "f = ?f") (simp_all add: add registry_def)
  qed
qed


lemma TruncBranch_loop_refines:
  assumes "junction_ok jn" "set cs \<subseteq> {..<length (channels jn)}" "distinct cs" "[] \<notin> set seq"
  shows "junction_ok (fst (JunctionTruncBranch_loop jn cs seq)) \<and>
     registry (fst (JunctionTruncBranch_loop jn cs seq)) flt ws =
       (if flt \<in> (\<lambda>c. chan_filter (channels jn ! c)) ` set cs \<and> take (length seq) ws = seq
        then None else registry jn flt ws)"
  using assms
proof (induction cs arbitrary: jn)
  case (Cons c cs)
  let ?t = "chan_trie (channels jn ! c)"
  define r where "r = TrieTruncBranch ?t seq"
  define jn' where "jn' = set_trie jn c (fst r)"
  have c: "c < length (channels jn)" using Cons.prems(2) by simp
  have cof: "chan_of jn (chan_filter (channels jn ! c)) = Some ?t" by (rule chan_of_nth [OF Cons.prems(1) c])
  then have "trie_ok ?t" using chan_of_ok [OF Cons.prems(1)] by blast
  note rr = TrieTruncBranch_refines [OF this Cons.prems(4), folded r_def]
  note st = set_trie_ok [OF Cons.prems(1) c, of "fst r", folded jn'_def]
  have len: "length (channels jn') = length (channels jn)" by (simp add: jn'_def set_trie_def)
  have flt: "chan_filter (channels jn' ! k) = chan_filter (channels jn ! k)" for k
    using c by (simp add: jn'_def set_trie_def nth_list_update)
  have reg: "registry jn' f ws = (if f = chan_filter (channels jn ! c) \<and> take (length seq) ws = seq
      then None else registry jn f ws)" for f
    using rr st(2) cof by (auto simp: registry_def)
  have loop: "fst (JunctionTruncBranch_loop jn (c # cs) seq) = fst (JunctionTruncBranch_loop jn' cs seq)"
    by (simp add: jn'_def r_def split_def Let_def)
  have "junction_ok jn'" using rr st(1) by blast
  from Cons.IH [OF this] Cons.prems(2-) len
  show ?case unfolding loop by (auto simp: flt reg)
qed simp

section \<open>Candidates of a lookup\<close>

text \<open>
  What a channel contributes to a lookup: the depth and the datum of the longest registered
  prefix in its trie, if its filter admits the last word.
\<close>

definition candidate :: "(string \<Rightarrow> string \<Rightarrow> bool) \<Rightarrow> ('d, 'f) Channel list \<Rightarrow> string list \<Rightarrow> nat \<Rightarrow> (nat \<times> 'd) option" where
  "candidate adm chs seq c =
     (if adm (last seq) (chan_filter (chs ! c)) then
        (case best_prefix (chan_trie (chs ! c)) seq of
           None \<Rightarrow> None
         | Some k \<Rightarrow> map_option (Pair k) (data_at (chan_trie (chs ! c)) seq k))
      else None)"

definition first_deepest :: "(nat \<times> 'd) list \<Rightarrow> 'd option" where
  "first_deepest cands = map_option snd (find (\<lambda>x. fst x = Max (fst ` set cands)) cands)"

fun keep_deepest :: "(nat \<times> 'd) \<Rightarrow> (nat \<times> 'd) list \<Rightarrow> (nat \<times> 'd)" where
  "keep_deepest x [] = x"
| "keep_deepest x (y # ys) = keep_deepest (if fst y > fst x then y else x) ys"

lemma keep_deepest_fst: "fst (keep_deepest x ys) = Max (insert (fst x) (fst ` set ys))"
proof (induction x ys rule: keep_deepest.induct)
  case (2 x y ys)
  then show ?case by (cases "ys = []") (auto simp: max_def)
qed simp

lemma first_deepest_keep: "first_deepest (x # ys) = Some (snd (keep_deepest x ys))"
proof (induction x ys rule: keep_deepest.induct)
  case (1 x)
  then show ?case by (simp add: first_deepest_def)
next
  case (2 x y ys)
  let ?m = "Max (fst ` set (x # y # ys))"
  show ?case
  proof (cases "fst y > fst x")
    case True
    have "?m = Max (fst ` set (y # ys))" using True by (cases "ys = []") (auto simp: max_def)
    moreover have "fst x \<noteq> ?m" using True by (metis Max_ge finite_imageI List.finite_set image_eqI list.set_intros leD)
    ultimately show ?thesis using 2 True by (simp add: first_deepest_def)
  next
    case False
    then have m: "?m = Max (fst ` set (x # ys))" by (cases "ys = []") (auto simp: max_def)
    show ?thesis
    proof (cases "fst x = ?m")
      case True
      then show ?thesis using 2 False m by (auto simp: first_deepest_def) (metis snd_conv)
    next
      case neq: False
      moreover have "fst x \<le> ?m" by (rule Max_ge) auto
      ultimately have "fst y \<noteq> ?m" using False by linarith
      then show ?thesis using 2 False m neq by (simp add: first_deepest_def)
    qed
  qed
qed

lemma JunctionFind_loop_spec:
  assumes "\<And>c. c \<in> set cs \<Longrightarrow> trie_ok (chan_trie (chs ! c))" "[] \<notin> set seq"
  shows "JunctionFind_loop sm chs cs seq fast (map_option snd acc) (case acc of None \<Rightarrow> 0 | Some x \<Rightarrow> fst x) =
     (let cands = List.map_filter (candidate (if fast then (=) else sm) chs seq) cs
      in case acc of None \<Rightarrow> first_deepest cands | Some x \<Rightarrow> Some (snd (keep_deepest x cands)))"
  using assms(1)
proof (induction cs arbitrary: acc)
  case Nil
  then show ?case by (auto simp: first_deepest_def map_filter_simps split: option.split)
next
  case (Cons c cs)
  let ?adm = "if fast then (=) else sm"
  let ?t = "chan_trie (chs ! c)"
  have ok: "trie_ok ?t" and IH: "\<And>acc. JunctionFind_loop sm chs cs seq fast (map_option snd acc)
      (case acc of None \<Rightarrow> 0 | Some x \<Rightarrow> fst x) =
     (let cands = List.map_filter (candidate ?adm chs seq) cs
      in case acc of None \<Rightarrow> first_deepest cands | Some x \<Rightarrow> Some (snd (keep_deepest x cands)))"
    using Cons by auto
  have find: "TrieFind ?t seq 0 = (case best_prefix ?t seq of None \<Rightarrow> (None, 0) | Some k \<Rightarrow> (data_at ?t seq k, k))"
    using TrieFind_spec [OF ok assms(2), of 0] by (simp split: option.split)
  have nz: "best_prefix ?t seq = Some k \<Longrightarrow> \<exists>d. data_at ?t seq k = Some d" for k
    unfolding best_prefix_def using find_SomeD [of "\<lambda>k. data_at ?t seq k \<noteq> None"] by blast
  show ?case
  proof (cases "candidate ?adm chs seq c")
    case None
    then have "\<not> ?adm (last seq) (chan_filter (chs ! c)) \<or> TrieFind ?t seq 0 = (None, 0)"
      using find nz by (force simp: candidate_def split: if_splits option.splits)
    with None IH [of acc] IH [of None] show ?thesis
      by (auto simp: map_filter_simps Let_def split: option.splits if_splits)
  next
    case (Some x)
    then have adm: "?adm (last seq) (chan_filter (chs ! c))" and tf: "TrieFind ?t seq 0 = (Some (snd x), fst x)"
      using find by (auto simp: candidate_def split: if_splits option.splits)
    show ?thesis
    proof (cases acc)
      case None
      with Some adm tf IH [of "Some x"] show ?thesis
        by (auto simp: map_filter_simps Let_def first_deepest_keep split: if_splits)
    next
      case acc: (Some y)
      with Some adm tf IH [of "Some x"] IH [of "Some y"] show ?thesis
        by (auto simp: map_filter_simps Let_def split: if_splits)
    qed
  qed
qed

lemma JunctionFind_spec:
  assumes "junction_ok jn" "[] \<notin> set seq"
  shows "JunctionFind sm jn seq fast =
     first_deepest (List.map_filter (candidate (if fast then (=) else sm) (channels jn) seq) (byuse jn))"
proof -
  have "\<And>c. c \<in> set (byuse jn) \<Longrightarrow> trie_ok (chan_trie (channels jn ! c))"
    using junction_okD(2) [OF assms(1)] assms(1) by (auto simp: junction_ok_def)
  from JunctionFind_loop_spec [where acc = None, OF this assms(2)] show ?thesis
    by (simp add: JunctionFind_def Let_def)
qed

section \<open>Word sequences of a URL\<close>

lemma MkSeq_words_clean:
  "w \<in> set (MkSeq_words url) \<Longrightarrow> w \<noteq> [] \<and> CHR ''/'' \<notin> set w"
proof (induction url rule: MkSeq_words.induct)
  case (1 url)
  show ?case
  proof (cases "url = [] \<or> hd url = CHR ''/''")
    case True
    with 1 show ?thesis by (auto simp: MkSeq_words.simps [of url] split: if_splits)
  next
    case False
    then obtain c cs where url: "url = c # cs" "c \<noteq> CHR ''/''" by (cases url) auto
    let ?l = "length (takeWhile (\<lambda>c. c \<noteq> CHR ''/'') url)"
    have tk: "take ?l url = takeWhile (\<lambda>c. c \<noteq> CHR ''/'') url" by (metis takeWhile_eq_take)
    have tw: "takeWhile (\<lambda>c. c \<noteq> CHR ''/'') url \<noteq> []" "CHR ''/'' \<notin> set (takeWhile (\<lambda>c. c \<noteq> CHR ''/'') url)"
      using url by (auto dest: set_takeWhileD)
    show ?thesis
    proof (cases "CHR ''/'' \<in> set url")
      case True
      then have "w = take ?l url \<or> w \<in> set (MkSeq_words (drop (?l + 1) url))"
        using 1(3) False by (subst (asm) MkSeq_words.simps) (simp add: Let_def)
      then show ?thesis using 1(1) [OF _ _ refl True] False tk tw by auto
    next
      case noslash: False
      then have "w = url"
        using 1(3) False by (subst (asm) MkSeq_words.simps) (simp add: Let_def)
      then show ?thesis using noslash url by simp
    qed
  qed
qed

lemma MkSeq_words_path:
  assumes "w \<noteq> []" "CHR ''/'' \<notin> set w"
  shows "MkSeq_words (CHR ''/'' # w @ CHR ''/'' # rest) = w # MkSeq_words rest"
    and "MkSeq_words (CHR ''/'' # w) = [w]"
proof -
  have tw: "takeWhile (\<lambda>c. c \<noteq> CHR ''/'') (w @ CHR ''/'' # rest) = w"
    using assms(2) by (subst takeWhile_append2) auto
  have hd: "hd w \<noteq> CHR ''/''" using assms by (cases w) auto
  have "MkSeq_words (w @ CHR ''/'' # rest) = w # MkSeq_words rest"
    using assms tw hd by (subst MkSeq_words.simps) (auto simp: Let_def hd_append)
  then show "MkSeq_words (CHR ''/'' # w @ CHR ''/'' # rest) = w # MkSeq_words rest"
    by (subst MkSeq_words.simps) simp
  have "MkSeq_words w = [w]"
    using assms hd by (subst MkSeq_words.simps) (auto simp: Let_def)
  then show "MkSeq_words (CHR ''/'' # w) = [w]" by (subst MkSeq_words.simps) simp
qed


lemma MkSeq_clean: "method \<noteq> [] \<Longrightarrow> [] \<notin> set (MkSeq method url)"
  using MkSeq_words_clean by (auto simp: MkSeq_def)

section \<open>Facts on whole spaces\<close>

definition space_ok :: "('d, 'f) urlspace \<Rightarrow> bool" where
  "space_ok sp \<longleftrightarrow> (\<forall>jn. Some jn \<in> set sp \<longrightarrow> junction_ok jn)"

definition space_reg :: "('d, 'f) urlspace \<Rightarrow> nat \<Rightarrow> string \<Rightarrow> string list \<Rightarrow> ('d, 'f) Node option" where
  "space_reg sp i = (case sp ! i of None \<Rightarrow> (\<lambda>_ _. None) | Some jn \<Rightarrow> registry jn)"

lemma registry_new [simp]: "registry junction_new = (\<lambda>_ _. None)"
  by (intro ext) (simp add: registry_def chan_of_def junction_new_def)

lemma JunctionGet_facts:
  assumes "space_ok sp" "i < length sp" "JunctionGet sp i = (sp', jn)"
  shows "junction_ok jn" "registry jn = space_reg sp i" "length sp' = length sp" "space_ok sp'"
    "space_reg sp' = space_reg sp" "sp' ! i = Some jn"
proof -
  have "junction_ok jn \<and> registry jn = space_reg sp i \<and> length sp' = length sp \<and> space_ok sp' \<and>
      space_reg sp' = space_reg sp \<and> sp' ! i = Some jn"
  proof (cases "sp ! i")
    case None
    then have r: "sp' = sp[i := Some junction_new]" "jn = junction_new" using assms(3) by (simp_all add: JunctionGet_def)
    have "space_reg sp' k = space_reg sp k" for k
      using None assms(2) by (cases "k = i") (simp_all add: r space_reg_def)
    moreover have "space_ok sp'"
      using assms(1) by (auto simp: r space_ok_def dest!: set_update_subset_insert [THEN subsetD])
    ultimately show ?thesis using None assms(2) by (auto simp: r space_reg_def)
  next
    case (Some j)
    then have r: "sp' = sp" "jn = j" using assms(3) by (auto simp: JunctionGet_def)
    moreover have "junction_ok j" using assms(1) nth_mem [OF assms(2)] Some by (simp add: space_ok_def)
    ultimately show ?thesis using Some assms(1) by (simp add: space_reg_def)
  qed
  then show "junction_ok jn" "registry jn = space_reg sp i" "length sp' = length sp" "space_ok sp'"
    "space_reg sp' = space_reg sp" "sp' ! i = Some jn"
    by blast+
qed

lemma space_update:
  assumes "space_ok sp" "i < length sp" "junction_ok jn"
  shows "space_ok (sp[i := Some jn])" "space_reg (sp[i := Some jn]) = (space_reg sp)(i := registry jn)"
  using assms
  by (auto simp: space_ok_def space_reg_def fun_eq_iff nth_list_update
        dest!: set_update_subset_insert [THEN subsetD])

lemma TrieAdd_node_data:
  "(if has_flag fl NS_OP_NOINHERIT then dataNoInherit (fst (TrieAdd_node ndo d fl df))
    else dataInherit (fst (TrieAdd_node ndo d fl df))) = Some d"
  by (simp add: TrieAdd_node_def split_def Let_def)

lemma FindExact_registry:
  assumes "junction_ok jn" "[] \<notin> set seq" "\<not> is_wild (hd seq)" "seq \<noteq> []"
    and "registry jn (fst (seq_filter seq)) (seq_path seq) = Some nd"
  shows "JunctionFindExact jn seq fl =
     (if has_flag fl NS_OP_NOINHERIT then dataNoInherit nd else dataInherit nd)"
proof -
  let ?f = "fst (seq_filter seq)" and ?s = "snd (seq_filter seq)"
  obtain t where t: "chan_of jn ?f = Some t" "trie_at t (seq_path seq) = Some nd"
    using assms(5) by (auto simp: registry_def split: option.splits)
  have tok: "trie_ok t" using chan_of_ok [OF assms(1) t(1)] by simp
  have clean: "[] \<notin> set (seq_path seq)" by (auto simp: seq_path_def dest: set_takeWhileD)
  have "TrieFindExact t ?s fl = TrieFindExact t (seq_path seq) fl"
    by (simp add: seq_path_def TrieFindExact_upto_end)
  also have "\<dots> = (if has_flag fl NS_OP_NOINHERIT then dataNoInherit nd else dataInherit nd)"
    using TrieFindExact_refines [OF tok clean] t(2) by simp
  finally have ex: "TrieFindExact t ?s fl =
     (if has_flag fl NS_OP_NOINHERIT then dataNoInherit nd else dataInherit nd)" .
  show ?thesis
  proof (cases "length seq - 1 > 0 \<and> is_wild (last seq)")
    case True
    then have "seq_filter seq = (last seq, cut_last seq)" by (simp add: seq_filter_def Let_def)
    with t ex show ?thesis by (simp add: JunctionFindExact_refines [OF assms(1)])
  next
    case False
    have "\<not> is_wild (last seq)"
    proof (cases "length seq - 1 > 0")
      case short: False
      then have "last seq = hd seq" using assms(4) by (cases seq) auto
      then show ?thesis using assms(3) by simp
    qed (use False in simp)
    then have "chan_of jn (last seq) = None" using chan_of_ok [OF assms(1)] by (metis not_None_eq)
    moreover have "seq_filter seq = (''*'', seq)" using False by (auto simp: seq_filter_def Let_def)
    ultimately show ?thesis using t ex by (simp add: JunctionFindExact_refines [OF assms(1)])
  qed
qed

section \<open>One registration in a fresh space\<close>

lemma index_insert_Nil [simp]: "index_insert cmp x [] = [x]"
  by (simp add: index_insert_def)

lemma index_find_Nil [simp]: "index_find cmp k [] = None"
  by (simp add: index_find_def NsBsearch.simps)

lemma JunctionAdd_new:
  "JunctionAdd sm junction_new seq d fl df =
     (\<lparr>channels = [\<lparr>chan_filter = fst (seq_filter seq),
                    chan_trie = fst (TrieAdd TrieInit (snd (seq_filter seq)) d fl df)\<rparr>],
       byname = [0], byuse = [0]\<rparr>, snd (TrieAdd TrieInit (snd (seq_filter seq)) d fl df))"
  by (simp add: JunctionAdd_def channel_for_def junction_new_def set_trie_def split_def Let_def)

lemma TrieAdd_TrieInit:
  fixes d :: 'd and df :: "'f option"
  shows "trie_ok (fst (TrieAdd TrieInit s d fl df))"
    and "trie_at (fst (TrieAdd TrieInit s d fl df)) = Map.empty(upto_end s \<mapsto> fst (TrieAdd_node None d fl df))"
    and "snd (TrieAdd TrieInit s d fl df) = []"
proof -
  have clean: "[] \<notin> set (upto_end s)" by (auto dest: set_takeWhileD)
  note r = TrieAdd_refines [OF trie_ok_TrieInit clean, where 'a = 'd and 'b = 'f, of d fl df,
      unfolded TrieAdd_upto_end trie_at_TrieInit]
  show "trie_ok (fst (TrieAdd TrieInit s d fl df))" using r by blast
  show "trie_at (fst (TrieAdd TrieInit s d fl df)) = Map.empty(upto_end s \<mapsto> fst (TrieAdd_node None d fl df))"
    using r by (auto simp: fun_eq_iff)
  show "snd (TrieAdd TrieInit s d fl df) = []" using r by (simp add: TrieAdd_node_def Let_def)
qed

lemma Set_fresh:
  assumes "i < length sp" "sp ! i = None"
  shows "Ns_UrlSpecificSet sm sp method url i d fl df =
     (sp[i := Some (fst (JunctionAdd sm junction_new (MkSeq method url) d fl df))], [])"
  using assms
  by (simp add: Ns_UrlSpecificSet_def JunctionGet_def JunctionAdd_new TrieAdd_TrieInit(3))

lemma DeleteNode_single:
  assumes "byuse jn = [0]" "channels jn = [\<lparr>chan_filter = f, chan_trie = t\<rparr>]" "byname jn = [0]"
    and "s = (if length seq = 3 \<and> last seq = f then cut_last seq else seq)"
    and "length seq = 3 \<and> last seq = f \<or> sm (last seq) f"
  shows "JunctionDeleteNode sm jn seq fl =
     (case TrieFindExact t s fl of
        None \<Rightarrow> (jn, None, [])
      | Some d \<Rightarrow> (set_trie jn 0 (fst (TrieDelete t s fl)), Some d, snd (snd (TrieDelete t s fl))))"
proof -
  have "length seq - 1 = 2 \<longleftrightarrow> length seq = 3" by arith
  with assms show ?thesis
    by (auto simp: JunctionDeleteNode_def Let_def split_def split: option.split)
qed

lemma TrieDelete_single:
  assumes "trie_ok t" "trie_at t = Map.empty(ws \<mapsto> fst (TrieAdd_node None d fl df))" "upto_end s = ws"
  shows "TrieFindExact t s fl = Some d"
    and "snd (snd (TrieDelete t s fl)) = (if has_flag fl NS_OP_NODELETE then [] else call df (Some d))"
    and "trie_ok (fst (TrieDelete t s fl))"
    and "\<exists>nd. trie_at (fst (TrieDelete t s fl)) = Map.empty(ws \<mapsto> nd) \<and>
           (if has_flag fl NS_OP_NOINHERIT then dataNoInherit nd else dataInherit nd) = None"
proof -
  let ?nd = "fst (TrieAdd_node None d fl df)"
  have clean: "[] \<notin> set ws" using assms(3) by (auto dest: set_takeWhileD)
  have s: "TrieFindExact t s fl = TrieFindExact t ws fl" "TrieDelete t s fl = TrieDelete t ws fl"
    using assms(3) TrieFindExact_upto_end [of t s fl] TrieDelete_upto_end [of t s fl] by simp_all
  show "TrieFindExact t s fl = Some d"
    unfolding s TrieFindExact_refines [OF assms(1) clean] using TrieAdd_node_data [of fl None d df]
    by (simp add: assms(2))
  note dl = TrieDelete_refines [OF assms(1) clean, of fl]
  show "trie_ok (fst (TrieDelete t s fl))" using dl s by simp
  show "snd (snd (TrieDelete t s fl)) = (if has_flag fl NS_OP_NODELETE then [] else call df (Some d))"
    using dl s by (auto simp: assms(2) TrieDelete_node_def TrieAdd_node_def Let_def node_calloc_def)
  show "\<exists>nd. trie_at (fst (TrieDelete t s fl)) = Map.empty(ws \<mapsto> nd) \<and>
           (if has_flag fl NS_OP_NOINHERIT then dataNoInherit nd else dataInherit nd) = None"
    using dl s by (auto simp: assms(2) TrieDelete_node_def fun_eq_iff)
qed

section \<open>Patterns that end in a star\<close>

text \<open>
  What the documentation of \<open>Tcl_StringMatch\<close> says of a pattern that is a literal text followed
  by a star, and a matcher for which it holds.
\<close>

definition star_suffix :: "str_match \<Rightarrow> bool" where
  "star_suffix sm \<longleftrightarrow>
     (\<forall>s q. set q \<inter> set ''*?[]'' = {} \<longrightarrow> CHR 0x5C \<notin> set q \<longrightarrow> sm s (q @ ''*'') = (take (length q) s = q))"

fun glob_match :: str_match where
  "glob_match [] [] = True"
| "glob_match (c # s) [] = False"
| "glob_match [] (p # ps) = (p = CHR ''*'' \<and> glob_match [] ps)"
| "glob_match (c # s) (p # ps) =
     (if p = CHR ''*'' then glob_match (c # s) ps \<or> glob_match s (p # ps)
      else (p = CHR ''?'' \<or> p = c) \<and> glob_match s ps)"

lemma glob_match_star: "glob_match s ''*''"
  by (induction s) auto

lemma star_suffix_glob_match: "star_suffix glob_match"
proof -
  have "glob_match s (q @ ''*'') = (take (length q) s = q)" if "set q \<inter> set ''*?[]'' = {}" for s q
    using that
  proof (induction q arbitrary: s)
    case Nil
    then show ?case by (simp add: glob_match_star)
  next
    case (Cons c q)
    then show ?case by (cases s) auto
  qed
  then show ?thesis by (simp add: star_suffix_def)
qed

lemma star_suffixD:
  assumes "star_suffix sm"
  shows "sm s ''*''" "sm s ''a*'' = (take (Suc 0) s = ''a'')" "sm s ''b*'' = (take (Suc 0) s = ''b'')"
    "sm s ''bc*'' = (take (Suc (Suc 0)) s = ''bc'')"
  using assms [unfolded star_suffix_def, rule_format, of "[]" s]
    assms [unfolded star_suffix_def, rule_format, of "''a''" s]
    assms [unfolded star_suffix_def, rule_format, of "''b''" s]
    assms [unfolded star_suffix_def, rule_format, of "''bc''" s]
  by simp_all

lemma MkSeq1: "w \<noteq> [] \<Longrightarrow> CHR ''/'' \<notin> set w \<Longrightarrow> MkSeq m (CHR ''/'' # w) = [m, w]"
  by (simp add: MkSeq_def MkSeq_words_path(2))

lemmas junction_eval = seq_filter_def is_wild_def cut_last_def JunctionAdd_def channel_for_def
  set_trie_def index_eval CmpKeyWithChannelAsStrings_def CmpChannelsAsStrings_def CmpChannels_def
  cmp_contains_def CmpKeyWithBranch_def CmpBranches_def TrieInit_def TrieAdd_node_def
  junction_new_def JunctionGet_def


section \<open>Properties\<close>

text \<open>
  C1: \<open>TrieFind\<close> returns the data of the longest prefix of the word sequence that carries data
  visible from it (non-inheriting data only at the full sequence, where it takes precedence),
  together with the depth of that prefix; NULL and an unchanged depth if there is none.
\<close>

theorem trie_find_longest_prefix:
  assumes "trie_ok t" "[] \<notin> set ws"
  shows "TrieFind t ws depth =
     (case find (\<lambda>k. data_at t ws k \<noteq> None) (rev [0..<Suc (length ws)]) of
        None \<Rightarrow> (None, depth)
      | Some k \<Rightarrow> (data_at t ws k, depth + k))"
  using TrieFind_spec [OF assms] by (simp only: best_prefix_def)

lemma trie_find_longest_prefix_witness:
  "TrieFind (fst (TrieAdd TrieInit [''GET''] (7 :: nat) 0 (None :: unit option))) [''GET'', ''a''] 0 = (Some 7, 1)"
proof -
  let ?t = "fst (TrieAdd TrieInit [''GET''] (7 :: nat) 0 (None :: unit option))"
  have at: "trie_ok ?t" "trie_at ?t = Map.empty([''GET''] \<mapsto> fst (TrieAdd_node None 7 0 None))"
    using TrieAdd_refines [of TrieInit "[''GET'']" "7 :: nat" 0 "None :: unit option"]
    by (auto simp: fun_eq_iff simp del: trie_at.simps TrieAdd.simps)
  show ?thesis
    using trie_find_longest_prefix [OF at(1), of "[''GET'', ''a'']" 0]
    by (simp add: data_at_def at TrieAdd_node_def node_calloc_def del: trie_at.simps TrieAdd.simps)
qed

text \<open>
  C2: a lookup in a junction takes, of the channels whose filter admits the last word of the URL
  (by pattern match, or by equality in the fast variant), the datum of the deepest registered
  prefix; among equally deep ones the channel that stands first in the by-use order wins.
\<close>

theorem junction_find_deepest:
  assumes "junction_ok jn" "method \<noteq> []"
  shows "JunctionFind sm jn (MkSeq method url) fast =
     first_deepest (List.map_filter
       (candidate (if fast then (=) else sm) (channels jn) (MkSeq method url)) (byuse jn))"
  using JunctionFind_spec [OF assms(1) MkSeq_clean [OF assms(2)]] .

lemma junction_find_deepest_witness:
  "JunctionFind (\<lambda>s p. True) (junction_new :: (nat, unit) Junction) (MkSeq ''GET'' ''/x'') False = None"
  using junction_find_deepest [OF junction_ok_new, of "''GET''" "\<lambda>s p. True" "''/x''" False]
  by (simp add: junction_new_def first_deepest_def map_filter_simps)



text \<open>
  After \<open>Ns_UrlSpecificSet\<close>, \<open>Ns_UrlSpecificGetExact\<close> with the same method, URL and flags
  returns the data, whatever was registered before, with or without a wildcard in the URL (for
  methods that contain no wildcard).
\<close>

theorem url_specific_set_get_exact:
  assumes "space_ok sp" "i < length sp" "method \<noteq> []" "\<not> is_wild method"
  shows "snd (Ns_UrlSpecificGetExact (fst (Ns_UrlSpecificSet sm sp method url i d fl df)) method url i fl) = Some d"
proof -
  let ?seq = "MkSeq method url"
  let ?f = "fst (seq_filter ?seq)" and ?p = "seq_path ?seq"
  obtain sp' jn where g: "JunctionGet sp i = (sp', jn)" by (cases "JunctionGet sp i")
  note gf = JunctionGet_facts [OF assms(1,2) g]
  define jn' where "jn' = fst (JunctionAdd sm jn ?seq d fl df)"
  note ja = JunctionAdd_refines [OF gf(1), of sm ?seq d fl df, folded jn'_def]
  have get: "JunctionGet (fst (Ns_UrlSpecificSet sm sp method url i d fl df)) i = (sp'[i := Some jn'], jn')"
    using g gf(3) assms(2) by (simp add: Ns_UrlSpecificSet_def JunctionGet_def jn'_def split_def Let_def)
  have "registry jn' ?f ?p = Some (fst (TrieAdd_node (registry jn ?f ?p) d fl df))"
    using ja(2) by simp
  from FindExact_registry [OF ja(1) MkSeq_clean [OF assms(3)] _ _ this, of fl] assms(4)
    TrieAdd_node_data [of fl "registry jn ?f ?p" d df]
  show ?thesis using get by (simp add: Ns_UrlSpecificGetExact_def MkSeq_def)
qed

lemma url_specific_set_get_exact_witness:
  "snd (Ns_UrlSpecificGetExact (fst (Ns_UrlSpecificSet (\<lambda>s p. True) (replicate 16 None) ''GET'' ''/a/*.html'' 0 (7 :: nat) 2
     (None :: unit option))) ''GET'' ''/a/*.html'' 0 2) = Some 7"
proof -
  have ok: "space_ok (replicate 16 None :: (nat, unit) urlspace)" by (simp add: space_ok_def)
  show ?thesis
    by (rule url_specific_set_get_exact [OF ok]) (simp_all add: is_wild_def)
qed

text \<open>
  \<open>Ns_UrlSpecificDestroy\<close> with \<open>NS_OP_RECURSE\<close> removes, under every filter, exactly the
  registrations at and below the word sequence of the given method and URL, and returns NULL.
\<close>

theorem url_specific_destroy_recurse:
  assumes "space_ok sp" "i < length sp" "method \<noteq> []" "has_flag fl NS_OP_RECURSE"
  shows "let seq = MkSeq method url; r = Ns_UrlSpecificDestroy sm sp method url i fl
         in fst (snd r) = None \<and> space_ok (fst r) \<and>
            (\<forall>f ws. space_reg (fst r) i f ws =
               (if take (length seq) ws = seq then None else space_reg sp i f ws))"
proof -
  let ?seq = "MkSeq method url"
  obtain sp' jn where g: "JunctionGet sp i = (sp', jn)" by (cases "JunctionGet sp i")
  note gf = JunctionGet_facts [OF assms(1,2) g]
  define jn' where "jn' = fst (JunctionTruncBranch jn ?seq)"
  have r: "Ns_UrlSpecificDestroy sm sp method url i fl = (sp'[i := Some jn'], None, snd (JunctionTruncBranch jn ?seq))"
    using g assms(4) by (simp add: Ns_UrlSpecificDestroy_def jn'_def split_def Let_def)
  have byuse: "set (byuse jn) \<subseteq> {..<length (channels jn)}" "distinct (byuse jn)"
    "(\<lambda>c. chan_filter (channels jn ! c)) ` set (byuse jn) = chan_filter ` set (channels jn)"
    using junction_okD(4) [OF gf(1)] unfolding junction_okD(2) [OF gf(1)]
    by (auto simp: in_set_conv_nth image_iff intro!: bexI [OF _ nth_mem])
  note tb = TruncBranch_loop_refines [OF gf(1) byuse(1,2) MkSeq_clean [OF assms(3)], of url,
      folded JunctionTruncBranch_def, folded jn'_def]
  have off: "f \<notin> chan_filter ` set (channels jn) \<Longrightarrow> registry jn f ws = None" for f ws
    by (simp add: registry_def chan_of_def find_none_iff [symmetric])
  have "registry jn' f ws = (if take (length ?seq) ws = ?seq then None else registry jn f ws)" for f ws
    using tb [of f ws] off [of f ws] byuse(3) by (cases "f \<in> chan_filter ` set (channels jn)") auto
  moreover have "junction_ok jn'" using tb by blast
  moreover have "i < length sp'" using gf(3) assms(2) by simp
  ultimately show ?thesis
    unfolding r using space_update [OF gf(4), of i jn'] gf(2) by (simp add: Let_def)
qed

lemma url_specific_destroy_recurse_witness:
  "fst (snd (Ns_UrlSpecificDestroy (\<lambda>s p. True) (replicate 16 None :: (nat, unit) urlspace) ''GET'' ''/a'' 0 NS_OP_RECURSE)) = None"
proof -
  have ok: "space_ok (replicate 16 None :: (nat, unit) urlspace)" by (simp add: space_ok_def)
  show ?thesis
    using url_specific_destroy_recurse [OF ok, of 0 "''GET''" NS_OP_RECURSE "''/a''" "\<lambda>s p. True"]
    by (simp add: Let_def NS_OP_RECURSE_def)
qed


text \<open>
  In a fresh space, \<open>Ns_UrlSpecificDestroy\<close> undoes \<open>Ns_UrlSpecificSet\<close> for a URL whose last
  word is no wildcard, and for a wildcard URL with exactly one directory: it returns the data,
  calls the delete procedure on it unless \<open>NS_OP_NODELETE\<close> is given, and the data is gone.
\<close>

theorem url_specific_destroy_undoes_set:
  assumes "i < length sp" "sp ! i = None" "space_ok sp" "method \<noteq> []" "\<not> is_wild method"
    and star: "\<And>s. sm s ''*''"
    and "\<not> has_flag fl NS_OP_RECURSE"
    and kind: "\<not> is_wild (last (MkSeq method url)) \<or> length (MkSeq method url) = 3"
  shows "let sp1 = fst (Ns_UrlSpecificSet sm sp method url i d fl df);
             r = Ns_UrlSpecificDestroy sm sp1 method url i fl
         in fst (snd r) = Some d \<and>
            snd (snd r) = (if has_flag fl NS_OP_NODELETE then [] else call df (Some d)) \<and>
            snd (Ns_UrlSpecificGetExact (fst r) method url i fl) = None"
proof -
  let ?seq = "MkSeq method url"
  let ?f = "fst (seq_filter ?seq)" and ?s = "snd (seq_filter ?seq)"
  define t where "t = fst (TrieAdd TrieInit ?s d fl df)"
  define jn where "jn = fst (JunctionAdd sm junction_new ?seq d fl df)"
  have jn: "jn = \<lparr>channels = [\<lparr>chan_filter = ?f, chan_trie = t\<rparr>], byname = [0], byuse = [0]\<rparr>"
    by (simp add: jn_def JunctionAdd_new t_def)
  have ok: "junction_ok jn" unfolding jn_def by (rule JunctionAdd_refines(1) [OF junction_ok_new])
  define s where "s = (if length ?seq = 3 \<and> last ?seq = ?f then cut_last ?seq else ?seq)"
  have s: "s = ?s" and adm: "length ?seq = 3 \<and> last ?seq = ?f \<or> sm (last ?seq) ?f"
    using kind star by (auto simp: s_def seq_filter_def Let_def)
  have tt: "trie_ok t" "trie_at t = Map.empty(upto_end ?s \<mapsto> fst (TrieAdd_node None d fl df))"
    by (simp_all only: t_def TrieAdd_TrieInit)
  note one = TrieDelete_single [OF tt refl]
  define jn' where "jn' = set_trie jn 0 (fst (TrieDelete t ?s fl))"
  have del: "JunctionDeleteNode sm jn ?seq fl =
      (jn', Some d, if has_flag fl NS_OP_NODELETE then [] else call df (Some d))"
    using DeleteNode_single [of jn ?f t s ?seq sm fl] s s_def adm one(1,2) by (simp add: jn jn'_def)
  have ok': "junction_ok jn'" unfolding jn'_def
    using set_trie_ok(1) [OF ok _ one(3), of 0] by (simp add: jn)
  obtain nd where nd: "registry jn' ?f (seq_path ?seq) = Some nd"
      "(if has_flag fl NS_OP_NOINHERIT then dataNoInherit nd else dataInherit nd) = None"
    using one(4) set_trie_ok(2) [OF ok _ one(3), of 0]
    by (auto simp: registry_def jn'_def jn seq_path_def split: if_splits)
  have gone: "JunctionFindExact jn' ?seq fl = None"
    using FindExact_registry [OF ok' MkSeq_clean [OF assms(4)] _ _ nd(1), of fl] nd(2) assms(5)
    by (simp add: MkSeq_def)
  have dst: "Ns_UrlSpecificDestroy sm (sp[i := Some jn]) method url i fl =
      (sp[i := Some jn'], Some d, if has_flag fl NS_OP_NODELETE then [] else call df (Some d))"
    using del assms(1,7) by (simp add: Ns_UrlSpecificDestroy_def JunctionGet_def Let_def)
  have get: "snd (Ns_UrlSpecificGetExact (sp[i := Some jn']) method url i fl) = None"
    using gone assms(1) by (simp add: Ns_UrlSpecificGetExact_def JunctionGet_def Let_def)
  show ?thesis
    using dst get by (simp add: Set_fresh [OF assms(1,2)] jn_def [symmetric] Let_def)
qed

lemma url_specific_destroy_undoes_set_witness:
  "fst (snd (Ns_UrlSpecificDestroy (\<lambda>s p. True)
     (fst (Ns_UrlSpecificSet (\<lambda>s p. True) (replicate 16 None) ''GET'' ''/a/*.html'' 0 (7 :: nat) 0 (Some ())))
     ''GET'' ''/a/*.html'' 0 0)) = Some 7"
proof -
  have ok: "space_ok (replicate 16 None :: (nat, unit) urlspace)" by (simp add: space_ok_def)
  have seq: "MkSeq ''GET'' ''/a/*.html'' = [''GET'', ''a'', ''*.html'']"
    using MkSeq_words_path(1) [of "''a''" "''*.html''"] MkSeq_words_path(2) [of "''*.html''"]
    by (simp add: MkSeq_def MkSeq_words.simps)
  show ?thesis
    using url_specific_destroy_undoes_set [of 0 "replicate 16 None :: (nat, unit) urlspace" "''GET''"
        "\<lambda>s p. True" 0 "''/a/*.html''" 7 "Some ()"] ok
    by (simp add: Let_def is_wild_def seq)
qed

text \<open>
  For a wildcard URL with no directory or with more than one, \<open>Ns_UrlSpecificDestroy\<close> after
  \<open>Ns_UrlSpecificSet\<close> in a fresh space finds nothing: it returns NULL, calls no delete procedure and
  leaves the registration in place.
\<close>

theorem url_specific_destroy_misses_wildcard:
  assumes "i < length sp" "sp ! i = None" "method \<noteq> []"
    and "\<not> has_flag fl NS_OP_RECURSE"
    and wild: "MkSeq_words url \<noteq> []" "is_wild (last (MkSeq_words url))" "length (MkSeq_words url) \<noteq> 2"
  shows "let sp1 = fst (Ns_UrlSpecificSet sm sp method url i d fl df)
         in Ns_UrlSpecificDestroy sm sp1 method url i fl = (sp1, None, [])"
proof -
  let ?seq = "MkSeq method url"
  define jn where "jn = fst (JunctionAdd sm junction_new ?seq d fl df)"
  have sf: "seq_filter ?seq = (last ?seq, cut_last ?seq)"
    using wild by (simp add: seq_filter_def MkSeq_def)
  define t where "t = fst (TrieAdd TrieInit (cut_last ?seq) d fl df)"
  have jn: "jn = \<lparr>channels = [\<lparr>chan_filter = last ?seq, chan_trie = t\<rparr>], byname = [0], byuse = [0]\<rparr>"
    by (simp add: jn_def JunctionAdd_new t_def sf)
  have clean: "[] \<notin> set ?seq" by (rule MkSeq_clean [OF assms(3)])
  then have "upto_end (cut_last ?seq) = butlast ?seq"
    by (intro upto_end_cut) (auto dest: in_set_butlastD)
  then have "trie_at t ?seq = None"
    using TrieAdd_TrieInit(2) [of "cut_last ?seq" d fl df, folded t_def]
    by (metis append_butlast_last_id append_self_conv fun_upd_apply list.distinct(1) MkSeq_def)
  then have none: "TrieFindExact t ?seq fl = None"
    using TrieFindExact_refines [OF _ clean, of t fl] TrieAdd_TrieInit(1) [of "cut_last ?seq" d fl df, folded t_def]
    by simp
  have len: "length ?seq - 1 \<noteq> 2" using wild(3) by (simp add: MkSeq_def)
  have "JunctionDeleteNode sm jn ?seq fl = (jn, None, [])"
    using none len by (simp add: JunctionDeleteNode_def jn Let_def)
  then have "Ns_UrlSpecificDestroy sm (sp[i := Some jn]) method url i fl = (sp[i := Some jn], None, [])"
    using assms(1,4) by (simp add: Ns_UrlSpecificDestroy_def JunctionGet_def Let_def)
  then show ?thesis by (simp add: Set_fresh [OF assms(1,2)] jn_def [symmetric] Let_def)
qed

lemma url_specific_destroy_misses_wildcard_witness:
  "Ns_UrlSpecificDestroy (\<lambda>s p. True)
     (fst (Ns_UrlSpecificSet (\<lambda>s p. True) (replicate 16 None) ''GET'' ''/*.html'' 0 (7 :: nat) 0 (Some ())))
     ''GET'' ''/*.html'' 0 0 =
   (fst (Ns_UrlSpecificSet (\<lambda>s p. True) (replicate 16 None) ''GET'' ''/*.html'' 0 7 0 (Some ())), None, [])"
proof -
  have seq: "MkSeq_words ''/*.html'' = [''*.html'']"
    using MkSeq_words_path(2) [of "''*.html''"] by simp
  show ?thesis
    using url_specific_destroy_misses_wildcard [of 0 "replicate 16 None :: (nat, unit) urlspace" "''GET''"
        0 "''/*.html''" "\<lambda>s p. True" 7 "Some ()"]
    by (simp add: Let_def is_wild_def seq)
qed

text \<open>
  \<open>MkSeq\<close> turns the path \<open>/w1/w2/...\<close> into the method and exactly these words: round trip for
  all words that are not empty and contain no slash.
\<close>

theorem mk_seq_round_trip:
  assumes "\<And>w. w \<in> set ws \<Longrightarrow> w \<noteq> [] \<and> CHR ''/'' \<notin> set w"
  shows "MkSeq method (concat (map (\<lambda>w. CHR ''/'' # w) ws)) = method # ws"
proof -
  have "MkSeq_words (concat (map (\<lambda>w. CHR ''/'' # w) ws)) = ws"
    using assms
  proof (induction ws)
    case Nil
    then show ?case by (simp add: MkSeq_words.simps)
  next
    case (Cons w ws)
    have w: "w \<noteq> []" "CHR ''/'' \<notin> set w" using Cons.prems by auto
    have IH: "MkSeq_words (concat (map (\<lambda>w. CHR ''/'' # w) ws)) = ws" using Cons by simp
    show ?case
    proof (cases ws)
      case Nil
      then show ?thesis using MkSeq_words_path(2) [OF w] by simp
    next
      case (Cons v vs)
      have "MkSeq_words (CHR ''/'' # v @ concat (map (\<lambda>w. CHR ''/'' # w) vs)) =
            MkSeq_words (v @ concat (map (\<lambda>w. CHR ''/'' # w) vs))"
        by (subst MkSeq_words.simps) simp
      with IH MkSeq_words_path(1) [OF w] Cons show ?thesis by simp
    qed
  qed
  then show ?thesis by (simp add: MkSeq_def)
qed

lemma mk_seq_round_trip_witness: "MkSeq ''GET'' ''/foo/bar'' = [''GET'', ''foo'', ''bar'']"
proof -
  have "MkSeq ''GET'' (concat (map (\<lambda>w. CHR ''/'' # w) [''foo'', ''bar''])) = ''GET'' # [''foo'', ''bar'']"
    by (rule mk_seq_round_trip) auto
  then show ?thesis by simp
qed

text \<open>
  The by-use order is not an order from the most to the least restrictive filter, which the
  comment in \<open>JunctionFind\<close> relies on: containment of patterns is no total order, so the binary
  search of \<open>Ns_IndexAdd\<close> can put a filter behind one that contains it.  After registering
  \<open>/a*\<close>, \<open>/b*\<close>, \<open>/*\<close> and \<open>/bc*\<close>, a lookup of \<open>/bcd\<close> yields the data of \<open>/b*\<close>, although
  \<open>/bc*\<close> matches as well, is strictly contained in \<open>/b*\<close> and is registered at the same depth.
\<close>

theorem byuse_order_not_restrictive:
  assumes "star_suffix sm"
  shows "let set1 = (\<lambda>sp url d. fst (Ns_UrlSpecificSet sm sp ''GET'' url 0 (d :: nat) 0 (None :: unit option)));
             sp = set1 (set1 (set1 (set1 (replicate 16 None) ''/a*'' 10) ''/b*'' 20) ''/*'' 30) ''/bc*'' 40
         in snd (Ns_UrlSpecificGet sm sp ''GET'' ''/bcd'' 0) = Some 20 \<and>
            sm ''bcd'' ''bc*'' \<and> sm ''bc*'' ''b*'' \<and> \<not> sm ''b*'' ''bc*''"
  using star_suffixD [OF assms]
  by (simp add: Ns_UrlSpecificSet_def MkSeq1 Ns_UrlSpecificGet_def NsUrlSpecificGet_def
        JunctionFind_def junction_eval)

lemma byuse_order_not_restrictive_witness:
  "star_suffix glob_match \<and>
   (let set1 = (\<lambda>sp url d. fst (Ns_UrlSpecificSet glob_match sp ''GET'' url 0 (d :: nat) 0 (None :: unit option)));
        sp = set1 (set1 (set1 (set1 (replicate 16 None) ''/a*'' 10) ''/b*'' 20) ''/*'' 30) ''/bc*'' 40
    in snd (Ns_UrlSpecificGet glob_match sp ''GET'' ''/bcd'' 0) = Some 20)"
  using byuse_order_not_restrictive [OF star_suffix_glob_match] star_suffix_glob_match
  by (simp only: Let_def)

end
