(* ===== verification/NsSet.thy ===== *)
theory NsSet
  imports Prelude
begin

text \<open>
  The \<open>Ns_Set\<close> of \<open>nsd/set.c\<close>: an ordered list of name/value tuples with possibly repeated names,
  used for request headers, form data and configuration sections.  The size is the length of
  \<open>set_fields\<close>; \<open>maxSize\<close> is kept to show that every store is inside the allocation.  Field names and
  values are options (NULL is \<open>None\<close>).  \<open>key_match\<close> is the contract of the two comparison
  functions the set is used with, \<open>strcmp\<close> and \<open>strcasecmp\<close>.
\<close>

section \<open>Data and operations\<close>

record Ns_SetField =
  fld_name :: "string option"
  fld_value :: "string option"

record Ns_Set =
  set_name :: "string option"
  set_fields :: "Ns_SetField list"
  maxSize :: nat

abbreviation set_size :: "Ns_Set \<Rightarrow> nat" where
  "set_size s \<equiv> length (set_fields s)"

definition Ns_SetCreate :: "string option \<Rightarrow> Ns_Set" where
  "Ns_SetCreate name = \<lparr>set_name = name, set_fields = [], maxSize = 10\<rparr>"

text \<open>
  \<open>ns_strncopy\<close> of \<open>nsthread/memory.c\<close> copies \<open>size + 1\<close> bytes.  The copy is a C string with the
  original text only if the byte at \<open>size\<close> is the terminator; otherwise it is unterminated or
  reads past the original, which is \<open>Inl ()\<close> here.
\<close>

definition ns_strncopy :: "string option \<Rightarrow> int \<Rightarrow> unit + string option" where
  "ns_strncopy old sz =
     (case old of
        None \<Rightarrow> Inr None
      | Some s \<Rightarrow>
          (let n = (if sz > 0 then nat sz else length s)
           in if n = length s then Inr (Some s) else Inl ()))"

definition Ns_SetPutSz :: "Ns_Set \<Rightarrow> string option \<Rightarrow> string option \<Rightarrow> int \<Rightarrow> (unit + Ns_Set \<times> nat)" where
  "Ns_SetPutSz s key value sz =
     (let index = set_size s; sz' = set_size s + 1;
          maxSize' = (if sz' > maxSize s then sz' * 2 else maxSize s)
      in case ns_strncopy value sz of
           Inl e \<Rightarrow> Inl e
         | Inr v \<Rightarrow>
             Inr (s\<lparr>set_fields := set_fields s @ [\<lparr>fld_name = key, fld_value = v\<rparr>], maxSize := maxSize'\<rparr>, index))"

definition Ns_SetPut :: "Ns_Set \<Rightarrow> string option \<Rightarrow> string option \<Rightarrow> Ns_Set" where
  "Ns_SetPut s key value = (case Ns_SetPutSz s key value (-1) of Inl _ \<Rightarrow> s | Inr (s', _) \<Rightarrow> s')"

type_synonym cmp_fun = "string \<Rightarrow> string \<Rightarrow> int"

fun Ns_SetUniqueCmp_loop :: "Ns_SetField list \<Rightarrow> string \<Rightarrow> cmp_fun \<Rightarrow> bool \<Rightarrow> bool" where
  "Ns_SetUniqueCmp_loop [] key cmp found = True"
| "Ns_SetUniqueCmp_loop (f # fs) key cmp found =
     (if (case fld_name f of None \<Rightarrow> True | Some name \<Rightarrow> cmp key name = 0) then
        (if found then False else Ns_SetUniqueCmp_loop fs key cmp True)
      else Ns_SetUniqueCmp_loop fs key cmp found)"

definition Ns_SetUniqueCmp :: "Ns_Set \<Rightarrow> string \<Rightarrow> cmp_fun \<Rightarrow> bool" where
  "Ns_SetUniqueCmp s key cmp = Ns_SetUniqueCmp_loop (set_fields s) key cmp False"

text \<open>The test of \<open>Ns_SetFindCmp\<close> on one tuple, for a key that may be NULL.\<close>

definition fld_matches :: "cmp_fun \<Rightarrow> string option \<Rightarrow> Ns_SetField \<Rightarrow> bool" where
  "fld_matches cmp key f =
     (case key of
        Some k \<Rightarrow> (case fld_name f of Some name \<Rightarrow> cmp k name = 0 | None \<Rightarrow> False)
      | None \<Rightarrow> fld_name f = None)"

fun Ns_SetFindCmp_loop :: "Ns_SetField list \<Rightarrow> nat \<Rightarrow> string option \<Rightarrow> cmp_fun \<Rightarrow> int" where
  "Ns_SetFindCmp_loop [] i key cmp = -1"
| "Ns_SetFindCmp_loop (f # fs) i key cmp =
     (if fld_matches cmp key f then int i else Ns_SetFindCmp_loop fs (i + 1) key cmp)"

definition Ns_SetFindCmp :: "Ns_Set \<Rightarrow> string option \<Rightarrow> cmp_fun \<Rightarrow> int" where
  "Ns_SetFindCmp s key cmp = Ns_SetFindCmp_loop (set_fields s) 0 key cmp"

definition Ns_SetGetCmp :: "Ns_Set \<Rightarrow> string option \<Rightarrow> cmp_fun \<Rightarrow> string option" where
  "Ns_SetGetCmp s key cmp =
     (let i = Ns_SetFindCmp s key cmp
      in if i = -1 then None else fld_value (set_fields s ! nat i))"

definition Ns_SetUnique :: "Ns_Set \<Rightarrow> string \<Rightarrow> bool" where
  "Ns_SetUnique s key = Ns_SetUniqueCmp s key strcmp"

definition Ns_SetIUnique :: "Ns_Set \<Rightarrow> string \<Rightarrow> bool" where
  "Ns_SetIUnique s key = Ns_SetUniqueCmp s key strcasecmp"

definition Ns_SetFind :: "Ns_Set \<Rightarrow> string option \<Rightarrow> int" where
  "Ns_SetFind s key = Ns_SetFindCmp s key strcmp"

definition Ns_SetIFind :: "Ns_Set \<Rightarrow> string option \<Rightarrow> int" where
  "Ns_SetIFind s key = Ns_SetFindCmp s key strcasecmp"

definition Ns_SetGet :: "Ns_Set \<Rightarrow> string option \<Rightarrow> string option" where
  "Ns_SetGet s key = Ns_SetGetCmp s key strcmp"

definition Ns_SetIGet :: "Ns_Set \<Rightarrow> string option \<Rightarrow> string option" where
  "Ns_SetIGet s key = Ns_SetGetCmp s key strcasecmp"

definition value_or :: "string option \<Rightarrow> string option \<Rightarrow> string option" where
  "value_or value def = (case value of None \<Rightarrow> def | Some v \<Rightarrow> if v = [] then def else Some v)"

definition Ns_SetGetValue :: "Ns_Set \<Rightarrow> string option \<Rightarrow> string option \<Rightarrow> string option" where
  "Ns_SetGetValue s key def = value_or (Ns_SetGet s key) def"

definition Ns_SetIGetValue :: "Ns_Set \<Rightarrow> string option \<Rightarrow> string option \<Rightarrow> string option" where
  "Ns_SetIGetValue s key def = value_or (Ns_SetIGet s key) def"

definition Ns_SetTrunc :: "Ns_Set \<Rightarrow> nat \<Rightarrow> Ns_Set" where
  "Ns_SetTrunc s sz = (if sz < set_size s then s\<lparr>set_fields := take sz (set_fields s)\<rparr> else s)"

text \<open>\<open>None\<close>: an index below \<open>-1\<close> passes the guard and addresses memory before the array.\<close>

definition Ns_SetDelete :: "Ns_Set \<Rightarrow> int \<Rightarrow> Ns_Set option" where
  "Ns_SetDelete s index =
     (if index \<noteq> -1 \<and> index < int (set_size s) then
        (if index < 0 then None
         else Some (s\<lparr>set_fields := take (nat index) (set_fields s) @ drop (nat index + 1) (set_fields s)\<rparr>))
      else Some s)"

definition Ns_SetPutValue :: "Ns_Set \<Rightarrow> nat \<Rightarrow> string option \<Rightarrow> Ns_Set" where
  "Ns_SetPutValue s index value =
     (if index < set_size s
      then s\<lparr>set_fields := (set_fields s)[index := (set_fields s ! index)\<lparr>fld_value := value\<rparr>]\<rparr>
      else s)"

definition Ns_SetDeleteKey :: "Ns_Set \<Rightarrow> string option \<Rightarrow> Ns_Set option" where
  "Ns_SetDeleteKey s key = Ns_SetDelete s (Ns_SetFind s key)"

definition Ns_SetIDeleteKey :: "Ns_Set \<Rightarrow> string option \<Rightarrow> Ns_Set option" where
  "Ns_SetIDeleteKey s key = Ns_SetDelete s (Ns_SetIFind s key)"

definition Ns_SetUpdate :: "Ns_Set \<Rightarrow> string \<Rightarrow> string \<Rightarrow> Ns_Set option" where
  "Ns_SetUpdate s key value =
     map_option (\<lambda>s'. Ns_SetPut s' (Some key) (Some value)) (Ns_SetDeleteKey s (Some key))"

definition Ns_SetListFind :: "Ns_Set list \<Rightarrow> string option \<Rightarrow> nat option" where
  "Ns_SetListFind sets name =
     (let ok = (\<lambda>i. case name of
                      None \<Rightarrow> set_name (sets ! i) = None
                    | Some n \<Rightarrow> set_name (sets ! i) = Some n)
      in find ok [0..<length sets])"

text \<open>The split of one name at the first separator: the set's name and the key inside it.\<close>

definition split_name :: "char \<Rightarrow> string \<Rightarrow> string option \<times> string" where
  "split_name sep nm =
     (if sep \<in> set nm
      then (Some (takeWhile (\<lambda>c. c \<noteq> sep) nm), tl (dropWhile (\<lambda>c. c \<noteq> sep) nm))
      else (None, nm))"

fun Ns_SetSplit_loop :: "(string \<times> string option) list \<Rightarrow> char \<Rightarrow> Ns_Set list \<Rightarrow> Ns_Set list" where
  "Ns_SetSplit_loop [] sep sets = sets"
| "Ns_SetSplit_loop ((nm, v) # fs) sep sets =
     (let (name, key) = split_name sep nm
      in case Ns_SetListFind sets name of
           Some i \<Rightarrow> Ns_SetSplit_loop fs sep (sets[i := Ns_SetPut (sets ! i) (Some key) v])
         | None \<Rightarrow> Ns_SetSplit_loop fs sep (sets @ [Ns_SetPut (Ns_SetCreate name) (Some key) v]))"

text \<open>\<open>None\<close>: a tuple without a name, on which \<open>strchr\<close> would be called with NULL.\<close>

definition Ns_SetSplit :: "Ns_Set \<Rightarrow> char \<Rightarrow> Ns_Set list option" where
  "Ns_SetSplit s sep =
     (if \<exists>f \<in> set (set_fields s). fld_name f = None then None
      else Some (Ns_SetSplit_loop (map (\<lambda>f. (the (fld_name f), fld_value f)) (set_fields s)) sep []))"

fun Ns_SetMerge_loop :: "Ns_Set \<Rightarrow> Ns_SetField list \<Rightarrow> Ns_Set" where
  "Ns_SetMerge_loop high [] = high"
| "Ns_SetMerge_loop high (f # fs) =
     (if Ns_SetFind high (fld_name f) = -1
      then Ns_SetMerge_loop (Ns_SetPut high (fld_name f) (fld_value f)) fs
      else Ns_SetMerge_loop high fs)"

definition Ns_SetMerge :: "Ns_Set \<Rightarrow> Ns_Set \<Rightarrow> Ns_Set" where
  "Ns_SetMerge high low = Ns_SetMerge_loop high (set_fields low)"

fun put_all :: "Ns_Set \<Rightarrow> Ns_SetField list \<Rightarrow> Ns_Set" where
  "put_all s [] = s"
| "put_all s (f # fs) = put_all (Ns_SetPut s (fld_name f) (fld_value f)) fs"

definition Ns_SetCopy :: "Ns_Set \<Rightarrow> Ns_Set" where
  "Ns_SetCopy old = put_all (Ns_SetCreate (set_name old)) (set_fields old)"

definition Ns_SetMove :: "Ns_Set \<Rightarrow> Ns_Set \<Rightarrow> Ns_Set \<times> Ns_Set" where
  "Ns_SetMove to from = (put_all to (set_fields from), Ns_SetTrunc from 0)"

section \<open>Tuples and capacity\<close>

definition set_inv :: "Ns_Set \<Rightarrow> bool" where
  "set_inv s \<longleftrightarrow> set_size s \<le> maxSize s"

lemma ns_strncopy_all [simp]: "ns_strncopy v (-1) = Inr v"
  by (cases v) (simp_all add: ns_strncopy_def)

lemma fields_Put [simp]: "set_fields (Ns_SetPut s k v) = set_fields s @ [\<lparr>fld_name = k, fld_value = v\<rparr>]"
  by (simp add: Ns_SetPut_def Ns_SetPutSz_def Let_def)

lemma set_name_Put [simp]: "set_name (Ns_SetPut s k v) = set_name s"
  by (simp add: Ns_SetPut_def Ns_SetPutSz_def Let_def)

lemma set_inv_Put [intro]: "set_inv s \<Longrightarrow> set_inv (Ns_SetPut s k v)"
  by (simp add: set_inv_def Ns_SetPut_def Ns_SetPutSz_def Let_def)

lemma fields_Create [simp]: "set_fields (Ns_SetCreate n) = []" and set_name_Create [simp]: "set_name (Ns_SetCreate n) = n"
  and set_inv_Create [intro]: "set_inv (Ns_SetCreate n)"
  by (simp_all add: Ns_SetCreate_def set_inv_def)

lemma fields_put_all [simp]: "set_fields (put_all s fs) = set_fields s @ fs"
  by (induction fs arbitrary: s) simp_all

lemma set_inv_put_all [intro]: "set_inv s \<Longrightarrow> set_inv (put_all s fs)"
  by (induction fs arbitrary: s) auto

section \<open>Searching\<close>

lemma FindCmp_loop_spec:
  "Ns_SetFindCmp_loop fs i key cmp =
     (case find (\<lambda>j. fld_matches cmp key (fs ! j)) [0..<length fs] of None \<Rightarrow> -1 | Some j \<Rightarrow> int (i + j))"
proof (induction fs arbitrary: i)
  case (Cons f fs)
  have "[0..<length (f # fs)] = 0 # map Suc [0..<length fs]" by (simp add: upt_0_Suc del: upt_Suc)
  then show ?case by (simp only: find.simps find_map) (auto simp: Cons.IH comp_def split: option.split)
qed simp

text \<open>Result of a search in terms of the list of tuples: the first matching one.\<close>

lemma GetCmp_spec:
  "Ns_SetGetCmp s key cmp = (case find (fld_matches cmp key) (set_fields s) of None \<Rightarrow> None | Some f \<Rightarrow> fld_value f)"
proof -
  have "find P fs = map_option (nth fs) (find (\<lambda>j. P (fs ! j)) [0..<length fs])" for P and fs :: "Ns_SetField list"
    by (metis find_map map_nth)
  then show ?thesis
    by (auto simp: Ns_SetGetCmp_def Ns_SetFindCmp_def FindCmp_loop_spec Let_def split: option.split)
qed

lemma FindCmp_none: "Ns_SetFindCmp s key cmp = -1 \<longleftrightarrow> find (fld_matches cmp key) (set_fields s) = None"
proof (cases "find (\<lambda>j. fld_matches cmp key (set_fields s ! j)) [0..<set_size s]")
  case None
  then have "find (fld_matches cmp key) (set_fields s) = None"
    by (auto simp: find_None_iff in_set_conv_nth)
  with None show ?thesis by (simp add: Ns_SetFindCmp_def FindCmp_loop_spec)
next
  case (Some j)
  then have "j < set_size s" "fld_matches cmp key (set_fields s ! j)" by (auto dest: find_SomeD)
  then have "find (fld_matches cmp key) (set_fields s) \<noteq> None"
    by (auto simp: find_None_iff intro: nth_mem)
  with Some show ?thesis by (simp add: Ns_SetFindCmp_def FindCmp_loop_spec)
qed

lemma FindCmp_index:
  assumes "Ns_SetFindCmp s key cmp = i" "i \<noteq> -1"
  shows "0 \<le> i \<and> nat i < set_size s \<and> fld_matches cmp key (set_fields s ! nat i) \<and>
     (\<forall>j < nat i. \<not> fld_matches cmp key (set_fields s ! j))"
proof -
  obtain j where j: "find (\<lambda>j. fld_matches cmp key (set_fields s ! j)) [0..<set_size s] = Some j" "i = int j"
    using assms by (auto simp: Ns_SetFindCmp_def FindCmp_loop_spec split: option.splits)
  from j(1) obtain k where k: "k < set_size s" "j = k" "fld_matches cmp key (set_fields s ! j)"
      "\<forall>l < k. \<not> fld_matches cmp key (set_fields s ! l)"
    by (auto simp: find_Some_iff)
  with j(2) show ?thesis by simp
qed

text \<open>Deleting by key removes the first matching tuple.\<close>

lemma DeleteKey_spec:
  "Ns_SetDelete s (Ns_SetFindCmp s key cmp) =
     Some (s\<lparr>set_fields := takeWhile (\<lambda>f. \<not> fld_matches cmp key f) (set_fields s) @
                      tl (dropWhile (\<lambda>f. \<not> fld_matches cmp key f) (set_fields s))\<rparr>)"
proof (cases "Ns_SetFindCmp s key cmp = -1")
  case True
  then have "\<forall>f \<in> set (set_fields s). \<not> fld_matches cmp key f"
    by (auto simp: FindCmp_none find_None_iff)
  then have eq: "takeWhile (\<lambda>f. \<not> fld_matches cmp key f) (set_fields s) @
      tl (dropWhile (\<lambda>f. \<not> fld_matches cmp key f) (set_fields s)) = set_fields s"
    by (metis (no_types, lifting) append_Nil2 dropWhile_eq_Nil_conv list.sel(2) takeWhile_eq_all_conv)
  show ?thesis unfolding eq using True by (simp add: Ns_SetDelete_def)
next
  case False
  note i = FindCmp_index [OF refl False]
  let ?i = "nat (Ns_SetFindCmp s key cmp)"
  have "takeWhile (\<lambda>f. \<not> fld_matches cmp key f) (set_fields s) = take ?i (set_fields s)"
    using i by (intro takeWhile_eq_take_P_nth) auto
  moreover from this have "dropWhile (\<lambda>f. \<not> fld_matches cmp key f) (set_fields s) = drop ?i (set_fields s)"
    using i by (metis dropWhile_eq_drop length_take min.absorb4 min.strict_order_iff less_imp_le_nat min_def)
  moreover have "Ns_SetFindCmp s key cmp < int (set_size s)" using i by linarith
  ultimately show ?thesis using i False by (simp add: Ns_SetDelete_def drop_Suc tl_drop)
qed

section \<open>The contract of a comparison function\<close>

text \<open>
  A comparison function identifies names up to an equivalence.  Everything a set promises about
  puts, updates and merges holds for any such function.
\<close>

locale key_match =
  fixes cmp :: cmp_fun
  assumes refl: "cmp a a = 0"
    and sym: "cmp a b = 0 \<Longrightarrow> cmp b a = 0"
    and trans: "cmp a b = 0 \<Longrightarrow> cmp b c = 0 \<Longrightarrow> cmp a c = 0"
begin

lemma matches_self: "fld_matches cmp (Some k) \<lparr>fld_name = Some k, fld_value = v\<rparr>"
  by (simp add: fld_matches_def refl)

lemma matches_cong: "cmp k l = 0 \<Longrightarrow> fld_matches cmp (Some k) f = fld_matches cmp (Some l) f"
  by (auto simp: fld_matches_def split: option.split intro: trans dest: sym)

lemma get_put:
  "Ns_SetGetCmp (Ns_SetPut s (Some k) v) (Some l) cmp =
     (if find (fld_matches cmp (Some l)) (set_fields s) \<noteq> None then Ns_SetGetCmp s (Some l) cmp
      else if cmp l k = 0 then v else None)"
  by (auto simp: GetCmp_spec find_append fld_matches_def split: option.split)

lemma unique_iff:
  assumes "\<forall>f \<in> set (set_fields s). fld_name f \<noteq> None"
  shows "Ns_SetUniqueCmp s k cmp \<longleftrightarrow> length (filter (fld_matches cmp (Some k)) (set_fields s)) \<le> 1"
proof -
  have "Ns_SetUniqueCmp_loop fs k cmp found \<longleftrightarrow>
      length (filter (fld_matches cmp (Some k)) fs) + (if found then 1 else 0) \<le> 1"
    if "\<forall>f \<in> set fs. fld_name f \<noteq> None" for fs found
    using that
  proof (induction fs arbitrary: found)
    case (Cons f fs)
    then show ?case by (cases "fld_name f") (auto simp: fld_matches_def)
  qed simp
  from this [OF assms, of False] show ?thesis by (simp add: Ns_SetUniqueCmp_def)
qed

text \<open>The value found after the first matching tuple has been deleted and a new one appended.\<close>

lemma get_delete_put:
  assumes "Ns_SetDelete s (Ns_SetFindCmp s (Some k) cmp) = Some s'"
  shows "Ns_SetGetCmp (Ns_SetPut s' (Some k) v) (Some l) cmp =
     (if cmp l k = 0 then
        (case filter (fld_matches cmp (Some k)) (set_fields s) of f # g # _ \<Rightarrow> fld_value g | _ \<Rightarrow> v)
      else Ns_SetGetCmp s (Some l) cmp)"
proof -
  let ?P = "fld_matches cmp (Some k)"
  let ?Q = "fld_matches cmp (Some l)"
  let ?fs = "set_fields s"
  let ?a = "takeWhile (\<lambda>f. \<not> ?P f) ?fs" and ?b = "dropWhile (\<lambda>f. \<not> ?P f) ?fs"
  have s': "set_fields s' = ?a @ tl ?b" using assms DeleteKey_spec [of s "Some k" cmp] by auto
  have fs: "?fs = ?a @ ?b" by simp
  have a: "find ?P ?a = None" by (auto simp: find_None_iff dest: set_takeWhileD)
  have hdb: "?b \<noteq> [] \<Longrightarrow> ?P (hd ?b)" using hd_dropWhile by blast
  show ?thesis
  proof (cases "cmp l k = 0")
    case True
    then have QP: "?Q = ?P" using matches_cong [of l k] by blast
    have flt: "filter ?P ?fs = filter ?P ?b" proof -
      have "filter ?P ?a = []" using a by (auto simp: find_None_iff filter_empty_conv)
      then show ?thesis by (metis append_Nil filter_append fs)
    qed
    have "find ?P (set_fields s') = find ?P (tl ?b)" using s' a by (simp add: find_append)
    moreover have "(case filter ?P ?fs of f # g # _ \<Rightarrow> fld_value g | _ \<Rightarrow> v) =
        (case find ?P (tl ?b) of None \<Rightarrow> v | Some g \<Rightarrow> fld_value g)"
    proof (cases ?b)
      case Nil
      then show ?thesis using flt unfolding Nil by simp
    next
      case (Cons f r)
      then have "?P f" using hdb by simp
      then have "filter ?P ?fs = f # filter ?P r" using flt Cons by simp
      moreover have "find ?P r = (case filter ?P r of [] \<Rightarrow> None | g # _ \<Rightarrow> Some g)"
        by (induction r) auto
      ultimately show ?thesis using Cons by (auto split: list.split)
    qed
    ultimately show ?thesis using True QP refl [of k]
      by (auto simp: GetCmp_spec find_append fld_matches_def [of cmp "Some k" "\<lparr>fld_name = Some k, fld_value = v\<rparr>"] split: option.split)
  next
    case False
    have "\<not> ?Q f" if "?P f" for f
      using that False by (auto simp: fld_matches_def split: option.splits dest: sym trans)
    then have "find ?Q (tl b) = find ?Q b" if "b \<noteq> [] \<Longrightarrow> ?P (hd b)" for b
      using that by (cases b) auto
    from this [OF hdb] have "find ?Q (tl ?b) = find ?Q ?b" .
    then have "find ?Q (set_fields s') = find ?Q ?fs" using s' find_append [of ?Q ?a]
      by (metis takeWhile_dropWhile_id)
    moreover have "\<not> ?Q \<lparr>fld_name = Some k, fld_value = v\<rparr>" using False by (simp add: fld_matches_def)
    ultimately show ?thesis using False by (auto simp: GetCmp_spec find_append split: option.split)
  qed
qed

end

interpretation case_match: key_match strcmp
  by unfold_locales simp_all

interpretation nocase_match: key_match strcasecmp
  by unfold_locales (simp_all add: strcasecmp_def)

section \<open>Splitting\<close>

definition join_name :: "char \<Rightarrow> string option \<Rightarrow> string \<Rightarrow> string" where
  "join_name sep name key = (case name of None \<Rightarrow> key | Some n \<Rightarrow> n @ sep # key)"

lemma join_split_name: "split_name sep nm = (name, key) \<Longrightarrow> join_name sep name key = nm"
proof -
  assume s: "split_name sep nm = (name, key)"
  show ?thesis
  proof (cases "sep \<in> set nm")
    case True
    then have "dropWhile (\<lambda>c. c \<noteq> sep) nm \<noteq> []" "hd (dropWhile (\<lambda>c. c \<noteq> sep) nm) = sep"
      using hd_dropWhile [of "\<lambda>c. c \<noteq> sep" nm] by auto
    then have "dropWhile (\<lambda>c. c \<noteq> sep) nm = sep # tl (dropWhile (\<lambda>c. c \<noteq> sep) nm)"
      by (metis list.collapse)
    with s True show ?thesis
      by (auto simp: split_name_def join_name_def) (metis takeWhile_dropWhile_id)
  next
    case False
    with s show ?thesis by (auto simp: split_name_def join_name_def)
  qed
qed

text \<open>All the tuples of a list of sets, with their original names restored.\<close>

definition joined :: "char \<Rightarrow> Ns_Set list \<Rightarrow> (string \<times> string option) multiset" where
  "joined sep sets =
     (\<Sum>s \<in># mset sets. image_mset (\<lambda>f. (join_name sep (set_name s) (the (fld_name f)), fld_value f)) (mset (set_fields s)))"

lemma ListFind_Some: "Ns_SetListFind sets name = Some i \<Longrightarrow> i < length sets \<and> set_name (sets ! i) = name"
  by (auto simp: Ns_SetListFind_def dest!: find_SomeD split: option.splits)

lemma ListFind_None: "Ns_SetListFind sets name = None \<longleftrightarrow> name \<notin> set_name ` set sets"
proof -
  have "(\<lambda>i. case name of None \<Rightarrow> set_name (sets ! i) = None | Some n \<Rightarrow> set_name (sets ! i) = Some n) =
      (\<lambda>i. set_name (sets ! i) = name)"
    by (cases name) auto
  then have "Ns_SetListFind sets name = None \<longleftrightarrow> (\<forall>i < length sets. set_name (sets ! i) \<noteq> name)"
    by (simp add: Ns_SetListFind_def find_None_iff)
  then show ?thesis by (metis (no_types, lifting) image_iff in_set_conv_nth)
qed

lemma joined_update:
  assumes "i < length sets" "set_name (sets ! i) = name"
  shows "joined sep (sets[i := Ns_SetPut (sets ! i) (Some key) v]) =
     add_mset (join_name sep name key, v) (joined sep sets)"
proof -
  obtain M where M: "mset sets = add_mset (sets ! i) M"
    using assms(1) by (metis insert_DiffM nth_mem_mset)
  then show ?thesis using assms by (simp add: joined_def mset_update)
qed

lemma Split_loop_joined:
  "joined sep (Ns_SetSplit_loop fs sep sets) = joined sep sets + mset fs"
proof (induction fs sep sets rule: Ns_SetSplit_loop.induct)
  case (2 nm v fs sep sets)
  obtain name key where sp: "split_name sep nm = (name, key)" by (cases "split_name sep nm")
  note jn = join_split_name [OF sp]
  show ?case
  proof (cases "Ns_SetListFind sets name")
    case None
    have "joined sep (sets @ [Ns_SetPut (Ns_SetCreate name) (Some key) v]) = add_mset (nm, v) (joined sep sets)"
      using jn by (simp add: joined_def)
    with 2(1) [OF refl sp [symmetric] None] None sp show ?thesis by simp
  next
    case (Some i)
    with ListFind_Some [OF Some] joined_update [of i sets name sep key v] jn
      2(2) [OF refl sp [symmetric] Some] sp
    show ?thesis by simp
  qed
qed simp

lemma Split_loop_names:
  assumes "distinct (map set_name sets)"
  shows "distinct (map set_name (Ns_SetSplit_loop fs sep sets))"
  using assms
proof (induction fs sep sets rule: Ns_SetSplit_loop.induct)
  case (2 nm v fs sep sets)
  obtain name key where sp: "split_name sep nm = (name, key)" by (cases "split_name sep nm")
  show ?case
  proof (cases "Ns_SetListFind sets name")
    case None
    then have "distinct (map set_name (sets @ [Ns_SetPut (Ns_SetCreate name) (Some key) v]))"
      using 2(3) by (simp add: ListFind_None)
    with 2(1) [OF refl sp [symmetric] None] None sp show ?thesis by simp
  next
    case (Some i)
    have "map set_name (sets[i := Ns_SetPut (sets ! i) (Some key) v]) = map set_name sets"
      using ListFind_Some [OF Some] by (simp add: map_update list_update_same_conv)
    with 2(2) [OF refl sp [symmetric] Some] 2(3) Some sp show ?thesis by simp
  qed
qed simp

section \<open>Merging\<close>

lemma Merge_loop_find:
  "find (fld_matches strcmp (Some k)) (set_fields (Ns_SetMerge_loop high fs)) =
     (case find (fld_matches strcmp (Some k)) (set_fields high) of
        None \<Rightarrow> find (fld_matches strcmp (Some k)) fs | Some f \<Rightarrow> Some f)"
proof (induction high fs rule: Ns_SetMerge_loop.induct)
  case (2 high f fs)
  have eta: "\<lparr>fld_name = fld_name f, fld_value = fld_value f\<rparr> = f" by simp
  show ?case
  proof (cases "Ns_SetFind high (fld_name f) = -1")
    case True
    with 2 show ?thesis by (auto simp: find_append eta split: option.split)
  next
    case False
    have "find (fld_matches strcmp (Some k)) (set_fields high) \<noteq> None" if "fld_matches strcmp (Some k) f"
    proof -
      have "fld_name f = Some k" using that by (auto simp: fld_matches_def split: option.splits)
      with False show ?thesis by (simp add: Ns_SetFind_def FindCmp_none)
    qed
    with False 2 show ?thesis by (auto split: option.split)
  qed
qed (simp split: option.split)

lemma set_inv_Merge_loop: "set_inv high \<Longrightarrow> set_inv (Ns_SetMerge_loop high fs)"
  by (induction high fs rule: Ns_SetMerge_loop.induct) auto

section \<open>Properties\<close>

text \<open>
  \<open>Ns_SetUpdate\<close> followed by \<open>Ns_SetGet\<close>: other keys keep their value; the updated key has the
  new value if the set held at most one tuple of that name, and otherwise still has the value
  of the second old tuple, because only the first one is removed and the new one goes to the end.
\<close>

theorem set_update_get:
  "\<exists>s'. Ns_SetUpdate s key value = Some s' \<and>
     Ns_SetGet s' (Some k) =
       (if k = key then
          (case filter (\<lambda>f. fld_name f = Some key) (set_fields s) of
             f # g # _ \<Rightarrow> fld_value g | _ \<Rightarrow> Some value)
        else Ns_SetGet s (Some k))"
proof -
  have eq: "fld_matches strcmp (Some key) = (\<lambda>f. fld_name f = Some key)"
    by (intro ext) (auto simp: fld_matches_def split: option.split)
  obtain s1 where s1: "Ns_SetDelete s (Ns_SetFindCmp s (Some key) strcmp) = Some s1"
    using DeleteKey_spec by blast
  then have "Ns_SetUpdate s key value = Some (Ns_SetPut s1 (Some key) (Some value))"
    by (simp add: Ns_SetUpdate_def Ns_SetDeleteKey_def Ns_SetFind_def)
  with case_match.get_delete_put [OF s1, of "Some value" k] show ?thesis
    by (simp add: Ns_SetGet_def eq)
qed

text \<open>
  \<open>Ns_SetMerge\<close> gives a key the value it has in the high set, and the value of the low set
  only if the high set does not have the key.
\<close>

theorem set_merge_get:
  "Ns_SetGet (Ns_SetMerge high low) (Some k) =
     (if Ns_SetFind high (Some k) \<noteq> -1 then Ns_SetGet high (Some k) else Ns_SetGet low (Some k))"
  using Merge_loop_find [of k high "set_fields low"]
  by (auto simp: Ns_SetGet_def Ns_SetMerge_def GetCmp_spec Ns_SetFind_def FindCmp_none split: option.split)

text \<open>
  \<open>Ns_SetSplit\<close> loses and invents nothing: with the set names and the separator put back in
  front of the keys, the tuples of the resulting sets are exactly the tuples of the original
  set, and no two resulting sets have the same name.
\<close>

theorem set_split_partition:
  assumes "\<forall>f \<in> set (set_fields s). fld_name f \<noteq> None"
  shows "\<exists>sets. Ns_SetSplit s sep = Some sets \<and> distinct (map set_name sets) \<and>
     joined sep sets = mset (map (\<lambda>f. (the (fld_name f), fld_value f)) (set_fields s))"
  using assms Split_loop_names [of "[]"] Split_loop_joined [of sep _ "[]"]
  by (auto simp: Ns_SetSplit_def joined_def)

lemma set_split_partition_witness:
  "\<exists>sets. Ns_SetSplit (Ns_SetPut (Ns_SetCreate None) (Some ''a.b'') (Some ''1'')) CHR ''.'' = Some sets \<and>
     joined CHR ''.'' sets = {#(''a.b'', Some ''1'')#}"
  using set_split_partition [of "Ns_SetPut (Ns_SetCreate None) (Some ''a.b'') (Some ''1'')" "CHR ''.''"]
  by auto

text \<open>
  \<open>Ns_SetUnique\<close> and \<open>Ns_SetIUnique\<close> say whether at most one tuple has the name, exactly
  and up to case.
\<close>

theorem set_unique_counts:
  assumes "\<forall>f \<in> set (set_fields s). fld_name f \<noteq> None"
  shows "(Ns_SetUnique s k \<longleftrightarrow> length (filter (fld_matches strcmp (Some k)) (set_fields s)) \<le> 1) \<and>
    (Ns_SetIUnique s k \<longleftrightarrow> length (filter (fld_matches strcasecmp (Some k)) (set_fields s)) \<le> 1)"
  using case_match.unique_iff [OF assms] nocase_match.unique_iff [OF assms]
  by (simp add: Ns_SetUnique_def Ns_SetIUnique_def)

lemma set_unique_counts_witness:
  "Ns_SetUnique (Ns_SetPut (Ns_SetPut (Ns_SetCreate None) (Some ''a'') None) (Some ''b'') None) ''a''"
proof -
  let ?s = "Ns_SetPut (Ns_SetPut (Ns_SetCreate None) (Some ''a'') None) (Some ''b'') None"
  have h: "\<forall>f \<in> set (set_fields ?s). fld_name f \<noteq> None" by simp
  show ?thesis using set_unique_counts [OF h, of "''a''"] by (simp add: fld_matches_def)
qed

text \<open>
  The allocation always holds the tuples: creating, putting, deleting, truncating, merging,
  copying and moving keep the size of a set at or below its allocated size.
\<close>

theorem set_capacity_invariant:
  assumes "set_inv s" "set_inv t"
  shows "set_inv (Ns_SetCreate n) \<and> set_inv (Ns_SetPut s k v) \<and> set_inv (Ns_SetTrunc s m) \<and>
    set_inv (Ns_SetPutValue s i v) \<and> (\<forall>s'. Ns_SetDelete s j = Some s' \<longrightarrow> set_inv s') \<and>
    set_inv (Ns_SetMerge s t) \<and> set_inv (Ns_SetCopy s) \<and>
    set_inv (fst (Ns_SetMove s t)) \<and> set_inv (snd (Ns_SetMove s t))"
proof -
  have "set_inv (Ns_SetTrunc u m)" if "set_inv u" for u m
    using that by (simp add: set_inv_def Ns_SetTrunc_def)
  moreover have "set_inv (Ns_SetPutValue s i v)"
    using assms by (simp add: set_inv_def Ns_SetPutValue_def)
  moreover have "\<forall>s'. Ns_SetDelete s j = Some s' \<longrightarrow> set_inv s'"
    using assms by (auto simp: set_inv_def Ns_SetDelete_def split: if_splits)
  ultimately show ?thesis using assms set_inv_Merge_loop [OF assms(1)]
    by (auto simp: Ns_SetMerge_def Ns_SetCopy_def Ns_SetMove_def)
qed

lemma set_capacity_invariant_witness:
  "set_inv (Ns_SetMerge (Ns_SetCreate (Some ''a'')) (Ns_SetPut (Ns_SetCreate None) (Some ''k'') None))"
  using set_capacity_invariant [of "Ns_SetCreate (Some ''a'')" "Ns_SetPut (Ns_SetCreate None) (Some ''k'') None"]
  by (simp add: set_inv_Create set_inv_Put)

end
