(* ===== verification/NsTime.thy ===== *)
theory NsTime
  imports Prelude "HOL-Library.Signed_Division"
begin

text \<open>
  The time values of \<open>nsthread/time.c\<close>: a pair of seconds and microseconds, normalised by
  \<open>Ns_AdjTime\<close> and compared by \<open>Ns_DiffTime\<close>.  The C operators \<open>/\<close> and \<open>%\<close> on \<open>long\<close> truncate towards
  zero (\<open>sdiv\<close>, \<open>smod\<close>); the fields are integers, so the results hold as long as no sum leaves
  the range of \<open>long\<close>.  The reading of the clock in \<open>Ns_AbsoluteTime\<close> is an argument \<open>now\<close>.  Times are
  a linear order by the instant they denote, which \<open>Ns_DiffTime\<close> decides.
\<close>

section \<open>Operations\<close>

datatype Ns_Time = Ns_Time (sec: int) (usec: int)

definition Ns_AdjTime :: "Ns_Time \<Rightarrow> Ns_Time" where
  "Ns_AdjTime t =
     (if usec t < 0 then
        Ns_Time (sec t + (usec t sdiv 1000000 - 1)) (usec t smod 1000000 + 1000000)
      else if usec t > 1000000 then
        Ns_Time (sec t + usec t sdiv 1000000) (usec t smod 1000000)
      else t)"

definition Ns_DiffTime :: "Ns_Time \<Rightarrow> Ns_Time \<Rightarrow> int \<times> Ns_Time" where
  "Ns_DiffTime t1 t0 =
     (let diff = Ns_AdjTime
            (if usec t1 \<ge> usec t0 then Ns_Time (sec t1 - sec t0) (usec t1 - usec t0)
             else Ns_Time (sec t1 - sec t0 - 1) (1000000 + usec t1 - usec t0))
      in (if sec diff < 0 then -1 else if sec diff = 0 \<and> usec diff = 0 then 0 else 1, diff))"

definition Ns_IncrTime :: "Ns_Time \<Rightarrow> int \<Rightarrow> int \<Rightarrow> Ns_Time" where
  "Ns_IncrTime t s u = Ns_AdjTime (Ns_Time (sec t + s) (usec t + u))"

definition Ns_AbsoluteTime :: "Ns_Time \<Rightarrow> Ns_Time option \<Rightarrow> Ns_Time option" where
  "Ns_AbsoluteTime now adj =
     (case adj of
        None \<Rightarrow> None
      | Some a \<Rightarrow> if sec a < 1000000000 then Some (Ns_IncrTime now (sec a) (usec a)) else Some a)"

section \<open>The instant a time denotes\<close>

definition micros :: "Ns_Time \<Rightarrow> int" where
  "micros t = sec t * 1000000 + usec t"

definition normal :: "Ns_Time \<Rightarrow> bool" where
  "normal t \<longleftrightarrow> 0 \<le> usec t \<and> usec t < 1000000"

lemma sdiv_smod_million: "(u sdiv 1000000) * 1000000 + u smod 1000000 = (u::int)"
  by (rule sdiv_mult_smod_eq)

lemma smod_million_neg: "u < 0 \<Longrightarrow> -1000000 < u smod 1000000 \<and> u smod 1000000 \<le> (0::int)"
  by (simp add: signed_modulo_int_def)

lemma smod_million_zero: "u smod 1000000 = (0::int) \<longleftrightarrow> 1000000 dvd u"
  by (auto simp: signed_modulo_int_def sgn_eq_0_iff dvd_eq_mod_eq_0 [symmetric])

lemma smod_million_pos: "0 \<le> u \<Longrightarrow> 0 \<le> u smod 1000000 \<and> u smod 1000000 < (1000000::int)"
  by (simp add: smod_int_compares)

lemma micros_adj: "micros (Ns_AdjTime t) = micros t"
  using sdiv_smod_million [of "usec t"] by (simp add: Ns_AdjTime_def micros_def algebra_simps)

lemma adj_normal: "normal t \<Longrightarrow> Ns_AdjTime t = t"
  by (simp add: normal_def Ns_AdjTime_def)

lemma micros_incr: "micros (Ns_IncrTime t s u) = micros t + s * 1000000 + u"
  by (simp add: Ns_IncrTime_def micros_adj) (simp add: micros_def algebra_simps)

text \<open>The lexicographic order on times, which is the order of the instants on normalised times.\<close>

instantiation Ns_Time :: linorder
begin

definition less_eq_Ns_Time :: "Ns_Time \<Rightarrow> Ns_Time \<Rightarrow> bool" where
  "less_eq_Ns_Time a b \<longleftrightarrow> sec a < sec b \<or> sec a = sec b \<and> usec a \<le> usec b"

definition less_Ns_Time :: "Ns_Time \<Rightarrow> Ns_Time \<Rightarrow> bool" where
  "less_Ns_Time a b \<longleftrightarrow> sec a < sec b \<or> sec a = sec b \<and> usec a < usec b"

instance
  by standard (auto simp: less_eq_Ns_Time_def less_Ns_Time_def intro: Ns_Time.expand)

end

lemma normal_less_iff: "normal a \<Longrightarrow> normal b \<Longrightarrow> a < b \<longleftrightarrow> micros a < micros b"
  by (auto simp: normal_def micros_def less_Ns_Time_def)

lemma normal_eq_iff: "normal a \<Longrightarrow> normal b \<Longrightarrow> a = b \<longleftrightarrow> micros a = micros b"
  using normal_less_iff [of a b] normal_less_iff [of b a] by (metis less_irrefl linorder_neqE)

lemma DiffTime_normal:
  assumes "normal t1" "normal t0"
  shows "Ns_DiffTime t1 t0 = (if t1 < t0 then -1 else if t1 = t0 then 0 else 1, snd (Ns_DiffTime t1 t0)) \<and>
     normal (snd (Ns_DiffTime t1 t0)) \<and> micros (snd (Ns_DiffTime t1 t0)) = micros t1 - micros t0"
proof -
  define d where "d = (if usec t1 \<ge> usec t0 then Ns_Time (sec t1 - sec t0) (usec t1 - usec t0)
             else Ns_Time (sec t1 - sec t0 - 1) (1000000 + usec t1 - usec t0))"
  have n: "normal d" using assms by (auto simp: d_def normal_def)
  have m: "micros d = micros t1 - micros t0" by (simp add: d_def micros_def algebra_simps)
  have "sec d < 0 \<longleftrightarrow> micros d < 0" using n unfolding normal_def micros_def by linarith
  moreover have "sec d = 0" if "micros d = 0" using n that unfolding normal_def micros_def by linarith
  then have "sec d = 0 \<and> usec d = 0 \<longleftrightarrow> micros d = 0" by (auto simp: micros_def)
  ultimately have "sec d < 0 \<longleftrightarrow> t1 < t0" "sec d = 0 \<and> usec d = 0 \<longleftrightarrow> t1 = t0"
    using m normal_less_iff [OF assms] normal_eq_iff [OF assms] by simp_all
  then have "Ns_DiffTime t1 t0 = (if t1 < t0 then -1 else if t1 = t0 then 0 else 1, d)"
    using adj_normal [OF n] by (simp add: Ns_DiffTime_def d_def [symmetric])
  with n m show ?thesis by simp
qed

section \<open>Properties\<close>

text \<open>
  \<open>Ns_AdjTime\<close> never changes the instant and brings the microseconds into \<open>0..1000000\<close>.  The
  upper bound is attained: exactly one million microseconds is not carried into the seconds,
  and a negative multiple of a million is turned into it.
\<close>

theorem adj_time_range:
  "micros (Ns_AdjTime t) = micros t \<and> 0 \<le> usec (Ns_AdjTime t) \<and> usec (Ns_AdjTime t) \<le> 1000000 \<and>
   (usec (Ns_AdjTime t) = 1000000 \<longleftrightarrow> usec t = 1000000 \<or> usec t < 0 \<and> 1000000 dvd usec t)"
proof (intro conjI micros_adj)
  show "0 \<le> usec (Ns_AdjTime t)" "usec (Ns_AdjTime t) \<le> 1000000"
    using smod_million_neg [of "usec t"] smod_million_pos [of "usec t"]
    by (auto simp: Ns_AdjTime_def)
  show "usec (Ns_AdjTime t) = 1000000 \<longleftrightarrow> usec t = 1000000 \<or> usec t < 0 \<and> 1000000 dvd usec t"
    using smod_million_zero [of "usec t"] smod_million_pos [of "usec t"] by (auto simp: Ns_AdjTime_def)
qed

text \<open>
  On normalised times \<open>Ns_DiffTime\<close> returns the sign of the comparison and a normalised time
  denoting the difference of the two instants.
\<close>

theorem diff_time_order:
  assumes "normal t1" "normal t0"
  shows "Ns_DiffTime t1 t0 = (if t1 < t0 then -1 else if t1 = t0 then 0 else 1, snd (Ns_DiffTime t1 t0)) \<and>
     normal (snd (Ns_DiffTime t1 t0)) \<and> micros (snd (Ns_DiffTime t1 t0)) = micros t1 - micros t0"
  by (rule DiffTime_normal [OF assms])

lemma diff_time_order_witness:
  "fst (Ns_DiffTime (Ns_Time 7 100) (Ns_Time 5 200)) = 1 \<and>
   micros (snd (Ns_DiffTime (Ns_Time 7 100) (Ns_Time 5 200))) = 1999900"
  using diff_time_order [of "Ns_Time 7 100" "Ns_Time 5 200"]
  by (simp add: normal_def micros_def less_Ns_Time_def Ns_DiffTime_def Ns_AdjTime_def)

end
