(* ===== verification/Sched.thy ===== *)
theory Sched
  imports Prelude "HOL-Library.Word"
begin

unbundle bit_operations_syntax

text \<open>
  The scheduler of \<open>nsd/sched.c\<close>: events in a binary heap ordered by the time they are next due
  (\<open>nextqueue\<close>), a table of the events by id, and the threads that fire them.  Events live in a
  store and the heap array holds their addresses, as the code shares event pointers between the
  heap, the table and the lists of events about to run; slot 0 of the array is unused.  Every
  operation of the model is a region of the code that runs under the scheduler's mutex, so an
  interleaving of threads is a sequence of these operations.  The clock, the
  initial contents of allocated memory and the calendar functions \<open>ns_localtime\<close> and \<open>mktime\<close> are
  arguments.
\<close>

section \<open>Events\<close>

definition NS_SCHED_THREAD :: "32 word" where "NS_SCHED_THREAD = 1"
definition NS_SCHED_ONCE :: "32 word" where "NS_SCHED_ONCE = 2"
definition NS_SCHED_DAILY :: "32 word" where "NS_SCHED_DAILY = 4"
definition NS_SCHED_WEEKLY :: "32 word" where "NS_SCHED_WEEKLY = 8"
definition NS_SCHED_PAUSED :: "32 word" where "NS_SCHED_PAUSED = 16"
definition NS_SCHED_RUNNING :: "32 word" where "NS_SCHED_RUNNING = 32"

lemmas sched_flag_defs = NS_SCHED_THREAD_def NS_SCHED_ONCE_def NS_SCHED_DAILY_def
  NS_SCHED_WEEKLY_def NS_SCHED_PAUSED_def NS_SCHED_RUNNING_def

record Event =
  hashed :: bool
  e_id :: int
  qid :: nat
  nextqueue :: int
  lastqueue :: int
  laststart :: int
  lastend :: int
  e_flags :: "32 word"
  interval :: int

text \<open>
  \<open>freed\<close> holds the addresses given to \<open>FreeEvent\<close>, \<open>firstEventPtr\<close> and \<open>readyPtr\<close> the two lists linked
  through \<open>nextPtr\<close>, and \<open>executing\<close> the events whose procedure a thread is running.
\<close>

record sched =
  ev :: "nat \<Rightarrow> Event"
  queue :: "nat list"
  nqueue :: nat
  maxqueue :: nat
  eventsTable :: "int \<Rightarrow> nat option"
  nextId :: int
  firstEventPtr :: "nat list"
  readyPtr :: "nat list"
  executing :: "nat list"
  freed :: "nat list"
  shutdownPending :: bool

record tm =
  tm_sec :: int
  tm_min :: int
  tm_hour :: int
  tm_mday :: int
  tm_wday :: int
  tm_rest :: int

abbreviation upd_ev :: "nat \<Rightarrow> (Event \<Rightarrow> Event) \<Rightarrow> sched \<Rightarrow> sched" where
  "upd_ev a f s \<equiv> s\<lparr>ev := (ev s)(a := f (ev s a))\<rparr>"

definition due :: "sched \<Rightarrow> nat \<Rightarrow> int" where
  "due s i = nextqueue (ev s (queue s ! i))"

section \<open>The heap\<close>

definition Exchange :: "nat \<Rightarrow> nat \<Rightarrow> sched \<Rightarrow> sched" where
  "Exchange i j s =
     (let tmp = queue s ! i;
          s1 = s\<lparr>queue := (queue s)[i := queue s ! j]\<rparr>;
          s2 = s1\<lparr>queue := (queue s1)[j := tmp]\<rparr>;
          s3 = upd_ev (queue s2 ! i) (\<lambda>e. e\<lparr>qid := i\<rparr>) s2
      in upd_ev (queue s3 ! j) (\<lambda>e. e\<lparr>qid := j\<rparr>) s3)"

fun heap_up :: "nat \<Rightarrow> sched \<Rightarrow> sched" where
  "heap_up k s =
     (if k > 1 \<and> due s (k div 2) > due s k then heap_up (k div 2) (Exchange (k div 2) k s) else s)"

declare heap_up.simps [simp del]

lemma Exchange_keeps [simp]:
  "nqueue (Exchange i j s) = nqueue s" "maxqueue (Exchange i j s) = maxqueue s"
  "eventsTable (Exchange i j s) = eventsTable s" "nextId (Exchange i j s) = nextId s"
  "firstEventPtr (Exchange i j s) = firstEventPtr s" "readyPtr (Exchange i j s) = readyPtr s"
  "executing (Exchange i j s) = executing s" "freed (Exchange i j s) = freed s"
  "shutdownPending (Exchange i j s) = shutdownPending s"
  by (simp_all add: Exchange_def Let_def)

text \<open>The callers never pass a \<open>qid\<close> of 0, which is the unused slot; the loop would not move off it.\<close>

function heap_down :: "nat \<Rightarrow> sched \<Rightarrow> sched" where
  "heap_down q s =
     (if q = 0 \<or> \<not> 2 * q \<le> nqueue s then s
      else let j = (if 2 * q < nqueue s \<and> due s (2 * q) > due s (2 * q + 1) then 2 * q + 1 else 2 * q)
           in if due s j > due s q then s else heap_down j (Exchange q j s))"
  by pat_completeness auto

termination
  by (relation "measure (\<lambda>(q, s). nqueue s - q)") (auto split: if_splits)

declare heap_down.simps [simp del]

lemma nqueue_heap_down [simp]: "nqueue (heap_down q s) = nqueue s"
  by (induction q s rule: heap_down.induct) (subst heap_down.simps, auto simp: Let_def)

section \<open>Queueing and removing events\<close>

text \<open>
  The time an event is next due: an interval from now, or the next occurrence of a time of the
  day or week (the calendar interprets the interval as seconds after local midnight).
\<close>

definition next_time :: "(int \<Rightarrow> tm) \<Rightarrow> (tm \<Rightarrow> int) \<Rightarrow> int \<Rightarrow> Event \<Rightarrow> int" where
  "next_time ns_localtime mktime now e =
     (if e_flags e AND (NS_SCHED_DAILY OR NS_SCHED_WEEKLY) \<noteq> 0 then
        let tp0 = (ns_localtime now)\<lparr>tm_sec := interval e, tm_hour := 0, tm_min := 0\<rparr>;
            weekly = e_flags e AND NS_SCHED_WEEKLY \<noteq> 0;
            tp = (if weekly then tp0\<lparr>tm_mday := tm_mday tp0 - tm_wday tp0\<rparr> else tp0);
            t = mktime tp
        in if t \<le> now then mktime (tp\<lparr>tm_mday := tm_mday tp + (if weekly then 7 else 1)\<rparr>) else t
      else now + interval e)"

text \<open>\<open>realloc\<close> of the array: the old slots are kept and the new ones hold arbitrary addresses, here 0.\<close>

definition queue_grow :: "sched \<Rightarrow> sched" where
  "queue_grow s =
     (if maxqueue s \<le> nqueue s
      then s\<lparr>maxqueue := maxqueue s + 25,
             queue := queue s @ replicate (maxqueue s + 25 + 1 - length (queue s)) 0\<rparr>
      else s)"

definition QueueEvent :: "(int \<Rightarrow> tm) \<Rightarrow> (tm \<Rightarrow> int) \<Rightarrow> int \<Rightarrow> nat \<Rightarrow> sched \<Rightarrow> sched" where
  "QueueEvent lt mk now a s =
     (if e_flags (ev s a) AND NS_SCHED_PAUSED \<noteq> 0 then s
      else
        let s1 = upd_ev a (\<lambda>e. e\<lparr>nextqueue := next_time lt mk now e, qid := nqueue s + 1\<rparr>) s;
            s2 = queue_grow (s1\<lparr>nqueue := nqueue s1 + 1\<rparr>);
            s3 = s2\<lparr>queue := (queue s2)[nqueue s2 := a]\<rparr>
        in if nqueue s3 > 1 then heap_up (nqueue s3) s3 else s3)"

definition DeQueueEvent :: "nat \<Rightarrow> sched \<Rightarrow> nat \<times> sched" where
  "DeQueueEvent q s =
     (let s1 = Exchange q (nqueue s) s;
          a = queue s1 ! nqueue s1;
          s2 = upd_ev a (\<lambda>e. e\<lparr>qid := 0\<rparr>) (s1\<lparr>nqueue := nqueue s1 - 1\<rparr>)
      in (a, heap_down q s2))"

definition FreeEvent :: "nat \<Rightarrow> sched \<Rightarrow> sched" where
  "FreeEvent a s = s\<lparr>freed := a # freed s\<rparr>"

section \<open>The scheduling calls\<close>

text \<open>
  The search for an unused id: \<open>nextId\<close> counts up and wraps to 0 past the largest \<open>int\<close>.  Without a
  free id the loop of the code would not end; the fuel is the number of ids, after which every
  id has been tried.
\<close>

abbreviation max_ids :: nat where "max_ids \<equiv> 2147483648"

fun fresh_id :: "nat \<Rightarrow> (int \<Rightarrow> nat option) \<Rightarrow> int \<Rightarrow> (int \<times> int) option" where
  "fresh_id fuel tab next =
     (if fuel = 0 then None
      else let next' = (if next + 1 \<ge> int max_ids then 0 else next + 1)
           in if tab next = None then Some (next, next') else fresh_id (fuel - 1) tab next')"

declare fresh_id.simps [simp del]

definition Ns_ScheduleProcEx ::
    "(int \<Rightarrow> tm) \<Rightarrow> (tm \<Rightarrow> int) \<Rightarrow> int \<Rightarrow> nat \<times> nat \<Rightarrow> 32 word \<Rightarrow> int \<Rightarrow> sched \<Rightarrow> (int option \<times> sched) option" where
  "Ns_ScheduleProcEx lt mk now mem flags intv s =
     (if intv < 0 then Some (None, s)
      else if shutdownPending s then Some (None, s)
      else
        let (a, junk) = mem in
        (case fresh_id max_ids (eventsTable s) (nextId s) of
           None \<Rightarrow> None
         | Some (eid, nextId') \<Rightarrow>
             let e = \<lparr>hashed = True, e_id = eid, qid = junk, nextqueue = 0, lastqueue = -1, laststart = -1,
                      lastend = -1, e_flags = flags, interval = intv\<rparr>;
                 s1 = s\<lparr>ev := (ev s)(a := e), eventsTable := (eventsTable s)(eid \<mapsto> a), nextId := nextId'\<rparr>
             in Some (Some eid, QueueEvent lt mk now a s1)))"

definition Ns_After where
  "Ns_After lt mk now mem delay s =
     (if delay < 0 then Some (None, s) else Ns_ScheduleProcEx lt mk now mem NS_SCHED_ONCE delay s)"

definition Ns_ScheduleProc where
  "Ns_ScheduleProc lt mk now mem thread intv s =
     (if intv < 0 then Some (None, s)
      else Ns_ScheduleProcEx lt mk now mem (if thread then NS_SCHED_THREAD else 0) intv s)"

definition Ns_ScheduleDaily where
  "Ns_ScheduleDaily lt mk now mem flags hour minute s =
     (if hour > 23 \<or> hour < 0 \<or> minute > 59 \<or> minute < 0 then Some (None, s)
      else Ns_ScheduleProcEx lt mk now mem (flags OR NS_SCHED_DAILY) (hour * 3600 + minute * 60) s)"

definition Ns_ScheduleWeekly where
  "Ns_ScheduleWeekly lt mk now mem flags day hour minute s =
     (if day < 0 \<or> day > 6 \<or> hour > 23 \<or> hour < 0 \<or> minute > 59 \<or> minute < 0 then Some (None, s)
      else Ns_ScheduleProcEx lt mk now mem (flags OR NS_SCHED_WEEKLY)
             ((day * 24 + hour) * 3600 + minute * 60) s)"

definition Ns_Cancel :: "int \<Rightarrow> sched \<Rightarrow> bool \<times> sched" where
  "Ns_Cancel eid s =
     (if shutdownPending s then (False, s)
      else case eventsTable s eid of
        None \<Rightarrow> (False, s)
      | Some a \<Rightarrow>
          let s1 = upd_ev a (\<lambda>e. e\<lparr>hashed := False\<rparr>) (s\<lparr>eventsTable := (eventsTable s)(eid := None)\<rparr>)
          in if qid (ev s1 a) > 0 then (True, FreeEvent a (snd (DeQueueEvent (qid (ev s1 a)) s1)))
             else (False, s1))"

definition Ns_UnscheduleProc :: "int \<Rightarrow> sched \<Rightarrow> sched" where
  "Ns_UnscheduleProc eid s = snd (Ns_Cancel eid s)"

definition Ns_Pause :: "int \<Rightarrow> sched \<Rightarrow> bool \<times> sched" where
  "Ns_Pause eid s =
     (if shutdownPending s then (False, s)
      else case eventsTable s eid of
        None \<Rightarrow> (False, s)
      | Some a \<Rightarrow>
          if e_flags (ev s a) AND NS_SCHED_PAUSED = 0 then
            let s1 = upd_ev a (\<lambda>e. e\<lparr>e_flags := e_flags e OR NS_SCHED_PAUSED\<rparr>) s
            in (True, if qid (ev s1 a) > 0 then snd (DeQueueEvent (qid (ev s1 a)) s1) else s1)
          else (False, s))"

definition Ns_Resume :: "(int \<Rightarrow> tm) \<Rightarrow> (tm \<Rightarrow> int) \<Rightarrow> int \<Rightarrow> int \<Rightarrow> sched \<Rightarrow> bool \<times> sched" where
  "Ns_Resume lt mk now eid s =
     (if shutdownPending s then (False, s)
      else case eventsTable s eid of
        None \<Rightarrow> (False, s)
      | Some a \<Rightarrow>
          if e_flags (ev s a) AND NS_SCHED_PAUSED \<noteq> 0 then
            (True, QueueEvent lt mk now a
                     (upd_ev a (\<lambda>e. e\<lparr>e_flags := e_flags e AND NOT NS_SCHED_PAUSED\<rparr>) s))
          else (False, s))"

section \<open>Firing events\<close>

text \<open>One round of \<open>SchedThread\<close>'s inner loop: the first event of the heap, if it is due, leaves it.\<close>

definition sched_take :: "int \<Rightarrow> sched \<Rightarrow> sched" where
  "sched_take now s =
     (let (a, s1) = DeQueueEvent 1 s;
          s2 = (if e_flags (ev s1 a) AND NS_SCHED_ONCE \<noteq> 0
                then upd_ev a (\<lambda>e. e\<lparr>hashed := False\<rparr>)
                       (s1\<lparr>eventsTable := (eventsTable s1)(e_id (ev s1 a) := None)\<rparr>)
                else s1);
          s3 = upd_ev a (\<lambda>e. e\<lparr>lastqueue := now\<rparr>) s2
      in if e_flags (ev s3 a) AND NS_SCHED_THREAD \<noteq> 0 then
           (upd_ev a (\<lambda>e. e\<lparr>e_flags := e_flags e OR NS_SCHED_RUNNING, laststart := now\<rparr>) s3)
             \<lparr>firstEventPtr := a # firstEventPtr s3\<rparr>
         else s3\<lparr>readyPtr := a # readyPtr s3\<rparr>)"

lemma nqueue_sched_take: "nqueue (sched_take now s) = nqueue s - 1"
  by (simp add: sched_take_def DeQueueEvent_def Let_def split_def)

function sched_take_all :: "int \<Rightarrow> sched \<Rightarrow> sched" where
  "sched_take_all now s =
     (if nqueue s > 0 \<and> due s 1 \<le> now then sched_take_all now (sched_take now s) else s)"
  by pat_completeness auto

termination
  by (relation "measure (\<lambda>(now, s). nqueue s)") (auto simp: nqueue_sched_take)

declare sched_take_all.simps [simp del]

text \<open>\<open>SchedThread\<close> starting and finishing one synchronous event.\<close>

definition sched_run_begin :: "int \<Rightarrow> sched \<Rightarrow> sched" where
  "sched_run_begin now s =
     (case readyPtr s of
        [] \<Rightarrow> s
      | a # rest \<Rightarrow>
          (upd_ev a (\<lambda>e. e\<lparr>laststart := now, e_flags := e_flags e OR NS_SCHED_RUNNING\<rparr>) s)
            \<lparr>readyPtr := rest, executing := a # executing s\<rparr>)"

text \<open>\<open>EventThread\<close> starting one detached event.\<close>

definition event_run_begin :: "sched \<Rightarrow> sched" where
  "event_run_begin s =
     (case firstEventPtr s of
        [] \<Rightarrow> s
      | a # rest \<Rightarrow> s\<lparr>firstEventPtr := rest, executing := a # executing s\<rparr>)"

text \<open>
  The end of a run, the same in both threads: an event no longer in the table is freed, any
  other is queued again.
\<close>

definition run_end :: "(int \<Rightarrow> tm) \<Rightarrow> (tm \<Rightarrow> int) \<Rightarrow> int \<Rightarrow> nat \<Rightarrow> sched \<Rightarrow> sched" where
  "run_end lt mk now a s =
     (let s0 = s\<lparr>executing := remove1 a (executing s)\<rparr>
      in if \<not> hashed (ev s0 a) then FreeEvent a s0
         else QueueEvent lt mk now a
                (upd_ev a (\<lambda>e. e\<lparr>e_flags := e_flags e AND NOT NS_SCHED_RUNNING, lastend := now\<rparr>) s0))"

definition NsStartSchedShutdown :: "bool \<Rightarrow> sched \<Rightarrow> sched" where
  "NsStartSchedShutdown running s = (if running then s\<lparr>shutdownPending := True\<rparr> else s)"

text \<open>The end of \<open>SchedThread\<close>: every event still in the heap is freed.\<close>

definition sched_cleanup :: "sched \<Rightarrow> sched" where
  "sched_cleanup s = s\<lparr>freed := map ((!) (queue s)) [1..<nqueue s + 1] @ freed s, nqueue := 0, queue := []\<rparr>"

section \<open>Heap order\<close>

text \<open>The order of the heap as a condition on the due times by slot, with one slot out of place.\<close>

definition heap_order :: "nat \<Rightarrow> (nat \<Rightarrow> int) \<Rightarrow> bool" where
  "heap_order n d \<longleftrightarrow> (\<forall>i. 2 \<le> i \<longrightarrow> i \<le> n \<longrightarrow> d (i div 2) \<le> d i)"

definition order_up :: "nat \<Rightarrow> nat \<Rightarrow> (nat \<Rightarrow> int) \<Rightarrow> bool" where
  "order_up n k d \<longleftrightarrow>
     (\<forall>i. 2 \<le> i \<longrightarrow> i \<le> n \<longrightarrow>
        (i \<noteq> k \<longrightarrow> d (i div 2) \<le> d i) \<and> (i div 2 = k \<longrightarrow> 1 < k \<longrightarrow> d (k div 2) \<le> d i))"

definition order_down :: "nat \<Rightarrow> nat \<Rightarrow> (nat \<Rightarrow> int) \<Rightarrow> bool" where
  "order_down n q d \<longleftrightarrow>
     (\<forall>i. 2 \<le> i \<longrightarrow> i \<le> n \<longrightarrow>
        (i div 2 \<noteq> q \<longrightarrow> d (i div 2) \<le> d i) \<and> (i div 2 = q \<longrightarrow> 1 < q \<longrightarrow> d (q div 2) \<le> d i))"

definition swapped :: "nat \<Rightarrow> nat \<Rightarrow> (nat \<Rightarrow> 'a) \<Rightarrow> nat \<Rightarrow> 'a" where
  "swapped i j d = d(i := d j, j := d i)"

lemma order_up_step:
  assumes "order_up n k d" "1 < k" "k \<le> n" "d k < d (k div 2)"
  shows "order_up n (k div 2) (swapped (k div 2) k d)"
  unfolding order_up_def
proof (intro allI impI)
  fix i assume i: "2 \<le> i" "i \<le> n"
  have ne: "k div 2 \<noteq> k" "k div 2 \<noteq> 0" using assms(2) by auto
  have i2: "i div 2 \<noteq> i" using i by auto
  have at: "(i \<noteq> k \<longrightarrow> d (i div 2) \<le> d i) \<and> (i div 2 = k \<longrightarrow> d (k div 2) \<le> d i)"
    using assms(1,2) i by (auto simp: order_up_def)
  have up: "d (k div 2 div 2) \<le> d (k div 2)" if "1 < k div 2"
    using assms(1,3) that ne by (auto simp: order_up_def)
  show "(i \<noteq> k div 2 \<longrightarrow> swapped (k div 2) k d (i div 2) \<le> swapped (k div 2) k d i) \<and>
      (i div 2 = k div 2 \<longrightarrow> 1 < k div 2 \<longrightarrow>
         swapped (k div 2) k d (k div 2 div 2) \<le> swapped (k div 2) k d i)"
    using at up assms(4) ne i2 by (auto simp: swapped_def)
qed

lemma order_up_done:
  assumes "order_up n k d" "\<not> (1 < k \<and> d k < d (k div 2))"
  shows "heap_order n d"
  unfolding heap_order_def
proof (intro allI impI)
  fix i assume i: "2 \<le> i" "i \<le> n"
  show "d (i div 2) \<le> d i"
  proof (cases "i = k")
    case True
    with i assms(2) show ?thesis by simp
  next
    case False
    with i assms(1) show ?thesis by (simp add: order_up_def)
  qed
qed

lemma order_down_step:
  assumes "order_down n q d" "0 < q" "j div 2 = q" "j \<le> n" "d j \<le> d q"
    and least: "\<And>i. i div 2 = q \<Longrightarrow> i \<le> n \<Longrightarrow> d j \<le> d i"
  shows "order_down n j (swapped q j d)"
  unfolding order_down_def
proof (intro allI impI)
  fix i assume i: "2 \<le> i" "i \<le> n"
  have ne: "q \<noteq> j" "2 \<le> j" using assms(2,3) by auto
  have at: "(i div 2 \<noteq> q \<longrightarrow> d (i div 2) \<le> d i) \<and> (i div 2 = q \<longrightarrow> 1 < q \<longrightarrow> d (q div 2) \<le> d i)"
    using assms(1) i by (auto simp: order_down_def)
  have j: "1 < q \<longrightarrow> d (q div 2) \<le> d j" using assms(1,3,4) ne by (auto simp: order_down_def)
  have i2: "i div 2 \<noteq> i" "i div 2 \<noteq> 0" using i by auto
  show "(i div 2 \<noteq> j \<longrightarrow> swapped q j d (i div 2) \<le> swapped q j d i) \<and>
      (i div 2 = j \<longrightarrow> 1 < j \<longrightarrow> swapped q j d (j div 2) \<le> swapped q j d i)"
    using at j least [of i] assms(3,5) ne i i2 by (auto simp: swapped_def)
qed

lemma order_down_done:
  assumes "order_down n q d" "\<And>i. i div 2 = q \<Longrightarrow> 2 \<le> i \<Longrightarrow> i \<le> n \<Longrightarrow> d q \<le> d i"
  shows "heap_order n d"
  using assms by (auto simp: order_down_def heap_order_def)

lemma heap_order_root:
  assumes "heap_order n d" "1 \<le> i" "i \<le> n"
  shows "d 1 \<le> d i"
  using assms(2,3)
proof (induction i rule: less_induct)
  case (less i)
  show ?case
  proof (cases "i = 1")
    case False
    with less.prems have "1 \<le> i div 2" "i div 2 < i" "2 \<le> i" by auto
    with less assms(1) show ?thesis by (meson heap_order_def less_imp_le order_trans)
  qed simp
qed

section \<open>The heap array and the events in it\<close>

text \<open>
  \<open>room\<close>: the array has its allocated length and a free slot.  \<open>qids\<close>: every event in the heap
  records its own slot, so no event is in the heap twice.
\<close>

definition queued :: "sched \<Rightarrow> nat list" where
  "queued s = take (nqueue s) (drop 1 (queue s))"

definition room :: "sched \<Rightarrow> bool" where
  "room s \<longleftrightarrow> maxqueue s = 0 \<and> nqueue s = 0 \<and> queue s = [] \<or>
              nqueue s < maxqueue s \<and> length (queue s) = maxqueue s + 1"

definition qids :: "sched \<Rightarrow> bool" where
  "qids s \<longleftrightarrow> (\<forall>i. 1 \<le> i \<longrightarrow> i \<le> nqueue s \<longrightarrow> qid (ev s (queue s ! i)) = i)"

definition heap_inv :: "sched \<Rightarrow> bool" where
  "heap_inv s \<longleftrightarrow> room s \<and> qids s \<and> heap_order (nqueue s) (due s)"

text \<open>What the heap operations may change: the order of the array and the slots the events record.\<close>

definition frame where
  "frame s = (nqueue s, maxqueue s, eventsTable s, nextId s, firstEventPtr s, readyPtr s, executing s,
     freed s, shutdownPending s)" for s :: sched

definition reordered :: "sched \<Rightarrow> sched \<Rightarrow> bool" where
  "reordered s s' \<longleftrightarrow> frame s' = frame s \<and> length (queue s') = length (queue s) \<and>
     mset (queued s') = mset (queued s) \<and>
     (\<forall>a. (ev s' a)\<lparr>qid := 0\<rparr> = (ev s a)\<lparr>qid := 0\<rparr>) \<and>
     (\<forall>a. a \<notin> set (queued s) \<longrightarrow> ev s' a = ev s a)"

lemma room_slot: "room s \<Longrightarrow> i \<le> nqueue s \<Longrightarrow> 1 \<le> i \<Longrightarrow> i < length (queue s)"
  by (auto simp: room_def)

lemma length_queued [simp]: "room s \<Longrightarrow> length (queued s) = nqueue s"
  by (auto simp: room_def queued_def)

lemma queued_nth: "room s \<Longrightarrow> i < nqueue s \<Longrightarrow> queued s ! i = queue s ! Suc i"
  by (auto simp: room_def queued_def)

lemma slot_queued: "room s \<Longrightarrow> 1 \<le> i \<Longrightarrow> i \<le> nqueue s \<Longrightarrow> queue s ! i \<in> set (queued s)"
  by (metis One_nat_def Suc_pred length_queued less_eq_Suc_le nth_mem queued_nth)

lemma queued_slot: "room s \<Longrightarrow> a \<in> set (queued s) \<Longrightarrow> \<exists>i. 1 \<le> i \<and> i \<le> nqueue s \<and> queue s ! i = a"
  by (metis One_nat_def Suc_le_eq in_set_conv_nth le_add1 length_queued plus_1_eq_Suc queued_nth)

lemma qids_queued: "room s \<Longrightarrow> qids s \<Longrightarrow> a \<in> set (queued s) \<Longrightarrow>
    1 \<le> qid (ev s a) \<and> qid (ev s a) \<le> nqueue s \<and> queue s ! qid (ev s a) = a"
  using queued_slot [of s a] by (auto simp: qids_def)

lemma qids_inj: "qids s \<Longrightarrow> 1 \<le> i \<Longrightarrow> i \<le> nqueue s \<Longrightarrow> 1 \<le> j \<Longrightarrow> j \<le> nqueue s \<Longrightarrow>
    queue s ! i = queue s ! j \<longleftrightarrow> i = j"
  by (metis qids_def)

lemma distinct_queued: "room s \<Longrightarrow> qids s \<Longrightarrow> distinct (queued s)"
  by (auto simp: distinct_conv_nth queued_nth qids_inj)

lemma reordered_refl [intro]: "reordered s s"
  by (simp add: reordered_def)

lemma reordered_trans [trans]: "reordered s t \<Longrightarrow> reordered t u \<Longrightarrow> reordered s u"
  unfolding reordered_def by (metis set_mset_mset)

lemma reordered_room: "reordered s t \<Longrightarrow> room s \<Longrightarrow> room t"
  by (auto simp: reordered_def room_def frame_def)

lemma Exchange_queue: "queue (Exchange i j s) = (queue s)[i := queue s ! j, j := queue s ! i]"
  by (simp add: Exchange_def Let_def)

lemma Exchange_ev:
  assumes "i < length (queue s)" "j < length (queue s)"
  shows "ev (Exchange i j s) a =
     (if a = queue s ! i then (ev s a)\<lparr>qid := j\<rparr> else if a = queue s ! j then (ev s a)\<lparr>qid := i\<rparr> else ev s a)"
  using assms by (cases "i = j") (auto simp: Exchange_def Let_def nth_list_update)

lemma Exchange_due:
  assumes "i < length (queue s)" "j < length (queue s)"
  shows "due (Exchange i j s) = swapped i j (due s)"
  using assms by (auto simp: fun_eq_iff due_def Exchange_ev Exchange_queue swapped_def nth_list_update)

lemma Exchange_reordered:
  assumes "room s" "1 \<le> i" "i \<le> nqueue s" "1 \<le> j" "j \<le> nqueue s"
  shows "reordered s (Exchange i j s)"
proof -
  note in_range = room_slot [OF assms(1,3,2)] room_slot [OF assms(1,5,4)]
  have "queued (Exchange i j s) = (queued s)[i - 1 := queued s ! (j - 1), j - 1 := queued s ! (i - 1)]"
    using assms in_range
    by (simp add: queued_def Exchange_queue drop_update_swap take_update_swap)
  then have "mset (queued (Exchange i j s)) = mset (queued s)"
    using assms by (simp add: mset_swap)
  moreover have "queue s ! i \<in> set (queued s)" "queue s ! j \<in> set (queued s)"
    using assms by (auto intro: slot_queued)
  ultimately show ?thesis
    using in_range by (auto simp: reordered_def frame_def Exchange_ev Exchange_queue)
qed

lemma Exchange_qids:
  assumes "room s" "qids s" "1 \<le> i" "i \<le> nqueue s" "1 \<le> j" "j \<le> nqueue s"
  shows "qids (Exchange i j s)"
proof -
  note in_range = room_slot [OF assms(1,4,3)] room_slot [OF assms(1,6,5)]
  show ?thesis unfolding qids_def
    using assms in_range
    by (auto simp: Exchange_ev Exchange_queue nth_list_update qids_inj) (auto simp: qids_def)
qed

lemma heap_up_general:
  assumes "room s" "qids s" "1 \<le> k" "k \<le> nqueue s"
  shows "reordered s (heap_up k s) \<and> qids (heap_up k s) \<and>
    (order_up (nqueue s) k (due s) \<longrightarrow> heap_order (nqueue s) (due (heap_up k s)))"
  using assms
proof (induction k s rule: heap_up.induct)
  case (1 k s)
  let ?p = "k div 2"
  show ?case
  proof (cases "k > 1 \<and> due s ?p > due s k")
    case True
    have p: "1 \<le> ?p" "?p \<le> nqueue s" using True "1.prems" by auto
    note ex = Exchange_reordered [OF "1.prems"(1) p "1.prems"(3,4)]
    have od: "order_up (nqueue s) k (due s) \<Longrightarrow> order_up (nqueue s) ?p (due (Exchange ?p k s))"
      using order_up_step [of "nqueue s" k "due s"] True "1.prems" p
      by (simp add: Exchange_due room_slot)
    have step: "heap_up k s = heap_up ?p (Exchange ?p k s)"
      using True by (subst heap_up.simps) simp
    have "reordered (Exchange ?p k s) (heap_up ?p (Exchange ?p k s)) \<and> qids (heap_up ?p (Exchange ?p k s)) \<and>
       (order_up (nqueue s) ?p (due (Exchange ?p k s)) \<longrightarrow>
          heap_order (nqueue s) (due (heap_up ?p (Exchange ?p k s))))"
      using "1.IH" [OF True] ex p "1.prems" by (simp add: reordered_room Exchange_qids)
    with ex od show ?thesis unfolding step by (auto intro: reordered_trans)
  next
    case False
    have stop: "heap_up k s = s" using False by (subst heap_up.simps) auto
    show ?thesis unfolding stop using order_up_done [of "nqueue s" k "due s"] False "1.prems" by auto
  qed
qed

lemma heap_down_general:
  assumes "room s" "qids s" "1 \<le> q" "q \<le> nqueue s"
  shows "reordered s (heap_down q s) \<and> qids (heap_down q s) \<and>
    (order_down (nqueue s) q (due s) \<longrightarrow> heap_order (nqueue s) (due (heap_down q s)))"
  using assms
proof (induction q s rule: heap_down.induct)
  case (1 q s)
  define j where "j = (if 2 * q < nqueue s \<and> due s (2 * q) > due s (2 * q + 1) then 2 * q + 1 else 2 * q)"
  have least: "due s j \<le> due s i" if "i div 2 = q" "i \<le> nqueue s" for i
  proof -
    have "i = 2 * q \<or> i = 2 * q + 1" using that(1) by auto
    with that(2) show ?thesis by (auto simp: j_def)
  qed
  show ?case
  proof (cases "2 * q \<le> nqueue s \<and> \<not> due s j > due s q")
    case True
    have j: "1 \<le> j" "j \<le> nqueue s" "j div 2 = q" using True "1.prems" by (auto simp: j_def)
    note ex = Exchange_reordered [OF "1.prems"(1,3,4) j(1,2)]
    have od: "order_down (nqueue s) q (due s) \<Longrightarrow> order_down (nqueue s) j (due (Exchange q j s))"
      using order_down_step [of "nqueue s" q "due s" j] True "1.prems" j least
      by (simp add: Exchange_due room_slot)
    have step: "heap_down q s = heap_down j (Exchange q j s)"
      using True "1.prems" by (subst heap_down.simps) (simp add: j_def Let_def)
    have "reordered (Exchange q j s) (heap_down j (Exchange q j s)) \<and> qids (heap_down j (Exchange q j s)) \<and>
       (order_down (nqueue s) j (due (Exchange q j s)) \<longrightarrow>
          heap_order (nqueue s) (due (heap_down j (Exchange q j s))))"
      using "1.IH" [OF _ j_def] True ex j "1.prems" by (simp add: reordered_room Exchange_qids)
    with ex od show ?thesis unfolding step by (auto intro: reordered_trans)
  next
    case False
    have stop: "heap_down q s = s"
      using False "1.prems" by (subst heap_down.simps) (auto simp: j_def Let_def)
    have "due s q \<le> due s i" if "i div 2 = q" "2 \<le> i" "i \<le> nqueue s" for i
      using False least [OF that(1,3)] that by (force intro: order_trans)
    with order_down_done [of "nqueue s" q "due s"] "1.prems" show ?thesis unfolding stop by auto
  qed
qed

section \<open>Queueing and removing keep the heap\<close>

text \<open>The state after an event has been put into the last slot, before it moves up.\<close>

definition placed :: "int \<Rightarrow> nat \<Rightarrow> sched \<Rightarrow> sched" where
  "placed t a s =
     (let s2 = queue_grow ((upd_ev a (\<lambda>e. e\<lparr>nextqueue := t, qid := nqueue s + 1\<rparr>) s)\<lparr>nqueue := nqueue s + 1\<rparr>)
      in s2\<lparr>queue := (queue s2)[nqueue s2 := a]\<rparr>)"

lemma QueueEvent_placed:
  assumes "e_flags (ev s a) AND NS_SCHED_PAUSED = 0"
  shows "QueueEvent lt mk now a s =
    heap_up (nqueue s + 1) (placed (next_time lt mk now (ev s a)) a s)"
proof -
  let ?p = "placed (next_time lt mk now (ev s a)) a s"
  have "nqueue ?p = nqueue s + 1" by (simp add: placed_def queue_grow_def Let_def)
  moreover have "heap_up 1 ?p = ?p" by (subst heap_up.simps) simp
  ultimately show ?thesis using assms
    by (simp add: QueueEvent_def placed_def Let_def) (metis One_nat_def less_one nat_neq_iff not_gr0 less_Suc_eq)
qed

lemma placed_fields:
  "nqueue (placed t a s) = nqueue s + 1" "eventsTable (placed t a s) = eventsTable s"
  "firstEventPtr (placed t a s) = firstEventPtr s" "readyPtr (placed t a s) = readyPtr s"
  "executing (placed t a s) = executing s" "freed (placed t a s) = freed s"
  "shutdownPending (placed t a s) = shutdownPending s" "nextId (placed t a s) = nextId s"
  "ev (placed t a s) = (ev s)(a := (ev s a)\<lparr>nextqueue := t, qid := nqueue s + 1\<rparr>)"
  by (simp_all add: placed_def queue_grow_def Let_def)

lemma placed_slots:
  assumes "room s"
  shows "room (placed t a s) \<and> queued (placed t a s) = queued s @ [a] \<and>
    (\<forall>i. 1 \<le> i \<longrightarrow> i \<le> nqueue s \<longrightarrow> queue (placed t a s) ! i = queue s ! i) \<and>
    queue (placed t a s) ! (nqueue s + 1) = a"
proof -
  let ?m = "if maxqueue s \<le> nqueue s + 1 then maxqueue s + 25 else maxqueue s"
  let ?q = "if maxqueue s \<le> nqueue s + 1 then queue s @ replicate (maxqueue s + 25 + 1 - length (queue s)) 0
            else queue s"
  have q: "queue (placed t a s) = ?q[nqueue s + 1 := a]" and m: "maxqueue (placed t a s) = ?m"
    by (simp_all add: placed_def queue_grow_def Let_def)
  have len: "length ?q = ?m + 1" "nqueue s + 1 < ?m" "length (queue s) = nqueue s \<or> nqueue s + 1 < length (queue s)"
    using assms by (auto simp: room_def)
  have keep: "?q ! i = queue s ! i" if "1 \<le> i" "i \<le> nqueue s" for i
    using that assms by (auto simp: room_def nth_append)
  have "room (placed t a s)" using len by (simp add: room_def q m placed_fields)
  moreover have "queued (placed t a s) = queued s @ [a]"
  proof (rule nth_equalityI)
    show "length (queued (placed t a s)) = length (queued s @ [a])"
      using assms \<open>room (placed t a s)\<close> by (simp add: placed_fields)
    fix i assume "i < length (queued (placed t a s))"
    then have i: "i < nqueue s + 1" using \<open>room (placed t a s)\<close> by (simp add: placed_fields)
    have "queued (placed t a s) ! i = ?q[nqueue s + 1 := a] ! Suc i"
      using i \<open>room (placed t a s)\<close> by (simp add: queued_nth placed_fields q)
    also have "\<dots> = (queued s @ [a]) ! i"
      using i assms keep [of "Suc i"] len
      by (cases "i < nqueue s") (simp_all add: nth_append queued_nth nth_list_update less_Suc_eq)
    finally show "queued (placed t a s) ! i = (queued s @ [a]) ! i" .
  qed
  ultimately show ?thesis using keep len by (simp add: q nth_list_update)
qed

lemma placed_ok:
  assumes "room s" "qids s" "a \<notin> set (queued s)"
  shows "qids (placed t a s) \<and>
    (heap_order (nqueue s) (due s) \<longrightarrow> order_up (nqueue s + 1) (nqueue s + 1) (due (placed t a s)))"
proof -
  note sl = placed_slots [OF assms(1), of t a]
  have ne: "queue s ! i \<noteq> a" if "1 \<le> i" "i \<le> nqueue s" for i
    using slot_queued [OF assms(1) that] assms(3) by metis
  have "qids (placed t a s)"
    using sl ne assms(2) by (auto simp: qids_def placed_fields le_Suc_eq)
  moreover have "due (placed t a s) i = due s i" if "1 \<le> i" "i \<le> nqueue s" for i
    using that sl ne by (simp add: due_def placed_fields)
  then have "order_up (nqueue s + 1) (nqueue s + 1) (due (placed t a s))" if "heap_order (nqueue s) (due s)"
    using that by (auto simp: order_up_def heap_order_def le_Suc_eq)
  ultimately show ?thesis by blast
qed

text \<open>What a queueing or dequeueing leaves alone outside the heap.\<close>

definition outside :: "sched \<Rightarrow> _" where
  "outside s = (eventsTable s, nextId s, firstEventPtr s, readyPtr s, executing s, freed s, shutdownPending s)"

lemma QueueEvent_correct:
  fixes lt mk now
  assumes "room s" "qids s" "a \<notin> set (queued s)" "e_flags (ev s a) AND NS_SCHED_PAUSED = 0"
  defines "s' \<equiv> QueueEvent lt mk now a s"
  shows "room s' \<and> qids s' \<and> mset (queued s') = add_mset a (mset (queued s)) \<and> outside s' = outside s \<and>
    nqueue s' = nqueue s + 1 \<and> (heap_order (nqueue s) (due s) \<longrightarrow> heap_order (nqueue s') (due s'))"
    and "(ev s' a)\<lparr>qid := 0\<rparr> = (ev s a)\<lparr>qid := 0, nextqueue := next_time lt mk now (ev s a)\<rparr>"
    and "b \<noteq> a \<Longrightarrow> (ev s' b)\<lparr>qid := 0\<rparr> = (ev s b)\<lparr>qid := 0\<rparr>"
    and "b \<noteq> a \<Longrightarrow> b \<notin> set (queued s) \<Longrightarrow> ev s' b = ev s b"
proof -
  define p where "p = placed (next_time lt mk now (ev s a)) a s"
  have n: "nqueue p = nqueue s + 1" and ok: "room p" "qids p" and q: "queued p = queued s @ [a]"
    using placed_slots [OF assms(1)] placed_ok [OF assms(1-3)] by (simp_all add: p_def placed_fields)
  have s': "s' = heap_up (nqueue s + 1) p"
    unfolding s'_def p_def by (rule QueueEvent_placed) fact
  have up: "reordered p s' \<and> qids s' \<and>
      (order_up (nqueue s + 1) (nqueue s + 1) (due p) \<longrightarrow> heap_order (nqueue s + 1) (due s'))"
    using heap_up_general [OF ok, of "nqueue s + 1"] by (simp add: n s')
  with placed_ok [OF assms(1-3), of "next_time lt mk now (ev s a)"] reordered_room [of p s'] ok q
  show "room s' \<and> qids s' \<and> mset (queued s') = add_mset a (mset (queued s)) \<and> outside s' = outside s \<and>
    nqueue s' = nqueue s + 1 \<and> (heap_order (nqueue s) (due s) \<longrightarrow> heap_order (nqueue s') (due s'))"
    by (auto simp: reordered_def frame_def outside_def p_def placed_fields)
  have e: "(ev s' b)\<lparr>qid := 0\<rparr> = (ev p b)\<lparr>qid := 0\<rparr>" "b \<notin> set (queued p) \<Longrightarrow> ev s' b = ev p b" for b
    using up by (auto simp: reordered_def)
  show "(ev s' a)\<lparr>qid := 0\<rparr> = (ev s a)\<lparr>qid := 0, nextqueue := next_time lt mk now (ev s a)\<rparr>"
    using e(1) [of a] by (simp add: p_def placed_fields)
  show "(ev s' b)\<lparr>qid := 0\<rparr> = (ev s b)\<lparr>qid := 0\<rparr>" if "b \<noteq> a"
    using e(1) [of b] that by (simp add: p_def placed_fields)
  show "ev s' b = ev s b" if "b \<noteq> a" "b \<notin> set (queued s)"
    using e(2) [of b] that q by (simp add: p_def placed_fields)
qed

text \<open>The state after an event has been swapped out of the heap, before the gap is repaired.\<close>

definition removed :: "nat \<Rightarrow> sched \<Rightarrow> sched" where
  "removed q s = (let s1 = Exchange q (nqueue s) s
     in upd_ev (queue s ! q) (\<lambda>e. e\<lparr>qid := 0\<rparr>) (s1\<lparr>nqueue := nqueue s - 1\<rparr>))"

lemma DeQueueEvent_removed:
  assumes "room s" "1 \<le> q" "q \<le> nqueue s"
  shows "DeQueueEvent q s = (queue s ! q, heap_down q (removed q s))"
  using room_slot [OF assms(1,3,2)] room_slot [OF assms(1), of "nqueue s"] assms
  by (simp add: DeQueueEvent_def removed_def Let_def Exchange_queue nth_list_update)

lemma removed_ok:
  assumes "room s" "qids s" "1 \<le> q" "q \<le> nqueue s"
  shows "room (removed q s) \<and> qids (removed q s) \<and> nqueue (removed q s) = nqueue s - 1 \<and>
    mset (queued s) = add_mset (queue s ! q) (mset (queued (removed q s))) \<and>
    outside (removed q s) = outside s \<and>
    (\<forall>i. 1 \<le> i \<longrightarrow> i < nqueue s \<longrightarrow> due (removed q s) i = (if i = q then due s (nqueue s) else due s i))"
proof -
  let ?n = "nqueue s"
  define x where "x = Exchange q ?n s"
  have n: "1 \<le> ?n" "nqueue x = ?n" using assms by (auto simp: x_def)
  note rx = Exchange_reordered [OF assms(1,3,4) n(1) order_refl, folded x_def]
  note qx = Exchange_qids [OF assms n(1) order_refl, folded x_def]
  note roomx = reordered_room [OF rx assms(1)]
  have last: "queue x ! ?n = queue s ! q"
    using room_slot [OF assms(1,4,3)] room_slot [OF assms(1) order_refl n(1)]
    by (simp add: x_def Exchange_queue nth_list_update)
  have rm: "removed q s = upd_ev (queue s ! q) (\<lambda>e. e\<lparr>qid := 0\<rparr>) (x\<lparr>nqueue := ?n - 1\<rparr>)"
    by (simp add: removed_def x_def Let_def)
  have room: "room (removed q s)" using roomx n by (auto simp: rm room_def)
  have ne: "queue x ! i \<noteq> queue s ! q" if "1 \<le> i" "i < ?n" for i
    using qids_inj [OF qx, of i ?n] that n last by auto
  have "qids (removed q s)" using qx ne by (auto simp: rm qids_def n)
  moreover have "queued x = queued (removed q s) @ [queue s ! q]"
  proof -
    have "queued x = take (?n - 1) (drop 1 (queue x)) @ [drop 1 (queue x) ! (?n - 1)]"
      using n roomx by (cases ?n) (auto simp: queued_def room_def take_Suc_conv_app_nth)
    then show ?thesis using n roomx last by (simp add: queued_def rm room_def)
  qed
  then have "mset (queued s) = add_mset (queue s ! q) (mset (queued (removed q s)))"
    using rx by (auto simp: reordered_def)
  moreover have "due (removed q s) i = (if i = q then due s ?n else due s i)" if "1 \<le> i" "i < ?n" for i
  proof -
    have "due (removed q s) i = due x i" using ne [OF that] by (simp add: rm due_def)
    also have "\<dots> = swapped q ?n (due s) i"
      using room_slot [OF assms(1,4,3)] room_slot [OF assms(1) order_refl n(1)] by (simp add: x_def Exchange_due)
    finally show ?thesis using that by (simp add: swapped_def)
  qed
  ultimately show ?thesis using room by (simp add: rm outside_def x_def)
qed

lemma removed_ev:
  assumes "room s" "1 \<le> q" "q \<le> nqueue s"
  shows "(ev (removed q s) b)\<lparr>qid := 0\<rparr> = (ev s b)\<lparr>qid := 0\<rparr> \<and> qid (ev (removed q s) (queue s ! q)) = 0 \<and>
    (b \<notin> set (queued s) \<longrightarrow> ev (removed q s) b = ev s b)"
proof -
  have n: "1 \<le> nqueue s" using assms by simp
  have "queue s ! q \<in> set (queued s)" using assms by (auto intro: slot_queued)
  then show ?thesis using Exchange_reordered [OF assms n order_refl]
    by (auto simp: removed_def Let_def reordered_def)
qed

lemma removed_order:
  assumes "room s" "qids s" "1 \<le> q" "q \<le> nqueue s" "heap_order (nqueue s) (due s)"
    and "q = 1 \<or> due s (q div 2) \<le> due s (nqueue s)"
  shows "order_down (nqueue s - 1) q (due (removed q s))"
  unfolding order_down_def
proof (intro allI impI)
  fix i assume i: "2 \<le> i" "i \<le> nqueue s - 1"
  let ?d = "due (removed q s)"
  have d: "?d j = (if j = q then due s (nqueue s) else due s j)" if "1 \<le> j" "j < nqueue s" for j
    using removed_ok [OF assms(1-4)] that by blast
  have bounds: "i < nqueue s" "1 \<le> i div 2" "i div 2 < nqueue s" using i by auto
  have ord: "due s (j div 2) \<le> due s j" if "2 \<le> j" "j \<le> nqueue s" for j
    using assms(5) that by (simp add: heap_order_def)
  have "?d (i div 2) \<le> ?d i" if "i div 2 \<noteq> q"
    using that bounds d [of i] d [of "i div 2"] ord [of i] i assms(6) by auto
  moreover have "?d (q div 2) \<le> ?d i" if "i div 2 = q" "1 < q"
  proof -
    have "q div 2 < nqueue s" "q div 2 \<noteq> q" "1 \<le> q div 2" "i \<noteq> q" using that bounds i by auto
    then have "?d (q div 2) = due s (q div 2)" "?d i = due s i"
      using d [of "q div 2"] d [of i] bounds i by auto
    with ord [of q] ord [of i] that bounds assms(4) i show ?thesis by simp
  qed
  ultimately show "(i div 2 \<noteq> q \<longrightarrow> ?d (i div 2) \<le> ?d i) \<and> (i div 2 = q \<longrightarrow> 1 < q \<longrightarrow> ?d (q div 2) \<le> ?d i)"
    by blast
qed

lemma DeQueueEvent_correct:
  assumes "room s" "qids s" "1 \<le> q" "q \<le> nqueue s"
  defines "s' \<equiv> snd (DeQueueEvent q s)"
  shows "fst (DeQueueEvent q s) = queue s ! q"
    and "room s' \<and> qids s' \<and> mset (queued s) = add_mset (queue s ! q) (mset (queued s')) \<and>
      outside s' = outside s \<and> nqueue s' = nqueue s - 1"
    and "heap_order (nqueue s) (due s) \<Longrightarrow> q = 1 \<or> due s (q div 2) \<le> due s (nqueue s) \<Longrightarrow>
      heap_order (nqueue s') (due s')"
    and "(ev s' b)\<lparr>qid := 0\<rparr> = (ev s b)\<lparr>qid := 0\<rparr>"
    and "qid (ev s' (queue s ! q)) = 0"
    and "b \<notin> set (queued s) \<Longrightarrow> ev s' b = ev s b"
proof -
  note rm = removed_ok [OF assms(1-4)] and re = removed_ev [OF assms(1,3,4)]
  note dq = DeQueueEvent_removed [OF assms(1,3,4)]
  show "fst (DeQueueEvent q s) = queue s ! q" by (simp add: dq)
  have down: "reordered (removed q s) s' \<and> qids s' \<and>
      (order_down (nqueue s - 1) q (due (removed q s)) \<longrightarrow> heap_order (nqueue s - 1) (due s'))"
  proof (cases "q < nqueue s")
    case True
    with heap_down_general [of "removed q s" q] rm assms(3) show ?thesis by (simp add: s'_def dq)
  next
    case False
    then have stop: "heap_down q (removed q s) = removed q s" using assms(3,4) rm by (subst heap_down.simps) auto
    have "i div 2 \<noteq> q" if "i \<le> nqueue s - 1" for i using that False assms(3,4) by auto
    then show ?thesis using rm by (auto simp: s'_def dq stop order_down_def heap_order_def)
  qed
  then show main: "room s' \<and> qids s' \<and> mset (queued s) = add_mset (queue s ! q) (mset (queued s')) \<and>
      outside s' = outside s \<and> nqueue s' = nqueue s - 1"
    using rm reordered_room [of "removed q s" s'] by (auto simp: reordered_def frame_def outside_def)
  show "heap_order (nqueue s') (due s')"
    if "heap_order (nqueue s) (due s)" "q = 1 \<or> due s (q div 2) \<le> due s (nqueue s)"
    using removed_order [OF assms(1-4) that] down main by simp
  show "(ev s' b)\<lparr>qid := 0\<rparr> = (ev s b)\<lparr>qid := 0\<rparr>" using down re by (auto simp: reordered_def)
  have gone: "queue s ! q \<notin> set (queued (removed q s))"
  proof -
    have "mset (queued s) = mset (queue s ! q # queued (removed q s))" using rm by simp
    from mset_eq_imp_distinct_iff [OF this] show ?thesis using distinct_queued [OF assms(1,2)] by simp
  qed
  then show "qid (ev s' (queue s ! q)) = 0" using down re by (simp add: reordered_def)
  show "ev s' b = ev s b" if "b \<notin> set (queued s)"
  proof -
    have "set (queued (removed q s)) \<subseteq> set (queued s)" using rm by (metis set_mset_add_mset_insert set_mset_mset subset_insertI)
    then show ?thesis using that down re by (auto simp: reordered_def)
  qed
qed

section \<open>The contract of a queue of due events\<close>

text \<open>
  What the scheduler thread relies on: the first event is in the queue, none is due earlier, and
  taking it removes exactly that event and hands it on.  A loop that takes the first event
  while it is due then hands on exactly the due events.
\<close>

locale callout_queue =
  fixes inv :: "'s \<Rightarrow> bool" and elems :: "'s \<Rightarrow> 'a multiset" and key :: "'s \<Rightarrow> 'a \<Rightarrow> int"
    and first :: "'s \<Rightarrow> 'a" and out :: "'s \<Rightarrow> 'a multiset" and take_first :: "'s \<Rightarrow> 's"
  assumes first_in: "inv s \<Longrightarrow> elems s \<noteq> {#} \<Longrightarrow> first s \<in># elems s"
    and first_least: "inv s \<Longrightarrow> a \<in># elems s \<Longrightarrow> key s (first s) \<le> key s a"
    and take_inv: "inv s \<Longrightarrow> elems s \<noteq> {#} \<Longrightarrow> inv (take_first s)"
    and take_elems: "inv s \<Longrightarrow> elems s \<noteq> {#} \<Longrightarrow> elems s = add_mset (first s) (elems (take_first s))"
    and take_out: "inv s \<Longrightarrow> elems s \<noteq> {#} \<Longrightarrow> out (take_first s) = add_mset (first s) (out s)"
    and take_key: "inv s \<Longrightarrow> elems s \<noteq> {#} \<Longrightarrow> key (take_first s) a = key s a"
begin

lemma drain:
  assumes loop: "\<And>s. inv s \<Longrightarrow> loop s = (if elems s \<noteq> {#} \<and> key s (first s) \<le> now then loop (take_first s) else s)"
    and "inv s"
  shows "inv (loop s) \<and> elems (loop s) = filter_mset (\<lambda>a. now < key s a) (elems s) \<and>
     out (loop s) = out s + filter_mset (\<lambda>a. key s a \<le> now) (elems s)"
  using assms(2)
proof (induction "size (elems s)" arbitrary: s rule: less_induct)
  case less
  show ?case
  proof (cases "elems s \<noteq> {#} \<and> key s (first s) \<le> now")
    case True
    note el = take_elems [OF less.prems conjunct1 [OF True]]
    have "size (elems s) = Suc (size (elems (take_first s)))" by (metis el size_add_mset)
    then have "size (elems (take_first s)) < size (elems s)" by simp
    note IH = less.hyps [OF this take_inv [OF less.prems conjunct1 [OF True]]]
    have step: "loop s = loop (take_first s)" using True loop [OF less.prems] by simp
    have keep: "key (take_first s) a = key s a" for a using take_key [OF less.prems conjunct1 [OF True]] .
    have "filter_mset (\<lambda>a. now < key s a) (elems s) = filter_mset (\<lambda>a. now < key s a) (elems (take_first s))"
      "filter_mset (\<lambda>a. key s a \<le> now) (elems s) =
        add_mset (first s) (filter_mset (\<lambda>a. key s a \<le> now) (elems (take_first s)))"
      using True by (subst el, simp)+
    with IH take_out [OF less.prems conjunct1 [OF True]] keep show ?thesis unfolding step by simp
  next
    case False
    then have "now < key s a" if "a \<in># elems s" for a
      using first_least [OF less.prems that] that by fastforce
    then have "filter_mset (\<lambda>a. now < key s a) (elems s) = elems s" "filter_mset (\<lambda>a. key s a \<le> now) (elems s) = {#}"
      by (fastforce simp: multiset_eq_iff not_in_iff)+
    moreover have "loop s = s" using False loop [OF less.prems] by auto
    ultimately show ?thesis using less.prems by simp
  qed
qed

end

lemma heap_cong:
  assumes "queue t = queue s" "nqueue t = nqueue s" "maxqueue t = maxqueue s"
    and "\<And>b. nextqueue (ev t b) = nextqueue (ev s b) \<and> qid (ev t b) = qid (ev s b)"
  shows "heap_inv t = heap_inv s" "queued t = queued s" "room t = room s" "qids t = qids s" "due t = due s"
  using assms by (auto simp: heap_inv_def room_def qids_def queued_def due_def [abs_def])

lemma sched_take_cong:
  assumes "DeQueueEvent 1 s = (a, s1)"
  shows "queue (sched_take now s) = queue s1" "nqueue (sched_take now s) = nqueue s1"
    "maxqueue (sched_take now s) = maxqueue s1"
    "nextqueue (ev (sched_take now s) b) = nextqueue (ev s1 b) \<and> qid (ev (sched_take now s) b) = qid (ev s1 b)"
    "mset (readyPtr (sched_take now s)) + mset (firstEventPtr (sched_take now s)) =
       add_mset a (mset (readyPtr s1) + mset (firstEventPtr s1))"
  using assms by (simp_all add: sched_take_def Let_def)

lemma key_of_qid_eq: "e\<lparr>qid := 0\<rparr> = f\<lparr>qid := 0\<rparr> \<Longrightarrow> nextqueue e = nextqueue f"
proof -
  assume "e\<lparr>qid := 0\<rparr> = f\<lparr>qid := 0\<rparr>"
  then have "nextqueue (e\<lparr>qid := 0\<rparr>) = nextqueue (f\<lparr>qid := 0\<rparr>)" by (rule arg_cong)
  then show ?thesis by simp
qed

interpretation callouts: callout_queue heap_inv "\<lambda>s. mset (queued s)" "\<lambda>s a. nextqueue (ev s a)"
  "\<lambda>s. queue s ! 1" "\<lambda>s. mset (readyPtr s) + mset (firstEventPtr s)" "sched_take now" for now
proof unfold_locales
  fix s :: sched and b
  assume inv: "heap_inv s"
  then have wf: "room s" "qids s" by (auto simp: heap_inv_def)
  obtain a s1 where dq: "DeQueueEvent 1 s = (a, s1)" by (cases "DeQueueEvent 1 s")
  note tk = sched_take_cong [OF dq]
  show "nextqueue (ev s (queue s ! 1)) \<le> nextqueue (ev s b)" if "b \<in># mset (queued s)"
  proof -
    from that have "b \<in> set (queued s)" by simp
    then obtain i where "1 \<le> i" "i \<le> nqueue s" "queue s ! i = b" using queued_slot [OF wf(1)] by blast
    with heap_order_root [of "nqueue s" "due s" i] inv show ?thesis by (simp add: heap_inv_def due_def)
  qed
  assume ne: "mset (queued s) \<noteq> {#}"
  then have n: "1 \<le> nqueue s" using wf(1) by (cases "nqueue s") (auto simp: queued_def)
  note de = DeQueueEvent_correct [OF wf order_refl n, unfolded dq fst_conv snd_conv]
  show "queue s ! 1 \<in># mset (queued s)" using slot_queued [OF wf(1) order_refl n] by simp
  have "heap_inv s1" using de(2,3) inv by (auto simp: heap_inv_def)
  then show "heap_inv (sched_take now s)" using heap_cong(1) [OF tk(1-4)] by metis
  show "mset (queued s) = add_mset (queue s ! 1) (mset (queued (sched_take now s)))"
    using de(2) heap_cong(2) [OF tk(1-4)] by simp
  show "mset (readyPtr (sched_take now s)) + mset (firstEventPtr (sched_take now s)) =
      add_mset (queue s ! 1) (mset (readyPtr s) + mset (firstEventPtr s))"
    using tk(5) [of now] de(1,2) by (simp add: outside_def)
  show "nextqueue (ev (sched_take now s) b) = nextqueue (ev s b)"
    using tk(4) [of now b] key_of_qid_eq [OF de(4) [of b]] by simp
qed

lemma take_all_loop:
  assumes "heap_inv s"
  shows "heap_inv (sched_take_all now s) \<and>
    mset (queued (sched_take_all now s)) = filter_mset (\<lambda>a. now < nextqueue (ev s a)) (mset (queued s)) \<and>
    mset (readyPtr (sched_take_all now s)) + mset (firstEventPtr (sched_take_all now s)) =
      mset (readyPtr s) + mset (firstEventPtr s) + filter_mset (\<lambda>a. nextqueue (ev s a) \<le> now) (mset (queued s))"
proof (rule callouts.drain [OF _ assms])
  fix s assume "heap_inv s"
  then have "nqueue s > 0 \<longleftrightarrow> mset (queued s) \<noteq> {#}"
    using length_queued [of s] by (cases "queued s") (auto simp: heap_inv_def)
  then show "sched_take_all now s =
      (if mset (queued s) \<noteq> {#} \<and> nextqueue (ev s (queue s ! 1)) \<le> now
       then sched_take_all now (sched_take now s) else s)"
    by (subst sched_take_all.simps) (simp add: due_def)
qed

section \<open>Event ids\<close>

lemma fresh_id_unused:
  "fresh_id fuel tab next = Some (i, next') \<Longrightarrow> tab i = None"
proof (induction fuel tab "next" rule: fresh_id.induct)
  case (1 fuel tab "next")
  then show ?case by (subst (asm) (2) fresh_id.simps) (auto simp: Let_def split: if_splits)
qed

lemma fresh_id_tried:
  assumes "fresh_id fuel tab next = None" "0 \<le> next" "next < int max_ids" "k < fuel"
  shows "tab ((next + int k) mod int max_ids) \<noteq> None"
  using assms
proof (induction fuel tab "next" arbitrary: k rule: fresh_id.induct)
  case (1 fuel tab "next")
  let ?next = "if next + 1 \<ge> int max_ids then 0 else next + 1"
  have "tab next \<noteq> None" and rest: "fresh_id (fuel - 1) tab ?next = None"
    using "1.prems" by (subst (asm) fresh_id.simps, auto simp: Let_def split: if_splits)+
  show ?case
  proof (cases k)
    case 0
    with \<open>tab next \<noteq> None\<close> "1.prems" show ?thesis by simp
  next
    case (Suc j)
    have eq: "(?next + int j) mod int max_ids = (next + int k) mod int max_ids"
    proof (cases "next + 1 \<ge> int max_ids")
      case True
      then have "next = int max_ids - 1" using "1.prems" by simp
      then have "next + int k = int j + int max_ids" using Suc by simp
      then show ?thesis using True by (simp only: if_True add_0 mod_add_self2)
    qed (simp add: Suc add.assoc)
    have "fuel \<noteq> 0" "j < fuel - 1" using Suc "1.prems" by auto
    with "1.IH" [OF _ refl _ rest, of j] \<open>tab next \<noteq> None\<close> "1.prems" show ?thesis
      unfolding eq by auto
  qed
qed

lemma fresh_id_found:
  assumes "tab i = None" "0 \<le> i" "i < int max_ids" "0 \<le> next" "next < int max_ids"
  shows "\<exists>j next'. fresh_id max_ids tab next = Some (j, next')"
proof (rule ccontr)
  assume "\<not> ?thesis"
  then have none: "fresh_id max_ids tab next = None" by (metis not_None_eq prod.exhaust)
  let ?k = "nat ((i - next) mod int max_ids)"
  have "?k < max_ids" by simp
  from fresh_id_tried [OF none assms(4,5) this]
  have "tab ((next + (i - next) mod int max_ids) mod int max_ids) \<noteq> None" by simp
  then have "tab (i mod int max_ids) \<noteq> None" by (simp add: mod_add_right_eq)
  with assms show False by simp
qed

section \<open>Lifetime of events\<close>

text \<open>
  An event is in at most one place: in the heap, in one of the two lists of events about to run,
  or being run.  \<open>life\<close> states on the places (\<open>Q\<close> the heap, \<open>P\<close> the rest), the table \<open>T\<close>, the freed
  events \<open>F\<close>, the ids and the \<open>hPtr\<close> marks that no freed event is reachable.
\<close>

definition pending :: "sched \<Rightarrow> nat multiset" where
  "pending s = mset (readyPtr s) + mset (firstEventPtr s) + mset (executing s)"

definition life :: "nat multiset \<Rightarrow> nat multiset \<Rightarrow> (int \<Rightarrow> nat option) \<Rightarrow> nat list \<Rightarrow> (nat \<Rightarrow> int) \<Rightarrow> (nat \<Rightarrow> bool) \<Rightarrow> bool" where
  "life Q P T F i h \<longleftrightarrow>
     (\<forall>a. count Q a + count P a \<le> 1) \<and> (\<forall>a \<in># Q. h a) \<and> (\<forall>k a. T k = Some a \<longrightarrow> i a = k \<and> h a) \<and>
     (\<forall>a. a \<in># Q \<or> a \<in># P \<longrightarrow> h a \<longrightarrow> T (i a) = Some a) \<and>
     (\<forall>a \<in> set F. a \<notin># Q \<and> a \<notin># P \<and> a \<notin> ran T) \<and> distinct F"

definition life_inv :: "sched \<Rightarrow> bool" where
  "life_inv s \<longleftrightarrow> room s \<and> qids s \<and>
     life (mset (queued s)) (pending s) (eventsTable s) (freed s) (\<lambda>a. e_id (ev s a)) (\<lambda>a. hashed (ev s a)) \<and>
     (\<forall>a \<in> set (queued s). e_flags (ev s a) AND NS_SCHED_PAUSED = 0) \<and>
     (\<forall>a \<in> ran (eventsTable s). a \<notin> set (queued s) \<longrightarrow> qid (ev s a) = 0)"

text \<open>
  The interleavings considered: a new event does not come out paused and gets memory that is not
  in use, and an event is not resumed while it is about to run or running.
\<close>

inductive sched_step :: "sched \<Rightarrow> sched \<Rightarrow> bool" where
  schedule: "\<lbrakk>Ns_ScheduleProcEx lt mk now (a, junk) fl iv s = Some (r, s'); fl AND NS_SCHED_PAUSED = 0;
      a \<notin> set (queued s); a \<notin># pending s; a \<notin> ran (eventsTable s); a \<notin> set (freed s)\<rbrakk> \<Longrightarrow> sched_step s s'"
| cancel: "sched_step s (snd (Ns_Cancel eid s))"
| pause: "sched_step s (snd (Ns_Pause eid s))"
| resume: "(\<And>a. eventsTable s eid = Some a \<Longrightarrow> a \<notin># pending s) \<Longrightarrow> sched_step s (snd (Ns_Resume lt mk now eid s))"
| take_due: "nqueue s > 0 \<Longrightarrow> due s 1 \<le> now \<Longrightarrow> sched_step s (sched_take now s)"
| run_sync: "sched_step s (sched_run_begin now s)"
| run_thread: "sched_step s (event_run_begin s)"
| finish: "a \<in> set (executing s) \<Longrightarrow> sched_step s (run_end lt mk now a s)"
| shutdown: "sched_step s (NsStartSchedShutdown running s)"

inductive_cases sched_stepE: "sched_step s s'"

definition sched_init :: sched where
  "sched_init = \<lparr>ev = (\<lambda>_. \<lparr>hashed = False, e_id = 0, qid = 0, nextqueue = 0, lastqueue = 0, laststart = 0,
       lastend = 0, e_flags = 0, interval = 0\<rparr>), queue = [], nqueue = 0, maxqueue = 0, eventsTable = (\<lambda>_. None),
     nextId = 0, firstEventPtr = [], readyPtr = [], executing = [], freed = [], shutdownPending = False\<rparr>"

lemma id_of_qid_eq: "e\<lparr>qid := 0\<rparr> = f\<lparr>qid := 0\<rparr> \<Longrightarrow> e_id e = e_id f \<and> hashed e = hashed f \<and> e_flags e = e_flags f"
proof -
  assume eq: "e\<lparr>qid := 0\<rparr> = f\<lparr>qid := 0\<rparr>"
  have "e_id (e\<lparr>qid := 0\<rparr>) = e_id (f\<lparr>qid := 0\<rparr>)" "hashed (e\<lparr>qid := 0\<rparr>) = hashed (f\<lparr>qid := 0\<rparr>)"
    "e_flags (e\<lparr>qid := 0\<rparr>) = e_flags (f\<lparr>qid := 0\<rparr>)"
    unfolding eq by simp_all
  then show ?thesis by simp
qed

lemma life_invD:
  assumes "life_inv s"
  shows "room s" "qids s"
    "life (mset (queued s)) (pending s) (eventsTable s) (freed s) (\<lambda>a. e_id (ev s a)) (\<lambda>a. hashed (ev s a))"
    "a \<in> set (queued s) \<Longrightarrow> e_flags (ev s a) AND NS_SCHED_PAUSED = 0"
    "a \<in> ran (eventsTable s) \<Longrightarrow> a \<notin> set (queued s) \<Longrightarrow> qid (ev s a) = 0"
  using assms by (auto simp: life_inv_def)

lemma lifeD:
  assumes "life Q P T F i h"
  shows "count Q a + count P a \<le> 1" "a \<in># Q \<Longrightarrow> h a" "T k = Some a \<Longrightarrow> i a = k \<and> h a"
    "a \<in># Q \<or> a \<in># P \<Longrightarrow> h a \<Longrightarrow> T (i a) = Some a"
    "a \<in> set F \<Longrightarrow> a \<notin># Q \<and> a \<notin># P \<and> a \<notin> ran T" "distinct F"
  using assms by (auto simp: life_def)

lemma life_once: "life Q P T F i h \<Longrightarrow> a \<in># Q \<Longrightarrow> a \<notin># P \<and> count Q a = 1"
proof -
  assume l: "life Q P T F i h" and a: "a \<in># Q"
  from lifeD(1) [OF l, of a] a show ?thesis by (simp flip: count_greater_zero_iff)
qed

text \<open>The places of one event change: into the heap, out of it, and freed.\<close>

lemma life_insert:
  assumes l: "life Q P T F i h" and "a \<notin># Q" "a \<notin># P" "T (i a) = Some a"
  shows "life (add_mset a Q) P T F i h"
  unfolding life_def
proof (intro conjI allI ballI impI)
  fix b
  show "count (add_mset a Q) b + count P b \<le> 1"
    using lifeD(1) [OF l, of b] assms(2,3) by (auto simp: not_in_iff)
  show "h b" if "b \<in># add_mset a Q" using that lifeD(2,3) [OF l] assms(4) by auto
  show "T (i b) = Some b" if "b \<in># add_mset a Q \<or> b \<in># P" "h b"
    using that lifeD(4) [OF l, of b] assms(4) by auto
  show "b \<notin># add_mset a Q" if "b \<in> set F" using lifeD(5) [OF l that] assms(4) by (auto simp: ran_def)
qed (use lifeD [OF l] in auto)

lemma life_remove: "life (add_mset a Q) P T F i h \<Longrightarrow> life Q P T F i h"
proof -
  assume l: "life (add_mset a Q) P T F i h"
  have "count Q b + count P b \<le> 1" for b
    using lifeD(1) [OF l, of b] by (auto split: if_splits)
  then show ?thesis unfolding life_def using lifeD(2-6) [OF l] by auto
qed

lemma life_move:
  assumes l: "life (add_mset a Q) P T F i h"
  shows "life Q (add_mset a P) T F i h"
  unfolding life_def
proof (intro conjI allI ballI impI)
  fix b
  show "count Q b + count (add_mset a P) b \<le> 1" using lifeD(1) [OF l, of b] by auto
qed (use lifeD [OF l] in auto)

lemma life_free:
  assumes l: "life Q (add_mset a P) T F i h" and "\<not> h a"
  shows "life Q P T (a # F) i h"
  unfolding life_def
proof (intro conjI allI ballI impI)
  fix b
  show "count Q b + count P b \<le> 1" using lifeD(1) [OF l, of b] by (auto split: if_splits)
  have "count Q a = 0" "count P a = 0" using lifeD(1) [OF l, of a] by auto
  then have "a \<notin># Q" "a \<notin># P" by (simp_all add: not_in_iff)
  moreover have "a \<notin> ran T" using lifeD(3) [OF l] assms(2) by (auto simp: ran_def)
  ultimately show "b \<notin># Q" "b \<notin># P" "b \<notin> ran T" if "b \<in> set (a # F)"
    using that lifeD(5) [OF l, of b] by auto
  show "distinct (a # F)" using lifeD(5) [OF l, of a] lifeD(6) [OF l] by auto
qed (use lifeD [OF l] in auto)

text \<open>Taking an event off the table, when it is not in the heap.\<close>

lemma life_unhash:
  assumes l: "life Q P T F i h" and "a \<notin># Q" "T k = Some a"
  shows "life Q P (T(k := None)) F i (h(a := False))"
  unfolding life_def
proof (intro conjI allI ballI impI)
  fix b
  show "(h(a := False)) b" if "b \<in># Q" using that lifeD(2) [OF l] assms(2) by auto
  show "i c = j" "(h(a := False)) c" if "(T(k := None)) j = Some c" for j c
    using that lifeD(3) [OF l, of j c] lifeD(3) [OF l assms(3)] by (auto split: if_splits)
  show "(T(k := None)) (i b) = Some b" if "b \<in># Q \<or> b \<in># P" "(h(a := False)) b"
    using that lifeD(4) [OF l, of b] assms(3) by (auto split: if_splits)
  show "b \<notin> ran (T(k := None))" if "b \<in> set F" using lifeD(5) [OF l that] by (auto simp: ran_def)
qed (use lifeD [OF l] in auto)

lemma dequeue_facts:
  assumes "room s" "qids s" "a \<in> set (queued s)"
  defines "s' \<equiv> snd (DeQueueEvent (qid (ev s a)) s)"
  shows "room s'" "qids s'" "mset (queued s) = add_mset a (mset (queued s'))" "outside s' = outside s"
    "e_id (ev s' b) = e_id (ev s b)" "hashed (ev s' b) = hashed (ev s b)" "e_flags (ev s' b) = e_flags (ev s b)"
    "qid (ev s' a) = 0" "b \<notin> set (queued s) \<Longrightarrow> ev s' b = ev s b"
    "set (queued s) = insert a (set (queued s'))" "fst (DeQueueEvent (qid (ev s a)) s) = a"
proof -
  note q = qids_queued [OF assms(1-3)]
  note dq = DeQueueEvent_correct [OF assms(1,2) conjunct1 [OF q] conjunct1 [OF conjunct2 [OF q]]]
  show "room s'" "qids s'" "outside s' = outside s" and m: "mset (queued s) = add_mset a (mset (queued s'))"
    "fst (DeQueueEvent (qid (ev s a)) s) = a"
    using dq(1,2) q unfolding s'_def by auto
  show "set (queued s) = insert a (set (queued s'))" using m by (metis set_mset_add_mset_insert set_mset_mset)
  show "e_id (ev s' b) = e_id (ev s b)" "hashed (ev s' b) = hashed (ev s b)" "e_flags (ev s' b) = e_flags (ev s b)"
    using dq(4) [of b] id_of_qid_eq unfolding s'_def by blast+
  show "qid (ev s' a) = 0" "b \<notin> set (queued s) \<Longrightarrow> ev s' b = ev s b"
    using dq(5) dq(6) [of b] q unfolding s'_def by auto
qed

lemma life_removeP:
  assumes l: "life Q (add_mset a P) T F i h"
  shows "life Q P T F i h"
proof -
  have "count Q b + count P b \<le> 1" for b
    using lifeD(1) [OF l, of b] by (auto split: if_splits)
  then show ?thesis unfolding life_def using lifeD(2-6) [OF l] by auto
qed

lemma life_new:
  assumes l: "life Q P T F i h" and "a \<notin># Q" "a \<notin># P" "a \<notin> set F" "a \<notin> ran T" "T k = None"
  shows "life Q P (T(k \<mapsto> a)) F (i(a := k)) (h(a := True))"
  unfolding life_def
proof (intro conjI allI ballI impI)
  fix b
  show "(i(a := k)) c = j" "(h(a := True)) c" if "(T(k \<mapsto> a)) j = Some c" for j c
    using that lifeD(3) [OF l, of j c] assms(5) by (auto simp: ran_def split: if_splits)
  show "(T(k \<mapsto> a)) ((i(a := k)) b) = Some b" if "b \<in># Q \<or> b \<in># P" "(h(a := True)) b"
    using that lifeD(4) [OF l, of b] assms(2,3,6) by (auto split: if_splits)
  show "b \<notin> ran (T(k \<mapsto> a))" if "b \<in> set F" using lifeD(5) [OF l that] assms(4,6) that by auto
qed (use lifeD [OF l] in auto)

lemma life_QueueEvent_new:
  assumes wf: "room s" "qids s"
    and l: "life (mset (queued s)) (pending s) (eventsTable s) (freed s) (\<lambda>a. e_id (ev s a)) (\<lambda>a. hashed (ev s a))"
    and np: "\<And>b. b \<in> set (queued s) \<Longrightarrow> e_flags (ev s b) AND NS_SCHED_PAUSED = 0"
    and q0: "\<And>b. b \<noteq> a \<Longrightarrow> b \<in> ran (eventsTable s) \<Longrightarrow> b \<notin> set (queued s) \<Longrightarrow> qid (ev s b) = 0"
    and a: "a \<notin> set (queued s)" "a \<notin># pending s" "eventsTable s (e_id (ev s a)) = Some a"
    and ok: "e_flags (ev s a) AND NS_SCHED_PAUSED = 0"
  shows "life_inv (QueueEvent lt mk now a s)"
proof -
  let ?s = "QueueEvent lt mk now a s"
  note q = QueueEvent_correct [OF wf a(1) ok]
  have keep: "e_id (ev ?s b) = e_id (ev s b) \<and> hashed (ev ?s b) = hashed (ev s b) \<and> e_flags (ev ?s b) = e_flags (ev s b)" for b
  proof (cases "b = a")
    case True
    have "e_id ((ev ?s a)\<lparr>qid := 0\<rparr>) = e_id (ev s a)" "hashed ((ev ?s a)\<lparr>qid := 0\<rparr>) = hashed (ev s a)"
      "e_flags ((ev ?s a)\<lparr>qid := 0\<rparr>) = e_flags (ev s a)"
      unfolding q(2) [of lt mk now] by simp_all
    with True show ?thesis by simp
  next
    case False
    with q(3) [OF False] id_of_qid_eq show ?thesis by blast
  qed
  have out: "eventsTable ?s = eventsTable s" "pending ?s = pending s" "freed ?s = freed s"
    using q(1) [of lt mk now] by (simp_all add: outside_def pending_def)
  have Q: "mset (queued ?s) = add_mset a (mset (queued s))" using q(1) by blast
  then have set: "set (queued ?s) = insert a (set (queued s))" by (metis set_mset_add_mset_insert set_mset_mset)
  then have "qid (ev ?s b) = 0" if "b \<in> ran (eventsTable s)" "b \<notin> set (queued ?s)" for b
    using that q0 [of b] q(4) [of b] by auto
  moreover have "life (mset (queued ?s)) (pending ?s) (eventsTable ?s) (freed ?s) (\<lambda>a. e_id (ev ?s a)) (\<lambda>a. hashed (ev ?s a))"
    unfolding out Q keep [THEN conjunct1] keep [THEN conjunct2, THEN conjunct1]
    by (rule life_insert [OF l]) (use a in simp_all)
  ultimately show ?thesis using q(1) [of lt mk now] np ok keep set by (simp add: life_inv_def out)
qed

lemma life_QueueEvent:
  assumes "life_inv s" "a \<notin> set (queued s)" "a \<notin># pending s" "eventsTable s (e_id (ev s a)) = Some a"
  shows "life_inv (QueueEvent lt mk now a s)"
proof (cases "e_flags (ev s a) AND NS_SCHED_PAUSED = 0")
  case True
  show ?thesis by (rule life_QueueEvent_new) (use assms True life_invD [OF assms(1)] in auto)
next
  case False
  with assms show ?thesis by (simp add: QueueEvent_def)
qed

lemma life_inv_cong:
  assumes "life_inv s" "queue t = queue s" "nqueue t = nqueue s" "maxqueue t = maxqueue s"
    and "pending t = pending s" "eventsTable t = eventsTable s" "freed t = freed s"
    and "\<And>b. nextqueue (ev t b) = nextqueue (ev s b) \<and> qid (ev t b) = qid (ev s b) \<and> e_id (ev t b) = e_id (ev s b) \<and>
      hashed (ev t b) = hashed (ev s b)"
    and "\<And>b. b \<in> set (queued s) \<Longrightarrow> e_flags (ev t b) AND NS_SCHED_PAUSED = 0"
  shows "life_inv t"
proof -
  have "queued t = queued s" "room t = room s" "qids t = qids s"
    using heap_cong(2-4) [OF assms(2-4)] assms(8) by blast+
  with assms show ?thesis by (simp add: life_inv_def)
qed

subsection \<open>Every operation keeps the lifetime invariant\<close>

lemma table_in_heap:
  assumes "life_inv s" "eventsTable s k = Some a"
  shows "qid (ev s a) > 0 \<longleftrightarrow> a \<in> set (queued s)"
proof
  show "a \<in> set (queued s)" if "qid (ev s a) > 0"
    using that assms life_invD(5) [OF assms(1), of a] by (auto simp: ran_def)
  show "qid (ev s a) > 0" if "a \<in> set (queued s)"
    using qids_queued [OF life_invD(1,2) [OF assms(1)] that] by simp
qed

lemma table_once:
  assumes "life Q P T F i h" "T k = Some a" "(T(k := None)) j = Some b"
  shows "b \<noteq> a" "T j = Some b"
  using assms lifeD(3) [OF assms(1,2)] lifeD(3) [OF assms(1), of j b] by (auto split: if_splits)

lemma life_Cancel:
  assumes s: "life_inv s"
  shows "life_inv (snd (Ns_Cancel k s))"
proof (cases "shutdownPending s \<or> eventsTable s k = None")
  case True
  with s show ?thesis by (auto simp: Ns_Cancel_def)
next
  case False
  then obtain a where T: "eventsTable s k = Some a" by auto
  define s1 where "s1 = upd_ev a (\<lambda>e. e\<lparr>hashed := False\<rparr>) (s\<lparr>eventsTable := (eventsTable s)(k := None)\<rparr>)"
  note inv = life_invD [OF s]
  have s1: "queued s1 = queued s" "room s1" "qids s1" "pending s1 = pending s" "freed s1 = freed s"
    "eventsTable s1 = (eventsTable s)(k := None)" "\<And>b. e_id (ev s1 b) = e_id (ev s b)"
    "(\<lambda>b. hashed (ev s1 b)) = (\<lambda>b. hashed (ev s b))(a := False)"
    "\<And>b. e_flags (ev s1 b) = e_flags (ev s b)" "\<And>b. qid (ev s1 b) = qid (ev s b)"
    using inv(1,2) heap_cong(2-4) [of s1 s] by (auto simp: s1_def pending_def)
  have ran: "b \<in> ran (eventsTable s) \<and> b \<noteq> a" if "b \<in> ran (eventsTable s1)" for b
  proof -
    from that obtain j where "(eventsTable s1) j = Some b" by (auto simp: ran_def)
    then have "((eventsTable s)(k := None)) j = Some b" by (simp add: s1(6))
    from table_once [OF inv(3) T this] show ?thesis by (auto simp: ran_def)
  qed
  show ?thesis
  proof (cases "a \<in> set (queued s)")
    case True
    define s2 where "s2 = snd (DeQueueEvent (qid (ev s1 a)) s1)"
    have a1: "a \<in> set (queued s1)" using True s1(1) by simp
    note dq = dequeue_facts [OF s1(2,3) a1, folded s2_def]
    have res: "snd (Ns_Cancel k s) = FreeEvent a s2"
      using False T True table_in_heap [OF s T] by (simp add: Ns_Cancel_def s2_def s1_def Let_def)
    have Q: "mset (queued s) = add_mset a (mset (queued s2))" using dq(3) s1(1) by simp
    note l1 = life_move [OF inv(3) [unfolded Q]]
    have na: "a \<notin># mset (queued s2)" using life_once [OF inv(3), of a] True unfolding Q by (simp add: not_in_iff)
    note l2 = life_free [OF life_unhash [OF l1 na T]]
    have "life_inv s2 \<or> True" by simp
    have out: "pending s2 = pending s" "eventsTable s2 = (eventsTable s)(k := None)" "freed s2 = freed s"
      using dq(4) s1 by (simp_all add: outside_def pending_def)
    have "(\<lambda>b. hashed (ev s2 b)) = (\<lambda>b. hashed (ev s b))(a := False)" "(\<lambda>b. e_id (ev s2 b)) = (\<lambda>b. e_id (ev s b))"
      using dq(5,6) s1(7,8) by auto
    moreover have "qid (ev s2 b) = 0" if "b \<in> ran (eventsTable s2)" "b \<notin> set (queued s2)" for b
      using ran [of b] that inv(5) [of b] dq(9) [of b] dq(10) s1 out by auto
    moreover have "e_flags (ev s2 b) AND NS_SCHED_PAUSED = 0" if "b \<in> set (queued s2)" for b
      using inv(4) [of b] that dq(7) dq(10) s1 by auto
    moreover have "room (FreeEvent a s2)" "qids (FreeEvent a s2)" "queued (FreeEvent a s2) = queued s2"
      using dq(1,2) heap_cong(2-4) [of "FreeEvent a s2" s2] by (simp_all add: FreeEvent_def)
    ultimately show ?thesis using l2 out unfolding res life_inv_def by (simp add: FreeEvent_def pending_def)
  next
    case False2: False
    then have "snd (Ns_Cancel k s) = s1"
      using False T table_in_heap [OF s T] by (simp add: Ns_Cancel_def s1_def Let_def)
    moreover have "life_inv s1"
      using life_unhash [OF inv(3) _ T] False2 s1 ran inv(4,5) by (auto simp: life_inv_def)
    ultimately show ?thesis by simp
  qed
qed

lemma life_Pause:
  assumes s: "life_inv s"
  shows "life_inv (snd (Ns_Pause k s))"
proof (cases "\<not> shutdownPending s \<and> (\<exists>a. eventsTable s k = Some a \<and> e_flags (ev s a) AND NS_SCHED_PAUSED = 0)")
  case False
  with s show ?thesis by (auto simp: Ns_Pause_def split: option.split)
next
  case True
  then obtain a where a: "eventsTable s k = Some a" "e_flags (ev s a) AND NS_SCHED_PAUSED = 0" by auto
  define s1 where "s1 = upd_ev a (\<lambda>e. e\<lparr>e_flags := e_flags e OR NS_SCHED_PAUSED\<rparr>) s"
  note inv = life_invD [OF s]
  have s1: "queued s1 = queued s" "room s1" "qids s1" "outside s1 = outside s"
    "\<And>b. e_id (ev s1 b) = e_id (ev s b)" "\<And>b. hashed (ev s1 b) = hashed (ev s b)"
    "\<And>b. b \<noteq> a \<Longrightarrow> e_flags (ev s1 b) = e_flags (ev s b)" "\<And>b. qid (ev s1 b) = qid (ev s b)"
    using inv(1,2) heap_cong(2-4) [of s1 s] by (auto simp: s1_def outside_def)
  have out: "eventsTable t = eventsTable s \<and> freed t = freed s \<and> pending t = pending s" if "outside t = outside s" for t
    using that by (simp add: outside_def pending_def)
  show ?thesis
  proof (cases "a \<in> set (queued s)")
    case qd: True
    define s2 where "s2 = snd (DeQueueEvent (qid (ev s1 a)) s1)"
    have a1: "a \<in> set (queued s1)" using qd s1(1) by simp
    note dq = dequeue_facts [OF s1(2,3) a1, folded s2_def]
    have res: "snd (Ns_Pause k s) = s2"
      using True a qd table_in_heap [OF s a(1)] by (simp add: Ns_Pause_def s2_def s1_def Let_def)
    have Q: "mset (queued s) = add_mset a (mset (queued s2))" using dq(3) s1(1) by simp
    have na: "a \<notin> set (queued s2)" using life_once [OF inv(3), of a] qd unfolding Q by (simp add: count_eq_zero_iff)
    have "e_flags (ev s2 b) AND NS_SCHED_PAUSED = 0" if "b \<in> set (queued s2)" for b
    proof -
      have "b \<noteq> a" "b \<in> set (queued s)" using that na dq(10) s1(1) by auto
      with inv(4) [of b] dq(7) [of b] s1(7) [of b] show ?thesis by simp
    qed
    moreover have "qid (ev s2 b) = 0" if "b \<in> ran (eventsTable s)" "b \<notin> set (queued s2)" for b
      using that inv(5) [of b] dq(8) dq(9) [of b] dq(10) s1(1) s1(8) [of b] by (cases "b = a") auto
    ultimately show ?thesis
      using dq(1,2,4) life_remove [OF inv(3) [unfolded Q]] out [of s2] s1(4) dq(5,6) s1(5,6)
      unfolding res life_inv_def by simp
  next
    case nq: False
    then have res: "snd (Ns_Pause k s) = s1"
      using True a table_in_heap [OF s a(1)] by (simp add: Ns_Pause_def s1_def Let_def)
    have "e_flags (ev s1 b) AND NS_SCHED_PAUSED = 0" if "b \<in> set (queued s)" for b
      using inv(4) [OF that] s1(7) [of b] that nq by (cases "b = a") simp_all
    then show ?thesis using inv out [of s1] s1 unfolding res life_inv_def by simp
  qed
qed

lemma life_Resume:
  assumes s: "life_inv s" and idle: "\<And>a. eventsTable s k = Some a \<Longrightarrow> a \<notin># pending s"
  shows "life_inv (snd (Ns_Resume lt mk now k s))"
proof (cases "\<not> shutdownPending s \<and> (\<exists>a. eventsTable s k = Some a \<and> e_flags (ev s a) AND NS_SCHED_PAUSED \<noteq> 0)")
  case False
  with s show ?thesis by (auto simp: Ns_Resume_def split: option.split)
next
  case True
  then obtain a where a: "eventsTable s k = Some a" "e_flags (ev s a) AND NS_SCHED_PAUSED \<noteq> 0" by auto
  note inv = life_invD [OF s]
  define s1 where "s1 = upd_ev a (\<lambda>e. e\<lparr>e_flags := e_flags e AND NOT NS_SCHED_PAUSED\<rparr>) s"
  have nq: "a \<notin> set (queued s)" using inv(4) a(2) by blast
  then have "life_inv s1"
    by (intro life_inv_cong [OF s]) (use inv(4) in \<open>auto simp: s1_def pending_def\<close>)
  moreover have "queued s1 = queued s" by (rule heap_cong) (auto simp: s1_def)
  ultimately have "life_inv (QueueEvent lt mk now a s1)"
    using nq idle [OF a(1)] a(1) lifeD(3) [OF inv(3) a(1)] by (intro life_QueueEvent) (auto simp: s1_def pending_def)
  then show ?thesis using True a by (simp add: Ns_Resume_def s1_def)
qed

lemma life_take:
  assumes s: "life_inv s" and n: "nqueue s > 0"
  shows "life_inv (sched_take now s)"
proof -
  note inv = life_invD [OF s]
  define a where "a = queue s ! 1"
  have "1 \<le> nqueue s" using n by simp
  from slot_queued [OF inv(1) order_refl this] inv(2) this
  have aq: "a \<in> set (queued s)" and q1: "qid (ev s a) = 1" by (auto simp: a_def qids_def)
  define s1 where "s1 = snd (DeQueueEvent 1 s)"
  note dq = dequeue_facts [OF inv(1,2) aq, unfolded q1, folded s1_def]
  have dqe: "DeQueueEvent 1 s = (a, s1)" using dq(11) by (simp add: s1_def prod_eq_iff)
  let ?t = "sched_take now s" and ?once = "e_flags (ev s a) AND NS_SCHED_ONCE \<noteq> 0"
  note tk = sched_take_cong [OF dqe, of now]
  have cong: "room ?t" "qids ?t" "queued ?t = queued s1"
    using heap_cong(2-4) [OF tk(1-4)] dq(1,2) by simp_all
  have out: "readyPtr s1 = readyPtr s" "firstEventPtr s1 = firstEventPtr s" "executing s1 = executing s"
    "eventsTable s1 = eventsTable s" "freed s1 = freed s"
    using dq(4) by (simp_all add: outside_def)
  have Q: "mset (queued s) = add_mset a (mset (queued s1))" by (rule dq(3))
  have na: "a \<notin># mset (queued s1)" using life_once [OF inv(3), of a] aq unfolding Q by (simp add: not_in_iff)
  have T: "eventsTable s (e_id (ev s a)) = Some a" using lifeD(2,4) [OF inv(3)] aq by simp
  have tab: "eventsTable ?t = (if ?once then (eventsTable s)(e_id (ev s a) := None) else eventsTable s)"
    and fr: "freed ?t = freed s"
    and hsh: "(\<lambda>b. hashed (ev ?t b)) = (if ?once then (\<lambda>b. hashed (ev s b))(a := False) else (\<lambda>b. hashed (ev s b)))"
    and eid: "(\<lambda>b. e_id (ev ?t b)) = (\<lambda>b. e_id (ev s b))"
    and flg: "\<And>b. b \<noteq> a \<Longrightarrow> e_flags (ev ?t b) = e_flags (ev s b)"
    and ex: "executing ?t = executing s"
    using dqe dq(5,6,7) out by (auto simp: sched_take_def Let_def)
  have P: "pending ?t = add_mset a (pending s)" using tk(5) out ex by (simp add: pending_def)
  note l = life_move [OF inv(3) [unfolded Q]]
  have "life (mset (queued ?t)) (pending ?t) (eventsTable ?t) (freed ?t) (\<lambda>a. e_id (ev ?t a)) (\<lambda>a. hashed (ev ?t a))"
    unfolding cong(3) P tab fr hsh eid using l life_unhash [OF l na T] by simp
  moreover have "e_flags (ev ?t b) AND NS_SCHED_PAUSED = 0" if "b \<in> set (queued ?t)" for b
    using that na flg [of b] inv(4) [of b] dq(10) by (cases "b = a") (auto simp: cong(3))
  moreover have "qid (ev ?t b) = 0" if "b \<in> ran (eventsTable ?t)" "b \<notin> set (queued ?t)" for b
  proof (cases "b = a")
    case False
    have "b \<in> ran (eventsTable s)" using that(1) by (auto simp: tab ran_def split: if_splits)
    with False that dq(9) [of b] dq(10) inv(5) [of b] tk(4) [of b] show ?thesis by (simp add: cong(3))
  qed (use dq(8) tk(4) in simp)
  ultimately show ?thesis using cong by (simp add: life_inv_def)
qed

lemma life_run_begin:
  assumes s: "life_inv s"
  shows "life_inv (sched_run_begin now s)" "life_inv (event_run_begin s)"
proof -
  note inv = life_invD [OF s]
  have nq: "a \<notin> set (queued s)" if "a \<in># pending s" for a
    using life_once [OF inv(3), of a] that by auto
  show "life_inv (sched_run_begin now s)"
  proof (cases "readyPtr s")
    case (Cons a rest)
    then have a: "a \<notin> set (queued s)" by (intro nq) (simp add: pending_def)
    show ?thesis
      by (rule life_inv_cong [OF s]) (use Cons a inv(4) in \<open>auto simp: sched_run_begin_def pending_def\<close>)
  qed (simp add: sched_run_begin_def s)
  show "life_inv (event_run_begin s)"
  proof (cases "firstEventPtr s")
    case (Cons a rest)
    show ?thesis
      by (rule life_inv_cong [OF s]) (use Cons inv(4) in \<open>auto simp: event_run_begin_def pending_def\<close>)
  qed (simp add: event_run_begin_def s)
qed

lemma life_run_end:
  assumes s: "life_inv s" and a: "a \<in> set (executing s)"
  shows "life_inv (run_end lt mk now a s)"
proof -
  note inv = life_invD [OF s]
  define s0 where "s0 = s\<lparr>executing := remove1 a (executing s)\<rparr>"
  have P: "pending s = add_mset a (pending s0)" using a by (simp add: s0_def pending_def)
  have a0: "a \<notin># pending s0" "a \<notin> set (queued s)"
    using lifeD(1) [OF inv(3), of a] unfolding P by (simp_all flip: count_eq_zero_iff)
  have q: "queued t = queued s" "room t" "qids t" if "queue t = queue s" "nqueue t = nqueue s" "maxqueue t = maxqueue s"
    "\<And>b. nextqueue (ev t b) = nextqueue (ev s b) \<and> qid (ev t b) = qid (ev s b)" for t
    using heap_cong(2-4) [OF that] inv(1,2) by simp_all
  show ?thesis
  proof (cases "hashed (ev s a)")
    case False
    have "life (mset (queued s)) (pending s0) (eventsTable s) (a # freed s) (\<lambda>a. e_id (ev s a)) (\<lambda>a. hashed (ev s a))"
      using life_free [OF inv(3) [unfolded P]] False by simp
    moreover have "run_end lt mk now a s = FreeEvent a s0" using False by (simp add: run_end_def s0_def)
    moreover have "queued (FreeEvent a s0) = queued s" "room (FreeEvent a s0)" "qids (FreeEvent a s0)"
      by (rule q; simp add: FreeEvent_def s0_def)+
    ultimately show ?thesis using inv(4,5) by (simp add: life_inv_def) (simp add: FreeEvent_def s0_def pending_def)
  next
    case True
    define s1 where "s1 = upd_ev a (\<lambda>e. e\<lparr>e_flags := e_flags e AND NOT NS_SCHED_RUNNING, lastend := now\<rparr>) s0"
    have res: "run_end lt mk now a s = QueueEvent lt mk now a s1" using True by (simp add: run_end_def s0_def s1_def)
    have q1: "queued s1 = queued s" "room s1" "qids s1" by (rule q; simp add: s0_def s1_def)+
    have f: "e_flags (ev s1 b) AND NS_SCHED_PAUSED = 0" if "b \<in> set (queued s)" for b
      using inv(4) [OF that] a0 that by (auto simp: s1_def s0_def)
    have e: "e_id (ev s1 b) = e_id (ev s b)" "hashed (ev s1 b) = hashed (ev s b)" "qid (ev s1 b) = qid (ev s b)" for b
      by (simp_all add: s1_def s0_def)
    have "pending s1 = pending s0" "eventsTable s1 = eventsTable s" "freed s1 = freed s"
      by (simp_all add: s1_def s0_def pending_def)
    then have "life_inv s1" using life_removeP [OF inv(3) [unfolded P]] inv(5) f
      by (simp add: life_inv_def q1 e)
    moreover have "eventsTable s (e_id (ev s a)) = Some a" using lifeD(4) [OF inv(3), of a] P True by simp
    ultimately show ?thesis unfolding res
      using a0 q1 by (intro life_QueueEvent) (simp_all add: s1_def s0_def pending_def)
  qed
qed

lemma life_Schedule:
  assumes s: "life_inv s"
    and res: "Ns_ScheduleProcEx lt mk now (a, junk) fl iv s = Some (r, s')" and fl: "fl AND NS_SCHED_PAUSED = 0"
    and new: "a \<notin> set (queued s)" "a \<notin># pending s" "a \<notin> ran (eventsTable s)" "a \<notin> set (freed s)"
  shows "life_inv s'"
proof (cases "iv < 0 \<or> shutdownPending s")
  case True
  with res s show ?thesis by (auto simp: Ns_ScheduleProcEx_def split: if_splits)
next
  case False
  then obtain k n' where k: "fresh_id max_ids (eventsTable s) (nextId s) = Some (k, n')"
    using res by (auto simp: Ns_ScheduleProcEx_def split: option.splits)
  define e where "e = \<lparr>hashed = True, e_id = k, qid = junk, nextqueue = 0, lastqueue = -1, laststart = -1,
                      lastend = -1, e_flags = fl, interval = iv\<rparr>"
  define s1 where "s1 = s\<lparr>ev := (ev s)(a := e), eventsTable := (eventsTable s)(k \<mapsto> a), nextId := n'\<rparr>"
  have s': "s' = QueueEvent lt mk now a s1"
    using res False k by (simp add: Ns_ScheduleProcEx_def s1_def e_def)
  note inv = life_invD [OF s]
  have free: "eventsTable s k = None" using fresh_id_unused [OF k] .
  have at: "queue s ! i \<noteq> a" if "1 \<le> i" "i \<le> nqueue s" for i
    using slot_queued [OF inv(1) that] new(1) by auto
  have Q: "queued s1 = queued s" by (simp add: s1_def queued_def)
  have "room s1" "qids s1" using inv(1,2) at by (simp_all add: s1_def room_def qids_def)
  moreover have "life (mset (queued s1)) (pending s1) (eventsTable s1) (freed s1) (\<lambda>a. e_id (ev s1 a)) (\<lambda>a. hashed (ev s1 a))"
  proof -
    have "(\<lambda>b. e_id (ev s1 b)) = (\<lambda>b. e_id (ev s b))(a := k)" "(\<lambda>b. hashed (ev s1 b)) = (\<lambda>b. hashed (ev s b))(a := True)"
      by (auto simp: s1_def e_def)
    then show ?thesis using life_new [OF inv(3) _ new(2,4,3) free] new(1) by (simp add: Q) (simp add: s1_def pending_def)
  qed
  moreover have "e_flags (ev s1 b) AND NS_SCHED_PAUSED = 0" if "b \<in> set (queued s1)" for b
    using that inv(4) [of b] fl by (cases "b = a") (simp_all add: Q, simp_all add: s1_def e_def)
  moreover have "qid (ev s1 b) = 0" if "b \<noteq> a" "b \<in> ran (eventsTable s1)" "b \<notin> set (queued s1)" for b
    using that inv(5) [of b] free by (simp add: Q) (simp add: s1_def)
  ultimately show ?thesis unfolding s'
    by (rule life_QueueEvent_new) (use new fl Q in \<open>simp_all add: s1_def e_def pending_def\<close>)
qed

lemma life_init: "life_inv sched_init"
  by (simp add: life_inv_def sched_init_def room_def qids_def queued_def pending_def life_def)

lemma life_step: "sched_step s s' \<Longrightarrow> life_inv s \<Longrightarrow> life_inv s'"
proof (induction rule: sched_step.induct)
  case (shutdown s running)
  then show ?case by (auto simp: NsStartSchedShutdown_def intro!: life_inv_cong [OF shutdown] simp: pending_def dest: life_invD(4))
qed (auto intro: life_Schedule life_Cancel life_Pause life_Resume life_take life_run_begin life_run_end)

section \<open>Evaluation of concrete runs\<close>

lemma fresh_id_eval: "tab next = None \<Longrightarrow> fuel \<noteq> 0 \<Longrightarrow>
   fresh_id fuel tab next = Some (next, if next + 1 \<ge> int max_ids then 0 else next + 1)"
  by (subst fresh_id.simps) simp

lemma heap_up_eval:
  "k \<le> 1 \<or> due s (k div 2) \<le> due s k \<Longrightarrow> heap_up k s = s"
  "1 < k \<Longrightarrow> due s (k div 2) > due s k \<Longrightarrow> heap_up k s = heap_up (k div 2) (Exchange (k div 2) k s)"
  by (subst heap_up.simps, auto)+

lemma heap_down_eval:
  "nqueue s < 2 * q \<Longrightarrow> heap_down q s = s"
  "q \<noteq> 0 \<Longrightarrow> 2 * q \<le> nqueue s \<Longrightarrow>
     heap_down q s = (let j = (if 2 * q < nqueue s \<and> due s (2 * q) > due s (2 * q + 1) then 2 * q + 1 else 2 * q)
           in if due s j > due s q then s else heap_down j (Exchange q j s))"
  by (subst heap_down.simps, auto)+

lemma take_all_eval:
  "nqueue s = 0 \<or> due s 1 > now \<Longrightarrow> sched_take_all now s = s"
  "nqueue s > 0 \<Longrightarrow> due s 1 \<le> now \<Longrightarrow> sched_take_all now s = sched_take_all now (sched_take now s)"
  by (subst sched_take_all.simps, auto)+

lemmas sched_eval = Ns_ScheduleProcEx_def fresh_id_eval sched_init_def QueueEvent_def next_time_def queue_grow_def
  Let_def heap_up_eval heap_down_eval take_all_eval due_def sched_flag_defs DeQueueEvent_def Exchange_def FreeEvent_def
  sched_take_def Ns_Cancel_def

text \<open>The state after a list of interval schedules (address, interval), made at time 0.\<close>

definition after_calls :: "(nat \<times> int) list \<Rightarrow> sched" where
  "after_calls xs = fold (\<lambda>(a, iv) s. case Ns_ScheduleProcEx (\<lambda>_. undefined) (\<lambda>_. 0) 0 (a, 0) 0 iv s of Some (_, s') \<Rightarrow> s' | None \<Rightarrow> s) xs sched_init"


lemma heap_up_eventsTable: "eventsTable (heap_up k s) = eventsTable s"
  by (induction k s rule: heap_up.induct) (subst heap_up.simps, simp)

lemma QueueEvent_eventsTable: "eventsTable (QueueEvent lt mk now a s) = eventsTable s"
  by (simp add: QueueEvent_def queue_grow_def Let_def heap_up_eventsTable)

section \<open>Properties\<close>

text \<open>
  C29: \<open>QueueEvent\<close> puts an event that is not paused into the heap, due at the time computed from its
  schedule, keeps the heap ordered and inside its allocation, and changes no other event.
\<close>

theorem queue_event_heap:
  assumes "heap_inv s" "a \<notin> set (queued s)" "e_flags (ev s a) AND NS_SCHED_PAUSED = 0"
  shows "heap_inv (QueueEvent lt mk now a s) \<and>
    mset (queued (QueueEvent lt mk now a s)) = add_mset a (mset (queued s)) \<and>
    nextqueue (ev (QueueEvent lt mk now a s) a) = next_time lt mk now (ev s a) \<and>
    (\<forall>b. b \<noteq> a \<longrightarrow> nextqueue (ev (QueueEvent lt mk now a s) b) = nextqueue (ev s b))"
proof -
  have wf: "room s" "qids s" using assms(1) by (auto simp: heap_inv_def)
  note q = QueueEvent_correct [OF wf assms(2,3)]
  have "nextqueue ((ev (QueueEvent lt mk now a s) a)\<lparr>qid := 0\<rparr>) = next_time lt mk now (ev s a)"
    unfolding q(2) by simp
  moreover have "nextqueue (ev (QueueEvent lt mk now a s) b) = nextqueue (ev s b)" if "b \<noteq> a" for b
    by (rule key_of_qid_eq) (rule q(3) [OF that])
  ultimately show ?thesis using q(1) [of lt mk now] assms(1) by (auto simp: heap_inv_def)
qed

lemma queue_event_heap_witness:
  "mset (queued (QueueEvent (\<lambda>_. undefined) (\<lambda>_. 0) 100 3 sched_init)) = {#3#}"
  using queue_event_heap [of sched_init 3 "\<lambda>_. undefined" "\<lambda>_. 0" 100]
  by (simp add: sched_init_def heap_inv_def room_def qids_def queued_def heap_order_def)





text \<open>
  C31: scheduling succeeds as long as one of the ids is unused: the search for an id ends, the id
  was not in use before and names the new event afterwards.
\<close>

theorem schedule_finds_id:
  assumes "0 \<le> iv" "\<not> shutdownPending s" "0 \<le> nextId s" "nextId s < int max_ids"
    and "0 \<le> i" "i < int max_ids" "eventsTable s i = None"
  shows "\<exists>k s'. Ns_ScheduleProcEx lt mk now (a, junk) fl iv s = Some (Some k, s') \<and>
     eventsTable s k = None \<and> eventsTable s' = (eventsTable s)(k \<mapsto> a)"
proof -
  obtain k n' where k: "fresh_id max_ids (eventsTable s) (nextId s) = Some (k, n')"
    using fresh_id_found [of "eventsTable s" i "nextId s"] assms by blast
  from fresh_id_unused [OF k] k assms(1,2) show ?thesis
    by (simp add: Ns_ScheduleProcEx_def QueueEvent_eventsTable)
qed

lemma schedule_finds_id_witness:
  "\<exists>k s'. Ns_ScheduleProcEx (\<lambda>_. undefined) (\<lambda>_. 0) 50 (4, 0) NS_SCHED_ONCE 30 sched_init = Some (Some k, s') \<and>
     eventsTable s' = [k \<mapsto> 4]"
  using schedule_finds_id [of 30 sched_init 6 "\<lambda>_. undefined" "\<lambda>_. 0" 50 4 0 NS_SCHED_ONCE]
  by (simp add: sched_init_def)

definition plain_calendar :: "(int \<Rightarrow> tm) \<Rightarrow> (tm \<Rightarrow> int) \<Rightarrow> bool" where
  "plain_calendar lt mk \<longleftrightarrow>
     (\<forall>t. tm_wday (lt t) = (t div 86400 + 4) mod 7 \<and>
        (\<forall>x d. mk ((lt t)\<lparr>tm_sec := x, tm_min := 0, tm_hour := 0, tm_mday := tm_mday (lt t) + d\<rparr>) =
               (t div 86400 + d) * 86400 + x))"

lemma calendar_day:
  assumes "plain_calendar lt mk"
  shows "mk ((lt now)\<lparr>tm_sec := x, tm_hour := 0, tm_min := 0\<rparr>) = now div 86400 * 86400 + x"
    "mk ((lt now)\<lparr>tm_sec := x, tm_hour := 0, tm_min := 0, tm_mday := tm_mday (lt now) + d\<rparr>) =
      (now div 86400 + d) * 86400 + x"
proof -
  have "mk ((lt now)\<lparr>tm_sec := x, tm_min := 0, tm_hour := 0, tm_mday := tm_mday (lt now) + d\<rparr>) =
      (now div 86400 + d) * 86400 + x" for d
    using assms by (simp add: plain_calendar_def)
  from this [of 0] this [of d] show
    "mk ((lt now)\<lparr>tm_sec := x, tm_hour := 0, tm_min := 0\<rparr>) = now div 86400 * 86400 + x"
    "mk ((lt now)\<lparr>tm_sec := x, tm_hour := 0, tm_min := 0, tm_mday := tm_mday (lt now) + d\<rparr>) =
      (now div 86400 + d) * 86400 + x"
    by (cases "lt now"; simp)+
qed

lemma weekly_step:
  fixes now x :: int
  assumes "0 \<le> x" "x < 604800"
  defines "t \<equiv> (now div 86400 - (now div 86400 + 4) mod 7) * 86400 + x"
  shows "now < t + 604800" "t \<le> now + 604800" "((t - x) div 86400 + 4) mod 7 = 0" "(t - x) mod 86400 = 0"
proof -
  have d: "now div 86400 * 86400 \<le> now" "now < now div 86400 * 86400 + 86400" by linarith+
  have w: "0 \<le> (now div 86400 + 4) mod 7" "(now div 86400 + 4) mod 7 \<le> 6" by simp_all
  show "now < t + 604800" "t \<le> now + 604800" using d w assms by (auto simp: t_def algebra_simps)
  have "(t - x) div 86400 = now div 86400 - (now div 86400 + 4) mod 7" by (simp add: t_def)
  moreover have "(D - (D + 4) mod 7 + 4) mod 7 = 0" for D :: int by presburger
  ultimately show "((t - x) div 86400 + 4) mod 7 = 0" by simp
  show "(t - x) mod 86400 = 0" by (simp add: t_def)
qed

text \<open>
  The next run of a daily or weekly event.  The calendar functions are those of a zone without
  daylight saving, whose days start at multiples of 86400 seconds: the event is due in the
  future, at most a day (a week) ahead, at its offset from midnight (from midnight of a Sunday).
\<close>

theorem next_time_calendar:
  fixes now :: int
  assumes cal: "plain_calendar lt mk" and iv: "0 \<le> interval e" "interval e < (if weekly then 604800 else 86400)"
    and fl: "e_flags e AND (NS_SCHED_DAILY OR NS_SCHED_WEEKLY) \<noteq> 0" "weekly \<longleftrightarrow> e_flags e AND NS_SCHED_WEEKLY \<noteq> 0"
  defines "t \<equiv> next_time lt mk now e"
  shows "now < t \<and> t \<le> now + (if weekly then 604800 else 86400) \<and> (t - interval e) mod 86400 = 0 \<and>
    (if weekly then ((t - interval e) div 86400 + 4) mod 7 = 0 else t mod 86400 = interval e)"
proof (cases weekly)
  case False
  have d: "now div 86400 * 86400 \<le> now" "now < now div 86400 * 86400 + 86400" by linarith+
  have t: "t = (let u = now div 86400 * 86400 + interval e in if u \<le> now then u + 86400 else u)"
    using False fl calendar_day(1) [OF cal, where now = now and x = "interval e"]
      calendar_day(2) [OF cal, where now = now and x = "interval e" and d = 1]
    by (simp add: t_def next_time_def Let_def algebra_simps)
  then show ?thesis using False iv d by (auto simp: Let_def mod_add_right_eq)
next
  case True
  let ?u = "(now div 86400 - (now div 86400 + 4) mod 7) * 86400 + interval e"
  have wd: "tm_wday (lt now) = (now div 86400 + 4) mod 7" using cal by (simp add: plain_calendar_def)
  have t: "t = (if ?u \<le> now then ?u + 604800 else ?u)"
    using True fl calendar_day(2) [OF cal, where now = now and x = "interval e" and d = "- tm_wday (lt now)"]
      calendar_day(2) [OF cal, where now = now and x = "interval e" and d = "7 - tm_wday (lt now)"]
    by (simp add: t_def next_time_def Let_def wd algebra_simps)
  have "interval e < 604800" using iv(2) True by simp
  note ws = weekly_step [OF iv(1) this, of now]
  have week: "((u + 604800 - x) div 86400 + 4) mod 7 = 0 \<and> (u + 604800 - x) mod 86400 = 0"
    if "((u - x) div 86400 + 4) mod 7 = 0" "(u - x) mod 86400 = 0" for u x :: int
  proof -
    have "u + 604800 - x = (u - x) + 7 * 86400" by simp
    then have "(u + 604800 - x) div 86400 = (u - x) div 86400 + 7" "(u + 604800 - x) mod 86400 = (u - x) mod 86400"
      by (simp_all only: div_mult_self1 mod_mult_self1 zero_neq_numeral not_False_eq_True add.commute)
    moreover have "(y + 7 + 4) mod 7 = (y + 4) mod 7" for y :: int by presburger
    ultimately show ?thesis using that by (simp only: simp_thms)
  qed
  have "now < t \<and> t \<le> now + 604800 \<and> (t - interval e) mod 86400 = 0 \<and> ((t - interval e) div 86400 + 4) mod 7 = 0"
  proof (cases "?u \<le> now")
    case le: True
    then have t': "t = ?u + 604800" by (simp only: t if_True)
    show ?thesis unfolding t' using ws(1) le week [OF ws(3,4)] by (intro conjI) linarith+
  next
    case False
    then have t': "t = ?u" by (simp only: t if_False)
    show ?thesis unfolding t' using ws(2-4) False by (intro conjI) linarith+
  qed
  then show ?thesis using True by (simp only: if_True simp_thms)
qed

lemma next_time_calendar_witness:
  "next_time (\<lambda>t. \<lparr>tm_sec = t mod 60, tm_min = t div 60 mod 60, tm_hour = t div 3600 mod 24,
       tm_mday = t div 86400 + 1, tm_wday = (t div 86400 + 4) mod 7, tm_rest = 0\<rparr>)
     (\<lambda>r. (tm_mday r - 1) * 86400 + tm_hour r * 3600 + tm_min r * 60 + tm_sec r) 100000
     \<lparr>hashed = True, e_id = 3, qid = 0, nextqueue = 0, lastqueue = 0, laststart = 0, lastend = 0,
       e_flags = NS_SCHED_DAILY, interval = 7200\<rparr> mod 86400 = 7200"
proof -
  let ?lt = "\<lambda>t. \<lparr>tm_sec = t mod 60, tm_min = t div 60 mod 60, tm_hour = t div 3600 mod 24,
       tm_mday = t div 86400 + 1, tm_wday = (t div 86400 + 4) mod 7, tm_rest = 0\<rparr>"
  let ?mk = "\<lambda>r. (tm_mday r - 1) * 86400 + tm_hour r * 3600 + tm_min r * 60 + tm_sec r"
  have "plain_calendar ?lt ?mk" by (simp add: plain_calendar_def)
  from next_time_calendar [OF this, of "\<lparr>hashed = True, e_id = 3, qid = 0, nextqueue = 0, lastqueue = 0,
      laststart = 0, lastend = 0, e_flags = NS_SCHED_DAILY, interval = 7200\<rparr>" False 100000]
  show ?thesis by (simp add: sched_flag_defs)
qed


text \<open>
  \<open>Ns_Resume\<close> queues an event that is being run, and the end of the run queues it again.  The
  event is then twice in the heap, and cancelling it frees it while the heap still holds it.
\<close>

theorem resume_running_frees_queued:
  "let s0 = snd (the (Ns_ScheduleProcEx (\<lambda>_. undefined) (\<lambda>_. 0) 0 (1, 0) NS_SCHED_THREAD 5 sched_init));
       s1 = event_run_begin (sched_take_all 5 s0);
       s2 = snd (Ns_Resume (\<lambda>_. undefined) (\<lambda>_. 0) 6 0 (snd (Ns_Pause 0 s1)));
       s3 = run_end (\<lambda>_. undefined) (\<lambda>_. 0) 7 1 s2;
       s4 = snd (Ns_Cancel 0 s3)
   in executing s1 = [1] \<and> nqueue s3 = 2 \<and> queue s3 ! 1 = 1 \<and> queue s3 ! 2 = 1 \<and>
      freed s4 = [1] \<and> nqueue s4 = 1 \<and> queue s4 ! 1 = 1"
proof -
  let ?lt = "\<lambda>_::int. (undefined::tm)" and ?mk = "\<lambda>_::tm. 0::int"
  define st where "st = (\<lambda>q nx ls le fl qs n ex. \<lparr>ev = (ev sched_init)(1 := \<lparr>hashed = True, e_id = 0, qid = q, nextqueue = nx,
      lastqueue = 5, laststart = ls, lastend = le, e_flags = fl, interval = 5\<rparr>),
    queue = qs, nqueue = n, maxqueue = 25, eventsTable = [0 \<mapsto> 1], nextId = 1, firstEventPtr = [], readyPtr = [],
    executing = ex, freed = [], shutdownPending = False\<rparr>)"
  have s1: "event_run_begin (sched_take_all 5 (snd (the (Ns_ScheduleProcEx ?lt ?mk 0 (1, 0) NS_SCHED_THREAD 5 sched_init)))) =
      st 0 5 5 (-1) 33 ((replicate 26 0)[1 := 1]) 0 [1]"
    by (simp add: st_def sched_eval event_run_begin_def del: One_nat_def)
  have s2: "snd (Ns_Resume ?lt ?mk 6 0 (snd (Ns_Pause 0 (st 0 5 5 (-1) 33 ((replicate 26 0)[1 := 1]) 0 [1])))) =
      st 1 11 5 (-1) 33 ((replicate 26 0)[1 := 1]) 1 [1]"
    by (simp add: st_def sched_eval Ns_Pause_def Ns_Resume_def del: One_nat_def)
  have s3: "run_end ?lt ?mk 7 1 (st 1 11 5 (-1) 33 ((replicate 26 0)[1 := 1]) 1 [1]) =
      st 2 12 5 7 1 ((replicate 26 0)[1 := 1, 2 := 1]) 2 []"
    by (simp add: st_def sched_eval run_end_def del: One_nat_def)
  have s4: "freed t = [1] \<and> nqueue t = 1 \<and> queue t ! 1 = 1"
    if "t = snd (Ns_Cancel 0 (st 2 12 5 7 1 ((replicate 26 0)[1 := 1, 2 := 1]) 2 []))" for t
    unfolding that by (simp add: st_def sched_eval del: One_nat_def)
  show ?thesis unfolding Let_def s1 s2 s3 using s4 [OF refl] by (simp add: st_def del: One_nat_def)
qed

end
