(* ===== verification/Cache.thy ===== *)
theory Cache
  imports NsTime "HOL-Library.Monad_Syntax"
begin

text \<open>
  The size and time limited caches of \<open>nsd/cache.c\<close>.  Entries live in a store and are linked in
  both directions in order of use, the most recent first; a hash table finds them by key.  An
  entry whose value is NULL (\<open>None\<close>) is being computed by some thread.  Every operation is
  called with the cache's lock held.  The clock, the address of a new entry and the order in
  which a hash table is enumerated are arguments; the values given to the cache's \<open>freeProc\<close> are
  recorded in \<open>released\<close>.
\<close>

section \<open>Entries and caches\<close>

record 'v Entry =
  nextPtr :: "nat option"
  prevPtr :: "nat option"
  ent_key :: string
  expires :: Ns_Time
  ent_size :: nat
  ent_cost :: int
  ent_count :: int
  ent_value :: "'v option"

record cache_stats =
  nhit :: nat
  nmiss :: nat
  nexpired :: nat
  nflushed :: nat
  npruned :: nat

record 'v Cache =
  firstEntryPtr :: "nat option"
  lastEntryPtr :: "nat option"
  limit :: nat
  currentSize :: nat
  ents :: "nat \<Rightarrow> 'v Entry"
  entriesTable :: "string \<Rightarrow> nat option"
  stats :: cache_stats
  released :: "'v list"

abbreviation upd_ent :: "nat \<Rightarrow> ('v Entry \<Rightarrow> 'v Entry) \<Rightarrow> 'v Cache \<Rightarrow> 'v Cache" where
  "upd_ent a f c \<equiv> c\<lparr>ents := (ents c)(a := f (ents c a))\<rparr>"

abbreviation upd_stats :: "(cache_stats \<Rightarrow> cache_stats) \<Rightarrow> 'v Cache \<Rightarrow> 'v Cache" where
  "upd_stats f c \<equiv> c\<lparr>stats := f (stats c)\<rparr>"

definition zero_stats :: cache_stats where
  "zero_stats = \<lparr>nhit = 0, nmiss = 0, nexpired = 0, nflushed = 0, npruned = 0\<rparr>"

definition Ns_CacheCreateSz :: "nat \<Rightarrow> (nat \<Rightarrow> 'v Entry) \<Rightarrow> 'v Cache" where
  "Ns_CacheCreateSz maxsz mem =
     \<lparr>firstEntryPtr = None, lastEntryPtr = None, limit = maxsz, currentSize = 0, ents = mem,
      entriesTable = (\<lambda>_. None), stats = zero_stats, released = []\<rparr>"

definition Ns_CacheResetStats :: "'v Cache \<Rightarrow> 'v Cache" where
  "Ns_CacheResetStats c = c\<lparr>stats := zero_stats\<rparr>"

section \<open>The list in order of use\<close>

definition Delink :: "nat \<Rightarrow> 'v Cache \<Rightarrow> 'v Cache" where
  "Delink a c =
     (let e = ents c a;
          c1 = (case prevPtr e of
                  Some p \<Rightarrow> upd_ent p (\<lambda>x. x\<lparr>nextPtr := nextPtr e\<rparr>) c
                | None \<Rightarrow> c\<lparr>firstEntryPtr := nextPtr e\<rparr>);
          c2 = (case nextPtr (ents c1 a) of
                  Some n \<Rightarrow> upd_ent n (\<lambda>x. x\<lparr>prevPtr := prevPtr (ents c1 a)\<rparr>) c1
                | None \<Rightarrow> c1\<lparr>lastEntryPtr := prevPtr (ents c1 a)\<rparr>)
      in upd_ent a (\<lambda>x. x\<lparr>prevPtr := None, nextPtr := None\<rparr>) c2)"

definition Push :: "nat \<Rightarrow> 'v Cache \<Rightarrow> 'v Cache" where
  "Push a c =
     (let c1 = (case firstEntryPtr c of
                  Some f \<Rightarrow> upd_ent f (\<lambda>x. x\<lparr>prevPtr := Some a\<rparr>) c
                | None \<Rightarrow> c);
          c2 = upd_ent a (\<lambda>x. x\<lparr>prevPtr := None, nextPtr := firstEntryPtr c1\<rparr>) c1;
          c3 = c2\<lparr>firstEntryPtr := Some a\<rparr>
      in if lastEntryPtr c3 = None then c3\<lparr>lastEntryPtr := Some a\<rparr> else c3)"

section \<open>Operations\<close>

definition Expired :: "Ns_Time \<Rightarrow> 'v Entry \<Rightarrow> bool" where
  "Expired now e \<longleftrightarrow> sec (expires e) > 0 \<and> fst (Ns_DiffTime (expires e) now) < 0"

definition Ns_CacheUnsetValue :: "nat \<Rightarrow> 'v Cache \<Rightarrow> 'v Cache" where
  "Ns_CacheUnsetValue a c =
     (case ent_value (ents c a) of
        None \<Rightarrow> c
      | Some v \<Rightarrow>
          let c1 = c\<lparr>currentSize := currentSize c - ent_size (ents c a)\<rparr>;
              c2 = upd_ent a (\<lambda>x. x\<lparr>ent_size := 0, ent_value := None, expires := Ns_Time 0 0\<rparr>) c1
          in c2\<lparr>released := v # released c2\<rparr>)"

definition Ns_CacheDeleteEntry :: "nat \<Rightarrow> 'v Cache \<Rightarrow> 'v Cache" where
  "Ns_CacheDeleteEntry a c =
     (let c1 = Delink a (Ns_CacheUnsetValue a c)
      in c1\<lparr>entriesTable := (entriesTable c1)(ent_key (ents c1 a) := None)\<rparr>)"

definition Ns_CacheFlushEntry :: "nat \<Rightarrow> 'v Cache \<Rightarrow> 'v Cache" where
  "Ns_CacheFlushEntry a c = Ns_CacheDeleteEntry a (upd_stats (\<lambda>t. t\<lparr>nflushed := nflushed t + 1\<rparr>) c)"

definition Ns_CacheFindEntry :: "Ns_Time \<Rightarrow> string \<Rightarrow> 'v Cache \<Rightarrow> nat option \<times> 'v Cache" where
  "Ns_CacheFindEntry now key c =
     (let miss = upd_stats (\<lambda>t. t\<lparr>nmiss := nmiss t + 1\<rparr>)
      in case entriesTable c key of
           None \<Rightarrow> (None, miss c)
         | Some a \<Rightarrow>
             if ent_value (ents c a) = None then (None, miss c)
             else if Expired now (ents c a) then (None, miss (Ns_CacheDeleteEntry a c))
             else (Some a,
                   Push a (upd_ent a (\<lambda>x. x\<lparr>ent_count := ent_count x + 1\<rparr>)
                     (Delink a (upd_stats (\<lambda>t. t\<lparr>nhit := nhit t + 1\<rparr>) c)))))"

definition entry_calloc :: "string \<Rightarrow> 'v Entry" where
  "entry_calloc key = \<lparr>nextPtr = None, prevPtr = None, ent_key = key, expires = Ns_Time 0 0, ent_size = 0,
     ent_cost = 0, ent_count = 0, ent_value = None\<rparr>"

text \<open>The result is the entry and whether the caller has to compute its value.\<close>

definition Ns_CacheCreateEntry :: "Ns_Time \<Rightarrow> nat \<Rightarrow> string \<Rightarrow> 'v Cache \<Rightarrow> (nat \<times> bool) \<times> 'v Cache" where
  "Ns_CacheCreateEntry now new key c =
     (case entriesTable c key of
        None \<Rightarrow>
          ((new, True),
           Push new (upd_stats (\<lambda>t. t\<lparr>nmiss := nmiss t + 1\<rparr>)
             (c\<lparr>ents := (ents c)(new := entry_calloc key), entriesTable := (entriesTable c)(key \<mapsto> new)\<rparr>)))
      | Some a \<Rightarrow>
          if Expired now (ents c a) then
            ((a, True),
             Push a (Delink a (Ns_CacheUnsetValue a (upd_stats (\<lambda>t. t\<lparr>nexpired := nexpired t + 1\<rparr>) c))))
          else
            ((a, False),
             Push a (Delink a (upd_stats (\<lambda>t. t\<lparr>nhit := nhit t + 1\<rparr>)
               (upd_ent a (\<lambda>x. x\<lparr>ent_count := ent_count x + 1\<rparr>) c)))))"

text \<open>
  The loop that makes room: entries go from the least recently used end, but not the entry just
  stored and not past an entry that is being computed.  \<open>None\<close> stands for a NULL dereference or a
  loop that does not end.
\<close>

partial_function (option) prune :: "nat \<Rightarrow> 'v Cache \<Rightarrow> 'v Cache option" where
  "prune a c =
     (if currentSize c > limit c then
        (case lastEntryPtr c of
           None \<Rightarrow> None
         | Some l \<Rightarrow>
             if l \<noteq> a \<and> ent_value (ents c l) \<noteq> None
             then prune a (upd_stats (\<lambda>t. t\<lparr>npruned := npruned t + 1\<rparr>) (Ns_CacheDeleteEntry l c))
             else Some c)
      else Some c)"

definition Ns_CacheSetValueExpires ::
    "nat \<Rightarrow> 'v \<Rightarrow> nat \<Rightarrow> Ns_Time option \<Rightarrow> int \<Rightarrow> 'v Cache \<Rightarrow> 'v Cache option" where
  "Ns_CacheSetValueExpires a v sz timeout cost c =
     (let c1 = Ns_CacheUnsetValue a c;
          c2 = upd_ent a (\<lambda>x. x\<lparr>ent_value := Some v, ent_size := sz, ent_cost := cost, ent_count := 1,
                                 expires := (case timeout of None \<Rightarrow> expires x | Some t \<Rightarrow> t)\<rparr>) c1;
          c3 = c2\<lparr>currentSize := currentSize c2 + sz\<rparr>
      in if limit c3 > 0 then prune a c3 else Some c3)"

definition Ns_CacheSetValueSz :: "nat \<Rightarrow> 'v \<Rightarrow> nat \<Rightarrow> 'v Cache \<Rightarrow> 'v Cache option" where
  "Ns_CacheSetValueSz a v sz c = Ns_CacheSetValueExpires a v sz None 0 c"

definition Ns_CacheSetValue :: "nat \<Rightarrow> 'v \<Rightarrow> 'v Cache \<Rightarrow> 'v Cache option" where
  "Ns_CacheSetValue a v c = Ns_CacheSetValueSz a v 0 c"

text \<open>
  The enumeration of a cache, \<open>Ns_CacheFirstEntry\<close> with the keys of the table in some order and
  \<open>Ns_CacheNextEntry\<close> with the keys not seen yet: the next entry with a value, deleting expired ones
  on the way.
\<close>

fun Ns_CacheNextEntry :: "Ns_Time \<Rightarrow> string list \<Rightarrow> 'v Cache \<Rightarrow> nat option \<times> string list \<times> 'v Cache" where
  "Ns_CacheNextEntry now [] c = (None, [], c)"
| "Ns_CacheNextEntry now (k # ks) c =
     (case entriesTable c k of
        None \<Rightarrow> Ns_CacheNextEntry now ks c
      | Some a \<Rightarrow>
          if ent_value (ents c a) = None then Ns_CacheNextEntry now ks c
          else if \<not> Expired now (ents c a) then (Some a, ks, c)
          else Ns_CacheNextEntry now ks
                 (Ns_CacheDeleteEntry a (upd_stats (\<lambda>t. t\<lparr>nexpired := nexpired t + 1\<rparr>) c)))"

definition Ns_CacheFirstEntry :: "Ns_Time \<Rightarrow> string list \<Rightarrow> 'v Cache \<Rightarrow> nat option \<times> string list \<times> 'v Cache" where
  "Ns_CacheFirstEntry now order c = Ns_CacheNextEntry now order c"

lemma NextEntry_shorter: "Ns_CacheNextEntry now ks c = (Some a, ks', c') \<Longrightarrow> length ks' < length ks"
  by (induction now ks c rule: Ns_CacheNextEntry.induct) (auto split: option.splits if_splits)

function cache_flush_loop :: "Ns_Time \<Rightarrow> nat \<Rightarrow> string list \<Rightarrow> 'v Cache \<Rightarrow> nat \<times> 'v Cache" where
  "cache_flush_loop now n ks c =
     (case Ns_CacheNextEntry now ks c of
        (None, _, c') \<Rightarrow> (n, c')
      | (Some a, ks', c') \<Rightarrow> cache_flush_loop now (n + 1) ks' (Ns_CacheDeleteEntry a c'))"
  by pat_completeness auto

termination
  by (relation "measure (\<lambda>(now, n, ks, c). length ks)") (auto dest!: NextEntry_shorter [OF sym])

declare cache_flush_loop.simps [simp del]

definition Ns_CacheFlush :: "Ns_Time \<Rightarrow> string list \<Rightarrow> 'v Cache \<Rightarrow> nat \<times> 'v Cache" where
  "Ns_CacheFlush now ks c =
     (case cache_flush_loop now 0 ks c of
        (n, c') \<Rightarrow> (n, upd_stats (\<lambda>t. t\<lparr>nflushed := nflushed t + 1\<rparr>) c'))"

text \<open>
  \<open>Ns_CacheWaitCreateEntry\<close> waits while another thread computes the value.  Each element of the
  environment is one wait: whether it ended before the timeout, the clock afterwards and what
  the other threads did to the cache meanwhile.  \<open>None\<close>: still waiting.
\<close>

fun wait_create :: "(bool \<times> Ns_Time \<times> ('v Cache \<Rightarrow> 'v Cache)) list \<Rightarrow> nat \<Rightarrow> string \<Rightarrow> nat \<times> bool \<Rightarrow> 'v Cache \<Rightarrow>
    ((nat \<times> bool) option \<times> 'v Cache) option" where
  "wait_create env new key (a, isNew) c =
     (if isNew \<or> ent_value (ents c a) \<noteq> None then Some (Some (a, isNew), c)
      else case env of
             [] \<Rightarrow> None
           | (ok, now, others) # env' \<Rightarrow>
               (case Ns_CacheCreateEntry now new key (others c) of
                  (r, c') \<Rightarrow> if ok then wait_create env' new key r c' else Some (None, c')))"

declare wait_create.simps [simp del]

definition Ns_CacheWaitCreateEntry where
  "Ns_CacheWaitCreateEntry env now new key c =
     (case Ns_CacheCreateEntry now new key c of (r, c') \<Rightarrow> wait_create env new key r c')"

section \<open>Representation of the list\<close>

definition first_of :: "'a list \<Rightarrow> 'a option" where
  "first_of xs = (case xs of [] \<Rightarrow> None | x # _ \<Rightarrow> Some x)"

definition last_of :: "'a list \<Rightarrow> 'a option" where
  "last_of xs = (if xs = [] then None else Some (last xs))"

text \<open>\<open>linked c xs\<close>: following the pointers in either direction visits exactly \<open>xs\<close>.\<close>

definition linked :: "'v Cache \<Rightarrow> nat list \<Rightarrow> bool" where
  "linked c xs \<longleftrightarrow> distinct xs \<and> firstEntryPtr c = first_of xs \<and> lastEntryPtr c = last_of xs \<and>
     (\<forall>ys a zs. xs = ys @ a # zs \<longrightarrow> nextPtr (ents c a) = first_of zs \<and> prevPtr (ents c a) = last_of ys)"

lemma first_of_simps [simp]: "first_of [] = None" "first_of (x # xs) = Some x"
  by (simp_all add: first_of_def)

lemma last_of_simps [simp]: "last_of [] = None" "last_of (xs @ [x]) = Some x" "last_of [x] = Some x"
  by (simp_all add: last_of_def)

lemma first_of_Some: "first_of xs = Some x \<longleftrightarrow> (\<exists>ys. xs = x # ys)"
  by (cases xs) auto

lemma last_of_Some: "last_of xs = Some x \<longleftrightarrow> (\<exists>ys. xs = ys @ [x])"
  by (cases xs rule: rev_cases) auto

lemma linked_ptrs: "linked c (ys @ a # zs) \<Longrightarrow> nextPtr (ents c a) = first_of zs \<and> prevPtr (ents c a) = last_of ys"
  by (auto simp: linked_def)

lemma Push_ents:
  "ents (Push a c) b =
     (if b = a then (if firstEntryPtr c = Some a then (ents c a)\<lparr>prevPtr := None, nextPtr := Some a\<rparr>
                     else (ents c a)\<lparr>prevPtr := None, nextPtr := firstEntryPtr c\<rparr>)
      else if firstEntryPtr c = Some b then (ents c b)\<lparr>prevPtr := Some a\<rparr> else ents c b)"
  by (auto simp: Push_def Let_def split: option.split)

lemma linked_Push:
  assumes "linked c xs" "a \<notin> set xs"
  shows "linked (Push a c) (a # xs)"
proof -
  have f: "firstEntryPtr c = first_of xs" "lastEntryPtr c = last_of xs" "distinct xs"
    using assms(1) by (auto simp: linked_def)
  have "nextPtr (ents (Push a c) b) = first_of zs \<and> prevPtr (ents (Push a c) b) = last_of ys"
    if "a # xs = ys @ b # zs" for ys b zs
  proof (cases ys)
    case Nil
    with that f assms(2) show ?thesis by (auto simp: Push_ents first_of_Some)
  next
    case (Cons y us)
    with that have us: "y = a" "xs = us @ b # zs" by auto
    have "b \<noteq> a" using us assms(2) by auto
    moreover have "first_of xs = Some b \<longleftrightarrow> us = []" using us f(3) by (cases us) auto
    ultimately show ?thesis using linked_ptrs [OF assms(1) [unfolded us(2)]] Cons us f(1)
      by (auto simp: Push_ents last_of_def)
  qed
  moreover have "firstEntryPtr (Push a c) = Some a" "lastEntryPtr (Push a c) = last_of (a # xs)"
    using f by (auto simp: Push_def Let_def last_of_def split: option.split)
  ultimately show ?thesis using f assms(2) by (auto simp: linked_def)
qed

lemma Delink_ents:
  assumes "linked c (ys @ a # zs)"
  shows "ents (Delink a c) b =
     (if b = a then (ents c a)\<lparr>prevPtr := None, nextPtr := None\<rparr>
      else if last_of ys = Some b then (ents c b)\<lparr>nextPtr := first_of zs\<rparr>
      else if first_of zs = Some b then (ents c b)\<lparr>prevPtr := last_of ys\<rparr> else ents c b)"
    and "firstEntryPtr (Delink a c) = first_of (ys @ zs)" and "lastEntryPtr (Delink a c) = last_of (ys @ zs)"
proof -
  note p = linked_ptrs [OF assms]
  have d: "distinct (ys @ a # zs)" "firstEntryPtr c = first_of (ys @ a # zs)" "lastEntryPtr c = last_of (ys @ a # zs)"
    using assms by (auto simp: linked_def)
  have ne: "last_of ys \<noteq> Some a" "first_of zs \<noteq> Some a" "last_of ys = Some x \<Longrightarrow> first_of zs \<noteq> Some x" for x
    using d(1) by (auto simp: first_of_Some last_of_Some)
  show "ents (Delink a c) b =
     (if b = a then (ents c a)\<lparr>prevPtr := None, nextPtr := None\<rparr>
      else if last_of ys = Some b then (ents c b)\<lparr>nextPtr := first_of zs\<rparr>
      else if first_of zs = Some b then (ents c b)\<lparr>prevPtr := last_of ys\<rparr> else ents c b)"
    using p ne by (auto simp: Delink_def Let_def split: option.split)
  show "firstEntryPtr (Delink a c) = first_of (ys @ zs)"
    using p d(2) ne by (cases ys) (auto simp: Delink_def Let_def last_of_def split: option.split)
  show "lastEntryPtr (Delink a c) = last_of (ys @ zs)"
  proof (cases zs)
    case Nil
    with p d(3) ne show ?thesis
      by (cases "ys = []") (auto simp: Delink_def Let_def last_of_def split: option.split if_splits)
  next
    case (Cons z us)
    with p d(3) ne show ?thesis
      by (auto simp: Delink_def Let_def last_of_def split: option.split)
  qed
qed

lemma linked_Delink:
  assumes "linked c (ys @ a # zs)"
  shows "linked (Delink a c) (ys @ zs)"
proof -
  have d: "distinct (ys @ a # zs)" using assms by (simp add: linked_def)
  have "nextPtr (ents (Delink a c) b) = first_of vs \<and> prevPtr (ents (Delink a c) b) = last_of us"
    if "ys @ zs = us @ b # vs" for us b vs
  proof -
    from that consider (left) ws where "ys = us @ b # ws" "vs = ws @ zs" | (right) ws where "us = ys @ ws" "zs = ws @ b # vs"
      unfolding append_eq_append_conv2 by (metis Cons_eq_append_conv append_Nil append_Nil2)
    then show ?thesis
    proof cases
      case left
      have "b \<noteq> a" "first_of zs \<noteq> Some b" using d left by (auto simp: first_of_Some)
      moreover have "last_of ys = Some b \<longleftrightarrow> ws = []" using d left by (cases ws rule: rev_cases) (auto simp: last_of_def)
      ultimately show ?thesis
        using left linked_ptrs [of c us b "ws @ a # zs"] assms
        by (cases ws) (auto simp: Delink_ents(1) [OF assms])
    next
      case right
      have "b \<noteq> a" "last_of ys \<noteq> Some b" using d right by (auto simp: last_of_Some)
      moreover have "first_of zs = Some b \<longleftrightarrow> ws = []" using d right by (cases ws) auto
      ultimately show ?thesis
        using right linked_ptrs [of c "ys @ a # ws" b vs] assms
        by (cases ws rule: rev_cases) (auto simp: Delink_ents(1) [OF assms] last_of_def)
    qed
  qed
  then show ?thesis using d Delink_ents(2,3) [OF assms] by (auto simp: linked_def)
qed

section \<open>The contract of a list in order of use\<close>

locale recency_list =
  fixes repr :: "'s \<Rightarrow> 'a list \<Rightarrow> bool" and delink :: "'a \<Rightarrow> 's \<Rightarrow> 's" and push :: "'a \<Rightarrow> 's \<Rightarrow> 's"
    and oldest :: "'s \<Rightarrow> 'a option"
  assumes repr_distinct: "repr s xs \<Longrightarrow> distinct xs"
    and repr_delink: "repr s (ys @ a # zs) \<Longrightarrow> repr (delink a s) (ys @ zs)"
    and repr_push: "repr s xs \<Longrightarrow> a \<notin> set xs \<Longrightarrow> repr (push a s) (a # xs)"
    and repr_oldest: "repr s xs \<Longrightarrow> oldest s = last_of xs"
begin

lemma delink_remove1: "repr s xs \<Longrightarrow> a \<in> set xs \<Longrightarrow> repr (delink a s) (remove1 a xs)"
  by (metis remove1_split repr_delink)

lemma touch: "repr s xs \<Longrightarrow> a \<in> set xs \<Longrightarrow> repr (push a (delink a s)) (a # remove1 a xs)"
  by (simp add: delink_remove1 repr_distinct repr_push)

lemma drop_oldest: "repr s (xs @ [a]) \<Longrightarrow> oldest s = Some a \<and> repr (delink a s) xs"
  using repr_delink [of s xs a "[]"] by (simp add: repr_oldest)

end

interpretation lru: recency_list linked Delink Push lastEntryPtr
proof unfold_locales
  show "linked c xs \<Longrightarrow> distinct xs" for c :: "'v Cache" and xs by (simp add: linked_def)
  show "linked c xs \<Longrightarrow> lastEntryPtr c = last_of xs" for c :: "'v Cache" and xs by (simp add: linked_def)
qed (rule linked_Delink linked_Push, assumption+)+

section \<open>The invariant of a cache\<close>

text \<open>
  The table holds exactly the linked entries under their keys, the current size is the sum of
  their sizes, and an entry without a value has size 0 and no expiry time.
\<close>

definition cache_inv :: "'v Cache \<Rightarrow> nat list \<Rightarrow> bool" where
  "cache_inv c xs \<longleftrightarrow> linked c xs \<and>
     (\<forall>k a. entriesTable c k = Some a \<longleftrightarrow> a \<in> set xs \<and> ent_key (ents c a) = k) \<and>
     currentSize c = sum_list (map (\<lambda>a. ent_size (ents c a)) xs) \<and>
     (\<forall>a \<in> set xs. ent_value (ents c a) = None \<longrightarrow> ent_size (ents c a) = 0 \<and> expires (ents c a) = Ns_Time 0 0)"

lemma linked_cong:
  assumes "firstEntryPtr d = firstEntryPtr c" "lastEntryPtr d = lastEntryPtr c"
    and "\<And>a. a \<in> set xs \<Longrightarrow> nextPtr (ents d a) = nextPtr (ents c a) \<and> prevPtr (ents d a) = prevPtr (ents c a)"
    and "linked c xs"
  shows "linked d xs"
  using assms unfolding linked_def by auto

lemma Delink_data [simp]:
  "ent_key (ents (Delink a c) b) = ent_key (ents c b)" "ent_size (ents (Delink a c) b) = ent_size (ents c b)"
  "ent_value (ents (Delink a c) b) = ent_value (ents c b)" "expires (ents (Delink a c) b) = expires (ents c b)"
  "entriesTable (Delink a c) = entriesTable c" "currentSize (Delink a c) = currentSize c"
  "limit (Delink a c) = limit c" "stats (Delink a c) = stats c" "released (Delink a c) = released c"
  by (simp_all add: Delink_def Let_def split: option.split)

lemma Push_data [simp]:
  "ent_key (ents (Push a c) b) = ent_key (ents c b)" "ent_size (ents (Push a c) b) = ent_size (ents c b)"
  "ent_value (ents (Push a c) b) = ent_value (ents c b)" "expires (ents (Push a c) b) = expires (ents c b)"
  "entriesTable (Push a c) = entriesTable c" "currentSize (Push a c) = currentSize c"
  "limit (Push a c) = limit c" "stats (Push a c) = stats c" "released (Push a c) = released c"
  by (simp_all add: Push_def Let_def split: option.split)

lemma Unset_keeps [simp]:
  "firstEntryPtr (Ns_CacheUnsetValue a c) = firstEntryPtr c" "lastEntryPtr (Ns_CacheUnsetValue a c) = lastEntryPtr c"
  "nextPtr (ents (Ns_CacheUnsetValue a c) b) = nextPtr (ents c b)"
  "prevPtr (ents (Ns_CacheUnsetValue a c) b) = prevPtr (ents c b)"
  "ent_key (ents (Ns_CacheUnsetValue a c) b) = ent_key (ents c b)"
  "entriesTable (Ns_CacheUnsetValue a c) = entriesTable c" "limit (Ns_CacheUnsetValue a c) = limit c"
  "stats (Ns_CacheUnsetValue a c) = stats c"
  "ent_value (ents (Ns_CacheUnsetValue a c) a) = None"
  "b \<noteq> a \<Longrightarrow> ents (Ns_CacheUnsetValue a c) b = ents c b"
  by (simp_all add: Ns_CacheUnsetValue_def Let_def split: option.split)

lemma sum_sizes_remove1:
  "a \<in> set xs \<Longrightarrow> sum_list (map f xs) = f a + sum_list (map f (remove1 a xs))" for f :: "'a \<Rightarrow> nat"
  by (rule sum_list_map_remove1)

lemma sum_sizes_upd:
  "distinct xs \<Longrightarrow> a \<in> set xs \<Longrightarrow> (\<And>b. b \<noteq> a \<Longrightarrow> g b = f b) \<Longrightarrow>
     sum_list (map g xs) + f a = sum_list (map f xs) + (g a :: nat)"
proof -
  assume d: "distinct xs" and a: "a \<in> set xs" and eq: "\<And>b. b \<noteq> a \<Longrightarrow> g b = f b"
  have "map g (remove1 a xs) = map f (remove1 a xs)" using d eq by auto
  then have "sum_list (map g (remove1 a xs)) = sum_list (map f (remove1 a xs))" by (rule arg_cong)
  then show ?thesis using sum_sizes_remove1 [OF a, of f] sum_sizes_remove1 [OF a, of g] by linarith
qed

lemma inv_Unset:
  assumes "cache_inv c xs" "a \<in> set xs"
  shows "cache_inv (Ns_CacheUnsetValue a c) xs" "ent_size (ents (Ns_CacheUnsetValue a c) a) = 0"
    "currentSize (Ns_CacheUnsetValue a c) + ent_size (ents c a) = currentSize c"
proof -
  have d: "distinct xs" using assms by (simp add: cache_inv_def linked_def)
  have z: "ent_size (ents (Ns_CacheUnsetValue a c) a) = 0"
    using assms by (auto simp: Ns_CacheUnsetValue_def Let_def cache_inv_def split: option.split)
  have "currentSize (Ns_CacheUnsetValue a c) = currentSize c - ent_size (ents c a)"
    using assms by (auto simp: Ns_CacheUnsetValue_def Let_def cache_inv_def split: option.split)
  moreover have s: "sum_list (map (\<lambda>b. ent_size (ents (Ns_CacheUnsetValue a c) b)) xs) + ent_size (ents c a) =
      sum_list (map (\<lambda>b. ent_size (ents c b)) xs)"
    using sum_sizes_upd [OF d assms(2), of "\<lambda>b. ent_size (ents (Ns_CacheUnsetValue a c) b)" "\<lambda>b. ent_size (ents c b)"] z
    by simp
  ultimately show "currentSize (Ns_CacheUnsetValue a c) + ent_size (ents c a) = currentSize c"
    and "cache_inv (Ns_CacheUnsetValue a c) xs" "ent_size (ents (Ns_CacheUnsetValue a c) a) = 0"
  proof -
    have "expires (ents (Ns_CacheUnsetValue a c) a) = Ns_Time 0 0"
      using assms by (auto simp: Ns_CacheUnsetValue_def Let_def cache_inv_def split: option.split)
    then have "ent_value (ents (Ns_CacheUnsetValue a c) b) = None \<longrightarrow>
        ent_size (ents (Ns_CacheUnsetValue a c) b) = 0 \<and> expires (ents (Ns_CacheUnsetValue a c) b) = Ns_Time 0 0"
      if "b \<in> set xs" for b
      using z assms(1) that by (cases "b = a") (auto simp: cache_inv_def)
    moreover have "linked (Ns_CacheUnsetValue a c) xs"
      by (rule linked_cong [of _ c]) (use assms in \<open>auto simp: cache_inv_def\<close>)
    ultimately show "cache_inv (Ns_CacheUnsetValue a c) xs"
      using s assms(1) \<open>currentSize (Ns_CacheUnsetValue a c) = currentSize c - ent_size (ents c a)\<close>
      by (auto simp: cache_inv_def)
  qed (use z s assms(1) in \<open>auto simp: cache_inv_def\<close>)
qed

lemma inv_list_op:
  assumes "cache_inv c xs" "linked d ys" "set ys = set xs"
    and "\<And>b. ent_key (ents d b) = ent_key (ents c b) \<and> ent_size (ents d b) = ent_size (ents c b) \<and>
      ent_value (ents d b) = ent_value (ents c b) \<and> expires (ents d b) = expires (ents c b)"
    and "entriesTable d = entriesTable c" "currentSize d = currentSize c"
  shows "cache_inv d ys"
proof -
  have "distinct xs" "distinct ys" using assms(1,2) by (auto simp: cache_inv_def linked_def)
  then have "mset ys = mset xs" using assms(3) by (metis set_eq_iff_mset_eq_distinct)
  then have "sum_list (map (\<lambda>a. ent_size (ents c a)) ys) = sum_list (map (\<lambda>a. ent_size (ents c a)) xs)"
    by (metis mset_map sum_mset_sum_list)
  with assms show ?thesis by (simp add: cache_inv_def)
qed

lemma inv_in_table: "cache_inv c xs \<Longrightarrow> entriesTable c k = Some a \<longleftrightarrow> a \<in> set xs \<and> ent_key (ents c a) = k"
  by (simp add: cache_inv_def)

lemma inv_touch:
  assumes "cache_inv c xs" "a \<in> set xs"
  shows "cache_inv (Push a (Delink a c)) (a # remove1 a xs)"
proof -
  have l: "linked c xs" and d: "distinct xs" using assms(1) by (auto simp: cache_inv_def linked_def)
  show ?thesis
    by (rule inv_list_op [OF assms(1) lru.touch [OF l assms(2)]]) (use d assms(2) in auto)
qed

lemma inv_stats [simp]: "cache_inv (c\<lparr>stats := t\<rparr>) xs = cache_inv c xs"
  by (simp add: cache_inv_def linked_def)

lemma inv_count: "cache_inv c xs \<Longrightarrow> cache_inv (upd_ent a (\<lambda>x. x\<lparr>ent_count := n\<rparr>) c) xs"
  by (rule inv_list_op [of c xs]) (auto simp: cache_inv_def intro: linked_cong [of _ c])

lemma inv_Delete:
  assumes "cache_inv c xs" "a \<in> set xs"
  shows "cache_inv (Ns_CacheDeleteEntry a c) (remove1 a xs)"
    "currentSize (Ns_CacheDeleteEntry a c) + ent_size (ents c a) = currentSize c"
proof -
  let ?u = "Ns_CacheUnsetValue a c"
  note u = inv_Unset [OF assms]
  have d: "distinct xs" and l: "linked ?u xs" using u(1) by (auto simp: cache_inv_def linked_def)
  have sz: "currentSize (Ns_CacheDeleteEntry a c) = currentSize ?u" by (simp add: Ns_CacheDeleteEntry_def Let_def)
  with u(3) show "currentSize (Ns_CacheDeleteEntry a c) + ent_size (ents c a) = currentSize c" by simp
  have dat: "ents (Ns_CacheDeleteEntry a c) = ents (Delink a ?u)" by (simp add: Ns_CacheDeleteEntry_def Let_def)
  have "linked (Ns_CacheDeleteEntry a c) (remove1 a xs)"
    by (rule linked_cong [OF _ _ _ lru.delink_remove1 [OF l assms(2)]]) (simp_all add: Ns_CacheDeleteEntry_def Let_def)
  moreover have "entriesTable (Ns_CacheDeleteEntry a c) k = Some b \<longleftrightarrow> b \<in> set (remove1 a xs) \<and> ent_key (ents c b) = k" for k b
  proof -
    have "entriesTable c (ent_key (ents c a)) = Some a" using inv_in_table [OF assms(1)] assms(2) by simp
    then have "ent_key (ents c b) = ent_key (ents c a) \<Longrightarrow> b \<in> set xs \<Longrightarrow> b = a"
      using inv_in_table [OF assms(1), of "ent_key (ents c a)" b] by simp
    then show ?thesis using inv_in_table [OF assms(1), of k b] d by (auto simp: Ns_CacheDeleteEntry_def Let_def)
  qed
  moreover have "currentSize ?u = sum_list (map (\<lambda>b. ent_size (ents ?u b)) (remove1 a xs))"
    using sum_sizes_remove1 [OF assms(2), of "\<lambda>b. ent_size (ents ?u b)"] u(1,2) by (simp add: cache_inv_def)
  moreover have "\<forall>b \<in> set (remove1 a xs). ent_value (ents ?u b) = None \<longrightarrow>
      ent_size (ents ?u b) = 0 \<and> expires (ents ?u b) = Ns_Time 0 0"
    using u(1) d by (auto simp: cache_inv_def)
  ultimately show "cache_inv (Ns_CacheDeleteEntry a c) (remove1 a xs)"
    by (simp add: cache_inv_def dat sz)
qed

lemma Delete_data:
  "b \<noteq> a \<Longrightarrow> ent_key (ents (Ns_CacheDeleteEntry a c) b) = ent_key (ents c b) \<and>
     ent_size (ents (Ns_CacheDeleteEntry a c) b) = ent_size (ents c b) \<and>
     ent_value (ents (Ns_CacheDeleteEntry a c) b) = ent_value (ents c b) \<and>
     expires (ents (Ns_CacheDeleteEntry a c) b) = expires (ents c b)"
  "limit (Ns_CacheDeleteEntry a c) = limit c" "stats (Ns_CacheDeleteEntry a c) = stats c"
  by (simp_all add: Ns_CacheDeleteEntry_def Let_def)

lemma inv_Create:
  assumes "cache_inv c xs" "new \<notin> set xs" "entriesTable c key = None"
  shows "cache_inv (Push new (upd_stats f (c\<lparr>ents := (ents c)(new := entry_calloc key),
     entriesTable := (entriesTable c)(key \<mapsto> new)\<rparr>))) (new # xs)"
proof -
  let ?c = "upd_stats f (c\<lparr>ents := (ents c)(new := entry_calloc key), entriesTable := (entriesTable c)(key \<mapsto> new)\<rparr>)"
  have "linked ?c xs" by (rule linked_cong [of _ c]) (use assms in \<open>auto simp: cache_inv_def\<close>)
  from lru.repr_push [OF this assms(2)] have l: "linked (Push new ?c) (new # xs)" .
  have "sum_list (map (\<lambda>a. ent_size (ents ?c a)) xs) = sum_list (map (\<lambda>a. ent_size (ents c a)) xs)"
    using assms(2) by (intro arg_cong [of _ _ sum_list] map_cong) auto
  then have s: "sum_list (map (\<lambda>a. ent_size (ents ?c a)) (new # xs)) = currentSize c"
    using assms(1) by (simp add: cache_inv_def entry_calloc_def)
  have "entriesTable ?c k = Some b \<longleftrightarrow> b \<in> set (new # xs) \<and> ent_key (ents ?c b) = k" for k b
    using inv_in_table [OF assms(1), of k b] inv_in_table [OF assms(1), of key b] assms(2,3) by (auto simp: entry_calloc_def)
  with l s assms(1,2) show ?thesis by (auto simp: cache_inv_def entry_calloc_def)
qed

text \<open>The pruning loop ends and removes a suffix of the list.\<close>

lemma prune_suffix:
  assumes "cache_inv c xs" "a \<in> set xs"
  shows "\<exists>d ys zs. prune a c = Some d \<and> xs = ys @ zs \<and> cache_inv d ys \<and> a \<in> set ys \<and>
     (\<forall>b \<in> set zs. ent_value (ents c b) \<noteq> None) \<and> npruned (stats d) = npruned (stats c) + length zs \<and>
     limit d = limit c \<and> (\<forall>b \<in> set ys. ent_value (ents d b) = ent_value (ents c b) \<and> expires (ents d b) = expires (ents c b) \<and>
       ent_key (ents d b) = ent_key (ents c b) \<and> ent_size (ents d b) = ent_size (ents c b)) \<and>
     (currentSize d \<le> limit c \<or> last ys = a \<or> ent_value (ents c (last ys)) = None) \<and>
     (zs \<noteq> [] \<longrightarrow> limit c < currentSize d + ent_size (ents c (hd zs)))"
  using assms
proof (induction xs arbitrary: c rule: rev_induct)
  case (snoc l us)
  let ?c = "c" and ?d = "Ns_CacheDeleteEntry l c"
  have last: "lastEntryPtr c = Some l" using snoc.prems(1) lru.drop_oldest [of c us l] by (simp add: cache_inv_def)
  have dist: "distinct (us @ [l])" using snoc.prems(1) by (simp add: cache_inv_def linked_def)
  show ?case
  proof (cases "currentSize c > limit c \<and> l \<noteq> a \<and> ent_value (ents c l) \<noteq> None")
    case True
    let ?e = "upd_stats (\<lambda>t. t\<lparr>npruned := npruned t + 1\<rparr>) ?d"
    have del: "cache_inv ?e us" "currentSize ?d + ent_size (ents c l) = currentSize c"
      using inv_Delete [OF snoc.prems(1), of l] dist by (simp_all add: remove1_append)
    have "a \<in> set us" using snoc.prems(2) True by auto
    from snoc.IH [OF del(1) this] obtain d ys zs where IH: "prune a ?e = Some d" "us = ys @ zs" "cache_inv d ys" "a \<in> set ys"
      "\<forall>b \<in> set zs. ent_value (ents ?d b) \<noteq> None" "npruned (stats d) = npruned (stats c) + 1 + length zs"
      "limit d = limit c" "\<forall>b \<in> set ys. ent_value (ents d b) = ent_value (ents ?d b) \<and> expires (ents d b) = expires (ents ?d b) \<and>
         ent_key (ents d b) = ent_key (ents ?d b) \<and> ent_size (ents d b) = ent_size (ents ?d b)"
      "currentSize d \<le> limit c \<or> last ys = a \<or> ent_value (ents ?d (last ys)) = None"
      "zs \<noteq> [] \<longrightarrow> limit c < currentSize d + ent_size (ents ?d (hd zs))"
      by (auto simp: Delete_data)
    have dat: "ent_value (ents ?d b) = ent_value (ents c b)" "ent_size (ents ?d b) = ent_size (ents c b)"
      "expires (ents ?d b) = expires (ents c b)" "ent_key (ents ?d b) = ent_key (ents c b)" if "b \<in> set us" for b
      using that dist Delete_data(1) [of b l c] by auto
    have ends: "last ys \<in> set us" "zs \<noteq> [] \<Longrightarrow> hd zs \<in> set us" using IH(2,4) by (auto intro: last_in_set)
    have "currentSize d = currentSize ?d" if "zs = []"
    proof -
      have "map (\<lambda>a. ent_size (ents d a)) ys = map (\<lambda>a. ent_size (ents ?d a)) us" using that IH(2,8) by auto
      then show ?thesis using IH(3) del(1) by (simp add: cache_inv_def)
    qed
    then have tight: "limit c < currentSize d + ent_size (ents c (hd (zs @ [l])))"
      using IH(10) ends(2) dat(2) True del(2) by (cases zs) auto
    have "prune a c = Some d" using True last IH(1) by (subst prune.simps) simp
    moreover have "\<forall>b \<in> set (zs @ [l]). ent_value (ents c b) \<noteq> None" using IH(2,5) dat(1) True by auto
    moreover have "\<forall>b \<in> set ys. ent_value (ents d b) = ent_value (ents c b) \<and> expires (ents d b) = expires (ents c b) \<and>
         ent_key (ents d b) = ent_key (ents c b) \<and> ent_size (ents d b) = ent_size (ents c b)"
      using IH(2,8) dat by auto
    moreover have "currentSize d \<le> limit c \<or> last ys = a \<or> ent_value (ents c (last ys)) = None"
      using IH(9) ends(1) dat(1) by auto
    ultimately show ?thesis using IH(2,3,4,6,7) tight
      by (intro exI [of _ d] exI [of _ ys] exI [of _ "zs @ [l]"]) simp
  next
    case False
    have "prune a c = Some c" using False last by (subst prune.simps) auto
    moreover have "currentSize c \<le> limit c \<or> last (us @ [l]) = a \<or> ent_value (ents c (last (us @ [l]))) = None"
      using False by auto
    ultimately show ?thesis using snoc.prems by (intro exI [of _ c] exI [of _ "us @ [l]"] exI [of _ "[]"]) simp
  qed
qed simp

lemma inv_store:
  fixes v sz co ex
  assumes "cache_inv c xs" "a \<in> set xs" "ent_size (ents c a) = 0"
  defines "d \<equiv> upd_ent a (\<lambda>x. x\<lparr>ent_value := Some v, ent_size := sz, ent_cost := co, ent_count := 1, expires := ex\<rparr>) c"
  shows "cache_inv (d\<lparr>currentSize := currentSize d + sz\<rparr>) xs"
proof -
  have dist: "distinct xs" using assms(1) by (simp add: cache_inv_def linked_def)
  have "linked (d\<lparr>currentSize := currentSize d + sz\<rparr>) xs"
    by (rule linked_cong [of _ c]) (use assms in \<open>auto simp: cache_inv_def d_def\<close>)
  moreover have "sum_list (map (\<lambda>b. ent_size (ents d b)) xs) = sum_list (map (\<lambda>b. ent_size (ents c b)) xs) + sz"
    using sum_sizes_upd [OF dist assms(2), of "\<lambda>b. ent_size (ents d b)" "\<lambda>b. ent_size (ents c b)"] assms(3)
    by (simp add: d_def)
  ultimately show ?thesis using assms(1) by (auto simp: cache_inv_def d_def)
qed

lemma SetValue_correct:
  assumes "cache_inv c xs" "a \<in> set xs"
  shows "\<exists>d ys zs. Ns_CacheSetValueExpires a v sz timeout co c = Some d \<and> xs = ys @ zs \<and> cache_inv d ys \<and> a \<in> set ys \<and>
     (\<forall>b \<in> set zs. ent_value (ents c b) \<noteq> None) \<and> npruned (stats d) = npruned (stats c) + length zs \<and>
     ent_value (ents d a) = Some v \<and> ent_key (ents d a) = ent_key (ents c a) \<and>
     expires (ents d a) = (case timeout of None \<Rightarrow> Ns_Time 0 0 | Some t \<Rightarrow> t) \<and>
     (limit c = 0 \<longrightarrow> zs = []) \<and>
     (limit c > 0 \<longrightarrow> currentSize d \<le> limit c \<or> last ys = a \<or> ent_value (ents c (last ys)) = None) \<and>
     (zs \<noteq> [] \<longrightarrow> limit c < currentSize d + ent_size (ents c (hd zs)))"
proof -
  let ?u = "Ns_CacheUnsetValue a c"
  note u = inv_Unset [OF assms]
  have ex: "expires (ents ?u a) = Ns_Time 0 0" using u(1) assms(2) by (auto simp: cache_inv_def)
  let ?t = "case timeout of None \<Rightarrow> Ns_Time 0 0 | Some t \<Rightarrow> t"
  define e where "e = upd_ent a (\<lambda>x. x\<lparr>ent_value := Some v, ent_size := sz, ent_cost := co, ent_count := 1,
    expires := (case timeout of None \<Rightarrow> expires (ents ?u a) | Some t \<Rightarrow> t)\<rparr>) ?u"
  define f where "f = e\<lparr>currentSize := currentSize e + sz\<rparr>"
  have inv: "cache_inv f xs" unfolding f_def e_def by (rule inv_store [OF u(1) assms(2) u(2)])
  have set: "Ns_CacheSetValueExpires a v sz timeout co c = (if limit f > 0 then prune a f else Some f)"
    by (simp add: Ns_CacheSetValueExpires_def f_def e_def Let_def)
  have f: "limit f = limit c" "stats f = stats c" "ent_value (ents f a) = Some v" "ent_key (ents f a) = ent_key (ents c a)"
    "expires (ents f a) = ?t" "\<And>b. b \<noteq> a \<Longrightarrow> ents f b = ents c b"
    by (simp_all add: f_def e_def ex split: option.split)
  show ?thesis
  proof (cases "limit c = 0")
    case True
    then show ?thesis using set f inv assms(2) by (intro exI [of _ f] exI [of _ xs] exI [of _ "[]"]) simp
  next
    case False
    from prune_suffix [OF inv assms(2)] obtain d ys zs where p: "prune a f = Some d" "xs = ys @ zs" "cache_inv d ys" "a \<in> set ys"
      "\<forall>b \<in> set zs. ent_value (ents f b) \<noteq> None" "npruned (stats d) = npruned (stats f) + length zs"
      "\<forall>b \<in> set ys. ent_value (ents d b) = ent_value (ents f b) \<and> expires (ents d b) = expires (ents f b) \<and>
       ent_key (ents d b) = ent_key (ents f b) \<and> ent_size (ents d b) = ent_size (ents f b)"
      "currentSize d \<le> limit f \<or> last ys = a \<or> ent_value (ents f (last ys)) = None"
      "zs \<noteq> [] \<longrightarrow> limit f < currentSize d + ent_size (ents f (hd zs))" by blast
    have dist: "distinct (ys @ zs)" using assms(1) p(2) by (simp add: cache_inv_def linked_def)
    have za: "ents f b = ents c b" if "b \<in> set zs" for b using that dist p(4) f(6) [of b] by (cases "b = a") auto
    have "\<forall>b \<in> set zs. ent_value (ents c b) \<noteq> None" using p(5) za by auto
    moreover have "currentSize d \<le> limit c \<or> last ys = a \<or> ent_value (ents c (last ys)) = None"
      using p(8) f(1,6) by (cases "last ys = a") auto
    moreover have "zs \<noteq> [] \<longrightarrow> limit c < currentSize d + ent_size (ents c (hd zs))" using p(9) za f(1) by simp
    ultimately show ?thesis using p f set False by (intro exI [of _ d] exI [of _ ys] exI [of _ zs]) simp
  qed
qed

lemma Create_correct:
  fixes now key
  assumes "cache_inv c xs" "new \<notin> set xs"
  defines "r \<equiv> Ns_CacheCreateEntry now new key c"
  shows "\<exists>ys. cache_inv (snd r) ys \<and> fst (fst r) \<in> set ys \<and> ent_key (ents (snd r) (fst (fst r))) = key \<and>
    (snd (fst r) \<longrightarrow> ent_value (ents (snd r) (fst (fst r))) = None) \<and> ys = fst (fst r) # remove1 (fst (fst r)) xs"
proof (cases "entriesTable c key")
  case None
  then show ?thesis using inv_Create [OF assms(1,2) None, of "\<lambda>t. t\<lparr>nmiss := nmiss t + 1\<rparr>"] assms(2)
    by (auto simp: r_def Ns_CacheCreateEntry_def entry_calloc_def remove1_idem)
next
  case (Some a)
  with assms(1) have a: "a \<in> set xs" "ent_key (ents c a) = key" by (auto simp: inv_in_table)
  show ?thesis
  proof (cases "Expired now (ents c a)")
    case True
    have "cache_inv (upd_stats f c) xs" for f using assms(1) by simp
    from inv_touch [OF inv_Unset(1) [OF this a(1)] a(1)] show ?thesis
      using Some True a by (auto simp: r_def Ns_CacheCreateEntry_def)
  next
    case False
    let ?c = "upd_stats (\<lambda>t. t\<lparr>nhit := nhit t + 1\<rparr>) (upd_ent a (\<lambda>x. x\<lparr>ent_count := ent_count x + 1\<rparr>) c)"
    have "cache_inv ?c xs" using inv_count [OF assms(1)] by simp
    from inv_touch [OF this a(1)] show ?thesis
      using Some False a by (auto simp: r_def Ns_CacheCreateEntry_def)
  qed
qed

lemma not_expired:
  assumes "normal now" "\<And>t. timeout = Some t \<Longrightarrow> normal t \<and> now \<le> t"
    and "expires e = (case timeout of None \<Rightarrow> Ns_Time 0 0 | Some t \<Rightarrow> t)"
  shows "\<not> Expired now e"
proof (cases timeout)
  case (Some t)
  with assms DiffTime_normal [of t now] have "fst (Ns_DiffTime t now) = (if t < now then -1 else if t = now then 0 else 1)"
    by (metis fst_conv)
  with Some assms show ?thesis by (auto simp: Expired_def)
qed (use assms in \<open>simp add: Expired_def\<close>)

lemma Find_hit:
  assumes "cache_inv c xs" "a \<in> set xs" "ent_key (ents c a) = key" "ent_value (ents c a) \<noteq> None" "\<not> Expired now (ents c a)"
  shows "\<exists>d. Ns_CacheFindEntry now key c = (Some a, d) \<and> cache_inv d (a # remove1 a xs) \<and>
    (\<forall>b. ent_value (ents d b) = ent_value (ents c b))"
proof -
  let ?c = "Delink a (upd_stats (\<lambda>t. t\<lparr>nhit := nhit t + 1\<rparr>) c)"
  have s: "cache_inv (upd_stats f c) xs" for f using assms(1) by simp
  have l: "linked (upd_stats (\<lambda>t. t\<lparr>nhit := nhit t + 1\<rparr>) c) xs" using s by (simp add: cache_inv_def)
  have d: "distinct xs" using assms(1) by (simp add: cache_inv_def linked_def)
  have "linked (upd_ent a (\<lambda>x. x\<lparr>ent_count := ent_count x + 1\<rparr>) ?c) (remove1 a xs)"
    by (rule linked_cong [OF _ _ _ lru.delink_remove1 [OF l assms(2)]]) simp_all
  from lru.repr_push [OF this, of a] have
    "linked (Push a (upd_ent a (\<lambda>x. x\<lparr>ent_count := ent_count x + 1\<rparr>) ?c)) (a # remove1 a xs)" using d by simp
  then have "cache_inv (Push a (upd_ent a (\<lambda>x. x\<lparr>ent_count := ent_count x + 1\<rparr>) ?c)) (a # remove1 a xs)"
    by (rule inv_list_op [OF assms(1)]) (use d assms(2) in auto)
  moreover have "entriesTable c key = Some a" using assms by (simp add: inv_in_table)
  ultimately show ?thesis using assms(4,5) by (simp add: Ns_CacheFindEntry_def)
qed

lemma flush_loop_Nil: "cache_flush_loop now n [] c = (n, c)"
  by (subst cache_flush_loop.simps) simp

lemma flush_loop_Cons:
  "cache_flush_loop now n (k # ks) c =
     (case entriesTable c k of
        None \<Rightarrow> cache_flush_loop now n ks c
      | Some a \<Rightarrow>
          if ent_value (ents c a) = None then cache_flush_loop now n ks c
          else if \<not> Expired now (ents c a) then cache_flush_loop now (n + 1) ks (Ns_CacheDeleteEntry a c)
          else cache_flush_loop now n ks
                 (Ns_CacheDeleteEntry a (upd_stats (\<lambda>t. t\<lparr>nexpired := nexpired t + 1\<rparr>) c)))"
  by (subst cache_flush_loop.simps)
    (auto simp: cache_flush_loop.simps [of now n ks] split: option.split)

text \<open>One key of the enumeration: its entry, if it has a value, leaves the list.\<close>

lemma filter_purge:
  assumes inv: "cache_inv c xs" and T: "entriesTable c k = Some a" and v: "ent_value (ents c a) \<noteq> None"
    and d: "\<And>b. b \<noteq> a \<Longrightarrow> ent_key (ents d b) = ent_key (ents c b) \<and> ent_value (ents d b) = ent_value (ents c b) \<and>
      expires (ents d b) = expires (ents c b)"
  shows "filter (\<lambda>b. \<not> (ent_key (ents d b) \<in> set ks \<and> ent_value (ents d b) \<noteq> None)) (remove1 a xs) =
      filter (\<lambda>b. \<not> (ent_key (ents c b) \<in> set (k # ks) \<and> ent_value (ents c b) \<noteq> None)) xs" (is ?keep)
    and "length (filter (\<lambda>b. ent_key (ents d b) \<in> set ks \<and> ent_value (ents d b) \<noteq> None \<and> \<not> Expired now (ents d b)) (remove1 a xs)) +
      (if Expired now (ents c a) then 0 else 1) =
      length (filter (\<lambda>b. ent_key (ents c b) \<in> set (k # ks) \<and> ent_value (ents c b) \<noteq> None \<and> \<not> Expired now (ents c b)) xs)" (is ?count)
proof -
  have a: "a \<in> set xs" "ent_key (ents c a) = k" and dist: "distinct xs"
    using inv T inv_in_table [OF inv, of k a] by (auto simp: cache_inv_def linked_def)
  have only: "ent_key (ents c b) = k \<longleftrightarrow> b = a" if "b \<in> set xs" for b
    using inv_in_table [OF inv, of k b] T that a by auto
  obtain ys zs where xs: "xs = ys @ a # zs" using a(1) split_list by metis
  have rm: "remove1 a (ys @ a # zs) = ys @ zs" using dist xs by (simp add: remove1_append)
  have ne: "b \<noteq> a \<and> ent_key (ents c b) \<noteq> k" if "b \<in> set ys \<union> set zs" for b
    using that dist xs only [of b] by auto
  have ex: "Expired now (ents d b) = Expired now (ents c b)" if "b \<noteq> a" for b
    using d [OF that] by (simp add: Expired_def)
  have 1: "filter (\<lambda>b. \<not> (ent_key (ents d b) \<in> set ks \<and> ent_value (ents d b) \<noteq> None)) us =
      filter (\<lambda>b. \<not> (ent_key (ents c b) \<in> set (k # ks) \<and> ent_value (ents c b) \<noteq> None)) us" if "set us \<subseteq> set ys \<union> set zs" for us
    using that ne d by (intro filter_cong) auto
  have 2: "filter (\<lambda>b. ent_key (ents d b) \<in> set ks \<and> ent_value (ents d b) \<noteq> None \<and> \<not> Expired now (ents d b)) us =
      filter (\<lambda>b. ent_key (ents c b) \<in> set (k # ks) \<and> ent_value (ents c b) \<noteq> None \<and> \<not> Expired now (ents c b)) us"
    if "set us \<subseteq> set ys \<union> set zs" for us
    using that ne d ex by (intro filter_cong) auto
  show ?keep unfolding xs rm using 1 [of ys] 1 [of zs] a v by simp
  show ?count unfolding xs rm using 2 [of ys] 2 [of zs] a v by simp
qed

lemma flush_loop_spec:
  assumes "cache_inv c xs"
  shows "cache_inv (snd (cache_flush_loop now n ks c))
      (filter (\<lambda>a. \<not> (ent_key (ents c a) \<in> set ks \<and> ent_value (ents c a) \<noteq> None)) xs) \<and>
    fst (cache_flush_loop now n ks c) =
      n + length (filter (\<lambda>a. ent_key (ents c a) \<in> set ks \<and> ent_value (ents c a) \<noteq> None \<and> \<not> Expired now (ents c a)) xs)"
  using assms
proof (induction ks arbitrary: n c xs)
  case Nil
  then show ?case by (simp add: flush_loop_Nil)
next
  case (Cons k ks)
  consider (skip) "entriesTable c k = None \<or> (\<exists>a. entriesTable c k = Some a \<and> ent_value (ents c a) = None)"
    | (purge) a where "entriesTable c k = Some a" "ent_value (ents c a) \<noteq> None" by (cases "entriesTable c k") auto
  then show ?case
  proof cases
    case skip
    then have "cache_flush_loop now n (k # ks) c = cache_flush_loop now n ks c" by (auto simp: flush_loop_Cons)
    moreover have "\<forall>a \<in> set xs. ent_key (ents c a) = k \<longrightarrow> ent_value (ents c a) = None"
      using skip inv_in_table [OF Cons.prems, of k] by (metis option.distinct(1) option.inject)
    then have
      "filter (\<lambda>a. \<not> (ent_key (ents c a) \<in> set (k # ks) \<and> ent_value (ents c a) \<noteq> None)) xs =
       filter (\<lambda>a. \<not> (ent_key (ents c a) \<in> set ks \<and> ent_value (ents c a) \<noteq> None)) xs"
      "filter (\<lambda>a. ent_key (ents c a) \<in> set (k # ks) \<and> ent_value (ents c a) \<noteq> None \<and> \<not> Expired now (ents c a)) xs =
       filter (\<lambda>a. ent_key (ents c a) \<in> set ks \<and> ent_value (ents c a) \<noteq> None \<and> \<not> Expired now (ents c a)) xs"
      by (auto intro: filter_cong)
    ultimately show ?thesis using Cons.IH [OF Cons.prems] by simp
  next
    case purge
    let ?c = "if Expired now (ents c a) then upd_stats (\<lambda>t. t\<lparr>nexpired := nexpired t + 1\<rparr>) c else c"
    define d where "d = Ns_CacheDeleteEntry a ?c"
    define m where "m = n + (if Expired now (ents c a) then 0 else 1)"
    have step: "cache_flush_loop now n (k # ks) c = cache_flush_loop now m ks d"
      using purge by (auto simp: flush_loop_Cons d_def m_def)
    have a: "a \<in> set xs" using inv_in_table [OF Cons.prems] purge(1) by auto
    have inv: "cache_inv ?c xs" using Cons.prems by simp
    have "ents ?c = ents c" by simp
    then have dat: "ent_key (ents d b) = ent_key (ents c b) \<and> ent_value (ents d b) = ent_value (ents c b) \<and>
      expires (ents d b) = expires (ents c b)" if "b \<noteq> a" for b
      using Delete_data(1) [OF that, of ?c] by (simp add: d_def)
    note f = filter_purge [OF Cons.prems purge dat]
    note IH = Cons.IH [OF inv_Delete(1) [OF inv a, folded d_def], of m]
    have "fst (cache_flush_loop now m ks d) = n + length (filter (\<lambda>b. ent_key (ents c b) \<in> set (k # ks) \<and>
        ent_value (ents c b) \<noteq> None \<and> \<not> Expired now (ents c b)) xs)"
      using conjunct2 [OF IH] f(2) [of ks now] unfolding m_def by linarith
    moreover have "cache_inv (snd (cache_flush_loop now m ks d)) (filter (\<lambda>a. \<not> (ent_key (ents c a) \<in> set (k # ks) \<and>
        ent_value (ents c a) \<noteq> None)) xs)"
      using conjunct1 [OF IH] by (subst f(1) [of ks, symmetric])
    ultimately show ?thesis unfolding step by blast
  qed
qed

text \<open>Caches without and with one entry, for concrete runs; the store starts with blank entries.\<close>

definition mem0 :: "nat \<Rightarrow> bool Entry" where
  "mem0 = (\<lambda>_. entry_calloc [])"

lemma inv_empty: "cache_inv (Ns_CacheCreateSz m mem) []"
  by (simp add: cache_inv_def linked_def Ns_CacheCreateSz_def)

lemma inv_one: "cache_inv (snd (Ns_CacheCreateEntry now a key (Ns_CacheCreateSz m mem))) [a]"
  using Create_correct [OF inv_empty, of a now key m mem]
  by (auto simp: Ns_CacheCreateEntry_def Ns_CacheCreateSz_def)


section \<open>Properties\<close>

text \<open>
  \<open>Ns_CacheFindEntry\<close> returns the entry of the key exactly if it has a value and has not expired,
  and makes it the most recently used one; an expired entry is removed; nothing else changes.
\<close>

theorem cache_find_entry:
  assumes "cache_inv c xs"
  shows "case Ns_CacheFindEntry now key c of
      (Some a, d) \<Rightarrow> a \<in> set xs \<and> ent_key (ents c a) = key \<and> ent_value (ents c a) \<noteq> None \<and>
        \<not> Expired now (ents c a) \<and> cache_inv d (a # remove1 a xs) \<and> (\<forall>b. ent_value (ents d b) = ent_value (ents c b))
    | (None, d) \<Rightarrow>
        (\<forall>a \<in> set xs. ent_key (ents c a) = key \<longrightarrow> ent_value (ents c a) = None \<or> Expired now (ents c a)) \<and>
        cache_inv d (filter (\<lambda>a. \<not> (ent_key (ents c a) = key \<and> ent_value (ents c a) \<noteq> None)) xs)"
proof -
  have d: "distinct xs" using assms by (simp add: cache_inv_def linked_def)
  show ?thesis
  proof (cases "entriesTable c key")
    case None
    then have "\<forall>a \<in> set xs. ent_key (ents c a) \<noteq> key" using inv_in_table [OF assms, of key] by auto
    then have "filter (\<lambda>a. \<not> (ent_key (ents c a) = key \<and> ent_value (ents c a) \<noteq> None)) xs = xs"
      "\<forall>a \<in> set xs. ent_key (ents c a) \<noteq> key" by (auto intro: filter_True)
    with None assms show ?thesis by (simp add: Ns_CacheFindEntry_def)
  next
    case (Some a)
    then have a: "a \<in> set xs" "ent_key (ents c a) = key" and only: "\<forall>b \<in> set xs. ent_key (ents c b) = key \<longleftrightarrow> b = a"
      using inv_in_table [OF assms, of key] by (simp_all, metis option.inject)
    have rm: "filter (\<lambda>b. \<not> (ent_key (ents c b) = key \<and> ent_value (ents c b) \<noteq> None)) xs = remove1 a xs"
      if "ent_value (ents c a) \<noteq> None"
      using only that d by (auto simp: distinct_remove1_removeAll removeAll_filter_not_eq intro: filter_cong)
    have keep: "filter (\<lambda>b. \<not> (ent_key (ents c b) = key \<and> ent_value (ents c b) \<noteq> None)) xs = xs"
      if "ent_value (ents c a) = None" using only that by (intro filter_True) auto
    consider (hit) "ent_value (ents c a) \<noteq> None" "\<not> Expired now (ents c a)" | (nov) "ent_value (ents c a) = None"
      | (exp) "ent_value (ents c a) \<noteq> None" "Expired now (ents c a)" by blast
    then show ?thesis
    proof cases
      case hit
      with Find_hit [OF assms a hit] a show ?thesis by auto
    next
      case nov
      with Some assms only keep show ?thesis by (auto simp: Ns_CacheFindEntry_def)
    next
      case exp
      with Some only rm inv_Delete(1) [OF assms a(1)] show ?thesis by (auto simp: Ns_CacheFindEntry_def)
    qed
  qed
qed

lemma cache_find_entry_witness:
  "case Ns_CacheFindEntry (Ns_Time 9 0) ''k'' (snd (Ns_CacheCreateEntry (Ns_Time 5 0) 7 ''k'' (Ns_CacheCreateSz 100 mem0))) of
     (Some a, d) \<Rightarrow> a = 7 | (None, d) \<Rightarrow> cache_inv d [7]"
proof -
  have inv: "cache_inv (snd (Ns_CacheCreateEntry (Ns_Time 5 0) 7 ''k'' (Ns_CacheCreateSz 100 mem0))) [7]"
    by (rule inv_one)
  show ?thesis using cache_find_entry [OF inv, where now = "Ns_Time 9 0" and key = "''k''"]
    by (auto simp: Ns_CacheCreateEntry_def Ns_CacheCreateSz_def entry_calloc_def split: prod.splits option.splits)
qed

text \<open>
  C32: storing a value ends, keeps the invariant and evicts a suffix of the least recently used
  entries: no entry being computed, not the stored one, and none once the cache fits; if it
  still does not fit, the next victim would be the stored entry or one being computed.
\<close>

theorem cache_set_evicts_lru:
  assumes "cache_inv c xs" "a \<in> set xs"
  shows "\<exists>d ys zs. Ns_CacheSetValueExpires a v sz timeout co c = Some d \<and> xs = ys @ zs \<and> cache_inv d ys \<and> a \<in> set ys \<and>
     (\<forall>b \<in> set zs. ent_value (ents c b) \<noteq> None) \<and> npruned (stats d) = npruned (stats c) + length zs \<and>
     (limit c = 0 \<longrightarrow> zs = []) \<and>
     (limit c > 0 \<longrightarrow> currentSize d \<le> limit c \<or> last ys = a \<or> ent_value (ents c (last ys)) = None) \<and>
     (zs \<noteq> [] \<longrightarrow> limit c < currentSize d + ent_size (ents c (hd zs)))"
  using SetValue_correct [OF assms, of v sz timeout co]
  by (elim exE conjE) (rule exI, rule exI, rule exI, intro conjI, assumption+)

lemma cache_set_evicts_lru_witness:
  "\<exists>d. Ns_CacheSetValueExpires 7 True 500 None 0 (snd (Ns_CacheCreateEntry (Ns_Time 5 0) 7 ''k'' (Ns_CacheCreateSz 100 mem0))) = Some d \<and>
     cache_inv d [7]"
proof -
  have inv: "cache_inv (snd (Ns_CacheCreateEntry (Ns_Time 5 0) 7 ''k'' (Ns_CacheCreateSz 100 mem0))) [7]"
    by (rule inv_one)
  from cache_set_evicts_lru [OF inv, of 7 True 500 None 0] show ?thesis
    by (auto simp: Cons_eq_append_conv)
qed

text \<open>
  C33: a value stored under a key is what is found under it until it expires: create (or reuse) the
  entry, store the value, and look it up at a time not after the timeout.
\<close>

theorem cache_set_then_find:
  fixes now key
  assumes "cache_inv c xs" "new \<notin> set xs" "normal later" "\<And>t. timeout = Some t \<Longrightarrow> normal t \<and> later \<le> t"
  defines "r \<equiv> Ns_CacheCreateEntry now new key c"
  shows "\<exists>d e. Ns_CacheSetValueExpires (fst (fst r)) v sz timeout co (snd r) = Some d \<and>
    Ns_CacheFindEntry later key d = (Some (fst (fst r)), e) \<and> ent_value (ents e (fst (fst r))) = Some v"
proof -
  let ?a = "fst (fst r)"
  obtain ys where c: "cache_inv (snd r) ys" "?a \<in> set ys" "ent_key (ents (snd r) ?a) = key"
    using Create_correct [OF assms(1,2), of now key] unfolding r_def by blast
  from SetValue_correct [OF c(1,2), of v sz timeout co] obtain d us where d:
    "Ns_CacheSetValueExpires ?a v sz timeout co (snd r) = Some d" "cache_inv d us" "?a \<in> set us"
    "ent_value (ents d ?a) = Some v" "ent_key (ents d ?a) = key"
    "expires (ents d ?a) = (case timeout of None \<Rightarrow> Ns_Time 0 0 | Some t \<Rightarrow> t)" using c(3) by blast
  from not_expired [OF assms(3,4) d(6)] have "\<not> Expired later (ents d ?a)" by blast
  from Find_hit [OF d(2,3,5) _ this] d show ?thesis by auto
qed

lemma cache_set_then_find_witness:
  "let r = Ns_CacheCreateEntry (Ns_Time 5 0) 7 ''k'' (Ns_CacheCreateSz 100 mem0)
   in \<exists>d e. Ns_CacheSetValueExpires (fst (fst r)) True 20 (Some (Ns_Time 50 0)) 0 (snd r) = Some d \<and>
    Ns_CacheFindEntry (Ns_Time 40 3) ''k'' d = (Some (fst (fst r)), e) \<and> ent_value (ents e (fst (fst r))) = Some True"
  unfolding Let_def
  by (rule cache_set_then_find [OF inv_empty]) (simp_all add: normal_def less_eq_Ns_Time_def)

text \<open>
  \<open>Ns_CacheFlush\<close> over the keys of the table removes every entry that has a value, keeps those
  being computed, and returns the number of entries removed that had not expired.
\<close>

theorem cache_flush_removes_all:
  assumes "cache_inv c xs" "\<And>k. k \<in> set ks \<longleftrightarrow> entriesTable c k \<noteq> None"
  shows "cache_inv (snd (Ns_CacheFlush now ks c)) (filter (\<lambda>a. ent_value (ents c a) = None) xs) \<and>
    fst (Ns_CacheFlush now ks c) = length (filter (\<lambda>a. ent_value (ents c a) \<noteq> None \<and> \<not> Expired now (ents c a)) xs)"
proof -
  have "ent_key (ents c a) \<in> set ks" if "a \<in> set xs" for a
    using inv_in_table [OF assms(1), of "ent_key (ents c a)" a] assms(2) that by auto
  then have
    "filter (\<lambda>a. \<not> (ent_key (ents c a) \<in> set ks \<and> ent_value (ents c a) \<noteq> None)) xs =
     filter (\<lambda>a. ent_value (ents c a) = None) xs"
    "filter (\<lambda>a. ent_key (ents c a) \<in> set ks \<and> ent_value (ents c a) \<noteq> None \<and> \<not> Expired now (ents c a)) xs =
     filter (\<lambda>a. ent_value (ents c a) \<noteq> None \<and> \<not> Expired now (ents c a)) xs"
    by (auto intro: filter_cong)
  with flush_loop_spec [OF assms(1), of now 0 ks] show ?thesis
    by (simp add: Ns_CacheFlush_def split_def)
qed

lemma cache_flush_removes_all_witness:
  "cache_inv (snd (Ns_CacheFlush (Ns_Time 9 0) [''k''] (snd (Ns_CacheCreateEntry (Ns_Time 5 0) 7 ''k'' (Ns_CacheCreateSz 100 mem0))))) [7]"
proof -
  let ?c = "snd (Ns_CacheCreateEntry (Ns_Time 5 0) 7 ''k'' (Ns_CacheCreateSz 100 mem0))"
  have "k \<in> set [''k''] \<longleftrightarrow> entriesTable ?c k \<noteq> None" for k
    by (simp add: Ns_CacheCreateEntry_def Ns_CacheCreateSz_def)
  from cache_flush_removes_all [OF inv_one this, of "Ns_Time 9 0"] show ?thesis
    by (simp add: Ns_CacheCreateEntry_def Ns_CacheCreateSz_def entry_calloc_def)
qed

text \<open>
  \<open>Ns_CacheWaitCreateEntry\<close> hands out an entry only in one of two ways: the caller is to
  compute its value, or another thread has computed it.  Without an entry the wait has timed out.
\<close>

theorem cache_wait_create_result:
  assumes "Ns_CacheWaitCreateEntry env now new key c = Some (r, d)"
  shows "case r of Some (a, isNew) \<Rightarrow> isNew \<or> ent_value (ents d a) \<noteq> None | None \<Rightarrow> False \<in> fst ` set env"
proof -
  have "wait_create env new key q c = Some (r, d) \<Longrightarrow>
      (case r of Some (a, isNew) \<Rightarrow> isNew \<or> ent_value (ents d a) \<noteq> None | None \<Rightarrow> False \<in> fst ` set env)" for q c
  proof (induction env new key q c rule: wait_create.induct)
    case (1 env new key a isNew c)
    show ?case
    proof (cases "isNew \<or> ent_value (ents c a) \<noteq> None")
      case True
      with "1.prems" show ?thesis by (subst (asm) wait_create.simps) auto
    next
      case False
      with "1.prems" obtain ok t others env' where env: "env = (ok, t, others) # env'"
        by (subst (asm) wait_create.simps) (auto split: list.splits)
      obtain q c' where q: "Ns_CacheCreateEntry t new key (others c) = (q, c')" by fastforce
      have res: "(if ok then wait_create env' new key q c' else Some (None, c')) = Some (r, d)"
        using "1.prems" False env q by (subst (asm) wait_create.simps) simp
      show ?thesis
      proof (cases ok)
        case True
        with "1.IH" [OF False env refl refl q [symmetric] _ _] res env show ?thesis by (auto split: option.splits)
      qed (use res env in auto)
    qed
  qed
  moreover obtain q c' where "wait_create env new key q c' = Some (r, d)"
    using assms by (auto simp: Ns_CacheWaitCreateEntry_def split: prod.splits)
  ultimately show ?thesis by blast
qed

lemma cache_wait_create_result_witness:
  "\<exists>r d. Ns_CacheWaitCreateEntry [] (Ns_Time 5 0) 7 ''k'' (Ns_CacheCreateSz 100 mem0) = Some (r, d) \<and>
     (case r of Some (a, isNew) \<Rightarrow> isNew \<or> ent_value (ents d a) \<noteq> None | None \<Rightarrow> False)"
proof -
  let ?d = "snd (Ns_CacheCreateEntry (Ns_Time 5 0) 7 ''k'' (Ns_CacheCreateSz 100 mem0))"
  have "Ns_CacheWaitCreateEntry [] (Ns_Time 5 0) 7 ''k'' (Ns_CacheCreateSz 100 mem0) = Some (Some (7, True), ?d)"
    by (simp add: Ns_CacheWaitCreateEntry_def Ns_CacheCreateEntry_def Ns_CacheCreateSz_def wait_create.simps)
  from this cache_wait_create_result [OF this] show ?thesis by auto
qed

end
