(* ===== verification/NsStr.thy ===== *)
theory NsStr
  imports Prelude "HOL-Library.Sublist"
begin

text \<open>
  The string utilities of \<open>nsd/str.c\<close> and the character classes of the C locale they use.  A C
  string is a list without its NUL; a pointer into a string that a function returns is the rest
  of the string from there (NULL is \<open>None\<close>).  \<open>strtol\<close> is modelled with its end pointer, its
  saturation to a 64-bit \<open>long\<close> and the \<open>ERANGE\<close> report.
\<close>

section \<open>Character classes\<close>

definition isspace :: "char \<Rightarrow> bool" where
  "isspace c \<longleftrightarrow> (let n = of_char c :: nat in n = 32 \<or> 9 \<le> n \<and> n \<le> 13)"

definition isupper :: "char \<Rightarrow> bool" where
  "isupper c \<longleftrightarrow> (let n = of_char c :: nat in 65 \<le> n \<and> n \<le> 90)"

definition islower :: "char \<Rightarrow> bool" where
  "islower c \<longleftrightarrow> (let n = of_char c :: nat in 97 \<le> n \<and> n \<le> 122)"

definition isdigit :: "char \<Rightarrow> bool" where
  "isdigit c \<longleftrightarrow> (let n = of_char c :: nat in 48 \<le> n \<and> n \<le> 57)"

definition isalnum :: "char \<Rightarrow> bool" where
  "isalnum c \<longleftrightarrow> isupper c \<or> islower c \<or> isdigit c"

section \<open>Trimming and case\<close>

fun Ns_StrTrimLeft :: "string \<Rightarrow> string" where
  "Ns_StrTrimLeft [] = []"
| "Ns_StrTrimLeft (c # s) = (if isspace c then Ns_StrTrimLeft s else c # s)"

text \<open>The loop of \<open>Ns_StrTrimRight\<close>: the characters before position \<open>len\<close> are still to be looked at.\<close>

fun trim_right_loop :: "string \<Rightarrow> nat \<Rightarrow> string" where
  "trim_right_loop s 0 = s"
| "trim_right_loop s (Suc len) =
     (if isspace (s ! len) \<or> of_char (s ! len) = (10 :: nat) then trim_right_loop (take len s) len else s)"

definition Ns_StrTrimRight :: "string \<Rightarrow> string" where
  "Ns_StrTrimRight s = trim_right_loop s (length s)"

definition Ns_StrTrim :: "string \<Rightarrow> string" where
  "Ns_StrTrim s = Ns_StrTrimLeft (Ns_StrTrimRight s)"

definition Ns_StrToLower :: "string \<Rightarrow> string" where
  "Ns_StrToLower s = map (\<lambda>c. if isupper c then tolower c else c) s"

definition Ns_StrToUpper :: "string \<Rightarrow> string" where
  "Ns_StrToUpper s = map (\<lambda>c. if islower c then toupper c else c) s"

section \<open>Numbers\<close>

definition digit_val :: "char \<Rightarrow> nat option" where
  "digit_val c = (let n = of_char c :: nat in
     if 48 \<le> n \<and> n \<le> 57 then Some (n - 48)
     else if 97 \<le> n \<and> n \<le> 122 then Some (n - 87)
     else if 65 \<le> n \<and> n \<le> 90 then Some (n - 55) else None)"

definition is_base_digit :: "nat \<Rightarrow> char \<Rightarrow> bool" where
  "is_base_digit b c = (case digit_val c of None \<Rightarrow> False | Some d \<Rightarrow> d < b)"

definition digits_val :: "nat \<Rightarrow> string \<Rightarrow> nat" where
  "digits_val b s = foldl (\<lambda>n c. n * b + the (digit_val c)) 0 s"

abbreviation LONG_MAX :: int where "LONG_MAX \<equiv> 9223372036854775807"
abbreviation LONG_MIN :: int where "LONG_MIN \<equiv> -9223372036854775808"
abbreviation INT_MAX :: int where "INT_MAX \<equiv> 2147483647"
abbreviation INT_MIN :: int where "INT_MIN \<equiv> -2147483648"

text \<open>\<open>strtol s b\<close>: the value, the rest of the string and whether the value was out of range.\<close>

definition strtol :: "string \<Rightarrow> nat \<Rightarrow> int \<times> string \<times> bool" where
  "strtol s b =
     (let s1 = dropWhile isspace s;
          neg = (s1 \<noteq> [] \<and> hd s1 = CHR ''-'');
          s2 = (if s1 \<noteq> [] \<and> hd s1 \<in> {CHR ''-'', CHR ''+''} then tl s1 else s1);
          s3 = (if b = 16 \<and> length s2 > 2 \<and> s2 ! 0 = CHR ''0'' \<and> s2 ! 1 \<in> {CHR ''x'', CHR ''X''} \<and> is_base_digit 16 (s2 ! 2)
                then drop 2 s2 else s2);
          ds = takeWhile (is_base_digit b) s3;
          v = (if neg then - int (digits_val b ds) else int (digits_val b ds))
      in if ds = [] then (0, s, False)
         else if v > LONG_MAX then (LONG_MAX, drop (length ds) s3, True)
         else if v < LONG_MIN then (LONG_MIN, drop (length ds) s3, True)
         else (v, drop (length ds) s3, False))"

definition hex_prefix :: "string \<Rightarrow> bool" where
  "hex_prefix s \<longleftrightarrow> length s > 1 \<and> s ! 0 = CHR ''0'' \<and> s ! 1 = CHR ''x''"

definition Ns_StrToInt :: "string \<Rightarrow> int option" where
  "Ns_StrToInt chars =
     (case strtol chars (if hex_prefix chars then 16 else 10) of
        (lval, ep, erange) \<Rightarrow>
          if chars = [] \<or> ep \<noteq> [] then None
          else if erange \<and> (lval = LONG_MAX \<or> lval = LONG_MIN) \<or> lval > INT_MAX \<or> lval < INT_MIN then None
          else Some lval)"

definition Ns_StrToWideInt :: "string \<Rightarrow> int option" where
  "Ns_StrToWideInt chars =
     (case strtol chars (if hex_prefix chars then 16 else 10) of
        (lval, ep, erange) \<Rightarrow>
          if chars = [] \<or> ep \<noteq> [] then None
          else if erange \<and> (lval = LONG_MAX \<or> lval = LONG_MIN) then None
          else Some lval)"

section \<open>Searching\<close>

definition lower_of :: "char \<Rightarrow> char" where
  "lower_of c = (if islower c then c else tolower c)"

fun Ns_Match :: "string \<Rightarrow> string \<Rightarrow> string option" where
  "Ns_Match (a # as) (b # bs) = (if lower_of a \<noteq> lower_of b then None else Ns_Match as bs)"
| "Ns_Match as bs = Some bs"

definition Ns_NextWord :: "string \<Rightarrow> string" where
  "Ns_NextWord line = dropWhile isspace (dropWhile (\<lambda>c. \<not> isspace c) line)"

fun case_find_loop :: "string \<Rightarrow> string \<Rightarrow> string option" where
  "case_find_loop [] sub = None"
| "case_find_loop (c # cs) sub = (if Ns_Match (c # cs) sub \<noteq> None then Some (c # cs) else case_find_loop cs sub)"

definition Ns_StrCaseFind :: "string \<Rightarrow> string \<Rightarrow> string option" where
  "Ns_StrCaseFind chars sub = (if length chars > length sub then case_find_loop chars sub else None)"

definition Ns_StrNStr :: "string \<Rightarrow> string \<Rightarrow> string option" where
  "Ns_StrNStr chars sub = Ns_StrCaseFind chars sub"

fun Ns_StrIsHost :: "string \<Rightarrow> bool" where
  "Ns_StrIsHost [] = True"
| "Ns_StrIsHost (c # cs) =
     (if \<not> isalnum c \<and> c \<noteq> CHR '':'' \<and> (c \<noteq> CHR ''.'' \<or> cs \<noteq> [] \<and> hd cs = CHR ''.'') then False
      else Ns_StrIsHost cs)"

section \<open>Facts on trimming\<close>

lemma TrimLeft_dropWhile: "Ns_StrTrimLeft s = dropWhile isspace s"
  by (induction s) auto

lemma isspace_newline: "of_char c = (10 :: nat) \<Longrightarrow> isspace c"
  by (simp add: isspace_def)

lemma trim_right_loop_rev: "trim_right_loop s (length s) = rev (dropWhile isspace (rev s))"
proof (induction s rule: rev_induct)
  case (snoc c s)
  then show ?case by (auto simp: nth_append dest: isspace_newline)
qed simp

lemma TrimRight_rev: "Ns_StrTrimRight s = rev (dropWhile isspace (rev s))"
  by (simp add: Ns_StrTrimRight_def trim_right_loop_rev)

lemma Trim_ends: "Ns_StrTrim s \<noteq> [] \<Longrightarrow> \<not> isspace (hd (Ns_StrTrim s)) \<and> \<not> isspace (last (Ns_StrTrim s))"
proof -
  assume ne: "Ns_StrTrim s \<noteq> []"
  let ?t = "rev (dropWhile isspace (rev s))"
  have tr: "Ns_StrTrim s = dropWhile isspace ?t" by (simp add: Ns_StrTrim_def TrimLeft_dropWhile TrimRight_rev)
  have "?t \<noteq> []" using ne tr by (metis dropWhile.simps(1))
  then have "\<not> isspace (last ?t)" by (metis hd_dropWhile last_rev rev_is_Nil_conv)
  moreover have "last (dropWhile isspace ?t) = last ?t"
    using ne tr by (metis last_append takeWhile_dropWhile_id)
  ultimately show ?thesis using ne tr by (metis hd_dropWhile)
qed

lemma Trim_id: "s = [] \<or> \<not> isspace (hd s) \<and> \<not> isspace (last s) \<Longrightarrow> Ns_StrTrim s = s"
  by (cases s rule: rev_cases) (auto simp: Ns_StrTrim_def TrimLeft_dropWhile TrimRight_rev dropWhile_eq_self_iff)

section \<open>Facts on numbers\<close>

text \<open>The decimal notation \<open>printf\<close> gives an integer.\<close>

function show_nat :: "nat \<Rightarrow> string" where
  "show_nat n = (if n < 10 then [char_of (48 + n)] else show_nat (n div 10) @ [char_of (48 + n mod 10)])"
  by auto
termination by (relation "measure id") auto

declare show_nat.simps [simp del]

definition show_int :: "int \<Rightarrow> string" where
  "show_int v = (if v < 0 then CHR ''-'' # show_nat (nat (- v)) else show_nat (nat v))"

lemma digit_char: "(d :: nat) < 10 \<Longrightarrow> digit_val (char_of (48 + d)) = Some d"
  by (simp add: digit_val_def of_char_of)

lemma digit_char_props:
  assumes "(d :: nat) < 10"
  shows "is_base_digit 10 (char_of (48 + d))" "\<not> isspace (char_of (48 + d))"
    "char_of (48 + d) \<noteq> CHR ''-''" "char_of (48 + d) \<noteq> CHR ''+''" "char_of (48 + d) \<noteq> CHR ''x''"
proof -
  have n: "of_char (char_of (48 + d) :: char) = 48 + d" using assms by (simp add: of_char_of)
  show "is_base_digit 10 (char_of (48 + d))" using assms by (simp add: is_base_digit_def digit_char)
  show "\<not> isspace (char_of (48 + d))" using n assms by (simp add: isspace_def)
  have "of_char CHR ''-'' = (45 :: nat)" "of_char CHR ''+'' = (43 :: nat)" "of_char CHR ''x'' = (120 :: nat)" by simp_all
  with n assms show "char_of (48 + d) \<noteq> CHR ''-''" "char_of (48 + d) \<noteq> CHR ''+''" "char_of (48 + d) \<noteq> CHR ''x''"
    by (auto dest: arg_cong [of _ _ "of_char :: char \<Rightarrow> nat"])
qed

lemma show_nat_digits: "c \<in> set (show_nat n) \<Longrightarrow> \<exists>d < (10 :: nat). c = char_of (48 + d)"
proof (induction n rule: show_nat.induct)
  case (1 n)
  show ?case
  proof (cases "n < 10")
    case True
    with "1.prems" show ?thesis by (subst (asm) show_nat.simps) auto
  next
    case False
    with "1.prems" have "c \<in> set (show_nat (n div 10)) \<or> c = char_of (48 + n mod 10)"
      by (subst (asm) show_nat.simps) auto
    with "1.IH" [OF False] show ?thesis by (metis mod_less_divisor zero_less_numeral)
  qed
qed

lemma show_nat_ne [simp]: "show_nat n \<noteq> []"
  by (subst show_nat.simps) simp

lemma digits_val_show: "digits_val 10 (show_nat n) = n"
proof (induction n rule: show_nat.induct)
  case (1 n)
  then show ?case
    by (subst show_nat.simps) (auto simp: digits_val_def digit_char)
qed

lemma strtol_digits:
  assumes "\<forall>c \<in> set ds. \<exists>d < (10 :: nat). c = char_of (48 + d)" "ds \<noteq> []"
  shows "strtol ds 10 = (if int (digits_val 10 ds) > LONG_MAX then (LONG_MAX, [], True) else (int (digits_val 10 ds), [], False))"
    and "strtol (CHR ''-'' # ds) 10 =
      (if - int (digits_val 10 ds) < LONG_MIN then (LONG_MIN, [], True) else (- int (digits_val 10 ds), [], False))"
proof -
  obtain c cs where ds: "ds = c # cs" using assms(2) by (cases ds) auto
  have p: "is_base_digit 10 x \<and> \<not> isspace x \<and> x \<noteq> CHR ''-'' \<and> x \<noteq> CHR ''+''" if "x \<in> set ds" for x
    using assms(1) that digit_char_props by metis
  have tw: "takeWhile (is_base_digit 10) ds = ds" using p by (simp add: takeWhile_eq_all_conv)
  have c: "\<not> isspace c \<and> c \<noteq> CHR ''-'' \<and> c \<noteq> CHR ''+''" using p ds by simp
  have dw: "dropWhile isspace ds = ds" using c ds by simp
  have m: "\<not> isspace CHR ''-''" by (simp add: isspace_def)
  show "strtol ds 10 = (if int (digits_val 10 ds) > LONG_MAX then (LONG_MAX, [], True) else (int (digits_val 10 ds), [], False))"
  proof -
    have "hd ds = c" "ds \<noteq> []" using ds by simp_all
    then show ?thesis using c by (simp add: strtol_def dw Let_def tw)
  qed
  show "strtol (CHR ''-'' # ds) 10 =
      (if - int (digits_val 10 ds) < LONG_MIN then (LONG_MIN, [], True) else (- int (digits_val 10 ds), [], False))"
    using assms(2) m by (simp add: strtol_def Let_def tw)
qed

lemma not_hex_show: "\<not> hex_prefix (show_int v)"
proof -
  have "CHR ''x'' \<notin> set (show_nat n)" for n
  proof
    assume "CHR ''x'' \<in> set (show_nat n)"
    then obtain d :: nat where "d < 10" "CHR ''x'' = char_of (48 + d)" using show_nat_digits by blast
    then show False using digit_char_props(5) [of d] by simp
  qed
  then have "CHR ''x'' \<notin> set (show_int v)" by (simp add: show_int_def)
  then show ?thesis unfolding hex_prefix_def by (metis nth_mem)
qed

lemma strtol_show:
  assumes "LONG_MIN \<le> v" "v \<le> LONG_MAX"
  shows "strtol (show_int v) 10 = (v, [], False)"
proof -
  have d: "\<forall>c \<in> set (show_nat n). \<exists>d < (10 :: nat). c = char_of (48 + d)" for n
    using show_nat_digits by blast
  show ?thesis
    using assms strtol_digits(1) [OF d [of "nat v"] show_nat_ne] strtol_digits(2) [OF d [of "nat (- v)"] show_nat_ne]
    by (auto simp: show_int_def digits_val_show)
qed

section \<open>Facts on host names\<close>

lemma is_host_chars: "Ns_StrIsHost s \<Longrightarrow> c \<in> set s \<Longrightarrow> isalnum c \<or> c = CHR '':'' \<or> c = CHR ''.''"
  by (induction s) (auto split: if_splits)

lemma not_alnum: "\<not> isalnum CHR ''/''" "\<not> isalnum CHR 0x5C" "\<not> isalnum CHR ''.''" "\<not> isalnum CHR 0x00"
  by (simp_all add: isalnum_def isupper_def islower_def isdigit_def)

lemma not_lower_punct: "\<not> islower CHR ''/''" "\<not> islower CHR 0x5C" "\<not> islower CHR ''.''"
  by (simp_all add: islower_def)

lemma upper_to_lower: "isupper c \<Longrightarrow> islower (tolower c)"
  by (simp add: isupper_def islower_def tolower_def Let_def of_char_of)

lemma is_host_no_slash: "Ns_StrIsHost s \<Longrightarrow> CHR ''/'' \<notin> set s \<and> CHR 0x5C \<notin> set s"
  using is_host_chars not_alnum by fastforce

lemma is_host_no_up: "Ns_StrIsHost s \<Longrightarrow> \<not> sublist ''..'' s"
proof (induction s)
  case (Cons c cs)
  then show ?case using not_alnum(3)
    by (auto simp: sublist_Cons_right split: if_splits) (cases cs; auto simp: prefix_Cons)+
qed simp

section \<open>Properties\<close>

text \<open>
  \<open>Ns_StrToInt\<close> reads back every 32-bit integer from its decimal notation, and whatever it
  accepts is a 32-bit integer and is not the empty string.
\<close>

theorem str_to_int_round_trip:
  "(INT_MIN \<le> v \<and> v \<le> INT_MAX \<longrightarrow> Ns_StrToInt (show_int v) = Some v) \<and>
   (\<forall>s w. Ns_StrToInt s = Some w \<longrightarrow> INT_MIN \<le> w \<and> w \<le> INT_MAX \<and> s \<noteq> [])"
proof (intro conjI impI allI)
  assume v: "INT_MIN \<le> v \<and> v \<le> INT_MAX"
  then have "strtol (show_int v) 10 = (v, [], False)" by (intro strtol_show) linarith+
  moreover have "show_int v \<noteq> []" by (simp add: show_int_def)
  ultimately show "Ns_StrToInt (show_int v) = Some v"
    using v not_hex_show [of v] by (simp add: Ns_StrToInt_def)
qed (auto simp: Ns_StrToInt_def split: prod.splits if_splits)

lemma str_to_int_round_trip_witness:
  "Ns_StrToInt (show_int (-2147483648)) = Some (-2147483648)"
  using str_to_int_round_trip [of "-2147483648"] by simp

text \<open>
  A name \<open>Ns_StrIsHost\<close> accepts cannot leave a directory: it has no slash or backslash and
  no two dots in a row.
\<close>

theorem str_is_host_safe:
  assumes "Ns_StrIsHost s"
  shows "CHR ''/'' \<notin> set s \<and> CHR 0x5C \<notin> set s \<and> \<not> sublist ''..'' s"
  using is_host_no_slash [OF assms] is_host_no_up [OF assms] by simp

lemma str_is_host_safe_witness:
  "\<not> sublist ''..'' ''www.example.com:80''"
proof -
  have "Ns_StrIsHost ''www.example.com:80''" by (simp add: isalnum_def isupper_def islower_def isdigit_def)
  from str_is_host_safe [OF this] show ?thesis by simp
qed

text \<open>
  \<open>Ns_StrCaseFind\<close> can report a string that is not there, because \<open>Ns_Match\<close> succeeds when the
  text ends inside the sought string, and it never finds a string in itself.
\<close>

theorem str_case_find_wrong:
  "Ns_StrCaseFind ''abcx'' ''xyz'' = Some ''x'' \<and> Ns_StrCaseFind s s = None"
  by (simp add: Ns_StrCaseFind_def lower_of_def islower_def tolower_def)

end
