(* ===== verification/UUEncode.thy ===== *)
theory UUEncode
  imports Prelude "HOL-Library.Word"
begin

unbundle bit_operations_syntax

text \<open>
  The 6-bit encoder and decoder of \<open>nsd/uuencode.c\<close> and the two Tcl commands of \<open>nsd/tclmisc.c\<close>
  that allocate their buffers.  Bytes are 8-bit words, so that the truncating shifts of the source
  are the shifts of the word type; an output buffer is the list of the bytes written to it, without
  the final NUL, whose length is the count the C functions return.
\<close>

section \<open>Tables\<close>

definition six2pr :: "8 word list" where
  "six2pr = map (\<lambda>c. of_char c)
    ''ABCDEFGHIJKLMNOPQRSTUVWXYZabcdefghijklmnopqrstuvwxyz0123456789+/''"

definition pr2six :: "int list" where
  "pr2six = [
    -1, -1, -1, -1, -1, -1, -1, -1, -1, -1, -1, -1, -1, -1, -1, -1,
    -1, -1, -1, -1, -1, -1, -1, -1, -1, -1, -1, -1, -1, -1, -1, -1,
    -1, -1, -1, -1, -1, -1, -1, -1, -1, -1, -1, 62, -1, -1, -1, 63,
    52, 53, 54, 55, 56, 57, 58, 59, 60, 61, -1, -1, -1, -1, -1, -1,
    -1, 0, 1, 2, 3, 4, 5, 6, 7, 8, 9, 10, 11, 12, 13, 14,
    15, 16, 17, 18, 19, 20, 21, 22, 23, 24, 25, -1, -1, -1, -1, -1,
    -1, 26, 27, 28, 29, 30, 31, 32, 33, 34, 35, 36, 37, 38, 39, 40,
    41, 42, 43, 44, 45, 46, 47, 48, 49, 50, 51, -1, -1, -1, -1, -1,
    -1, -1, -1, -1, -1, -1, -1, -1, -1, -1, -1, -1, -1, -1, -1, -1,
    -1, -1, -1, -1, -1, -1, -1, -1, -1, -1, -1, -1, -1, -1, -1, -1,
    -1, -1, -1, -1, -1, -1, -1, -1, -1, -1, -1, -1, -1, -1, -1, -1,
    -1, -1, -1, -1, -1, -1, -1, -1, -1, -1, -1, -1, -1, -1, -1, -1,
    -1, -1, -1, -1, -1, -1, -1, -1, -1, -1, -1, -1, -1, -1, -1, -1,
    -1, -1, -1, -1, -1, -1, -1, -1, -1, -1, -1, -1, -1, -1, -1, -1,
    -1, -1, -1, -1, -1, -1, -1, -1, -1, -1, -1, -1, -1, -1, -1, -1,
    -1, -1, -1, -1, -1, -1, -1, -1, -1, -1, -1, -1, -1, -1, -1, -1]"

definition Encode :: "8 word \<Rightarrow> 8 word" where
  "Encode c = six2pr ! unat c"

definition Decode :: "8 word \<Rightarrow> 8 word" where
  "Decode c = word_of_int (pr2six ! unat c)"

section \<open>Encoding\<close>

definition enc_group :: "8 word \<Rightarrow> 8 word \<Rightarrow> 8 word \<Rightarrow> 8 word list" where
  "enc_group a b c =
     [Encode (drop_bit 2 a),
      Encode ((push_bit 4 a AND 0x30) OR (drop_bit 4 b AND 0x0F)),
      Encode ((push_bit 2 b AND 0x3C) OR (drop_bit 6 c AND 0x03)),
      Encode (c AND 0x3F)]"

text \<open>
  The loop over the groups of three bytes carries the length of the current line; the clauses for
  one and two remaining bytes are the padding after the loop.
\<close>

fun encode_loop :: "nat \<Rightarrow> 8 word list \<Rightarrow> 8 word list" where
  "encode_loop line (a # b # c # rest) =
     (if line \<ge> 60 then 10 # enc_group a b c @ encode_loop (0 + 4) rest
      else enc_group a b c @ encode_loop (line + 4) rest)"
| "encode_loop line [a, b] =
     [Encode (drop_bit 2 a), Encode ((push_bit 4 a AND 0x30) OR (drop_bit 4 b AND 0x0F)),
      Encode (push_bit 2 b AND 0x3C), 61]"
| "encode_loop line [a] = [Encode (drop_bit 2 a), Encode (push_bit 4 a AND 0x30), 61, 61]"
| "encode_loop line [] = []"

definition Ns_HtuuEncode :: "8 word list \<Rightarrow> 8 word list" where
  "Ns_HtuuEncode input = encode_loop 0 input"

section \<open>Decoding\<close>

text \<open>\<open>chars\<close> holds the pending characters, fewer than four; the bytes written come out in order.\<close>

fun decode_loop :: "8 word list \<Rightarrow> 8 word list \<Rightarrow> 8 word list" where
  "decode_loop chars (p # ps) =
     (if pr2six ! unat p \<ge> 0 then
        (let chars = chars @ [p] in
         if length chars = 4 then
           (push_bit 2 (Decode (chars ! 0)) OR drop_bit 4 (Decode (chars ! 1))) #
           (push_bit 4 (Decode (chars ! 1)) OR drop_bit 2 (Decode (chars ! 2))) #
           (push_bit 6 (Decode (chars ! 2)) OR Decode (chars ! 3)) # decode_loop [] ps
         else decode_loop chars ps)
      else decode_loop chars ps)"
| "decode_loop chars [] =
     (if length chars > 1
      then [push_bit 2 (Decode (chars ! 0)) OR drop_bit 4 (Decode (chars ! 1))] else []) @
     (if length chars > 2
      then [push_bit 4 (Decode (chars ! 1)) OR drop_bit 2 (Decode (chars ! 2))] else [])"

text \<open>The input is a C string: it ends at its first NUL.\<close>

definition Ns_HtuuDecode :: "8 word list \<Rightarrow> 8 word list" where
  "Ns_HtuuDecode input =
     decode_loop [] (dropWhile (\<lambda>c. c = 32 \<or> c = 9) (takeWhile (\<lambda>c. c \<noteq> 0) input))"

section \<open>The Tcl commands\<close>

text \<open>The sizes of the buffers the commands allocate for an argument of \<open>n\<close> bytes.\<close>

definition NsTclHTUUEncodeObjCmd_size :: "nat \<Rightarrow> nat" where
  "NsTclHTUUEncodeObjCmd_size n = 1 + (4 * max n 2) div 2"

definition NsTclHTUUDecodeObjCmd_size :: "nat \<Rightarrow> nat" where
  "NsTclHTUUDecodeObjCmd_size n = n + 3"

section \<open>Facts on the tables\<close>

lemma tables_inverse: "list_all (\<lambda>n. pr2six ! unat (six2pr ! n) = int n) [0..<64]"
  by code_simp

lemma pr2six_Encode:
  assumes "unat c < 64"
  shows "pr2six ! unat (Encode c) = int (unat c)"
  using tables_inverse assms by (auto simp: list_all_iff Encode_def)

lemma Decode_Encode: "unat c < 64 \<Longrightarrow> Decode (Encode c) = c"
  by (simp add: Decode_def pr2six_Encode)

lemma byte_eqI: "(\<And>n. n \<in> {0, 1, 2, 3, 4, 5, 6, 7} \<Longrightarrow> bit x n \<longleftrightarrow> bit y n) \<Longrightarrow> x = y" for x y :: "8 word"
proof (rule bit_word_eqI)
  fix n assume "\<And>n. n \<in> {0, 1, 2, 3, 4, 5, 6, 7} \<Longrightarrow> bit x n \<longleftrightarrow> bit y n" "n < LENGTH(8)"
  moreover from this(2) have "n \<in> {0, 1, 2, 3, 4, 5, 6, 7}" by auto
  ultimately show "bit x n \<longleftrightarrow> bit y n" by blast
qed

lemma six_bits: "x AND 63 = x \<Longrightarrow> unat x < 64" for x :: "8 word"
proof -
  assume "x AND 63 = x"
  then have "x \<le> 63" by (metis word_and_le1)
  then show ?thesis by (simp add: word_le_nat_alt)
qed

lemma sextets:
  fixes a b c :: "8 word"
  shows "unat (drop_bit 2 a) < 64"
    "unat ((push_bit 4 a AND 0x30) OR (drop_bit 4 b AND 0x0F)) < 64"
    "unat ((push_bit 2 b AND 0x3C) OR (drop_bit 6 c AND 0x03)) < 64"
    "unat (c AND 0x3F) < 64" "unat (push_bit 4 a AND 0x30) < 64" "unat (push_bit 2 b AND 0x3C) < 64"
  by (rule six_bits, rule byte_eqI, auto simp: bit_simps dest: bit_imp_le_length)+

lemma regroup:
  fixes a b c :: "8 word"
  shows "push_bit 2 (drop_bit 2 a) OR drop_bit 4 ((push_bit 4 a AND 0x30) OR (drop_bit 4 b AND 0x0F)) = a"
    "push_bit 4 ((push_bit 4 a AND 0x30) OR (drop_bit 4 b AND 0x0F)) OR
       drop_bit 2 ((push_bit 2 b AND 0x3C) OR (drop_bit 6 c AND 0x03)) = b"
    "push_bit 6 ((push_bit 2 b AND 0x3C) OR (drop_bit 6 c AND 0x03)) OR (c AND 0x3F) = c"
    "push_bit 2 (drop_bit 2 a) OR drop_bit 4 (push_bit 4 a AND 0x30) = a"
    "push_bit 4 ((push_bit 4 a AND 0x30) OR (drop_bit 4 b AND 0x0F)) OR drop_bit 2 (push_bit 2 b AND 0x3C) = b"
  by (rule byte_eqI, auto simp: bit_simps numeral_2_eq_2 [symmetric] dest: bit_imp_le_length)+

section \<open>Facts on the loops\<close>



lemma decode_skip: "pr2six ! unat p < 0 \<Longrightarrow> decode_loop chars (p # ps) = decode_loop chars ps"
  by simp

lemma decode_quad:
  assumes "pr2six ! unat p \<ge> 0" "pr2six ! unat q \<ge> 0" "pr2six ! unat r \<ge> 0" "pr2six ! unat s \<ge> 0"
  shows "decode_loop [] (p # q # r # s # ps) =
    (push_bit 2 (Decode p) OR drop_bit 4 (Decode q)) # (push_bit 4 (Decode q) OR drop_bit 2 (Decode r)) #
    (push_bit 6 (Decode r) OR Decode s) # decode_loop [] ps"
  using assms by simp

lemma pad_invalid: "pr2six ! unat (61 :: 8 word) < 0" "pr2six ! unat (10 :: 8 word) < 0"
  by (simp_all add: pr2six_def)

lemma decode_enc_group: "decode_loop [] (enc_group a b c @ ps) = a # b # c # decode_loop [] ps"
  unfolding enc_group_def
  by (simp only: append.simps, subst decode_quad)
    (simp_all only: pr2six_Encode Decode_Encode sextets regroup of_nat_0_le_iff)

lemma decode_encode_loop: "decode_loop [] (encode_loop line xs) = xs"
proof (induction line xs rule: encode_loop.induct)
  case (1 line a b c rest)
  then show ?case by (simp only: encode_loop.simps decode_skip pad_invalid decode_enc_group split: if_split) simp
next
  case (2 line a b)
  have "decode_loop [] (encode_loop line [a, b]) =
    [push_bit 2 (drop_bit 2 a) OR drop_bit 4 ((push_bit 4 a AND 0x30) OR (drop_bit 4 b AND 0x0F)),
     push_bit 4 ((push_bit 4 a AND 0x30) OR (drop_bit 4 b AND 0x0F)) OR drop_bit 2 (push_bit 2 b AND 0x3C)]"
    using pad_invalid by (simp add: pr2six_Encode Decode_Encode sextets del: push_bit_and drop_bit_and)
  then show ?case by (simp only: regroup)
next
  case (3 line a)
  have "decode_loop [] (encode_loop line [a]) = [push_bit 2 (drop_bit 2 a) OR drop_bit 4 (push_bit 4 a AND 0x30)]"
    using pad_invalid by (simp add: pr2six_Encode Decode_Encode sextets del: push_bit_and drop_bit_and)
  then show ?case by (simp only: regroup)
qed simp

lemma Encode_printable: "unat c < 64 \<Longrightarrow> Encode c \<notin> {0, 32, 9}"
proof -
  assume "unat c < 64"
  then have "pr2six ! unat (Encode c) \<ge> 0" by (simp add: pr2six_Encode)
  moreover have "pr2six ! unat x < 0" if "x \<in> {0, 32, 9 :: 8 word}" for x
    using that by (auto simp: pr2six_def)
  ultimately show ?thesis using linorder_not_less by blast
qed

lemma encode_no_nul: "0 \<notin> set (encode_loop line xs)"
  by (induction line xs rule: encode_loop.induct)
    (use Encode_printable sextets in \<open>auto simp: enc_group_def dest: sym [of 0]\<close>)

lemma encode_hd: "encode_loop 0 xs \<noteq> [] \<Longrightarrow> hd (encode_loop 0 xs) \<notin> {32, 9}"
  using Encode_printable sextets by (cases "(0 :: nat, xs)" rule: encode_loop.cases) (auto simp: enc_group_def)

lemma length_encode_loop:
  "line mod 4 = 0 \<Longrightarrow> line \<le> 60 \<Longrightarrow>
   length (encode_loop line xs) = 4 * ((length xs + 2) div 3) + (line div 4 + length xs div 3 - 1) div 15"
proof (induction line xs rule: encode_loop.induct)
  case (1 line a b c rest)
  have len: "length (enc_group a b c) = 4" by (simp add: enc_group_def)
  have div3: "length (a # b # c # rest) div 3 = Suc (length rest div 3)"
    "(length (a # b # c # rest) + 2) div 3 = Suc ((length rest + 2) div 3)" by simp_all
  show ?case
  proof (cases "line \<ge> 60")
    case True
    then have "line = 60" using "1.prems" by simp
    have "(15 + length rest div 3) div 15 = Suc (length rest div 3 div 15)" by presburger
    then show ?thesis using "1.IH"(1) [OF True] \<open>line = 60\<close> unfolding div3 by (simp add: len)
  next
    case False
    then have "line + 4 \<le> 60" "(line + 4) mod 4 = 0" "(line + 4) div 4 = Suc (line div 4)"
      using "1.prems" by presburger+
    then show ?thesis using "1.IH"(2) [OF False] False unfolding div3 by (simp add: len)
  qed
qed (auto simp: div_le_mono)

lemma length_decode_loop: "length chars < 4 \<Longrightarrow> 4 * length (decode_loop chars ps) \<le> 3 * (length chars + length ps)"
proof (induction chars ps rule: decode_loop.induct)
  case (1 chars p ps)
  show ?case using 1 by (auto simp: Let_def)
qed auto

lemma length_Encode: "length (Ns_HtuuEncode xs) = 4 * ((length xs + 2) div 3) + (length xs div 3 - 1) div 15"
  by (simp add: Ns_HtuuEncode_def length_encode_loop)

section \<open>Properties\<close>

text \<open>
  C35: decoding an encoded byte string gives it back, whatever its length: the line breaks and the
  padding the encoder adds are skipped by the decoder.
\<close>

theorem uuencode_round_trip: "Ns_HtuuDecode (Ns_HtuuEncode xs) = xs"
proof -
  let ?e = "encode_loop 0 xs"
  have "takeWhile (\<lambda>c. c \<noteq> 0) ?e = ?e" using encode_no_nul [of 0 xs] by (auto simp: takeWhile_eq_all_conv)
  moreover have "dropWhile (\<lambda>c. c = 32 \<or> c = 9) ?e = ?e"
    using encode_hd [of xs] by (cases ?e) auto
  ultimately show ?thesis by (simp only: Ns_HtuuDecode_def Ns_HtuuEncode_def decode_encode_loop)
qed

text \<open>
  The buffers \<open>ns_uuencode\<close> and \<open>ns_uudecode\<close> allocate hold everything the two functions write,
  the final NUL included, for every input; the smaller buffer the comment on \<open>Ns_HtuuEncode\<close>
  promises to be enough (4 bytes, for one byte of input) is too small.
\<close>

theorem uuencode_buffers:
  "length (Ns_HtuuEncode xs) + 1 \<le> NsTclHTUUEncodeObjCmd_size (length xs) \<and>
   length (Ns_HtuuDecode s) + 1 \<le> NsTclHTUUDecodeObjCmd_size (length s) \<and>
   length (Ns_HtuuEncode [a]) + 1 > max 4 (1 + (1 * 4) div 2)"
proof (intro conjI)
  have "4 * ((n + 2) div 3) + (n div 3 - 1) div 15 + 1 \<le> 1 + (4 * max n 2) div 2" for n :: nat
  proof -
    have "(n div 3 - 1) div 15 \<le> n div 3 div 15" by (simp add: div_le_mono)
    moreover have "4 * ((n + 2) div 3) + n div 3 div 15 \<le> 2 * n" if "n \<ge> 2"
    proof -
      define k where "k = n div 3"
      define r where "r = n mod 3"
      have n: "n = 3 * k + r" "r < 3" by (simp_all add: k_def r_def)
      have "k div 15 \<le> k" by simp
      moreover have "(n + 2) div 3 = (if r = 0 then k else k + 1)" using n by auto
      moreover have "k = 0 \<Longrightarrow> r = 2" using n that by simp
      ultimately show ?thesis using n unfolding k_def [symmetric] by (cases "k = 0") auto
    qed
    moreover have "n < 2 \<Longrightarrow> n = 0 \<or> n = 1" by auto
    ultimately show ?thesis by (cases "n < 2") auto
  qed
  then show "length (Ns_HtuuEncode xs) + 1 \<le> NsTclHTUUEncodeObjCmd_size (length xs)"
    unfolding length_Encode NsTclHTUUEncodeObjCmd_size_def .
  have "length (dropWhile (\<lambda>c. c = 32 \<or> c = 9) (takeWhile (\<lambda>c. c \<noteq> 0) s)) \<le> length s"
    by (meson length_dropWhile_le length_takeWhile_le order_trans)
  then have "4 * length (Ns_HtuuDecode s) \<le> 3 * length s"
    unfolding Ns_HtuuDecode_def
    using length_decode_loop [of "[]" "dropWhile (\<lambda>c. c = 32 \<or> c = 9) (takeWhile (\<lambda>c. c \<noteq> 0) s)"]
    by (simp del: decode_loop.simps)
  then show "length (Ns_HtuuDecode s) + 1 \<le> NsTclHTUUDecodeObjCmd_size (length s)"
    by (simp add: NsTclHTUUDecodeObjCmd_size_def)
  show "length (Ns_HtuuEncode [a]) + 1 > max 4 (1 + (1 * 4) div 2)" by (simp add: length_Encode)
qed

end
