(* ===== verification/Codec.thy ===== *)
theory Codec
  imports Main
begin

text \<open>
  The contract of a character-wise encoder and its decoder, as the URL encoders and the HTML
  quoting of the server satisfy it, and what follows from it for whole strings and for strings
  joined by a separator that the encoder never produces.
\<close>

section \<open>Splitting at a separator\<close>

fun split_on :: "'a \<Rightarrow> 'a list \<Rightarrow> 'a list list" where
  "split_on sep [] = [[]]"
| "split_on sep (c # cs) =
     (if c = sep then [] # split_on sep cs
      else case split_on sep cs of [] \<Rightarrow> [[c]] | w # ws \<Rightarrow> (c # w) # ws)"

fun join_with :: "'a list \<Rightarrow> 'a list list \<Rightarrow> 'a list" where
  "join_with sep [] = []"
| "join_with sep [w] = w"
| "join_with sep (w # ws) = w @ sep @ join_with sep ws"

lemma split_on_ne [simp]: "split_on sep s \<noteq> []"
  by (induction s) (auto split: list.splits)

lemma split_on_app: "sep \<notin> set x \<Longrightarrow> split_on sep (x @ sep # y) = x # split_on sep y"
  by (induction x) auto

lemma split_on_free: "sep \<notin> set x \<Longrightarrow> split_on sep x = [x]"
  by (induction x) auto

lemma split_on_join:
  "ws \<noteq> [] \<Longrightarrow> \<forall>w \<in> set ws. sep \<notin> set w \<Longrightarrow> split_on sep (join_with [sep] ws) = ws"
  by (induction "[sep]" ws rule: join_with.induct) (simp_all add: split_on_free split_on_app)

lemma join_split_on: "join_with [sep] (split_on sep s) = s"
proof (induction s)
  case (Cons c cs)
  obtain w ws where w: "split_on sep cs = w # ws" by (cases "split_on sep cs") auto
  then show ?case using Cons by (cases ws) auto
qed simp

lemma split_on_free_words: "w \<in> set (split_on sep s) \<Longrightarrow> sep \<notin> set w"
proof (induction s arbitrary: w)
  case (Cons c cs)
  obtain v vs where "split_on sep cs = v # vs" by (cases "split_on sep cs") auto
  with Cons show ?case by (auto split: if_splits)
qed simp

section \<open>Character-wise codecs\<close>

locale codec =
  fixes enc1 :: "'a \<Rightarrow> 'b list" and dec :: "'b list \<Rightarrow> 'a list" and legal :: "'a \<Rightarrow> bool"
  assumes dec_nil: "dec [] = []"
    and dec_enc1: "legal c \<Longrightarrow> dec (enc1 c @ s) = c # dec s"
begin

lemma round_trip: "\<forall>c \<in> set s. legal c \<Longrightarrow> dec (concat (map enc1 s)) = s"
  by (induction s) (simp_all add: dec_nil dec_enc1)

lemma enc_injective:
  "\<forall>c \<in> set s. legal c \<Longrightarrow> \<forall>c \<in> set t. legal c \<Longrightarrow> concat (map enc1 s) = concat (map enc1 t) \<Longrightarrow> s = t"
  using round_trip by metis

end

text \<open>Encoded strings that are joined with a separator foreign to the encoding can be taken apart.\<close>

locale joined_codec = codec +
  fixes sep :: 'b
  assumes sep_foreign: "sep \<notin> set (enc1 c)"
begin

lemma split_joined:
  assumes "ws \<noteq> []" and "\<forall>w \<in> set ws. \<forall>c \<in> set w. legal c"
  shows "map dec (split_on sep (join_with [sep] (map (\<lambda>w. concat (map enc1 w)) ws))) = ws"
proof -
  have "\<forall>e \<in> set (map (\<lambda>w. concat (map enc1 w)) ws). sep \<notin> set e" using sep_foreign by auto
  then have "split_on sep (join_with [sep] (map (\<lambda>w. concat (map enc1 w)) ws)) = map (\<lambda>w. concat (map enc1 w)) ws"
    using assms(1) by (intro split_on_join) auto
  then show ?thesis using assms(2) round_trip by (simp add: map_idI)
qed

end

end
