(* ===== verification/UrlEncode.thy ===== *)
theory UrlEncode
  imports NsStr Codec
begin

text \<open>
  Percent encoding of URL components, \<open>nsd/urlencode.c\<close>.  The two tables are those of the source,
  entry by entry.  A character encoding of Tcl is a pair of functions between the internal and an
  external byte string; it is a parameter of every operation, and \<open>None\<close> is the NULL encoding.  A
  dstring is the list of its bytes, which may hold NULs after decoding.
\<close>

section \<open>Tables\<close>

record ByteKey =
  bk_hex :: int
  bk_len :: nat
  bk_str :: "string option"

abbreviation BK :: "int \<Rightarrow> nat \<Rightarrow> string option \<Rightarrow> ByteKey" where
  "BK h l s \<equiv> \<lparr>bk_hex = h, bk_len = l, bk_str = s\<rparr>"

definition queryenc :: "ByteKey list" where
  "queryenc = [
    BK (-1) 3 (Some ''00''), BK (-1) 3 (Some ''01''), BK (-1) 3 (Some ''02''), BK (-1) 3 (Some ''03''),
    BK (-1) 3 (Some ''04''), BK (-1) 3 (Some ''05''), BK (-1) 3 (Some ''06''), BK (-1) 3 (Some ''07''),
    BK (-1) 3 (Some ''08''), BK (-1) 3 (Some ''09''), BK (-1) 3 (Some ''0a''), BK (-1) 3 (Some ''0b''),
    BK (-1) 3 (Some ''0c''), BK (-1) 3 (Some ''0d''), BK (-1) 3 (Some ''0e''), BK (-1) 3 (Some ''0f''),
    BK (-1) 3 (Some ''10''), BK (-1) 3 (Some ''11''), BK (-1) 3 (Some ''12''), BK (-1) 3 (Some ''13''),
    BK (-1) 3 (Some ''14''), BK (-1) 3 (Some ''15''), BK (-1) 3 (Some ''16''), BK (-1) 3 (Some ''17''),
    BK (-1) 3 (Some ''18''), BK (-1) 3 (Some ''19''), BK (-1) 3 (Some ''1a''), BK (-1) 3 (Some ''1b''),
    BK (-1) 3 (Some ''1c''), BK (-1) 3 (Some ''1d''), BK (-1) 3 (Some ''1e''), BK (-1) 3 (Some ''1f''),
    BK (-1) 1 (Some ''20''), BK (-1) 1 None, BK (-1) 3 (Some ''22''), BK (-1) 3 (Some ''23''),
    BK (-1) 3 (Some ''24''), BK (-1) 3 (Some ''25''), BK (-1) 3 (Some ''26''), BK (-1) 1 None,
    BK (-1) 1 None, BK (-1) 1 None, BK (-1) 1 None, BK (-1) 3 (Some ''2b''),
    BK (-1) 3 (Some ''2c''), BK (-1) 1 None, BK (-1) 1 None, BK (-1) 3 (Some ''2f''),
    BK 0 1 None, BK 1 1 None, BK 2 1 None, BK 3 1 None,
    BK 4 1 None, BK 5 1 None, BK 6 1 None, BK 7 1 None,
    BK 8 1 None, BK 9 1 None, BK (-1) 3 (Some ''3a''), BK (-1) 3 (Some ''3b''),
    BK (-1) 3 (Some ''3c''), BK (-1) 3 (Some ''3d''), BK (-1) 3 (Some ''3e''), BK (-1) 3 (Some ''3f''),
    BK (-1) 3 (Some ''40''), BK 10 1 None, BK 11 1 None, BK 12 1 None,
    BK 13 1 None, BK 14 1 None, BK 15 1 None, BK (-1) 1 None,
    BK (-1) 1 None, BK (-1) 1 None, BK (-1) 1 None, BK (-1) 1 None,
    BK (-1) 1 None, BK (-1) 1 None, BK (-1) 1 None, BK (-1) 1 None,
    BK (-1) 1 None, BK (-1) 1 None, BK (-1) 1 None, BK (-1) 1 None,
    BK (-1) 1 None, BK (-1) 1 None, BK (-1) 1 None, BK (-1) 1 None,
    BK (-1) 1 None, BK (-1) 1 None, BK (-1) 1 None, BK (-1) 3 (Some ''5b''),
    BK (-1) 3 (Some ''5c''), BK (-1) 3 (Some ''5d''), BK (-1) 3 (Some ''5e''), BK (-1) 1 None,
    BK (-1) 3 (Some ''60''), BK 10 1 None, BK 11 1 None, BK 12 1 None,
    BK 13 1 None, BK 14 1 None, BK 15 1 None, BK (-1) 1 None,
    BK (-1) 1 None, BK (-1) 1 None, BK (-1) 1 None, BK (-1) 1 None,
    BK (-1) 1 None, BK (-1) 1 None, BK (-1) 1 None, BK (-1) 1 None,
    BK (-1) 1 None, BK (-1) 1 None, BK (-1) 1 None, BK (-1) 1 None,
    BK (-1) 1 None, BK (-1) 1 None, BK (-1) 1 None, BK (-1) 1 None,
    BK (-1) 1 None, BK (-1) 1 None, BK (-1) 1 None, BK (-1) 3 (Some ''7b''),
    BK (-1) 3 (Some ''7c''), BK (-1) 3 (Some ''7d''), BK (-1) 1 None, BK (-1) 3 (Some ''7f''),
    BK (-1) 3 (Some ''80''), BK (-1) 3 (Some ''81''), BK (-1) 3 (Some ''82''), BK (-1) 3 (Some ''83''),
    BK (-1) 3 (Some ''84''), BK (-1) 3 (Some ''85''), BK (-1) 3 (Some ''86''), BK (-1) 3 (Some ''87''),
    BK (-1) 3 (Some ''88''), BK (-1) 3 (Some ''89''), BK (-1) 3 (Some ''8a''), BK (-1) 3 (Some ''8b''),
    BK (-1) 3 (Some ''8c''), BK (-1) 3 (Some ''8d''), BK (-1) 3 (Some ''8e''), BK (-1) 3 (Some ''8f''),
    BK (-1) 3 (Some ''90''), BK (-1) 3 (Some ''91''), BK (-1) 3 (Some ''92''), BK (-1) 3 (Some ''93''),
    BK (-1) 3 (Some ''94''), BK (-1) 3 (Some ''95''), BK (-1) 3 (Some ''96''), BK (-1) 3 (Some ''97''),
    BK (-1) 3 (Some ''98''), BK (-1) 3 (Some ''99''), BK (-1) 3 (Some ''9a''), BK (-1) 3 (Some ''9b''),
    BK (-1) 3 (Some ''9c''), BK (-1) 3 (Some ''9d''), BK (-1) 3 (Some ''9e''), BK (-1) 3 (Some ''9f''),
    BK (-1) 3 (Some ''a0''), BK (-1) 3 (Some ''a1''), BK (-1) 3 (Some ''a2''), BK (-1) 3 (Some ''a3''),
    BK (-1) 3 (Some ''a4''), BK (-1) 3 (Some ''a5''), BK (-1) 3 (Some ''a6''), BK (-1) 3 (Some ''a7''),
    BK (-1) 3 (Some ''a8''), BK (-1) 3 (Some ''a9''), BK (-1) 3 (Some ''aa''), BK (-1) 3 (Some ''ab''),
    BK (-1) 3 (Some ''ac''), BK (-1) 3 (Some ''ad''), BK (-1) 3 (Some ''ae''), BK (-1) 3 (Some ''af''),
    BK (-1) 3 (Some ''b0''), BK (-1) 3 (Some ''b1''), BK (-1) 3 (Some ''b2''), BK (-1) 3 (Some ''b3''),
    BK (-1) 3 (Some ''b4''), BK (-1) 3 (Some ''b5''), BK (-1) 3 (Some ''b6''), BK (-1) 3 (Some ''b7''),
    BK (-1) 3 (Some ''b8''), BK (-1) 3 (Some ''b9''), BK (-1) 3 (Some ''ba''), BK (-1) 3 (Some ''bb''),
    BK (-1) 3 (Some ''bc''), BK (-1) 3 (Some ''bd''), BK (-1) 3 (Some ''be''), BK (-1) 3 (Some ''bf''),
    BK (-1) 3 (Some ''c0''), BK (-1) 3 (Some ''c1''), BK (-1) 3 (Some ''c2''), BK (-1) 3 (Some ''c3''),
    BK (-1) 3 (Some ''c4''), BK (-1) 3 (Some ''c5''), BK (-1) 3 (Some ''c6''), BK (-1) 3 (Some ''c7''),
    BK (-1) 3 (Some ''c8''), BK (-1) 3 (Some ''c9''), BK (-1) 3 (Some ''ca''), BK (-1) 3 (Some ''cb''),
    BK (-1) 3 (Some ''cc''), BK (-1) 3 (Some ''cd''), BK (-1) 3 (Some ''ce''), BK (-1) 3 (Some ''cf''),
    BK (-1) 3 (Some ''d0''), BK (-1) 3 (Some ''d1''), BK (-1) 3 (Some ''d2''), BK (-1) 3 (Some ''d3''),
    BK (-1) 3 (Some ''d4''), BK (-1) 3 (Some ''d5''), BK (-1) 3 (Some ''d6''), BK (-1) 3 (Some ''d7''),
    BK (-1) 3 (Some ''d8''), BK (-1) 3 (Some ''d9''), BK (-1) 3 (Some ''da''), BK (-1) 3 (Some ''db''),
    BK (-1) 3 (Some ''dc''), BK (-1) 3 (Some ''dd''), BK (-1) 3 (Some ''de''), BK (-1) 3 (Some ''df''),
    BK (-1) 3 (Some ''e0''), BK (-1) 3 (Some ''e1''), BK (-1) 3 (Some ''e2''), BK (-1) 3 (Some ''e3''),
    BK (-1) 3 (Some ''e4''), BK (-1) 3 (Some ''e5''), BK (-1) 3 (Some ''e6''), BK (-1) 3 (Some ''e7''),
    BK (-1) 3 (Some ''e8''), BK (-1) 3 (Some ''e9''), BK (-1) 3 (Some ''ea''), BK (-1) 3 (Some ''eb''),
    BK (-1) 3 (Some ''ec''), BK (-1) 3 (Some ''ed''), BK (-1) 3 (Some ''ee''), BK (-1) 3 (Some ''ef''),
    BK (-1) 3 (Some ''f0''), BK (-1) 3 (Some ''f1''), BK (-1) 3 (Some ''f2''), BK (-1) 3 (Some ''f3''),
    BK (-1) 3 (Some ''f4''), BK (-1) 3 (Some ''f5''), BK (-1) 3 (Some ''f6''), BK (-1) 3 (Some ''f7''),
    BK (-1) 3 (Some ''f8''), BK (-1) 3 (Some ''f9''), BK (-1) 3 (Some ''fa''), BK (-1) 3 (Some ''fb''),
    BK (-1) 3 (Some ''fc''), BK (-1) 3 (Some ''fd''), BK (-1) 3 (Some ''fe''), BK (-1) 3 (Some ''ff'')]"

definition pathenc :: "ByteKey list" where
  "pathenc = [
    BK (-1) 3 (Some ''00''), BK (-1) 3 (Some ''01''), BK (-1) 3 (Some ''02''), BK (-1) 3 (Some ''03''),
    BK (-1) 3 (Some ''04''), BK (-1) 3 (Some ''05''), BK (-1) 3 (Some ''06''), BK (-1) 3 (Some ''07''),
    BK (-1) 3 (Some ''08''), BK (-1) 3 (Some ''09''), BK (-1) 3 (Some ''0a''), BK (-1) 3 (Some ''0b''),
    BK (-1) 3 (Some ''0c''), BK (-1) 3 (Some ''0d''), BK (-1) 3 (Some ''0e''), BK (-1) 3 (Some ''0f''),
    BK (-1) 3 (Some ''10''), BK (-1) 3 (Some ''11''), BK (-1) 3 (Some ''12''), BK (-1) 3 (Some ''13''),
    BK (-1) 3 (Some ''14''), BK (-1) 3 (Some ''15''), BK (-1) 3 (Some ''16''), BK (-1) 3 (Some ''17''),
    BK (-1) 3 (Some ''18''), BK (-1) 3 (Some ''19''), BK (-1) 3 (Some ''1a''), BK (-1) 3 (Some ''1b''),
    BK (-1) 3 (Some ''1c''), BK (-1) 3 (Some ''1d''), BK (-1) 3 (Some ''1e''), BK (-1) 3 (Some ''1f''),
    BK (-1) 3 (Some ''20''), BK (-1) 1 None, BK (-1) 3 (Some ''22''), BK (-1) 3 (Some ''23''),
    BK (-1) 1 None, BK (-1) 3 (Some ''25''), BK (-1) 1 None, BK (-1) 1 None,
    BK (-1) 1 None, BK (-1) 1 None, BK (-1) 1 None, BK (-1) 1 None,
    BK (-1) 1 None, BK (-1) 1 None, BK (-1) 1 None, BK (-1) 3 (Some ''2f''),
    BK 0 1 None, BK 1 1 None, BK 2 1 None, BK 3 1 None,
    BK 4 1 None, BK 5 1 None, BK 6 1 None, BK 7 1 None,
    BK 8 1 None, BK 9 1 None, BK (-1) 1 None, BK (-1) 3 (Some ''3b''),
    BK (-1) 3 (Some ''3c''), BK (-1) 3 (Some ''3d''), BK (-1) 3 (Some ''3e''), BK (-1) 3 (Some ''3f''),
    BK (-1) 1 None, BK 10 1 None, BK 11 1 None, BK 12 1 None,
    BK 13 1 None, BK 14 1 None, BK 15 1 None, BK (-1) 1 None,
    BK (-1) 1 None, BK (-1) 1 None, BK (-1) 1 None, BK (-1) 1 None,
    BK (-1) 1 None, BK (-1) 1 None, BK (-1) 1 None, BK (-1) 1 None,
    BK (-1) 1 None, BK (-1) 1 None, BK (-1) 1 None, BK (-1) 1 None,
    BK (-1) 1 None, BK (-1) 1 None, BK (-1) 1 None, BK (-1) 1 None,
    BK (-1) 1 None, BK (-1) 1 None, BK (-1) 1 None, BK (-1) 3 (Some ''5b''),
    BK (-1) 3 (Some ''5c''), BK (-1) 3 (Some ''5d''), BK (-1) 3 (Some ''5e''), BK (-1) 1 None,
    BK (-1) 3 (Some ''60''), BK 10 1 None, BK 11 1 None, BK 12 1 None,
    BK 13 1 None, BK 14 1 None, BK 15 1 None, BK (-1) 1 None,
    BK (-1) 1 None, BK (-1) 1 None, BK (-1) 1 None, BK (-1) 1 None,
    BK (-1) 1 None, BK (-1) 1 None, BK (-1) 1 None, BK (-1) 1 None,
    BK (-1) 1 None, BK (-1) 1 None, BK (-1) 1 None, BK (-1) 1 None,
    BK (-1) 1 None, BK (-1) 1 None, BK (-1) 1 None, BK (-1) 1 None,
    BK (-1) 1 None, BK (-1) 1 None, BK (-1) 1 None, BK (-1) 3 (Some ''7b''),
    BK (-1) 3 (Some ''7c''), BK (-1) 3 (Some ''7d''), BK (-1) 1 None, BK (-1) 3 (Some ''7f''),
    BK (-1) 3 (Some ''80''), BK (-1) 3 (Some ''81''), BK (-1) 3 (Some ''82''), BK (-1) 3 (Some ''83''),
    BK (-1) 3 (Some ''84''), BK (-1) 3 (Some ''85''), BK (-1) 3 (Some ''86''), BK (-1) 3 (Some ''87''),
    BK (-1) 3 (Some ''88''), BK (-1) 3 (Some ''89''), BK (-1) 3 (Some ''8a''), BK (-1) 3 (Some ''8b''),
    BK (-1) 3 (Some ''8c''), BK (-1) 3 (Some ''8d''), BK (-1) 3 (Some ''8e''), BK (-1) 3 (Some ''8f''),
    BK (-1) 3 (Some ''90''), BK (-1) 3 (Some ''91''), BK (-1) 3 (Some ''92''), BK (-1) 3 (Some ''93''),
    BK (-1) 3 (Some ''94''), BK (-1) 3 (Some ''95''), BK (-1) 3 (Some ''96''), BK (-1) 3 (Some ''97''),
    BK (-1) 3 (Some ''98''), BK (-1) 3 (Some ''99''), BK (-1) 3 (Some ''9a''), BK (-1) 3 (Some ''9b''),
    BK (-1) 3 (Some ''9c''), BK (-1) 3 (Some ''9d''), BK (-1) 3 (Some ''9e''), BK (-1) 3 (Some ''9f''),
    BK (-1) 3 (Some ''a0''), BK (-1) 3 (Some ''a1''), BK (-1) 3 (Some ''a2''), BK (-1) 3 (Some ''a3''),
    BK (-1) 3 (Some ''a4''), BK (-1) 3 (Some ''a5''), BK (-1) 3 (Some ''a6''), BK (-1) 3 (Some ''a7''),
    BK (-1) 3 (Some ''a8''), BK (-1) 3 (Some ''a9''), BK (-1) 3 (Some ''aa''), BK (-1) 3 (Some ''ab''),
    BK (-1) 3 (Some ''ac''), BK (-1) 3 (Some ''ad''), BK (-1) 3 (Some ''ae''), BK (-1) 3 (Some ''af''),
    BK (-1) 3 (Some ''b0''), BK (-1) 3 (Some ''b1''), BK (-1) 3 (Some ''b2''), BK (-1) 3 (Some ''b3''),
    BK (-1) 3 (Some ''b4''), BK (-1) 3 (Some ''b5''), BK (-1) 3 (Some ''b6''), BK (-1) 3 (Some ''b7''),
    BK (-1) 3 (Some ''b8''), BK (-1) 3 (Some ''b9''), BK (-1) 3 (Some ''ba''), BK (-1) 3 (Some ''bb''),
    BK (-1) 3 (Some ''bc''), BK (-1) 3 (Some ''bd''), BK (-1) 3 (Some ''be''), BK (-1) 3 (Some ''bf''),
    BK (-1) 3 (Some ''c0''), BK (-1) 3 (Some ''c1''), BK (-1) 3 (Some ''c2''), BK (-1) 3 (Some ''c3''),
    BK (-1) 3 (Some ''c4''), BK (-1) 3 (Some ''c5''), BK (-1) 3 (Some ''c6''), BK (-1) 3 (Some ''c7''),
    BK (-1) 3 (Some ''c8''), BK (-1) 3 (Some ''c9''), BK (-1) 3 (Some ''ca''), BK (-1) 3 (Some ''cb''),
    BK (-1) 3 (Some ''cc''), BK (-1) 3 (Some ''cd''), BK (-1) 3 (Some ''ce''), BK (-1) 3 (Some ''cf''),
    BK (-1) 3 (Some ''d0''), BK (-1) 3 (Some ''d1''), BK (-1) 3 (Some ''d2''), BK (-1) 3 (Some ''d3''),
    BK (-1) 3 (Some ''d4''), BK (-1) 3 (Some ''d5''), BK (-1) 3 (Some ''d6''), BK (-1) 3 (Some ''d7''),
    BK (-1) 3 (Some ''d8''), BK (-1) 3 (Some ''d9''), BK (-1) 3 (Some ''da''), BK (-1) 3 (Some ''db''),
    BK (-1) 3 (Some ''dc''), BK (-1) 3 (Some ''dd''), BK (-1) 3 (Some ''de''), BK (-1) 3 (Some ''df''),
    BK (-1) 3 (Some ''e0''), BK (-1) 3 (Some ''e1''), BK (-1) 3 (Some ''e2''), BK (-1) 3 (Some ''e3''),
    BK (-1) 3 (Some ''e4''), BK (-1) 3 (Some ''e5''), BK (-1) 3 (Some ''e6''), BK (-1) 3 (Some ''e7''),
    BK (-1) 3 (Some ''e8''), BK (-1) 3 (Some ''e9''), BK (-1) 3 (Some ''ea''), BK (-1) 3 (Some ''eb''),
    BK (-1) 3 (Some ''ec''), BK (-1) 3 (Some ''ed''), BK (-1) 3 (Some ''ee''), BK (-1) 3 (Some ''ef''),
    BK (-1) 3 (Some ''f0''), BK (-1) 3 (Some ''f1''), BK (-1) 3 (Some ''f2''), BK (-1) 3 (Some ''f3''),
    BK (-1) 3 (Some ''f4''), BK (-1) 3 (Some ''f5''), BK (-1) 3 (Some ''f6''), BK (-1) 3 (Some ''f7''),
    BK (-1) 3 (Some ''f8''), BK (-1) 3 (Some ''f9''), BK (-1) 3 (Some ''fa''), BK (-1) 3 (Some ''fb''),
    BK (-1) 3 (Some ''fc''), BK (-1) 3 (Some ''fd''), BK (-1) 3 (Some ''fe''), BK (-1) 3 (Some ''ff'')]"

definition byte_key :: "ByteKey list \<Rightarrow> char \<Rightarrow> ByteKey" where
  "byte_key enc c = enc ! of_char c"

datatype part = Query | Path

definition url_table :: "part \<Rightarrow> ByteKey list" where
  "url_table part = (if part = Query then queryenc else pathenc)"

record Tcl_Encoding =
  toExternal :: "string \<Rightarrow> string"
  toUtf :: "string \<Rightarrow> string"

section \<open>Encoding\<close>

definition enc_char :: "part \<Rightarrow> char \<Rightarrow> string" where
  "enc_char part p =
     (case bk_str (byte_key (url_table part) p) of
        None \<Rightarrow> [p]
      | Some str \<Rightarrow> if p = CHR '' '' \<and> part = Query then ''+'' else [CHR ''%'', str ! 0, str ! 1])"

text \<open>The length the dstring is extended by before the characters are written to it.\<close>

definition enc_length :: "part \<Rightarrow> string \<Rightarrow> nat" where
  "enc_length part s = sum_list (map (\<lambda>p. bk_len (byte_key (url_table part) p)) s)"

definition UrlEncode :: "string \<Rightarrow> string \<Rightarrow> Tcl_Encoding option \<Rightarrow> part \<Rightarrow> string" where
  "UrlEncode ds urlSegment encoding part =
     (let ext = (case encoding of None \<Rightarrow> urlSegment | Some e \<Rightarrow> toExternal e urlSegment)
      in ds @ concat (map (enc_char part) (cstr ext)))"

section \<open>Decoding\<close>

definition dec_plain :: "part \<Rightarrow> char \<Rightarrow> char" where
  "dec_plain part p = (if p = CHR ''+'' \<and> part = Query then CHR '' '' else p)"

fun dec_chars :: "part \<Rightarrow> string \<Rightarrow> string" where
  "dec_chars part (p # p1 # p2 # ps) =
     (let i = bk_hex (byte_key (url_table part) p1); j = bk_hex (byte_key (url_table part) p2) in
      if p = CHR ''%'' \<and> i \<ge> 0 \<and> j \<ge> 0
      then char_of (nat ((i * 16) mod 256 + j) mod 256) # dec_chars part ps
      else dec_plain part p # dec_chars part (p1 # p2 # ps))"
| "dec_chars part (p # ps) = dec_plain part p # dec_chars part ps"
| "dec_chars part [] = []"

text \<open>
  Without an encoding the characters are written behind the current content of the dstring, but its
  length is then set to the number of characters written alone.
\<close>

definition UrlDecode :: "string \<Rightarrow> string \<Rightarrow> Tcl_Encoding option \<Rightarrow> part \<Rightarrow> string" where
  "UrlDecode ds urlSegment encoding part =
     (let out = dec_chars part (cstr urlSegment); n = length out
      in case encoding of
           None \<Rightarrow> take n (ds @ out)
         | Some e \<Rightarrow> ds @ cstr (toUtf e out))"

definition Ns_UrlPathEncode where "Ns_UrlPathEncode ds s encoding = UrlEncode ds s encoding Path"
definition Ns_UrlPathDecode where "Ns_UrlPathDecode ds s encoding = UrlDecode ds s encoding Path"
definition Ns_UrlQueryEncode where "Ns_UrlQueryEncode ds s encoding = UrlEncode ds s encoding Query"
definition Ns_UrlQueryDecode where "Ns_UrlQueryDecode ds s encoding = UrlDecode ds s encoding Query"

section \<open>The Tcl commands\<close>

text \<open>The loop of \<open>ns_urlencode\<close> over its arguments, and \<open>ns_urldecode\<close>, after option parsing.\<close>

fun urlencode_args :: "string \<Rightarrow> string list \<Rightarrow> Tcl_Encoding option \<Rightarrow> part \<Rightarrow> string" where
  "urlencode_args ds [] encoding part = ds"
| "urlencode_args ds (a # as) encoding part =
     (let ds = UrlEncode ds a encoding part
      in if as = [] then ds
         else urlencode_args (ds @ (if part = Query then ''&'' else ''/'')) as encoding part)"

definition NsTclUrlEncodeObjCmd :: "string list \<Rightarrow> Tcl_Encoding option \<Rightarrow> part \<Rightarrow> string" where
  "NsTclUrlEncodeObjCmd args encoding part = urlencode_args [] args encoding part"

definition NsTclUrlDecodeObjCmd :: "string \<Rightarrow> Tcl_Encoding option \<Rightarrow> part \<Rightarrow> string" where
  "NsTclUrlDecodeObjCmd arg encoding part = UrlDecode [] arg encoding part"

section \<open>Facts on the tables\<close>

text \<open>
  An entry is checked against its own character; the hexadecimal digits that occur in the entries
  are looked up in a list of sixteen, which agrees with the \<open>hex\<close> fields of both tables.
\<close>

definition hex_digits :: "(char \<times> int) list" where
  "hex_digits = zip ''0123456789abcdef'' [0..15]"

definition key_ok :: "part \<Rightarrow> char \<Rightarrow> ByteKey \<Rightarrow> bool" where
  "key_ok part c k =
     (case bk_str k of
        None \<Rightarrow> bk_len k = 1 \<and> c \<noteq> CHR ''%'' \<and> (part = Query \<longrightarrow> c \<noteq> CHR ''+'')
      | Some s \<Rightarrow>
          if c = CHR '' '' \<and> part = Query then bk_len k = 1
          else bk_len k = 3 \<and>
            (case (map_of hex_digits (s ! 0), map_of hex_digits (s ! 1)) of
               (Some i, Some j) \<Rightarrow> i * 16 + j = of_char c | _ \<Rightarrow> False))"

lemma tables_ok:
  "length queryenc = 256 \<and> length pathenc = 256"
  "list_all (\<lambda>(c, k). key_ok Query c k) (zip Enum.enum queryenc)"
  "list_all (\<lambda>(c, k). key_ok Path c k) (zip Enum.enum pathenc)"
  by code_simp+

lemma hex_digits_ok:
  "list_all (\<lambda>(c, i). bk_hex (byte_key queryenc c) = i \<and> bk_hex (byte_key pathenc c) = i \<and> 0 \<le> i \<and> i < 16) hex_digits"
  by code_simp

lemma map_of_hex: "map_of hex_digits c = Some i \<Longrightarrow> bk_hex (byte_key (url_table part) c) = i \<and> 0 \<le> i \<and> i < 16"
  using hex_digits_ok by (auto simp: list_all_iff url_table_def dest: map_of_SomeD)

lemma table_nth:
  assumes "length tbl = 256" "list_all (\<lambda>(c, k). P c k) (zip Enum.enum tbl)"
  shows "P c (byte_key tbl c)"
proof -
  have c: "(of_char c :: nat) < 256" by simp
  then have "(c, tbl ! of_char c) \<in> set (zip Enum.enum tbl)"
    using assms(1) by (auto simp: in_set_zip enum_char_unfold intro!: exI [of _ "of_char c"])
  then show ?thesis using assms(2) by (auto simp: list_all_iff byte_key_def)
qed

lemma key_ok: "key_ok part c (byte_key (url_table part) c)"
  using table_nth [OF tables_ok(1) [THEN conjunct1] tables_ok(2)]
    table_nth [OF tables_ok(1) [THEN conjunct2] tables_ok(3)]
  by (cases part) (simp_all add: url_table_def)

text \<open>The characters of an encoded component: those kept as they are, \<open>%\<close>, hexadecimal digits and \<open>+\<close>.\<close>

definition safe_char :: "part \<Rightarrow> char \<Rightarrow> bool" where
  "safe_char part c \<longleftrightarrow> isalnum c \<or> c \<in> set ''-_.!~*()'' \<or> c = CHR 0x27 \<or> c = CHR ''%'' \<or> c = CHR ''+'' \<or>
     part = Path \<and> c \<in> set '':@&$,''"

definition key_safe :: "part \<Rightarrow> char \<Rightarrow> ByteKey \<Rightarrow> bool" where
  "key_safe part c k =
     (case bk_str k of None \<Rightarrow> safe_char part c | Some s \<Rightarrow> safe_char part (s ! 0) \<and> safe_char part (s ! 1))"

lemma tables_safe:
  "list_all (\<lambda>(c, k). key_safe Query c k) (zip Enum.enum queryenc)"
  "list_all (\<lambda>(c, k). key_safe Path c k) (zip Enum.enum pathenc)"
  by code_simp+

lemma key_safe: "key_safe part c (byte_key (url_table part) c)"
  using table_nth [OF tables_ok(1) [THEN conjunct1] tables_safe(1)]
    table_nth [OF tables_ok(1) [THEN conjunct2] tables_safe(2)]
  by (cases part) (simp_all add: url_table_def)

lemma enc_char_safe: "d \<in> set (enc_char part c) \<Longrightarrow> safe_char part d"
  using key_safe [of part c] by (auto simp: key_safe_def enc_char_def safe_char_def split: option.splits if_splits)



lemma length_enc_char: "length (enc_char part c) = bk_len (byte_key (url_table part) c)"
  using key_ok [of part c] by (auto simp: key_ok_def enc_char_def Let_def split: option.splits if_splits)

lemma hex_value:
  assumes "i * 16 + j = (of_char c :: int)" "0 \<le> i" "i < 16" "0 \<le> j"
  shows "char_of (nat ((i * 16) mod 256 + j) mod 256) = c"
proof -
  have "(i * 16) mod 256 = i * 16" using assms(2,3) by simp
  then have "nat ((i * 16) mod 256 + j) = of_char c"
    using assms(1) by (metis nat_int of_nat_of_char)
  then show ?thesis by simp
qed

lemma dec_plain_cons:
  "c \<noteq> CHR ''%'' \<Longrightarrow> dec_chars part (c # s) = dec_plain part c # dec_chars part s"
  by (cases s; cases "tl s") auto

lemma dec_enc_char: "dec_chars part (enc_char part c @ s) = c # dec_chars part s"
proof (cases "bk_str (byte_key (url_table part) c)")
  case None
  then have "c \<noteq> CHR ''%'' \<and> (part = Query \<longrightarrow> c \<noteq> CHR ''+'')"
    using key_ok [of part c] by (auto simp: key_ok_def)
  then show ?thesis by (auto simp: enc_char_def None dec_plain_cons dec_plain_def)
next
  case (Some str)
  show ?thesis
  proof (cases "c = CHR '' '' \<and> part = Query")
    case True
    then have "enc_char part c = ''+''" using Some by (simp add: enc_char_def)
    then show ?thesis using True by (simp add: dec_plain_cons dec_plain_def)
  next
    case False
    then obtain i j where ij: "map_of hex_digits (str ! 0) = Some i" "map_of hex_digits (str ! 1) = Some j"
      and c: "i * 16 + j = of_char c"
      using key_ok [of part c] Some False by (fastforce simp: key_ok_def split: option.splits if_splits)
    have "enc_char part c = [CHR ''%'', str ! 0, str ! 1]" using False Some by (simp add: enc_char_def)
    with map_of_hex [OF ij(1), of part] map_of_hex [OF ij(2), of part] hex_value [OF c] show ?thesis
      by (simp add: Let_def del: char_of_mod_256)
  qed
qed

section \<open>The codecs\<close>

lemma query_sep: "CHR ''&'' \<notin> set (enc_char Query c)"
  using enc_char_safe [of "CHR ''&''" Query c]
  by (auto simp: safe_char_def isalnum_def isupper_def islower_def isdigit_def)

lemma path_sep: "CHR ''/'' \<notin> set (enc_char Path c)"
  using enc_char_safe [of "CHR ''/''" Path c]
  by (auto simp: safe_char_def isalnum_def isupper_def islower_def isdigit_def)

interpretation query: joined_codec "enc_char Query" "dec_chars Query" "\<lambda>c. True" "CHR ''&''"
  by unfold_locales (simp_all add: dec_enc_char query_sep)

interpretation path: joined_codec "enc_char Path" "dec_chars Path" "\<lambda>c. True" "CHR ''/''"
  by unfold_locales (simp_all add: dec_enc_char path_sep)

lemma dec_enc: "dec_chars part (concat (map (enc_char part) s)) = s"
  using query.round_trip path.round_trip by (cases part) auto

lemma enc_no_nul: "CHR 0x00 \<notin> set (concat (map (enc_char part) s))"
  using enc_char_safe [of "CHR 0x00" part]
  by (auto simp: safe_char_def isalnum_def isupper_def islower_def isdigit_def)

lemma length_enc: "length (concat (map (enc_char part) s)) = enc_length part s"
  by (simp add: length_concat comp_def length_enc_char enc_length_def)

lemma urlencode_args_join:
  "urlencode_args ds args encoding part =
   ds @ join_with [if part = Query then CHR ''&'' else CHR ''/''] (map (\<lambda>a. UrlEncode [] a encoding part) args)"
proof (induction ds args encoding part rule: urlencode_args.induct)
  case (2 ds a as encoding part)
  then show ?case by (cases as) (auto simp: Let_def UrlEncode_def)
qed simp

lemma length_dec_chars: "length (dec_chars part s) \<le> length s"
proof (induction part s rule: dec_chars.induct)
  case (1 part p p1 p2 ps)
  show ?case
  proof (cases "p = CHR ''%'' \<and> bk_hex (byte_key (url_table part) p1) \<ge> 0 \<and> bk_hex (byte_key (url_table part) p2) \<ge> 0")
    case True
    then have "length (dec_chars part ps) \<le> length ps" using "1.IH"(1) by blast
    then show ?thesis using True by (simp add: Let_def)
  next
    case False
    then have "length (dec_chars part (p1 # p2 # ps)) \<le> length (p1 # p2 # ps)" using "1.IH"(2) by blast
    then show ?thesis using False by (simp only: dec_chars.simps(1) Let_def if_False list.size)
  qed
qed auto

section \<open>Properties\<close>

text \<open>
  C34: decoding a percent-encoded component gives the component back, for the query and the path
  tables, without an encoding and with any Tcl encoding that itself round-trips the string.
\<close>

theorem url_encode_round_trip:
  assumes "CHR 0x00 \<notin> set s"
    and "\<And>e. encoding = Some e \<Longrightarrow> CHR 0x00 \<notin> set (toExternal e s) \<and> toUtf e (toExternal e s) = s"
  shows "UrlDecode [] (UrlEncode [] s encoding part) encoding part = s"
proof -
  let ?ext = "case encoding of None \<Rightarrow> s | Some e \<Rightarrow> toExternal e s"
  have "cstr ?ext = ?ext" using assms by (auto intro: cstr_id split: option.splits)
  then have "UrlEncode [] s encoding part = concat (map (enc_char part) ?ext)" by (simp add: UrlEncode_def)
  moreover have "cstr (concat (map (enc_char part) ?ext)) = concat (map (enc_char part) ?ext)"
    by (rule cstr_id [OF enc_no_nul])
  ultimately show ?thesis using assms by (auto simp: UrlDecode_def dec_enc cstr_id split: option.splits)
qed

lemma url_encode_round_trip_witness:
  "UrlDecode [] (UrlEncode [] ''a b/&%'' (Some \<lparr>toExternal = rev, toUtf = rev\<rparr>) Query)
     (Some \<lparr>toExternal = rev, toUtf = rev\<rparr>) Query = ''a b/&%''"
  by (rule url_encode_round_trip) auto

text \<open>
  The arguments of \<open>ns_urlencode\<close> can be recovered from its result: splitting at the separator
  and decoding every segment gives the argument list, because no encoded segment contains the
  separator of its component.
\<close>

theorem urlencode_args_recovered:
  assumes "args \<noteq> []" and "\<forall>a \<in> set args. CHR 0x00 \<notin> set a"
  shows "map (\<lambda>w. NsTclUrlDecodeObjCmd w None part)
           (split_on (if part = Query then CHR ''&'' else CHR ''/'') (NsTclUrlEncodeObjCmd args None part)) = args"
proof -
  let ?sep = "if part = Query then CHR ''&'' else CHR ''/''"
  have enc: "map (\<lambda>a. UrlEncode [] a None part) args = map (\<lambda>a. concat (map (enc_char part) a)) args"
    using assms(2) by (auto simp: UrlEncode_def cstr_id)
  have split: "map (dec_chars part) (split_on ?sep (join_with [?sep] (map (\<lambda>a. concat (map (enc_char part) a)) args))) = args"
    using query.split_joined path.split_joined assms(1) by (cases part) simp_all
  have "cstr w = w" if "w \<in> set (split_on ?sep (join_with [?sep] (map (\<lambda>a. concat (map (enc_char part) a)) args)))" for w
  proof -
    have "w \<in> set (map (\<lambda>a. concat (map (enc_char part) a)) args)"
      using that assms(1) query_sep path_sep by (cases part; subst (asm) split_on_join) auto
    then show ?thesis using enc_no_nul by (intro cstr_id) auto
  qed
  with split show ?thesis
    by (simp add: NsTclUrlEncodeObjCmd_def NsTclUrlDecodeObjCmd_def UrlDecode_def urlencode_args_join enc cong: map_cong)
qed

lemma urlencode_args_recovered_witness:
  "map (\<lambda>w. NsTclUrlDecodeObjCmd w None Path) (split_on CHR ''/'' (NsTclUrlEncodeObjCmd [''a/b'', ''c'', ''''] None Path)) =
   [''a/b'', ''c'', '''']"
  using urlencode_args_recovered [of "[''a/b'', ''c'', '''']" Path] by simp

text \<open>
  The length by which the dstring is extended before encoding is exactly the number of
  characters written to it, and these are unreserved characters, \<open>%\<close>, \<open>+\<close> and, in a path, the
  delimiters a path segment may hold; decoding never needs more room than its input has.
\<close>

theorem url_encode_bounds:
  "length (UrlEncode ds s None part) = length ds + enc_length part (cstr s) \<and>
   list_all (safe_char part) (UrlEncode [] s encoding part) \<and>
   length (dec_chars part s) \<le> length s"
proof (intro conjI)
  show "length (dec_chars part s) \<le> length s"
    by (rule length_dec_chars)
qed (auto simp: UrlEncode_def length_enc list_all_iff dest: enc_char_safe)

text \<open>
  Without an encoding, decoding into a dstring that is not empty does not append: the dstring is
  cut to the length of the decoded text, and what is left starts with the old content.
\<close>

theorem url_decode_truncates:
  assumes "ds \<noteq> []" and "s \<noteq> []" and "CHR 0x00 \<notin> set s"
  shows "length (UrlDecode ds s None part) = length (dec_chars part s) \<and>
    hd (UrlDecode ds s None part) = hd ds"
proof -
  have "dec_chars part s \<noteq> []" using assms(2) by (cases "(part, s)" rule: dec_chars.cases) (auto simp: Let_def)
  then show ?thesis using assms by (cases ds; cases "dec_chars part s") (auto simp: UrlDecode_def cstr_id)
qed

lemma url_decode_truncates_witness:
  "hd (UrlDecode ''xy'' ''a%20b'' None Path) = CHR ''x''"
  using url_decode_truncates [of "''xy''" "''a%20b''" Path] by simp

end
