(* ===== verification/Pathname.thy ===== *)
theory Pathname
  imports NsStr Codec
begin

text \<open>
  Path construction and normalisation of \<open>nsd/pathname.c\<close>.  A dstring is the list of its
  characters; every function returns the dstring it appended to.  The virtual host configuration
  and the directories of a server are a record; a registered server root callback and the
  \<open>Host\<close> header of the current connection are parameters.
\<close>

declare dropWhile_eq_Nil_conv [simp del]

section \<open>Slashes and segments\<close>

definition ISSLASH :: "char \<Rightarrow> bool" where
  "ISSLASH c \<longleftrightarrow> c = CHR ''/'' \<or> c = CHR 0x5C"

definition isalpha :: "char \<Rightarrow> bool" where
  "isalpha c \<longleftrightarrow> isupper c \<or> islower c"

definition Ns_PathIsAbsolute :: "string \<Rightarrow> bool" where
  "Ns_PathIsAbsolute path \<longleftrightarrow> path \<noteq> [] \<and> ISSLASH (hd path)"

section \<open>Normalisation\<close>

text \<open>\<open>strrchr\<close>: the position of the last occurrence.\<close>

fun strrchr :: "string \<Rightarrow> char \<Rightarrow> nat option" where
  "strrchr [] c = None"
| "strrchr (d # s) c =
     (case strrchr s c of Some i \<Rightarrow> Some (Suc i) | None \<Rightarrow> if d = c then Some 0 else None)"

definition norm_part :: "string \<Rightarrow> string \<Rightarrow> string" where
  "norm_part ds part =
     (if part = ''..'' then
        (case strrchr ds CHR ''/'' of None \<Rightarrow> ds | Some slash \<Rightarrow> take slash ds)
      else if part \<noteq> [] \<and> part \<noteq> ''.'' then ds @ ''/'' @ part
      else ds)"

function norm_loop :: "string \<Rightarrow> string \<Rightarrow> string" where
  "norm_loop ds src =
     (let part = takeWhile (\<lambda>c. \<not> ISSLASH c) src;
          end = dropWhile (\<lambda>c. \<not> ISSLASH c) src;
          ds = norm_part ds part
      in if end = [] then ds else norm_loop ds (tl end))"
  by auto
termination
proof (relation "measure (\<lambda>(ds, src). length src)", simp, goal_cases)
  case (1 ds src p e ds')
  then have "length (tl e) < length e" "length e \<le> length src" by (simp_all add: length_dropWhile_le)
  then show ?case by simp
qed

declare norm_loop.simps [simp del]

definition Ns_NormalizePath :: "string \<Rightarrow> string \<Rightarrow> string" where
  "Ns_NormalizePath ds path =
     (let ds = norm_loop ds (dropWhile ISSLASH (cstr path))
      in if ds = [] then ''/'' else ds)"

section \<open>Building paths\<close>

function make_path_loop :: "string \<Rightarrow> string \<Rightarrow> string" where
  "make_path_loop dest s =
     (if s = [] then dest
      else let s1 = dropWhile ISSLASH s
           in if s1 = [] then dest
              else make_path_loop (dest @ ''/'' @ takeWhile (\<lambda>c. \<not> ISSLASH c) s1)
                     (dropWhile (\<lambda>c. \<not> ISSLASH c) s1))"
  by auto
termination
proof (relation "measure (\<lambda>(dest, s). length s)", simp, goal_cases)
  case (1 dest s s1)
  then obtain c cs where c: "s1 = c # cs" using neq_Nil_conv by metis
  have "\<not> ISSLASH c" using hd_dropWhile [of ISSLASH s] 1 c by (metis list.sel(1))
  then have "length (dropWhile (\<lambda>c. \<not> ISSLASH c) s1) < length s1"
    using c by (simp add: le_imp_less_Suc length_dropWhile_le)
  also have "\<dots> \<le> length s" using length_dropWhile_le [of ISSLASH s] 1 by simp
  finally show ?case by simp
qed

declare make_path_loop.simps [simp del]

definition make_path_arg :: "string \<Rightarrow> string \<Rightarrow> string" where
  "make_path_arg dest s =
     (if length s > 1 \<and> isalpha (s ! 0) \<and> s ! 1 = CHR '':''
      then make_path_loop (dest @ take 2 s) (drop 2 s)
      else make_path_loop dest s)"

text \<open>The variable arguments end at the first NULL.\<close>

fun MakePath :: "string \<Rightarrow> string option list \<Rightarrow> string" where
  "MakePath dest [] = dest"
| "MakePath dest (None # args) = dest"
| "MakePath dest (Some s # args) = MakePath (make_path_arg dest s) args"

definition Ns_MakePath :: "string \<Rightarrow> string option list \<Rightarrow> string" where
  "Ns_MakePath ds args = MakePath ds args"

text \<open>
  The test before a level's slash reads the character behind the last one of the dstring, which is
  always the terminating NUL.
\<close>

fun hash_loop :: "string \<Rightarrow> string \<Rightarrow> nat \<Rightarrow> string" where
  "hash_loop ds p 0 = ds"
| "hash_loop ds p (Suc n) =
     (let ds = (if (ds @ [CHR 0x00]) ! length ds \<noteq> CHR ''/'' then ds @ ''/'' else ds);
          p = dropWhile (\<lambda>c. c = CHR ''.'' \<or> ISSLASH c) p
      in if p \<noteq> [] then hash_loop (ds @ [hd p]) (tl p) n
         else hash_loop (ds @ ''_'') p n)"

definition Ns_HashPath :: "string \<Rightarrow> string \<Rightarrow> int \<Rightarrow> string" where
  "Ns_HashPath ds path levels = hash_loop ds path (nat levels)"

section \<open>Server directories\<close>

record NsServer =
  vhost_enabled :: bool
  vhost_strip_www :: bool
  vhost_strip_port :: bool
  vhost_hostprefix :: "string option"
  vhost_hosthashlevel :: int
  vhost_serverRootProc :: "(string \<Rightarrow> string option \<Rightarrow> string \<times> bool) option"
  fastpath_pagedir :: string
  fastpath_serverdir :: string

definition def_path :: "string \<Rightarrow> NsServer \<Rightarrow> string" where
  "def_path dest servPtr = Ns_MakePath dest [Some (fastpath_serverdir servPtr), None]"

definition safe_host :: "NsServer \<Rightarrow> string \<Rightarrow> string" where
  "safe_host servPtr rawHost =
     (let h = Ns_StrToLower rawHost;
          h = (if vhost_strip_www servPtr \<and> take 4 h = ''www.'' then drop 4 h else h)
      in if vhost_strip_port servPtr
         then (case strrchr h CHR '':'' of None \<Rightarrow> h | Some p \<Rightarrow> take p h) else h)"

definition ServerRoot :: "string \<Rightarrow> NsServer \<Rightarrow> string option \<Rightarrow> string option \<Rightarrow> string" where
  "ServerRoot dest servPtr rawHost connHost =
     (case vhost_serverRootProc servPtr of
        Some proc \<Rightarrow> (case proc dest rawHost of (dest', ok) \<Rightarrow> if ok then dest' else def_path dest' servPtr)
      | None \<Rightarrow>
          (case (if rawHost \<noteq> None then rawHost else connHost) of
             None \<Rightarrow> def_path dest servPtr
           | Some host \<Rightarrow>
               if vhost_enabled servPtr \<and> host \<noteq> [] \<and> Ns_StrIsHost host then
                 (let safehost = safe_host servPtr host;
                      dest = Ns_MakePath dest [Some (fastpath_serverdir servPtr), vhost_hostprefix servPtr, None];
                      dest = (if vhost_hosthashlevel servPtr > 0
                              then Ns_HashPath dest safehost (vhost_hosthashlevel servPtr) else dest)
                  in Ns_NormalizePath dest safehost)
               else def_path dest servPtr))"

definition NsPageRoot :: "string \<Rightarrow> NsServer \<Rightarrow> string option \<Rightarrow> string option \<Rightarrow> string" where
  "NsPageRoot ds servPtr host connHost =
     (if Ns_PathIsAbsolute (fastpath_pagedir servPtr) then ds @ fastpath_pagedir servPtr
      else Ns_MakePath (ServerRoot ds servPtr host connHost) [Some (fastpath_pagedir servPtr), None])"

text \<open>The servers known by name are a map; the home directory is a parameter.\<close>

definition Ns_ServerPath :: "(string \<rightharpoonup> NsServer) \<Rightarrow> string \<Rightarrow> string \<Rightarrow> string option list \<Rightarrow> string option \<Rightarrow> string option" where
  "Ns_ServerPath servers ds server args connHost =
     (case servers server of None \<Rightarrow> None
      | Some servPtr \<Rightarrow> Some (MakePath (ServerRoot ds servPtr None connHost) args))"

definition Ns_PagePath :: "(string \<rightharpoonup> NsServer) \<Rightarrow> string \<Rightarrow> string \<Rightarrow> string option list \<Rightarrow> string option \<Rightarrow> string option" where
  "Ns_PagePath servers ds server args connHost =
     (case servers server of None \<Rightarrow> None
      | Some servPtr \<Rightarrow> Some (MakePath (NsPageRoot ds servPtr None connHost) args))"

definition Ns_LibPath :: "string \<Rightarrow> string \<Rightarrow> string option list \<Rightarrow> string" where
  "Ns_LibPath home ds args = MakePath (Ns_MakePath ds [Some home, Some ''lib'', None]) args"

definition Ns_BinPath :: "string \<Rightarrow> string \<Rightarrow> string option list \<Rightarrow> string" where
  "Ns_BinPath home ds args = MakePath (Ns_MakePath ds [Some home, Some ''bin'', None]) args"

definition Ns_HomePath :: "string \<Rightarrow> string \<Rightarrow> string option list \<Rightarrow> string" where
  "Ns_HomePath home ds args = MakePath (Ns_MakePath ds [Some home, None]) args"

definition Ns_ModulePath :: "string \<Rightarrow> string \<Rightarrow> string option \<Rightarrow> string option \<Rightarrow> string option list \<Rightarrow> string" where
  "Ns_ModulePath home ds server module args =
     (let ds = Ns_MakePath ds [Some home, None];
          ds = (if server \<noteq> None then Ns_MakePath ds [Some ''servers'', server, None] else ds);
          ds = (if module \<noteq> None then Ns_MakePath ds [Some ''modules'', module, None] else ds)
      in MakePath ds args)"

datatype path_cmd = ServerCmd | PageCmd

text \<open>\<open>ns_serverpath\<close> and \<open>ns_pagepath\<close> with the server of the interpreter and the one being initialised.\<close>

definition PathObjCmd :: "NsServer option \<Rightarrow> NsServer option \<Rightarrow> path_cmd \<Rightarrow> string option \<Rightarrow> string list \<Rightarrow> string option \<Rightarrow> string + string" where
  "PathObjCmd itServ initServ cmd host paths connHost =
     (case (if itServ \<noteq> None then itServ else initServ) of
        None \<Rightarrow> Inl ''no server available''
      | Some servPtr \<Rightarrow>
          Inr (foldl (\<lambda>ds p. Ns_MakePath ds [Some p, None])
            (if cmd = PageCmd then NsPageRoot [] servPtr host connHost else ServerRoot [] servPtr host connHost) paths))"

definition NsTclHashPathObjCmd :: "string \<Rightarrow> int option \<Rightarrow> string + string" where
  "NsTclHashPathObjCmd s levels =
     (case levels of
        None \<Rightarrow> Inl ''levels must be an interger greater than zero''
      | Some n \<Rightarrow> if n \<le> 0 then Inl ''levels must be an interger greater than zero''
                  else Inr (Ns_HashPath [] s n))"

definition NsTclModulePathObjCmd :: "string \<Rightarrow> string list \<Rightarrow> string + string" where
  "NsTclModulePathObjCmd home args =
     (case args of
        [] \<Rightarrow> Inl ''wrong # args''
      | server # rest \<Rightarrow>
          Inr (foldl (\<lambda>ds p. Ns_MakePath ds [Some p, None])
            (Ns_ModulePath home [] (Some server) (case rest of [] \<Rightarrow> None | m # _ \<Rightarrow> Some m) [None])
            (drop 1 rest)))"

section \<open>The reference: a stack of segments\<close>

definition parts :: "string \<Rightarrow> string list" where
  "parts s = split_on CHR ''/'' (map (\<lambda>c. if ISSLASH c then CHR ''/'' else c) s)"

definition push :: "string list \<Rightarrow> string \<Rightarrow> string list" where
  "push st p = (if p = ''..'' then butlast st else if p = [] \<or> p = ''.'' then st else st @ [p])"

definition render :: "string list \<Rightarrow> string" where
  "render st = concat (map (\<lambda>p. CHR ''/'' # p) st)"

definition clean_seg :: "string \<Rightarrow> bool" where
  "clean_seg p \<longleftrightarrow> p \<noteq> [] \<and> p \<noteq> ''.'' \<and> p \<noteq> ''..'' \<and> list_all (\<lambda>c. \<not> ISSLASH c) p"

definition normal_segs :: "string \<Rightarrow> string list" where
  "normal_segs path = foldl push [] (parts path)"

lemma render_simps [simp]: "render [] = []" "render (st @ st') = render st @ render st'" "render [p] = CHR ''/'' # p"
  "render (p # st) = CHR ''/'' # p @ render st"
  by (simp_all add: render_def)

lemma render_empty [simp]: "render st = [] \<longleftrightarrow> st = []"
  by (cases st) auto

lemma parts_nil: "parts [] = [[]]"
  by (simp add: parts_def)

lemma parts_step:
  "parts s = takeWhile (\<lambda>c. \<not> ISSLASH c) s #
     (let e = dropWhile (\<lambda>c. \<not> ISSLASH c) s in if e = [] then [] else parts (tl e))"
proof (induction s)
  case (Cons c s)
  have sl: "c = CHR ''/'' \<Longrightarrow> ISSLASH c" by (simp add: ISSLASH_def)
  show ?case
  proof (cases "ISSLASH c")
    case False
    have "parts (c # s) = (case parts s of [] \<Rightarrow> [[c]] | w # ws \<Rightarrow> (c # w) # ws)"
      using False sl by (auto simp: parts_def)
    then show ?thesis using False by (subst (asm) Cons) (simp add: Let_def)
  qed (simp add: parts_def)
qed (simp add: parts_nil)

lemma parts_slash: "ISSLASH c \<Longrightarrow> parts (c # s) = [] # parts s"
  by (simp add: parts_def)

lemma parts_clean: "p \<in> set (parts s) \<Longrightarrow> c \<in> set p \<Longrightarrow> \<not> ISSLASH c"
proof (induction "length s" arbitrary: s rule: less_induct)
  case less
  let ?e = "dropWhile (\<lambda>c. \<not> ISSLASH c) s"
  have "p = takeWhile (\<lambda>c. \<not> ISSLASH c) s \<or> ?e \<noteq> [] \<and> p \<in> set (parts (tl ?e))"
    using less.prems(1) by (subst (asm) parts_step) (auto simp: Let_def split: if_splits)
  moreover have "?e \<noteq> [] \<Longrightarrow> length (tl ?e) < length s"
    using length_dropWhile_le [of "\<lambda>c. \<not> ISSLASH c" s] by (cases ?e) auto
  ultimately show ?case using less by (metis set_takeWhileD)
qed

lemma strrchr_app: "c \<notin> set t \<Longrightarrow> strrchr (s @ c # t) c = Some (length s)"
proof -
  assume "c \<notin> set t"
  then have "strrchr t c = None" by (induction t) auto
  then show ?thesis by (induction s) auto
qed

lemma norm_part_render:
  assumes "\<forall>p \<in> set st. clean_seg p"
  shows "norm_part (render st) p = render (push st p)"
proof (cases "p = ''..''")
  case True
  show ?thesis
  proof (cases st rule: rev_cases)
    case (snoc st' q)
    then have "CHR ''/'' \<notin> set q" using assms by (auto simp: clean_seg_def list_all_iff ISSLASH_def)
    then show ?thesis using True snoc by (simp add: norm_part_def push_def strrchr_app)
  qed (simp add: True norm_part_def push_def)
qed (simp add: norm_part_def push_def)

lemma push_clean:
  "\<forall>q \<in> set st. clean_seg q \<Longrightarrow> \<forall>c \<in> set p. \<not> ISSLASH c \<Longrightarrow> q \<in> set (push st p) \<Longrightarrow> clean_seg q"
  by (auto simp: push_def clean_seg_def list_all_iff split: if_splits dest: in_set_butlastD)

lemma foldl_push_clean:
  "\<forall>q \<in> set st. clean_seg q \<Longrightarrow> \<forall>p \<in> set ps. \<forall>c \<in> set p. \<not> ISSLASH c \<Longrightarrow>
   \<forall>q \<in> set (foldl push st ps). clean_seg q"
proof (induction ps arbitrary: st)
  case (Cons p ps)
  then have "\<forall>q \<in> set (push st p). clean_seg q" using push_clean [of st p] by simp
  then show ?case using Cons by simp
qed simp

lemma norm_loop_render:
  "\<forall>p \<in> set st. clean_seg p \<Longrightarrow> norm_loop (render st) src = render (foldl push st (parts src))"
proof (induction "length src" arbitrary: st src rule: less_induct)
  case less
  let ?p = "takeWhile (\<lambda>c. \<not> ISSLASH c) src" and ?e = "dropWhile (\<lambda>c. \<not> ISSLASH c) src"
  have p: "\<forall>c \<in> set ?p. \<not> ISSLASH c" by (auto dest: set_takeWhileD)
  have np: "norm_part (render st) ?p = render (push st ?p)" by (rule norm_part_render [OF less.prems])
  have clean: "\<forall>q \<in> set (push st ?p). clean_seg q" using push_clean [OF less.prems p] by blast
  show ?case
  proof (cases "?e = []")
    case True
    then show ?thesis by (subst norm_loop.simps, subst parts_step) (simp add: Let_def np)
  next
    case False
    then have "length (tl ?e) < length src"
      using length_dropWhile_le [of "\<lambda>c. \<not> ISSLASH c" src] by (cases ?e) auto
    from less.hyps [OF this clean] False show ?thesis
      by (subst norm_loop.simps, subst parts_step) (auto simp: Let_def np)
  qed
qed

lemma foldl_push_leading: "foldl push [] (parts (dropWhile ISSLASH s)) = foldl push [] (parts s)"
  by (induction s) (simp_all add: parts_slash push_def)

lemma NormalizePath_segs:
  "Ns_NormalizePath [] path = (if normal_segs (cstr path) = [] then ''/'' else render (normal_segs (cstr path)))"
  using norm_loop_render [of "[]" "dropWhile ISSLASH (cstr path)"]
  by (simp add: Ns_NormalizePath_def normal_segs_def foldl_push_leading)

lemma normal_segs_clean: "p \<in> set (normal_segs path) \<Longrightarrow> clean_seg p"
  using foldl_push_clean [of "[]" "parts path"] parts_clean by (fastforce simp: normal_segs_def)

section \<open>Facts on path construction\<close>

lemma make_path_loop_parts: "make_path_loop dest s = dest @ render (filter (\<lambda>p. p \<noteq> []) (parts s))"
proof (induction dest s rule: make_path_loop.induct)
  case (1 dest s)
  let ?s1 = "dropWhile ISSLASH s"
  have lead: "filter (\<lambda>p. p \<noteq> []) (parts s) = filter (\<lambda>p. p \<noteq> []) (parts ?s1)"
    by (induction s) (simp_all add: parts_slash)
  show ?case
  proof (cases "?s1 = []")
    case True
    then show ?thesis using lead by (subst make_path_loop.simps) (auto simp: Let_def parts_nil)
  next
    case False
    let ?p = "takeWhile (\<lambda>c. \<not> ISSLASH c) ?s1" and ?e = "dropWhile (\<lambda>c. \<not> ISSLASH c) ?s1"
    have "s \<noteq> []" using False by auto
    have p: "?p \<noteq> []" using hd_dropWhile [OF False] False by (cases ?s1) auto
    have "filter (\<lambda>p. p \<noteq> []) (parts ?s1) = ?p # filter (\<lambda>p. p \<noteq> []) (parts ?e)"
    proof (cases "?e = []")
      case True
      then show ?thesis using p by (subst parts_step) (simp add: Let_def parts_nil)
    next
      case e: False
      then obtain c cs where "?e = c # cs" using neq_Nil_conv by metis
      moreover have "ISSLASH c" using hd_dropWhile [OF e] \<open>?e = c # cs\<close> by simp
      ultimately show ?thesis using p by (subst parts_step) (simp add: Let_def parts_slash)
    qed
    then show ?thesis
      using 1 [OF \<open>s \<noteq> []\<close> refl False] \<open>s \<noteq> []\<close> False lead
      by (subst make_path_loop.simps) (simp add: Let_def)
  qed
qed

lemma norm_loop_no_up:
  "''..'' \<notin> set (parts src) \<Longrightarrow>
   norm_loop ds src = ds @ render (filter (\<lambda>p. p \<noteq> [] \<and> p \<noteq> ''.'') (parts src))"
proof (induction "length src" arbitrary: ds src rule: less_induct)
  case less
  let ?p = "takeWhile (\<lambda>c. \<not> ISSLASH c) src" and ?e = "dropWhile (\<lambda>c. \<not> ISSLASH c) src"
  have ps: "parts src = ?p # (if ?e = [] then [] else parts (tl ?e))"
    by (subst parts_step) (simp add: Let_def)
  have p: "?p \<noteq> ''..''" using less.prems ps by (metis list.set_intros(1))
  have np: "norm_part ds ?p = ds @ render (filter (\<lambda>p. p \<noteq> [] \<and> p \<noteq> ''.'') [?p])"
    using p by (simp add: norm_part_def)
  show ?case
  proof (cases "?e = []")
    case True
    then show ?thesis using np ps by (subst norm_loop.simps) (simp add: Let_def)
  next
    case False
    then have "length (tl ?e) < length src"
      using length_dropWhile_le [of "\<lambda>c. \<not> ISSLASH c" src] by (cases ?e) auto
    moreover have "''..'' \<notin> set (parts (tl ?e))" using less.prems ps False by simp
    ultimately have "norm_loop d (tl ?e) = d @ render (filter (\<lambda>p. p \<noteq> [] \<and> p \<noteq> ''.'') (parts (tl ?e)))" for d
      using less.hyps by blast
    then show ?thesis using np ps False by (subst norm_loop.simps) (simp add: Let_def)
  qed
qed

lemma hash_loop_segs:
  "\<exists>segs. hash_loop ds p n = ds @ render segs \<and> length segs = n \<and> list_all (\<lambda>s. clean_seg s \<and> length s = 1) segs"
proof (induction n arbitrary: ds p)
  case (Suc n)
  let ?p = "dropWhile (\<lambda>c. c = CHR ''.'' \<or> ISSLASH c) p"
  define c where "c = (if ?p \<noteq> [] then hd ?p else CHR ''_'')"
  have "clean_seg [c]" using hd_dropWhile [of "\<lambda>c. c = CHR ''.'' \<or> ISSLASH c" p]
    by (auto simp: c_def clean_seg_def ISSLASH_def)
  moreover obtain q where "hash_loop ds p (Suc n) = hash_loop (ds @ ''/'' @ [c]) q n"
    by (cases "?p = []") (auto simp: c_def Let_def nth_append)
  moreover obtain segs where "hash_loop (ds @ ''/'' @ [c]) q n = (ds @ ''/'' @ [c]) @ render segs"
    "length segs = n" "list_all (\<lambda>s. clean_seg s \<and> length s = 1) segs"
    using Suc by blast
  ultimately show ?case by (intro exI [of _ "[c] # segs"]) simp
qed simp

lemma parts_no_slash: "list_all (\<lambda>c. \<not> ISSLASH c) s \<Longrightarrow> parts s = [s]"
  by (subst parts_step) (auto simp: Let_def list_all_iff dropWhile_eq_Nil_conv takeWhile_eq_all_conv)

lemma parts_app_slash: "list_all (\<lambda>c. \<not> ISSLASH c) p \<Longrightarrow> parts (p @ CHR ''/'' # s) = p # parts s"
proof -
  assume p: "list_all (\<lambda>c. \<not> ISSLASH c) p"
  have sl: "ISSLASH CHR ''/''" by (simp add: ISSLASH_def)
  have "takeWhile (\<lambda>c. \<not> ISSLASH c) (p @ CHR ''/'' # s) = p"
    "dropWhile (\<lambda>c. \<not> ISSLASH c) (p @ CHR ''/'' # s) = CHR ''/'' # s"
    using p sl by (auto simp: list_all_iff takeWhile_append dropWhile_append)
  then show ?thesis by (subst parts_step) simp
qed

lemma parts_render: "list_all clean_seg segs \<Longrightarrow> segs \<noteq> [] \<Longrightarrow> parts (render segs) = [] # segs"
proof (induction segs)
  case (Cons p segs)
  have sl: "ISSLASH CHR ''/''" by (simp add: ISSLASH_def)
  have p: "list_all (\<lambda>c. \<not> ISSLASH c) p" using Cons.prems by (simp add: clean_seg_def)
  show ?case
  proof (cases "segs = []")
    case True
    then show ?thesis using p sl by (simp add: parts_slash parts_no_slash)
  next
    case False
    then obtain q qs where "segs = q # qs" using neq_Nil_conv by metis
    then have "parts (render segs) = [] # segs" using Cons by simp
    then have "parts (q @ render qs) = segs" using sl \<open>segs = q # qs\<close> by (simp add: parts_slash)
    then show ?thesis using p sl \<open>segs = q # qs\<close> by (simp add: parts_slash parts_app_slash)
  qed
qed simp

lemma push_clean_segs: "list_all clean_seg segs \<Longrightarrow> foldl push st segs = st @ segs"
  by (induction segs arbitrary: st) (simp_all add: push_def clean_seg_def)

lemma normal_segs_render: "list_all clean_seg segs \<Longrightarrow> normal_segs (render segs) = segs"
  by (cases "segs = []") (simp_all add: normal_segs_def parts_nil parts_render push_clean_segs, simp_all add: push_def push_clean_segs)

lemma in_parts: "p \<in> set (parts s) \<Longrightarrow> set p \<subseteq> set s"
proof (induction "length s" arbitrary: s rule: less_induct)
  case less
  let ?e = "dropWhile (\<lambda>c. \<not> ISSLASH c) s"
  have "p = takeWhile (\<lambda>c. \<not> ISSLASH c) s \<or> ?e \<noteq> [] \<and> p \<in> set (parts (tl ?e))"
    using less.prems by (subst (asm) parts_step) (auto simp: Let_def split: if_splits)
  moreover have "?e \<noteq> [] \<Longrightarrow> length (tl ?e) < length s \<and> set (tl ?e) \<subseteq> set s"
    using length_dropWhile_le [of "\<lambda>c. \<not> ISSLASH c" s] set_dropWhileD [of _ "\<lambda>c. \<not> ISSLASH c" s]
    by (cases ?e) auto
  ultimately show ?case using less.hyps [of "tl ?e"] by (auto dest: set_takeWhileD)
qed

lemma set_foldl_push: "q \<in> set (foldl push st ps) \<Longrightarrow> q \<in> set st \<or> q \<in> set ps"
proof (induction ps arbitrary: st)
  case (Cons p ps)
  then have "q \<in> set (push st p) \<or> q \<in> set ps" by simp
  then show ?case by (auto simp: push_def split: if_splits dest: in_set_butlastD)
qed simp

lemma normal_segs_chars: "p \<in> set (normal_segs s) \<Longrightarrow> set p \<subseteq> set s"
  using set_foldl_push [of p "[]" "parts s"] in_parts by (auto simp: normal_segs_def)

lemma normal_segs_all: "list_all clean_seg (normal_segs s)"
  using normal_segs_clean by (simp add: list_all_iff)

lemma render_no_nul: "CHR 0x00 \<notin> set s \<Longrightarrow> CHR 0x00 \<notin> set (render (normal_segs s))"
  using normal_segs_chars [of _ s] by (auto simp: render_def)

section \<open>Properties\<close>

text \<open>
  C4: \<open>Ns_NormalizePath\<close> on an empty dstring computes what a stack of path segments computes: each
  segment between slashes or backslashes is pushed, \<open>..\<close> pops (and stays at the root), \<open>.\<close> and
  empty segments are dropped.  Its result therefore starts with a slash, has no \<open>.\<close>, \<open>..\<close> or empty
  segment and no backslash, and normalising it again changes nothing.
\<close>

theorem normalize_path_stack:
  "Ns_NormalizePath [] path =
     (if normal_segs (cstr path) = [] then ''/'' else render (normal_segs (cstr path))) \<and>
   list_all clean_seg (normal_segs (cstr path)) \<and>
   Ns_NormalizePath [] (Ns_NormalizePath [] path) = Ns_NormalizePath [] path"
proof (intro conjI NormalizePath_segs normal_segs_all)
  let ?segs = "normal_segs (cstr path)"
  show "Ns_NormalizePath [] (Ns_NormalizePath [] path) = Ns_NormalizePath [] path"
  proof (cases "?segs = []")
    case True
    have "cstr ''/'' = ''/''" "parts ''/'' = [[], []]" by (simp_all add: cstr_def parts_slash ISSLASH_def parts_nil)
    then show ?thesis using True by (simp add: NormalizePath_segs normal_segs_def push_def)
  next
    case False
    have "cstr (render ?segs) = render ?segs" by (rule cstr_id) (simp add: render_no_nul)
    then show ?thesis using False normal_segs_render [OF normal_segs_all] by (simp add: NormalizePath_segs)
  qed
qed

text \<open>
  \<open>Ns_HashPath\<close> appends exactly \<open>levels\<close> directories of one character each, none of them a dot
  or a slash.
\<close>

theorem hash_path_levels:
  "\<exists>segs. Ns_HashPath ds path levels = ds @ render segs \<and> length segs = nat levels \<and>
     list_all (\<lambda>s. clean_seg s \<and> length s = 1) segs"
  unfolding Ns_HashPath_def by (rule hash_loop_segs)

section \<open>Facts on host names\<close>

lemma lower_chars:
  assumes "Ns_StrIsHost h" "c \<in> set (Ns_StrToLower h)"
  shows "isalnum c \<or> c = CHR '':'' \<or> c = CHR ''.''"
proof -
  obtain d where d: "d \<in> set h" "c = (if isupper d then tolower d else d)"
    using assms(2) by (auto simp: Ns_StrToLower_def)
  then show ?thesis using is_host_chars [OF assms(1) d(1)] upper_to_lower [of d] by (auto simp: isalnum_def)
qed

lemma lower_no_up:
  assumes "Ns_StrIsHost h"
  shows "\<not> sublist ''..'' (Ns_StrToLower h)"
proof
  assume "sublist ''..'' (Ns_StrToLower h)"
  then obtain a b where ab: "Ns_StrToLower h = a @ ''..'' @ b" by (auto simp: sublist_def)
  let ?f = "\<lambda>c. if isupper c then tolower c else c"
  have "\<exists>a' u. h = a' @ u \<and> a = map ?f a' \<and> ''..'' @ b = map ?f u"
    using ab unfolding Ns_StrToLower_def by (simp only: map_eq_append_conv)
  then obtain a' u where u: "h = a' @ u" "map ?f u = ''..'' @ b" by metis
  obtain c d b' where t: "u = c # d # b'" "?f c = CHR ''.''" "?f d = CHR ''.''"
    using u(2) by (auto simp: map_eq_Cons_conv)
  have "x = CHR ''.''" if "?f x = CHR ''.''" for x
    using that upper_to_lower [of x] not_lower_punct(3) by (metis (full_types))
  then have "c = CHR ''.''" "d = CHR ''.''" using t(2,3) by blast+
  then have "h = a' @ ''..'' @ b'" using u(1) t(1) by simp
  then show False using is_host_no_up [OF assms] by (auto simp: sublist_def)
qed

lemma safe_host_sublist: "sublist (safe_host servPtr h) (Ns_StrToLower h)"
proof -
  have s: "sublist (take n x) x" "sublist (drop n x) x" for n and x :: string
    by (simp_all add: sublist_take sublist_drop)
  have "sublist (take n (drop m x)) x" for n m and x :: string
    by (meson s sublist_order.order_trans)
  then show ?thesis using s by (auto simp: safe_host_def Let_def split: option.splits)
qed

lemma safe_host_chars:
  assumes "Ns_StrIsHost h"
  shows "list_all (\<lambda>c. \<not> ISSLASH c) (safe_host servPtr h)" "CHR 0x00 \<notin> set (safe_host servPtr h)"
proof -
  have "set (safe_host servPtr h) \<subseteq> set (Ns_StrToLower h)"
    using safe_host_sublist [of servPtr h] by (rule set_mono_sublist)
  then have c: "isalnum c \<or> c = CHR '':'' \<or> c = CHR ''.''" if "c \<in> set (safe_host servPtr h)" for c
    using lower_chars [OF assms] that by blast
  show "list_all (\<lambda>c. \<not> ISSLASH c) (safe_host servPtr h)"
    using c not_alnum by (fastforce simp: list_all_iff ISSLASH_def)
  show "CHR 0x00 \<notin> set (safe_host servPtr h)" using c [of "CHR 0x00"] not_alnum by auto
qed

lemma NormalizePath_host:
  assumes "Ns_StrIsHost h" "dest \<noteq> []"
  shows "\<exists>segs. Ns_NormalizePath dest (safe_host servPtr h) = dest @ render segs \<and> list_all clean_seg segs"
proof -
  let ?h = "safe_host servPtr h"
  note h = safe_host_chars [OF assms(1), of servPtr]
  have up: "?h \<noteq> ''..''" using lower_no_up [OF assms(1)] safe_host_sublist [of servPtr h] by auto
  have "dropWhile ISSLASH (cstr ?h) = ?h" using h by (cases ?h) (auto simp: cstr_id)
  then have "Ns_NormalizePath dest ?h = dest @ render (filter (\<lambda>p. p \<noteq> [] \<and> p \<noteq> ''.'') [?h])"
    using norm_loop_no_up [of ?h dest] parts_no_slash [OF h(1)] up assms(2) by (simp add: Ns_NormalizePath_def)
  then show ?thesis using h(1) up by (intro exI [of _ "filter (\<lambda>p. p \<noteq> [] \<and> p \<noteq> ''.'') [?h]"]) (simp add: clean_seg_def)
qed

lemma make_path_arg_extends: "\<exists>t. make_path_arg dest s = dest @ t"
  by (simp add: make_path_arg_def make_path_loop_parts)

lemma MakePath_extends: "\<exists>t. MakePath dest args = dest @ t"
proof (induction dest args rule: MakePath.induct)
  case (3 dest s args)
  then show ?case using make_path_arg_extends [of dest s] by auto
qed auto

text \<open>
  C36: with virtual hosting, whatever \<open>Host\<close> a client sends, the server root is the configured server
  directory itself or lies below the configured host prefix: only clean segments (no \<open>.\<close> or
  \<open>..\<close>, no slash or backslash) are appended to it.
\<close>

theorem server_root_contained:
  assumes "vhost_serverRootProc servPtr = None" and "def_path [] servPtr \<noteq> []"
  shows "ServerRoot [] servPtr rawHost connHost = def_path [] servPtr \<or>
    (\<exists>segs. ServerRoot [] servPtr rawHost connHost =
       MakePath [] [Some (fastpath_serverdir servPtr), vhost_hostprefix servPtr, None] @ render segs \<and>
       list_all clean_seg segs)"
proof -
  let ?base = "MakePath [] [Some (fastpath_serverdir servPtr), vhost_hostprefix servPtr, None]"
  have "\<exists>t. ?base = def_path [] servPtr @ t"
    using MakePath_extends [of "make_path_arg [] (fastpath_serverdir servPtr)" "[vhost_hostprefix servPtr, None]"]
    by (simp add: def_path_def Ns_MakePath_def)
  then have base: "?base \<noteq> []" using assms(2) by auto
  have host: "\<exists>segs. Ns_NormalizePath (if vhost_hosthashlevel servPtr > 0 then Ns_HashPath ?base (safe_host servPtr h)
      (vhost_hosthashlevel servPtr) else ?base) (safe_host servPtr h) = ?base @ render segs \<and> list_all clean_seg segs"
    if h: "Ns_StrIsHost h" for h
  proof -
    obtain hs where hs: "(if vhost_hosthashlevel servPtr > 0 then Ns_HashPath ?base (safe_host servPtr h)
      (vhost_hosthashlevel servPtr) else ?base) = ?base @ render hs" "list_all clean_seg hs"
    proof (cases "vhost_hosthashlevel servPtr > 0")
      case True
      with hash_loop_segs [of ?base "safe_host servPtr h" "nat (vhost_hosthashlevel servPtr)"] that show ?thesis
        by (auto simp: Ns_HashPath_def list_all_iff)
    qed (use that [of "[]"] in simp)
    moreover obtain segs where "Ns_NormalizePath (?base @ render hs) (safe_host servPtr h) = (?base @ render hs) @ render segs"
      "list_all clean_seg segs"
      using NormalizePath_host [OF h, of "?base @ render hs"] base by auto
    ultimately show ?thesis by (intro exI [of _ "hs @ segs"]) simp
  qed
  show ?thesis
    using assms(1) host by (auto simp: ServerRoot_def Ns_MakePath_def Let_def split: option.splits)
qed

lemma server_root_contained_witness:
  "take 4 (ServerRoot [] \<lparr>vhost_enabled = True, vhost_strip_www = True, vhost_strip_port = True, vhost_hostprefix = Some ''vh'',
     vhost_hosthashlevel = 1, vhost_serverRootProc = None, fastpath_pagedir = ''pages'', fastpath_serverdir = ''/srv''\<rparr>
     (Some ''www.Foo.com:80'') None) = ''/srv''"
proof -
  let ?s = "\<lparr>vhost_enabled = True, vhost_strip_www = True, vhost_strip_port = True, vhost_hostprefix = Some ''vh'',
     vhost_hosthashlevel = 1, vhost_serverRootProc = None, fastpath_pagedir = ''pages'', fastpath_serverdir = ''/srv''\<rparr>"
  have parts: "parts ''/srv'' = [[], ''srv'']" "parts ''vh'' = [''vh'']"
    by (simp_all add: parts_slash parts_no_slash ISSLASH_def)
  have alpha: "\<not> isalpha CHR ''/''" by (simp add: isalpha_def isupper_def islower_def)
  have "def_path [] ?s = ''/srv''" "MakePath [] [Some (fastpath_serverdir ?s), vhost_hostprefix ?s, None] = ''/srv/vh''"
    by (simp_all add: def_path_def Ns_MakePath_def make_path_arg_def make_path_loop_parts parts alpha)
  with server_root_contained [of ?s "Some ''www.Foo.com:80''" None] show ?thesis by auto
qed

section \<open>Divergences\<close>

text \<open>A dstring that ends in a slash gets a second one, as the test for it reads the NUL behind the last character.\<close>

lemma hash_path_double_slash: "Ns_HashPath ''/x/'' ''foo'' 1 = ''/x//f''"
  by code_simp

end
