(* ===== verification/Html.thy ===== *)
theory Html
  imports NsStr Codec
begin

text \<open>
  The HTML helpers: \<open>ns_quotehtml\<close> of \<open>nsd/quotehtml.c\<close>, and \<open>ns_striphtml\<close> and \<open>ns_hrefs\<close> of
  \<open>nsd/tclmisc.c\<close>.  \<open>ns_hrefs\<close> overwrites the end of a tag with a NUL and moves a pointer over the
  argument; the pointer is modelled as the list of the bytes from there to the end of the
  argument, the NULs included, so that a read behind the argument is a read from the empty list.
\<close>

section \<open>Quoting\<close>

definition quote_char :: "char \<Rightarrow> string" where
  "quote_char c =
     (if c = CHR ''<'' then ''&lt;'' else if c = CHR ''>'' then ''&gt;''
      else if c = CHR ''&'' then ''&amp;'' else if c = CHR 0x27 then ''&#39;''
      else if c = CHR 0x22 then ''&#34;'' else [c])"

definition Ns_QuoteHtml :: "string \<Rightarrow> string \<Rightarrow> string" where
  "Ns_QuoteHtml ds htmlString = ds @ concat (map quote_char (cstr htmlString))"

definition NsTclQuoteHtmlCmd :: "string list \<Rightarrow> string + string" where
  "NsTclQuoteHtmlCmd args = (case args of [html] \<Rightarrow> Inr (Ns_QuoteHtml [] html) | _ \<Rightarrow> Inl ''wrong # args'')"

section \<open>Stripping\<close>

definition WordEndsInSemi :: "string \<Rightarrow> bool" where
  "WordEndsInSemi ip =
     (let ip = (if ip \<noteq> [] \<and> hd ip = CHR ''&'' then tl ip else ip);
          ip = dropWhile (\<lambda>c. c \<noteq> CHR '' '' \<and> c \<noteq> CHR '';'' \<and> c \<noteq> CHR ''&'') ip
      in ip \<noteq> [] \<and> hd ip = CHR '';'')"

fun strip_loop :: "bool \<Rightarrow> bool \<Rightarrow> string \<Rightarrow> string" where
  "strip_loop intag intspec [] = []"
| "strip_loop intag intspec (c # cs) =
     (if c = CHR ''<'' then strip_loop True intspec cs
      else if intag \<and> c = CHR ''>'' then strip_loop False intspec cs
      else if intspec \<and> c = CHR '';'' then strip_loop intag False cs
      else if \<not> intag \<and> \<not> intspec then
        (let intspec = (if c = CHR ''&'' then WordEndsInSemi (c # cs) else intspec)
         in if \<not> intspec then c # strip_loop intag intspec cs else strip_loop intag intspec cs)
      else strip_loop intag intspec cs)"

definition NsTclStripHtmlCmd :: "string list \<Rightarrow> string + string" where
  "NsTclStripHtmlCmd args = (case args of [page] \<Rightarrow> Inr (strip_loop False False page) | _ \<Rightarrow> Inl ''wrong # args'')"

section \<open>Links\<close>

definition nul :: char where "nul = CHR 0x00"

text \<open>The value of an attribute from the position behind the equal sign.\<close>

definition href_value :: "string \<Rightarrow> string" where
  "href_value s =
     (let s = dropWhile (\<lambda>c. c \<noteq> nul \<and> isspace c) s
      in if s \<noteq> [] \<and> (hd s = CHR 0x27 \<or> hd s = CHR 0x22)
         then (if hd s \<in> set (cstr (tl s)) then takeWhile (\<lambda>c. c \<noteq> hd s) (cstr (tl s))
               else takeWhile (\<lambda>c. \<not> isspace c) (cstr (tl s)))
         else takeWhile (\<lambda>c. \<not> isspace c) (cstr s))"

text \<open>
  The scan of an anchor tag: \<open>None\<close> when it reads behind the end of the argument, otherwise the value
  it appends, if any.  A quote makes the scan run to the next NUL, since the condition of the inner
  loop (not a single quote or not a double quote) always holds.
\<close>

function href_scan :: "string \<Rightarrow> string option option" where
  "href_scan s =
     (if s = [] then None
      else if hd s = nul then Some None
      else
        (let s1 = (if strcasecmp (take 4 (cstr s)) ''href'' = 0
                   then dropWhile (\<lambda>c. c \<noteq> nul \<and> isspace c) (drop 4 s) else s)
         in if s1 = [] then None
            else if strcasecmp (take 4 (cstr s)) ''href'' = 0 \<and> hd s1 = CHR ''='' then Some (Some (href_value (tl s1)))
            else if hd s1 = CHR 0x27 \<or> hd s1 = CHR 0x22 then href_scan (dropWhile (\<lambda>c. c \<noteq> nul) s1)
            else href_scan (tl s1)))"
  by auto
termination
proof (relation "measure length", simp, goal_cases)
  case (1 s s1)
  then obtain c t where s1: "s1 = c # t" using neq_Nil_conv by metis
  have "length s1 \<le> length s" using 1(3) length_dropWhile_le [of "\<lambda>c. c \<noteq> nul \<and> isspace c" "drop 4 s"] by auto
  moreover have "c \<noteq> nul" using 1(6) s1 by (auto simp: nul_def)
  then have "length (dropWhile (\<lambda>c. c \<noteq> nul) s1) \<le> length t" using s1 by (simp add: length_dropWhile_le)
  ultimately show ?case using s1 by simp
next
  case (2 s s1)
  then obtain c t where s1: "s1 = c # t" using neq_Nil_conv by metis
  have "length s1 \<le> length s" using 2(3) length_dropWhile_le [of "\<lambda>c. c \<noteq> nul \<and> isspace c" "drop 4 s"] by auto
  then show ?case using s1 by simp
qed

declare href_scan.simps [simp del]

text \<open>The loop over the tags; \<open>text\<close> is the rest of the argument without its final NUL.\<close>

function hrefs_loop :: "string \<Rightarrow> string list option" where
  "hrefs_loop text =
     (let s = dropWhile (\<lambda>c. c \<noteq> CHR ''<'') text
      in if s = [] \<or> CHR ''>'' \<notin> set s then Some []
         else
           (let tag = takeWhile (\<lambda>c. c \<noteq> CHR ''>'') (tl s);
                rest = tl (dropWhile (\<lambda>c. c \<noteq> CHR ''>'') s);
                t = dropWhile (\<lambda>c. c \<noteq> nul \<and> isspace c) (tag @ [nul] @ rest @ [nul])
            in case (if (hd t = CHR ''a'' \<or> hd t = CHR ''A'') \<and> isspace (t ! 1) then href_scan (tl t) else Some None) of
                 None \<Rightarrow> None
               | Some v \<Rightarrow> map_option (\<lambda>vs. (case v of None \<Rightarrow> vs | Some h \<Rightarrow> h # vs)) (hrefs_loop rest)))"
  by auto
termination
proof (relation "measure length", simp, goal_cases)
  case (1 txt0 s tag rest)
  have "dropWhile (\<lambda>c. c \<noteq> CHR ''>'') s \<noteq> []" using 1(2) by (simp add: dropWhile_eq_Nil_conv)
  then have "length rest < length (dropWhile (\<lambda>c. c \<noteq> CHR ''>'') s)" using 1(4) by simp
  also have "\<dots> \<le> length s" by (rule length_dropWhile_le)
  also have "\<dots> \<le> length txt0" using 1(1) by (simp add: length_dropWhile_le)
  finally show ?case by simp
qed

declare hrefs_loop.simps [simp del]

definition NsTclHrefsCmd :: "string list \<Rightarrow> (string + string list) option" where
  "NsTclHrefsCmd args = (case args of [html] \<Rightarrow> map_option Inr (hrefs_loop html) | _ \<Rightarrow> Some (Inl ''wrong # args''))"

section \<open>The quoting codec\<close>

text \<open>What a reader of the quoted text makes of it: the five references stand for their characters.\<close>

fun unquote :: "string \<Rightarrow> string" where
  "unquote [] = []"
| "unquote (c # cs) =
     (if take 3 cs = ''lt;'' \<and> c = CHR ''&'' then CHR ''<'' # unquote (drop 3 cs)
      else if take 3 cs = ''gt;'' \<and> c = CHR ''&'' then CHR ''>'' # unquote (drop 3 cs)
      else if take 4 cs = ''amp;'' \<and> c = CHR ''&'' then CHR ''&'' # unquote (drop 4 cs)
      else if take 4 cs = ''#39;'' \<and> c = CHR ''&'' then CHR 0x27 # unquote (drop 4 cs)
      else if take 4 cs = ''#34;'' \<and> c = CHR ''&'' then CHR 0x22 # unquote (drop 4 cs)
      else c # unquote cs)"

interpretation html: codec quote_char unquote "\<lambda>c. True"
  by unfold_locales (simp_all add: quote_char_def)

lemma strip_no_tag: "CHR ''<'' \<notin> set (strip_loop intag intspec s)"
  by (induction intag intspec s rule: strip_loop.induct) (auto simp: Let_def)

section \<open>Properties\<close>

text \<open>
  Quoted HTML has no markup left (no angle bracket or quote, and every ampersand starts one of
  the five references), and no text is lost: reading the references back gives the original string.
\<close>

theorem quote_html_round_trip:
  "unquote (Ns_QuoteHtml [] s) = cstr s \<and>
   list_all (\<lambda>c. c \<noteq> CHR ''<'' \<and> c \<noteq> CHR ''>'' \<and> c \<noteq> CHR 0x22 \<and> c \<noteq> CHR 0x27) (Ns_QuoteHtml [] s)"
  using html.round_trip [of "cstr s"]
  by (auto simp: Ns_QuoteHtml_def list_all_iff quote_char_def split: if_splits)

text \<open>
  \<open>ns_hrefs\<close> finds the link of an anchor only when no quoted attribute precedes it, since its scan
  for the end of a quoted value never stops at a quote; and for an anchor that ends in a bare
  \<open>href\<close> the scan leaves the tag: it collects a value from the text behind the tag, or reads
  behind the end of the argument.
\<close>

theorem hrefs_scan_wrong:
  "NsTclHrefsCmd [''<a href='' @ [CHR 0x22] @ ''y'' @ [CHR 0x22] @ ''>''] = Some (Inr [''y'']) \<and>
   NsTclHrefsCmd [''<a id='' @ [CHR 0x22] @ ''x'' @ [CHR 0x22] @ '' href=y>''] = Some (Inr []) \<and>
   NsTclHrefsCmd [''<a href>href=z''] = Some (Inr [''z'']) \<and>
   NsTclHrefsCmd [''<a href>href''] = None"
  by code_simp

end
