(* ===== verification/Request.thy ===== *)
theory Request
  imports UrlEncode Pathname NsSet Complex_Main
begin

text \<open>
  Request lines and header lines, \<open>nsd/request.c\<close>.  The C functions cut a copy of the line into
  pieces by writing NULs into it; here every piece is the corresponding part of the list.  A NULL
  member of \<open>Ns_Request\<close> is \<open>None\<close>; the HTTP version and the q-values, doubles in the source, are the
  exact decimal numbers they are read from.  The encoding a URL is decoded with comes from
  \<open>Ns_GetUrlEncoding\<close> and is a parameter.
\<close>

section \<open>C library\<close>

text \<open>\<open>strtod\<close> on the unsigned decimal numbers without exponent that its callers pass.\<close>

definition strtod :: "string \<Rightarrow> rat" where
  "strtod s =
     (let a = takeWhile isdigit s;
          r = drop (length a) s;
          b = (if r \<noteq> [] \<and> hd r = CHR ''.'' then takeWhile isdigit (tl r) else [])
      in of_nat (digits_val 10 a) + of_nat (digits_val 10 b) / 10 ^ length b)"

fun strstr :: "string \<Rightarrow> string \<Rightarrow> string option" where
  "strstr [] needle = (if needle = [] then Some [] else None)"
| "strstr (c # s) needle = (if take (length needle) (c # s) = needle then Some (c # s) else strstr s needle)"

section \<open>Requests\<close>

record Ns_Request =
  req_line :: "string option"
  req_method :: "string option"
  req_protocol :: "string option"
  req_host :: "string option"
  req_port :: nat
  req_url :: "string option"
  req_query :: "string option"
  req_urlc :: nat
  req_urlv :: "string list"
  req_version :: rat

text \<open>All bytes zero, as \<open>memset\<close> and \<open>Ns_ResetRequest\<close> leave it.\<close>

definition Ns_ResetRequest :: Ns_Request where
  "Ns_ResetRequest =
     \<lparr>req_line = None, req_method = None, req_protocol = None, req_host = None, req_port = 0,
      req_url = None, req_query = None, req_urlc = 0, req_urlv = [], req_version = 0\<rparr>"

definition FreeUrl :: "Ns_Request \<Rightarrow> Ns_Request" where
  "FreeUrl r = r\<lparr>req_url := None, req_urlv := []\<rparr>"

text \<open>
  The elements of a URL behind its leading slash: \<open>seg\<close> is what has been passed of the current
  element.  Behind a slash the loop steps over the first character of the next element unseen.
\<close>

fun urlv_loop :: "string \<Rightarrow> string \<Rightarrow> string list" where
  "urlv_loop seg [] = [seg]"
| "urlv_loop seg (c # p) =
     (if c = CHR ''/'' then
        (case p of [] \<Rightarrow> [seg] | d # p' \<Rightarrow> seg # urlv_loop [d] p')
      else urlv_loop (seg @ [c]) p)"

definition SetUrl :: "Tcl_Encoding option \<Rightarrow> Ns_Request \<Rightarrow> string \<Rightarrow> Ns_Request" where
  "SetUrl encoding r url =
     (let r = (if CHR ''?'' \<in> set url
               then r\<lparr>req_query := Some (tl (dropWhile (\<lambda>c. c \<noteq> CHR ''?'') url))\<rparr> else r);
          url = takeWhile (\<lambda>c. c \<noteq> CHR ''?'') url;
          p = Ns_UrlPathDecode [] url encoding;
          ds2 = Ns_NormalizePath [] p;
          url1 = dropWhile (\<lambda>c. c = CHR ''/'') url;
          ds2 = (if url1 \<noteq> [] \<and> last url1 = CHR ''/'' then ds2 @ ''/'' else ds2);
          urlv = urlv_loop [] (tl ds2)
      in r\<lparr>req_url := Some ds2, req_urlc := length urlv, req_urlv := urlv\<rparr>)"

definition Ns_SetRequestUrl :: "Tcl_Encoding option \<Rightarrow> Ns_Request \<Rightarrow> string \<Rightarrow> Ns_Request" where
  "Ns_SetRequestUrl encoding r url = SetUrl encoding (FreeUrl r) url"

text \<open>\<open>None\<close>: more elements are to be skipped than the URL has.\<close>

definition Ns_SkipUrl :: "Ns_Request \<Rightarrow> int \<Rightarrow> string option" where
  "Ns_SkipUrl r n =
     (if n > int (req_urlc r) then None
      else Some (drop (sum_list (map (\<lambda>s. length s + 1) (take (nat n) (req_urlv r)))) (the (req_url r))))"

text \<open>
  The version at the end of the line: the part before \<open>HTTP/\<close> and the version, where the trailing
  digits and dots follow \<open>HTTP/\<close>.
\<close>

definition split_version :: "string \<Rightarrow> string \<times> rat" where
  "split_version url =
     (let v = rev (takeWhile (\<lambda>c. isdigit c \<or> c = CHR ''.'') (rev url));
          pre = take (length url - length v) url;
          p = int (length pre) - 1 - 4
      in if p \<ge> 0 \<and> take 5 (drop (nat p) url) = ''HTTP/''
         then (take (nat p) url, strtod (drop (nat p + 5) url))
         else (url, 0))"

text \<open>Protocol, host and port of an absolute URL; the rest of the URL is returned.\<close>

definition split_host :: "Ns_Request \<Rightarrow> string \<Rightarrow> Ns_Request \<times> string" where
  "split_host r url =
     (if length url > 3 \<and> url ! 0 = CHR ''/'' \<and> url ! 1 = CHR ''/'' \<and> url ! 2 \<noteq> CHR ''/'' then
        (let h = takeWhile (\<lambda>c. c \<noteq> CHR ''/'') (drop 2 url);
             p = dropWhile (\<lambda>c. c \<noteq> CHR ''/'') (drop 2 url);
             url = (if p = [] then [] else tl p);
             r = (if CHR '':'' \<in> set h
                  then r\<lparr>req_port := nat (fst (strtol (tl (dropWhile (\<lambda>c. c \<noteq> CHR '':'') h)) 10) mod 65536)\<rparr> else r)
         in (r\<lparr>req_host := Some (takeWhile (\<lambda>c. c \<noteq> CHR '':'') h)\<rparr>, url))
      else (r, url))"

definition split_protocol :: "Ns_Request \<Rightarrow> string \<Rightarrow> Ns_Request \<times> string" where
  "split_protocol r url =
     (if hd url \<noteq> CHR ''/'' then
        (let p = dropWhile (\<lambda>c. c \<noteq> CHR ''/'' \<and> c \<noteq> CHR '':'') url
         in if p \<noteq> [] \<and> hd p = CHR '':''
            then split_host (r\<lparr>req_protocol := Some (takeWhile (\<lambda>c. c \<noteq> CHR ''/'' \<and> c \<noteq> CHR '':'') url)\<rparr>) (tl p)
            else (r, url))
      else (r, url))"

text \<open>The status is \<open>True\<close> for \<open>NS_OK\<close>; on an error the request is reset.\<close>

definition Ns_ParseRequest :: "Tcl_Encoding option \<Rightarrow> string \<Rightarrow> bool \<times> Ns_Request" where
  "Ns_ParseRequest encoding line =
     (let l = Ns_StrTrim (cstr line) in
      if l = [] then (False, Ns_ResetRequest)
      else
        (let r = Ns_ResetRequest\<lparr>req_line := Some l\<rparr>;
             method = takeWhile (\<lambda>c. \<not> isspace c) l;
             rest = dropWhile (\<lambda>c. \<not> isspace c) l in
         if rest = [] then (False, Ns_ResetRequest)
         else
           (let url = dropWhile isspace (tl rest) in
            if url = [] then (False, Ns_ResetRequest)
            else
              (let r = r\<lparr>req_method := Some method\<rparr>;
                   (url, version) = split_version url;
                   r = r\<lparr>req_version := version\<rparr>;
                   url = Ns_StrTrim url in
               if url = [] then (False, Ns_ResetRequest)
               else
                 (let (r, url) = split_protocol r url
                  in (True, SetUrl encoding r url))))))"

section \<open>Header lines\<close>

datatype Ns_HeaderCaseDisposition = Preserve | ToLower | ToUpper

definition fold_case :: "Ns_HeaderCaseDisposition \<Rightarrow> string \<Rightarrow> string" where
  "fold_case disp key =
     (if disp = ToLower then map (\<lambda>c. if isupper c then tolower c else c) key
      else if disp = ToUpper then map (\<lambda>c. if islower c then toupper c else c) key
      else key)"

text \<open>
  A continuation is appended to the value of the last field; \<open>Ns_DStringVarAppend\<close> stops at a NULL
  value.  \<open>None\<close> is \<open>NS_ERROR\<close>, with the set unchanged.
\<close>

definition Ns_ParseHeader :: "Ns_Set \<Rightarrow> string \<Rightarrow> Ns_HeaderCaseDisposition \<Rightarrow> Ns_Set option" where
  "Ns_ParseHeader st line disp =
     (if line \<noteq> [] \<and> isspace (hd line) then
        (if set_size st = 0 then None
         else
           (let index = set_size st - 1;
                line = dropWhile isspace line
            in if line \<noteq> []
               then Some (Ns_SetPutValue st index
                      (Some (case fld_value (set_fields st ! index) of None \<Rightarrow> [] | Some value \<Rightarrow> value @ '' '' @ line)))
               else Some st))
      else if CHR '':'' \<notin> set line then None
      else
        (let key = takeWhile (\<lambda>c. c \<noteq> CHR '':'') line;
             value = dropWhile isspace (tl (dropWhile (\<lambda>c. c \<noteq> CHR '':'') line));
             st = Ns_SetPut st (Some key) (Some value)
         in Some (st\<lparr>set_fields := butlast (set_fields st) @
              [(last (set_fields st))\<lparr>fld_name := Some (fold_case disp key)\<rparr>]\<rparr>)))"

section \<open>Accepted encodings\<close>

definition skip_sp :: "string \<Rightarrow> string" where
  "skip_sp s = dropWhile (\<lambda>c. c = CHR '' '') s"

definition at_char :: "string \<Rightarrow> char \<Rightarrow> bool" where
  "at_char s c \<longleftrightarrow> s \<noteq> [] \<and> hd s = c"

text \<open>The length of the number: one digit, and a dot with up to three digits.\<close>

definition qvalue_length :: "string \<Rightarrow> nat" where
  "qvalue_length s =
     (if at_char (drop 1 s) CHR ''.'' then 2 + min 3 (length (takeWhile isdigit (drop 2 s))) else 1)"

definition GetQvalue :: "string \<Rightarrow> (string \<times> nat) option" where
  "GetQvalue str =
     (let s = skip_sp str in
      if \<not> at_char s CHR '';'' then None
      else let s = skip_sp (tl s) in
      if \<not> at_char s CHR ''q'' then None
      else let s = skip_sp (tl s) in
      if \<not> at_char s CHR ''='' then None
      else let s = skip_sp (tl s) in
      if s = [] \<or> \<not> isdigit (hd s) then None
      else let n = qvalue_length s; t = drop n s in
      if t = [] \<or> at_char t CHR '' '' \<or> at_char t CHR '','' \<or> at_char t CHR '';'' then Some (s, n) else None)"

text \<open>\<open>None\<close>: the format does not occur (the C function then stores -1).\<close>

definition GetEncodingFormat :: "string \<Rightarrow> string \<Rightarrow> rat option" where
  "GetEncodingFormat encodingString encodingFormat =
     (case strstr encodingString encodingFormat of
        None \<Rightarrow> None
      | Some s \<Rightarrow> (case GetQvalue (drop (length encodingFormat) s) of
                     Some (q, n) \<Rightarrow> Some (strtod q) | None \<Rightarrow> Some 1))"

definition NsParseAcceptEncoding :: "rat \<Rightarrow> string \<Rightarrow> bool" where
  "NsParseAcceptEncoding version hdr =
     (case GetEncodingFormat hdr ''gzip'' of
        Some gzipQvalue \<Rightarrow>
          if gzipQvalue > 999 / 1000 then True
          else if gzipQvalue < 9 / 10000 then False
          else (case GetEncodingFormat hdr ''identity'' of
                  Some identityQvalue \<Rightarrow> gzipQvalue \<ge> identityQvalue
                | None \<Rightarrow> (case GetEncodingFormat hdr ''*'' of
                             Some starQvalue \<Rightarrow> gzipQvalue \<ge> starQvalue
                           | None \<Rightarrow> True))
      | None \<Rightarrow>
          (case GetEncodingFormat hdr ''*'' of
             Some starQvalue \<Rightarrow>
               if starQvalue < 9 / 10000 then False
               else (case GetEncodingFormat hdr ''identity'' of
                       Some identityQvalue \<Rightarrow> starQvalue \<ge> identityQvalue \<and> version \<ge> 11 / 10
                     | None \<Rightarrow> version \<ge> 11 / 10)
           | None \<Rightarrow> False))"

section \<open>Facts on request URLs\<close>

text \<open>The segments of a URL after decoding and normalisation, and the slash kept at its end.\<close>

definition request_segs :: "Tcl_Encoding option \<Rightarrow> string \<Rightarrow> string list" where
  "request_segs encoding url =
     normal_segs (cstr (Ns_UrlPathDecode [] (takeWhile (\<lambda>c. c \<noteq> CHR ''?'') url) encoding))"

definition request_trail :: "string \<Rightarrow> string" where
  "request_trail url =
     (let u = dropWhile (\<lambda>c. c = CHR ''/'') (takeWhile (\<lambda>c. c \<noteq> CHR ''?'') url)
      in if u \<noteq> [] \<and> last u = CHR ''/'' then ''/'' else [])"

lemma request_trail_cases: "request_trail url = [] \<or> request_trail url = ''/''"
  by (simp add: request_trail_def Let_def)

lemma request_segs_clean: "list_all clean_seg (request_segs encoding url)"
  by (simp add: request_segs_def normal_segs_all)

lemma urlv_loop_free: "CHR ''/'' \<notin> set x \<Longrightarrow> urlv_loop pre (x @ s) = urlv_loop (pre @ x) s"
  by (induction x arbitrary: pre) auto

lemma clean_no_slash: "clean_seg p \<Longrightarrow> CHR ''/'' \<notin> set p"
  by (auto simp: clean_seg_def list_all_iff ISSLASH_def)

lemma urlv_loop_render:
  "list_all clean_seg segs \<Longrightarrow> t = [] \<or> t = ''/'' \<Longrightarrow> urlv_loop pre (render segs @ t) = pre # segs"
proof (induction segs arbitrary: pre)
  case (Cons q qs)
  then obtain d q' where q: "q = d # q'" by (cases q) (auto simp: clean_seg_def)
  have "CHR ''/'' \<notin> set q'" using Cons.prems(1) clean_no_slash [of q] q by simp
  then show ?case using Cons q by (simp add: urlv_loop_free)
qed auto

lemma urlv_of_render:
  assumes "list_all clean_seg segs" "segs \<noteq> []" "t = [] \<or> t = ''/''"
  shows "urlv_loop [] (tl (render segs @ t)) = segs"
proof -
  obtain q qs where s: "segs = q # qs" using assms(2) neq_Nil_conv by metis
  then show ?thesis
    using assms urlv_loop_free [of q "[]" "render qs @ t"] urlv_loop_render [of qs t q] clean_no_slash [of q] by simp
qed

lemma SetUrl_url:
  "req_url (SetUrl encoding r url) =
     Some ((if request_segs encoding url = [] then ''/'' else render (request_segs encoding url)) @ request_trail url)"
  by (simp add: SetUrl_def Let_def NormalizePath_segs request_segs_def request_trail_def)

lemma SetUrl_urlv:
  "req_urlv (SetUrl encoding r url) =
     (if request_segs encoding url = [] then [[]] else request_segs encoding url)"
proof -
  let ?s = "request_segs encoding url" and ?t = "request_trail url"
  have "req_urlv (SetUrl encoding r url) = urlv_loop [] (tl ((if ?s = [] then ''/'' else render ?s) @ ?t))"
    by (simp add: SetUrl_def Let_def NormalizePath_segs request_segs_def request_trail_def)
  moreover have "urlv_loop [] (tl ((if ?s = [] then ''/'' else render ?s) @ ?t)) = (if ?s = [] then [[]] else ?s)"
    using request_trail_cases [of url] urlv_of_render [OF request_segs_clean _ request_trail_cases, of encoding url url] by auto
  ultimately show ?thesis by simp
qed

lemma SetUrl_urlc: "req_urlc (SetUrl encoding r url) = length (req_urlv (SetUrl encoding r url))"
  by (simp add: SetUrl_def Let_def)

lemma SetUrl_keeps: "req_method (SetUrl encoding r url) = req_method r" "req_version (SetUrl encoding r url) = req_version r"
  "req_host (SetUrl encoding r url) = req_host r" "req_line (SetUrl encoding r url) = req_line r"
  by (simp_all add: SetUrl_def Let_def)

lemma split_protocol_keeps: "req_method (fst (split_protocol r url)) = req_method r"
  "req_line (fst (split_protocol r url)) = req_line r" "req_version (fst (split_protocol r url)) = req_version r"
  by (simp_all add: split_protocol_def split_host_def Let_def)

text \<open>The URL of a request line before its version and protocol are split off.\<close>

definition line_url :: "string \<Rightarrow> string" where
  "line_url l = dropWhile isspace (tl (dropWhile (\<lambda>c. \<not> isspace c) l))"

definition line_request :: "string \<Rightarrow> Ns_Request" where
  "line_request l = Ns_ResetRequest\<lparr>req_line := Some l, req_method := Some (takeWhile (\<lambda>c. \<not> isspace c) l),
     req_version := snd (split_version (line_url l))\<rparr>"

lemma if_collapse: "(if a then x else if b then x else y) = (if a \<or> b then x else y)"
  by simp

lemma ParseRequest_cases:
  "Ns_ParseRequest encoding line =
    (let l = Ns_StrTrim (cstr line);
         p = split_protocol (line_request l) (Ns_StrTrim (fst (split_version (line_url l))))
     in if dropWhile (\<lambda>c. \<not> isspace c) l = [] \<or> line_url l = [] \<or> Ns_StrTrim (fst (split_version (line_url l))) = []
        then (False, Ns_ResetRequest) else (True, SetUrl encoding (fst p) (snd p)))"
proof (cases "Ns_StrTrim (cstr line) = []")
  case True
  then show ?thesis by (simp add: Ns_ParseRequest_def Let_def)
next
  case False
  then show ?thesis
    unfolding Ns_ParseRequest_def Let_def line_request_def line_url_def case_prod_beta
    by (simp only: if_False if_collapse disj_assoc simp_thms)
qed

lemma ParseRequest_ok:
  assumes "Ns_ParseRequest encoding line = (True, r)"
  shows "\<exists>r0 url. r = SetUrl encoding r0 url \<and> req_method r0 = Some (takeWhile (\<lambda>c. \<not> isspace c) (Ns_StrTrim (cstr line)))"
proof -
  let ?l = "Ns_StrTrim (cstr line)"
  let ?p = "split_protocol (line_request ?l) (Ns_StrTrim (fst (split_version (line_url ?l))))"
  have "r = SetUrl encoding (fst ?p) (snd ?p)"
    using assms by (simp add: ParseRequest_cases Let_def split: if_splits)
  moreover have "req_method (fst ?p) = Some (takeWhile (\<lambda>c. \<not> isspace c) ?l)"
    by (simp add: split_protocol_keeps line_request_def)
  ultimately show ?thesis by blast
qed

section \<open>Properties\<close>

text \<open>
  C3: whatever request line \<open>Ns_ParseRequest\<close> accepts, percent encoded or not, the URL it stores
  starts with a slash and consists of clean segments: no \<open>.\<close> or \<open>..\<close>, no empty segment, no
  backslash, apart from one slash at its end; the URL vector holds exactly these segments.
\<close>

theorem parse_request_safe:
  assumes "Ns_ParseRequest encoding line = (True, r)"
  shows "\<exists>segs trail. list_all clean_seg segs \<and> (trail = [] \<or> trail = ''/'') \<and>
     req_url r = Some ((if segs = [] then ''/'' else render segs) @ trail) \<and>
     req_urlv r = (if segs = [] then [[]] else segs) \<and> req_urlc r = length (req_urlv r) \<and>
     req_method r \<noteq> None"
proof -
  obtain r0 url where r: "r = SetUrl encoding r0 url" "req_method r0 \<noteq> None"
    using ParseRequest_ok [OF assms] by auto
  show ?thesis
    by (rule exI [of _ "request_segs encoding url"], rule exI [of _ "request_trail url"])
      (simp add: r SetUrl_url SetUrl_urlv SetUrl_urlc SetUrl_keeps request_segs_clean request_trail_cases)
qed

lemma parse_request_safe_witness:
  "\<exists>segs trail. list_all clean_seg segs \<and> (trail = [] \<or> trail = ''/'') \<and>
     req_url (snd (Ns_ParseRequest None ''GET /a/%2e%2e/../b/ HTTP/1.1'')) = Some ((if segs = [] then ''/'' else render segs) @ trail)"
proof -
  let ?l = "''GET /a/%2e%2e/../b/ HTTP/1.1''"
  have "Ns_StrTrim (cstr ?l) = ?l" "dropWhile (\<lambda>c. \<not> isspace c) ?l \<noteq> []" "line_url ?l \<noteq> []"
    "Ns_StrTrim (fst (split_version (line_url ?l))) \<noteq> []" by code_simp+
  then have "fst (Ns_ParseRequest None ?l)" by (simp only: ParseRequest_cases Let_def if_False simp_thms fst_conv)
  then have "Ns_ParseRequest None ?l = (True, snd (Ns_ParseRequest None ?l))" by (simp add: prod_eq_iff)
  from parse_request_safe [OF this] show ?thesis by blast
qed

text \<open>
  \<open>Ns_SkipUrl\<close> stays inside the URL: skipping \<open>n\<close> elements leaves exactly the remaining segments
  and the slash at the end, and skipping more elements than there are gives NULL.
\<close>

theorem skip_url_rest:
  assumes "request_segs encoding url \<noteq> []" and "0 \<le> n"
  shows "Ns_SkipUrl (SetUrl encoding r url) n =
    (if n \<le> int (length (request_segs encoding url))
     then Some (render (drop (nat n) (request_segs encoding url)) @ request_trail url) else None)"
proof -
  let ?s = "request_segs encoding url"
  have len: "(\<Sum>s\<leftarrow>ss. Suc (length s)) = length (render ss)" for ss :: "string list"
    by (induction ss) simp_all
  have "render ?s = render (take (nat n) ?s) @ render (drop (nat n) ?s)"
    by (metis append_take_drop_id render_simps(2))
  then show ?thesis using assms(1)
    by (simp add: Ns_SkipUrl_def SetUrl_url SetUrl_urlv SetUrl_urlc len)
qed

lemma skip_url_rest_witness:
  "Ns_SkipUrl (SetUrl (Some \<lparr>toExternal = id, toUtf = (\<lambda>s. ''/a/b'')\<rparr>) Ns_ResetRequest ''/x/'') 1 = Some ''/b/''"
proof -
  let ?e = "Some \<lparr>toExternal = id, toUtf = (\<lambda>s. ''/a/b'')\<rparr>"
  have "cstr ''/a/b'' = ''/a/b''" "normal_segs ''/a/b'' = [''a'', ''b'']" "request_trail ''/x/'' = ''/''" by code_simp+
  then have "request_segs ?e ''/x/'' = [''a'', ''b'']" "request_trail ''/x/'' = ''/''"
    by (simp_all add: request_segs_def Ns_UrlPathDecode_def UrlDecode_def)
  then show ?thesis using skip_url_rest [of ?e "''/x/''" 1 Ns_ResetRequest] by simp
qed

section \<open>Facts on whole request lines\<close>

lemma render_last: "list_all clean_seg segs \<Longrightarrow> segs \<noteq> [] \<Longrightarrow> last (render segs) \<noteq> CHR ''/''"
proof (cases segs rule: rev_cases)
  case (snoc ss s)
  assume "list_all clean_seg segs"
  then have "clean_seg s" "s \<noteq> []" using snoc by (auto simp: clean_seg_def)
  then have "last s \<noteq> CHR ''/''" using clean_no_slash by (metis last_in_set)
  then show ?thesis using snoc \<open>s \<noteq> []\<close> by simp
qed simp

lemma last_dropWhile: "dropWhile P s \<noteq> [] \<Longrightarrow> last (dropWhile P s) = last s"
  by (metis last_append takeWhile_dropWhile_id)

definition plain_text :: "string \<Rightarrow> bool" where
  "plain_text s \<longleftrightarrow> list_all (\<lambda>c. \<not> isspace c \<and> c \<noteq> CHR 0x00) s"

lemma dec_chars_plain: "CHR ''%'' \<notin> set s \<Longrightarrow> dec_chars Path s = s"
  by (induction s) (auto simp: dec_plain_cons dec_plain_def)

lemma split_version_http:
  "split_version (u @ '' HTTP/1.1'') = (u @ '' '', 11 / 10)"
proof -
  have v: "takeWhile (\<lambda>c. isdigit c \<or> c = CHR ''.'') (rev (u @ '' HTTP/1.1'')) = ''1.1''"
    by (simp add: isdigit_def)
  have "strtod ''1.1'' = 11 / 10"
    by (simp add: strtod_def isdigit_def digits_val_def digit_val_def)
  then show ?thesis unfolding split_version_def v by (simp add: Let_def nat_add_distrib)
qed

lemma Trim_space: "plain_text u \<Longrightarrow> Ns_StrTrim (u @ '' '') = u"
proof -
  assume u: "plain_text u"
  have sp: "isspace CHR '' ''" by (simp add: isspace_def)
  have "dropWhile isspace (rev u) = rev u" using u by (cases u rule: rev_cases) (auto simp: plain_text_def)
  then have "Ns_StrTrimRight (u @ '' '') = u" using sp by (simp add: TrimRight_rev)
  moreover have "dropWhile isspace u = u" using u by (cases u) (auto simp: plain_text_def)
  ultimately show ?thesis by (simp add: Ns_StrTrim_def TrimLeft_dropWhile)
qed



text \<open>
  A header line \<open>key: value\<close> appends the key, folded as the disposition says, and the value to the
  header set; a line that starts with white space is appended to the value of the last header;
  a line without a colon and a continuation before the first header are errors.
\<close>

theorem parse_header_lines:
  assumes "CHR '':'' \<notin> set k" "k \<noteq> []" "\<not> isspace (hd k)" "v \<noteq> []" "\<not> isspace (hd v)" "isspace sp"
  shows "map_option set_fields (Ns_ParseHeader st (k @ '':'' @ sp # v) disp) =
      Some (set_fields st @ [\<lparr>fld_name = Some (fold_case disp k), fld_value = Some v\<rparr>]) \<and>
    map_option set_fields (Ns_ParseHeader (Ns_SetPut st (Some k) (Some w)) (sp # v) disp) =
      Some (set_fields st @ [\<lparr>fld_name = Some k, fld_value = Some (w @ '' '' @ v)\<rparr>]) \<and>
    Ns_ParseHeader st k disp = None \<and>
    Ns_ParseHeader (Ns_SetCreate n) (sp # v) disp = None"
proof (intro conjI)
  have dv: "dropWhile isspace (sp # v) = v" using assms(4-6) by (cases v) auto
  have k: "takeWhile (\<lambda>c. c \<noteq> CHR '':'') (k @ '':'' @ sp # v) = k"
    "dropWhile (\<lambda>c. c \<noteq> CHR '':'') (k @ '':'' @ sp # v) = '':'' @ sp # v"
    using assms(1) by (auto simp: takeWhile_append dropWhile_append)
  have "Ns_ParseHeader st (k @ '':'' @ sp # v) disp =
    (let s = Ns_SetPut st (Some k) (Some v)
     in Some (s\<lparr>set_fields := butlast (set_fields s) @ [(last (set_fields s))\<lparr>fld_name := Some (fold_case disp k)\<rparr>]\<rparr>))"
    unfolding Ns_ParseHeader_def k using assms(2,3) dv by (cases k) (simp_all add: Let_def)
  then show "map_option set_fields (Ns_ParseHeader st (k @ '':'' @ sp # v) disp) =
      Some (set_fields st @ [\<lparr>fld_name = Some (fold_case disp k), fld_value = Some v\<rparr>])"
    by (simp add: Let_def)
  show "map_option set_fields (Ns_ParseHeader (Ns_SetPut st (Some k) (Some w)) (sp # v) disp) =
      Some (set_fields st @ [\<lparr>fld_name = Some k, fld_value = Some (w @ '' '' @ v)\<rparr>])"
    using dv assms(4,6) by (simp add: Ns_ParseHeader_def Let_def Ns_SetPutValue_def)
  show "Ns_ParseHeader st k disp = None" using assms(1-3) by (simp add: Ns_ParseHeader_def)
  show "Ns_ParseHeader (Ns_SetCreate n) (sp # v) disp = None" using assms(6) by (simp add: Ns_ParseHeader_def)
qed

lemma parse_header_lines_witness:
  "map_option set_fields (Ns_ParseHeader (Ns_SetCreate None) ''Host: example.org'' ToLower) =
     Some [\<lparr>fld_name = Some (fold_case ToLower ''Host''), fld_value = Some ''example.org''\<rparr>]"
  using parse_header_lines [of "''Host''" "''example.org''" "CHR '' ''" "Ns_SetCreate None" ToLower]
  by (simp add: isspace_def)

section \<open>Divergences\<close>

text \<open>A directory URL that normalises to the root keeps its slash at the end and becomes two slashes.\<close>

lemma set_url_double_slash: "req_url (SetUrl None r ''/a/../'') = Some ''//''"
proof -
  have "cstr ''/a/../'' = ''/a/../''" "takeWhile (\<lambda>c. c \<noteq> CHR ''?'') ''/a/../'' = ''/a/../''"
    "normal_segs ''/a/../'' = []" "request_trail ''/a/../'' = ''/''" by code_simp+
  moreover have "dec_chars Path ''/a/../'' = ''/a/../''" by (rule dec_chars_plain) simp
  ultimately show ?thesis by (simp add: SetUrl_url request_segs_def Ns_UrlPathDecode_def UrlDecode_def)
qed

text \<open>The search for \<open>gzip\<close> finds it inside \<open>x-gzip\<close>, and then does not see a later \<open>gzip\<close>.\<close>

lemma accept_encoding_substring:
  "NsParseAcceptEncoding (11 / 10) ''x-gzip;q=0, gzip'' = False \<and> NsParseAcceptEncoding (11 / 10) ''gzip, x-gzip;q=0'' = True"
  by code_simp

end
