(* ===== verification/Url.thy ===== *)
theory Url
  imports Pathname
begin

text \<open>
  URL parsing and resolution, \<open>nsd/url.c\<close>.  \<open>Ns_ParseUrl\<close> sets five pointers into the string it
  cuts up; they are a record of optional strings, NULL being \<open>None\<close>.  The result \<open>None\<close> stands for a
  read behind the end of the string.
\<close>

section \<open>Parsing\<close>

record url_parts =
  u_protocol :: "string option"
  u_host :: "string option"
  u_port :: "string option"
  u_path :: "string option"
  u_tail :: "string option"

definition no_parts :: url_parts where
  "no_parts = \<lparr>u_protocol = None, u_host = None, u_port = None, u_path = None, u_tail = None\<rparr>"

text \<open>\<open>strchr\<close>: what precedes the first occurrence and what follows it.\<close>

definition cut :: "char \<Rightarrow> string \<Rightarrow> (string \<times> string) option" where
  "cut c s = (if c \<in> set s then Some (takeWhile (\<lambda>d. d \<noteq> c) s, tl (dropWhile (\<lambda>d. d \<noteq> c) s)) else None)"

text \<open>The path up to the last slash and the tail behind it.\<close>

definition set_path :: "url_parts \<Rightarrow> string \<Rightarrow> url_parts" where
  "set_path u url =
     (case strrchr url CHR ''/'' of
        None \<Rightarrow> u\<lparr>u_tail := Some url, u_path := Some []\<rparr>
      | Some end \<Rightarrow> u\<lparr>u_path := Some (take end url), u_tail := Some (drop (end + 1) url)\<rparr>)"

definition Ns_ParseUrl :: "string \<Rightarrow> url_parts option" where
  "Ns_ParseUrl url =
     (case cut CHR '':'' url of
        Some (proto, url) \<Rightarrow>
          (let u = no_parts\<lparr>u_protocol := Some proto\<rparr> in
           if length url > 1 \<and> url ! 0 = CHR ''/'' \<and> url ! 1 = CHR ''/'' then
             (let url = drop 2 url;
                  (host, port, rest) =
                    (case cut CHR '':'' url of
                       Some (h, url) \<Rightarrow> (case cut CHR ''/'' url of
                                           None \<Rightarrow> (h, Some url, None) | Some (p, r) \<Rightarrow> (h, Some p, Some r))
                     | None \<Rightarrow> (case cut CHR ''/'' url of None \<Rightarrow> (url, None, None) | Some (h, r) \<Rightarrow> (h, None, Some r)));
                  u = u\<lparr>u_host := Some host, u_port := port\<rparr>
              in case rest of
                   None \<Rightarrow> Some (u\<lparr>u_path := Some [], u_tail := Some []\<rparr>)
                 | Some r \<Rightarrow> Some (set_path u r))
           else if url = [] then None
           else Some (set_path u (tl url)))
      | None \<Rightarrow>
          if url \<noteq> [] \<and> hd url = CHR ''/'' then Some (set_path no_parts (tl url))
          else Some (no_parts\<lparr>u_tail := Some url\<rparr>))"

section \<open>Resolution\<close>

fun skip_slashes :: "string \<Rightarrow> string" where
  "skip_slashes (a # b # s) = (if a = CHR ''/'' \<and> b = CHR ''/'' then skip_slashes (b # s) else a # b # s)"
| "skip_slashes s = s"

definition Ns_RelativeUrl :: "string option \<Rightarrow> string option \<Rightarrow> string option" where
  "Ns_RelativeUrl url location =
     (case (url, location) of
        (Some u, Some l) \<Rightarrow> Some (skip_slashes (case Ns_Match l u of Some v \<Rightarrow> v | None \<Rightarrow> u))
      | _ \<Rightarrow> None)"

text \<open>The tail is never NULL behind \<open>Ns_ParseUrl\<close>.  \<open>Inl\<close> is \<open>NS_ERROR\<close>.\<close>

definition Ns_AbsoluteUrl :: "string \<Rightarrow> string \<Rightarrow> string \<Rightarrow> (unit + string) option" where
  "Ns_AbsoluteUrl ds url base =
     (case (Ns_ParseUrl url, Ns_ParseUrl base) of
        (Some u, Some b) \<Rightarrow>
          (case (u_protocol b, u_host b, u_path b) of
             (Some bproto, Some bhost, Some bpath) \<Rightarrow>
               (let proto = (case u_protocol u of None \<Rightarrow> bproto | Some p \<Rightarrow> p);
                    (host, port) = (case u_host u of None \<Rightarrow> (bhost, u_port b) | Some h \<Rightarrow> (h, u_port u));
                    path = (case u_path u of None \<Rightarrow> bpath | Some p \<Rightarrow> p);
                    tail = the (u_tail u)
                in Some (Inr (ds @ proto @ ''://'' @ host @ (case port of None \<Rightarrow> [] | Some p \<Rightarrow> '':'' @ p) @
                     (if path = [] then ''/'' @ tail else ''/'' @ path @ ''/'' @ tail))))
           | _ \<Rightarrow> Some (Inl ()))
      | _ \<Rightarrow> None)"

section \<open>Facts\<close>

lemma cut_app: "c \<notin> set a \<Longrightarrow> cut c (a @ c # b) = Some (a, b)"
  by (auto simp: cut_def takeWhile_append dropWhile_append)

lemma cut_none: "c \<notin> set a \<Longrightarrow> cut c a = None"
  by (simp add: cut_def)

lemma strrchr_none: "c \<notin> set s \<Longrightarrow> strrchr s c = None"
  by (induction s) auto

text \<open>A URL in full: the port is optional, the path may be empty.\<close>

definition print_url :: "string \<Rightarrow> string \<Rightarrow> string option \<Rightarrow> string \<Rightarrow> string \<Rightarrow> string" where
  "print_url proto host port path tail =
     proto @ ''://'' @ host @ (case port of None \<Rightarrow> [] | Some p \<Rightarrow> '':'' @ p) @
     (if path = [] then ''/'' @ tail else ''/'' @ path @ ''/'' @ tail)"

definition url_word :: "string \<Rightarrow> bool" where
  "url_word s \<longleftrightarrow> CHR '':'' \<notin> set s \<and> CHR ''/'' \<notin> set s"

lemma set_path_print:
  assumes "CHR ''/'' \<notin> set tail"
  shows "set_path u (if path = [] then tail else path @ ''/'' @ tail) = u\<lparr>u_path := Some path, u_tail := Some tail\<rparr>"
  using assms by (simp add: set_path_def strrchr_none strrchr_app)

lemma ParseUrl_print:
  assumes "url_word proto" "url_word host" "\<And>p. port = Some p \<Longrightarrow> url_word p"
    "CHR '':'' \<notin> set path" "url_word tail"
  shows "Ns_ParseUrl (print_url proto host port path tail) =
    Some \<lparr>u_protocol = Some proto, u_host = Some host, u_port = port, u_path = Some path, u_tail = Some tail\<rparr>"
proof -
  let ?pt = "if path = [] then tail else path @ ''/'' @ tail"
  have pt: "CHR '':'' \<notin> set ?pt" "CHR ''/'' \<notin> set tail" using assms(4,5) by (auto simp: url_word_def)
  have pr: "print_url proto host port path tail =
    proto @ CHR '':'' # ''//'' @ host @ (case port of None \<Rightarrow> [] | Some p \<Rightarrow> '':'' @ p) @ CHR ''/'' # ?pt"
    by (simp add: print_url_def)
  have c1: "cut CHR '':'' (print_url proto host port path tail) =
    Some (proto, ''//'' @ host @ (case port of None \<Rightarrow> [] | Some p \<Rightarrow> '':'' @ p) @ CHR ''/'' # ?pt)"
    unfolding pr using assms(1) by (intro cut_app) (simp add: url_word_def)
  show ?thesis
  proof (cases port)
    case None
    have "cut CHR '':'' (host @ CHR ''/'' # ?pt) = None" using assms(2) pt by (intro cut_none) (auto simp: url_word_def)
    moreover have "cut CHR ''/'' (host @ CHR ''/'' # ?pt) = Some (host, ?pt)"
      using assms(2) by (intro cut_app) (simp add: url_word_def)
    ultimately show ?thesis
      unfolding Ns_ParseUrl_def c1 using None set_path_print [OF pt(2)] by (simp add: Let_def no_parts_def)
  next
    case (Some p)
    have "cut CHR '':'' (host @ CHR '':'' # p @ CHR ''/'' # ?pt) = Some (host, p @ CHR ''/'' # ?pt)"
      using assms(2) by (intro cut_app) (auto simp: url_word_def)
    moreover have "cut CHR ''/'' (p @ CHR ''/'' # ?pt) = Some (p, ?pt)"
      using assms(3) [OF Some] by (intro cut_app) (simp add: url_word_def)
    ultimately show ?thesis
      unfolding Ns_ParseUrl_def c1 using Some set_path_print [OF pt(2)] by (simp add: Let_def no_parts_def)
  qed
qed

section \<open>Properties\<close>

text \<open>
  A URL in full, \<open>proto://host[:port]/path/tail\<close>, is parsed into its parts, and resolving it
  against any base with protocol, host and path gives the URL back; resolving a bare tail
  replaces the tail of the base.
\<close>

theorem absolute_url_round_trip:
  assumes "url_word proto" "url_word host" "\<And>p. port = Some p \<Longrightarrow> url_word p"
    "CHR '':'' \<notin> set path" "url_word tail"
    and "url_word bproto" "url_word bhost" "\<And>p. bport = Some p \<Longrightarrow> url_word p"
    "CHR '':'' \<notin> set bpath" "url_word btail"
  shows "Ns_AbsoluteUrl [] (print_url proto host port path tail) (print_url bproto bhost bport bpath btail) =
      Some (Inr (print_url proto host port path tail)) \<and>
    Ns_AbsoluteUrl [] tail (print_url bproto bhost bport bpath btail) =
      Some (Inr (print_url bproto bhost bport bpath tail))"
proof -
  have bare: "Ns_ParseUrl tail = Some (no_parts\<lparr>u_tail := Some tail\<rparr>)"
    using assms(5) by (cases tail) (auto simp: Ns_ParseUrl_def url_word_def cut_none)
  show ?thesis
    using ParseUrl_print [OF assms(1-5)] ParseUrl_print [OF assms(6-10)] bare
    by (simp add: Ns_AbsoluteUrl_def print_url_def no_parts_def split: option.splits)
qed

lemma absolute_url_round_trip_witness:
  "Ns_AbsoluteUrl [] ''x.html'' (print_url ''http'' ''h'' (Some ''80'') ''a/b'' ''y'') =
     Some (Inr (print_url ''http'' ''h'' (Some ''80'') ''a/b'' ''x.html''))"
  using absolute_url_round_trip [of "''p''" "''q''" None "[]" "''x.html''" "''http''" "''h''" "Some ''80''" "''a/b''" "''y''"]
  by (simp add: url_word_def)

text \<open>
  \<open>Ns_ParseUrl\<close> looks for the colon of a port in the whole rest of the URL, so a colon in the path
  makes the first part of the path part of the host; and a URL that ends with the colon of its
  protocol makes it read behind the end of the string.
\<close>

theorem parse_url_wrong:
  "Ns_ParseUrl ''http://h/a:b'' = Some \<lparr>u_protocol = Some ''http'', u_host = Some ''h/a'', u_port = Some ''b'',
      u_path = Some [], u_tail = Some []\<rparr> \<and>
   Ns_ParseUrl ''about:'' = None"
  by code_simp

end
