(* ===== verification/Sha1.thy ===== *)
theory Sha1
  imports Prelude "HOL-Library.Word"
begin

unbundle bit_operations_syntax

text \<open>
  The SHA1 digest of \<open>nsd/tclmisc.c\<close>.  The context is modelled with its memory: \<open>key\<close> is the 64
  bytes of the C array \<open>unsigned int key[16]\<close>, read and written as words in the byte order of a
  little-endian host.  A write that would leave \<open>key\<close> gives \<open>None\<close>.  The byte count is the
  64-bit one of \<open>HAVE_64BIT\<close>.
\<close>

section \<open>Words and bytes\<close>

definition be32 :: "8 word list \<Rightarrow> nat \<Rightarrow> 32 word" where
  "be32 src k = push_bit 16 (push_bit 8 (ucast (src ! (4 * k))) OR ucast (src ! (4 * k + 1))) OR
     (push_bit 8 (ucast (src ! (4 * k + 2))) OR ucast (src ! (4 * k + 3)))"

definition be_bytes :: "32 word \<Rightarrow> 8 word list" where
  "be_bytes t = [ucast (drop_bit 24 t), ucast (drop_bit 16 t), ucast (drop_bit 8 t), ucast t]"

text \<open>A word in the memory of the host.\<close>

definition load_word :: "8 word list \<Rightarrow> nat \<Rightarrow> 32 word" where
  "load_word m k = push_bit 24 (ucast (m ! (4 * k + 3))) OR push_bit 16 (ucast (m ! (4 * k + 2))) OR
     push_bit 8 (ucast (m ! (4 * k + 1))) OR ucast (m ! (4 * k))"

definition store_bytes :: "32 word \<Rightarrow> 8 word list" where
  "store_bytes w = [ucast w, ucast (drop_bit 8 w), ucast (drop_bit 16 w), ucast (drop_bit 24 w)]"

definition load_words :: "8 word list \<Rightarrow> 32 word list" where
  "load_words m = map (load_word m) [0..<16]"

definition store_words :: "8 word list \<Rightarrow> 32 word list \<Rightarrow> 8 word list" where
  "store_words m ws = concat (map store_bytes ws) @ drop (4 * length ws) m"

section \<open>The compression function\<close>

record Ns_CtxSHA1 =
  sha_key :: "8 word list"
  sha_iv :: "32 word list"
  sha_bytes :: "64 word"

definition SHAByteSwap :: "8 word list \<Rightarrow> 8 word list \<Rightarrow> nat \<Rightarrow> 8 word list" where
  "SHAByteSwap dest src n = store_words dest (map (be32 src) [0..<n])"

text \<open>The initial values; the key is not initialised.\<close>

definition Ns_CtxSHAInit :: "8 word list \<Rightarrow> Ns_CtxSHA1" where
  "Ns_CtxSHAInit garbage =
     \<lparr>sha_key = garbage, sha_iv = [0x67452301, 0xEFCDAB89, 0x98BADCFE, 0x10325476, 0xC3D2E1F0], sha_bytes = 0\<rparr>"

definition f1 :: "32 word \<Rightarrow> 32 word \<Rightarrow> 32 word \<Rightarrow> 32 word" where
  "f1 x y z = z XOR (x AND (y XOR z))"

definition f2 :: "32 word \<Rightarrow> 32 word \<Rightarrow> 32 word \<Rightarrow> 32 word" where
  "f2 x y z = x XOR y XOR z"

definition f3 :: "32 word \<Rightarrow> 32 word \<Rightarrow> 32 word \<Rightarrow> 32 word" where
  "f3 x y z = (x AND y) + (z AND (x XOR y))"

definition f4 :: "32 word \<Rightarrow> 32 word \<Rightarrow> 32 word \<Rightarrow> 32 word" where
  "f4 x y z = x XOR y XOR z"

definition ROTL :: "nat \<Rightarrow> 32 word \<Rightarrow> 32 word" where
  "ROTL n x = push_bit n x OR drop_bit (32 - n) x"

definition expandx :: "32 word list \<Rightarrow> nat \<Rightarrow> 32 word" where
  "expandx W i = ROTL 1 (W ! (i mod 16) XOR W ! ((i - 14) mod 16) XOR W ! ((i - 8) mod 16) XOR W ! ((i - 3) mod 16))"

definition round_fun :: "nat \<Rightarrow> 32 word \<Rightarrow> 32 word \<Rightarrow> 32 word \<Rightarrow> 32 word" where
  "round_fun i = (if i < 20 then f1 else if i < 40 then f2 else if i < 60 then f3 else f4)"

definition round_key :: "nat \<Rightarrow> 32 word" where
  "round_key i = (if i < 20 then 0x5A827999 else if i < 40 then 0x6ED9EBA1 else if i < 60 then 0x8F1BBCDC else 0xCA62C1D6)"

type_synonym regs = "32 word \<times> 32 word \<times> 32 word \<times> 32 word \<times> 32 word"

text \<open>
  One \<open>subRound\<close>: it changes \<open>e\<close> and \<open>b\<close>, and the source renames the five variables for the next one.
\<close>

definition subRound :: "regs \<Rightarrow> (32 word \<Rightarrow> 32 word \<Rightarrow> 32 word \<Rightarrow> 32 word) \<Rightarrow> 32 word \<Rightarrow> 32 word \<Rightarrow> regs" where
  "subRound s f k data =
     (case s of (a, b, c, d, e) \<Rightarrow>
        let e = e + (ROTL 5 a + f b c d + k + data); b = ROTL 30 b
        in (e, a, b, c, d))"

text \<open>
  Round \<open>i\<close> of the 80: from round 16 on the data is expanded into the circular buffer, except that
  the last three rounds do not write it back.
\<close>

definition sha_round :: "32 word list \<times> regs \<Rightarrow> nat \<Rightarrow> 32 word list \<times> regs" where
  "sha_round Ws i =
     (case Ws of (W, s) \<Rightarrow>
        if i < 16 then (W, subRound s (round_fun i) (round_key i) (W ! i))
        else let t = expandx W i
             in (if i < 77 then W[i mod 16 := t] else W, subRound s (round_fun i) (round_key i) t))"

definition SHATransform :: "Ns_CtxSHA1 \<Rightarrow> Ns_CtxSHA1" where
  "SHATransform sha =
     (let iv = sha_iv sha;
          (W, (A, B, C, D, E)) =
            foldl sha_round (load_words (sha_key sha), (iv ! 0, iv ! 1, iv ! 2, iv ! 3, iv ! 4)) [0..<80]
      in sha\<lparr>sha_key := store_words (sha_key sha) W,
             sha_iv := [iv ! 0 + A, iv ! 1 + B, iv ! 2 + C, iv ! 3 + D, iv ! 4 + E]\<rparr>)"

section \<open>Updating and finishing\<close>

text \<open>\<open>memcpy\<close> to an offset in bytes.\<close>

definition key_copy :: "Ns_CtxSHA1 \<Rightarrow> nat \<Rightarrow> 8 word list \<Rightarrow> Ns_CtxSHA1 option" where
  "key_copy ctx off src =
     (if off + length src \<le> length (sha_key ctx)
      then Some (ctx\<lparr>sha_key := take off (sha_key ctx) @ src @ drop (off + length src) (sha_key ctx)\<rparr>)
      else None)"

function sha_blocks :: "Ns_CtxSHA1 \<Rightarrow> 8 word list \<Rightarrow> Ns_CtxSHA1 \<times> 8 word list" where
  "sha_blocks ctx buf =
     (if length buf \<ge> 64
      then sha_blocks (SHATransform (ctx\<lparr>sha_key := SHAByteSwap (sha_key ctx) buf 16\<rparr>)) (drop 64 buf)
      else (ctx, buf))"
  by auto
termination by (relation "measure (\<lambda>(ctx, buf). length buf)") auto

declare sha_blocks.simps [simp del]

text \<open>
  The destination \<open>ctx->key + i\<close> is \<open>i\<close> words, not \<open>i\<close> bytes, behind the start of the key, since \<open>key\<close>
  is an array of \<open>unsigned int\<close>.
\<close>

definition Ns_CtxSHAUpdate :: "Ns_CtxSHA1 \<Rightarrow> 8 word list \<Rightarrow> Ns_CtxSHA1 option" where
  "Ns_CtxSHAUpdate ctx buf =
     (let i = unat (sha_bytes ctx) mod 64;
          ctx = ctx\<lparr>sha_bytes := sha_bytes ctx + of_nat (length buf)\<rparr>
      in if 64 - i > length buf then key_copy ctx (4 * i) buf
         else
           (case (if i \<noteq> 0
                  then map_option (\<lambda>ctx. (SHATransform (ctx\<lparr>sha_key := SHAByteSwap (sha_key ctx) (sha_key ctx) 16\<rparr>), drop (64 - i) buf))
                         (key_copy ctx (4 * i) (take (64 - i) buf))
                  else Some (ctx, buf)) of
              None \<Rightarrow> None
            | Some (ctx, buf) \<Rightarrow>
                (case sha_blocks ctx buf of
                   (ctx, buf) \<Rightarrow> if length buf \<noteq> 0 then key_copy ctx 0 buf else Some ctx)))"

definition Ns_CtxSHAFinal :: "Ns_CtxSHA1 \<Rightarrow> 8 word list" where
  "Ns_CtxSHAFinal ctx =
     (let i = unat (sha_bytes ctx) mod 64;
          ctx = ctx\<lparr>sha_key := (sha_key ctx)[i := 0x80]\<rparr>;
          n = 64 - 1 - i;
          (ctx, p, n) =
            (if n < 8
             then (SHATransform (let key = take (i + 1) (sha_key ctx) @ replicate n 0
                                 in ctx\<lparr>sha_key := SHAByteSwap key key 16\<rparr>), 0, 64)
             else (ctx, i + 1, n));
          key = take p (sha_key ctx) @ replicate (n - 8) 0 @ drop (p + (n - 8)) (sha_key ctx);
          key = SHAByteSwap key key 14;
          key = take 56 key @ store_bytes (ucast (drop_bit 29 (sha_bytes ctx))) @ store_bytes (push_bit 3 (ucast (sha_bytes ctx)));
          ctx = SHATransform (ctx\<lparr>sha_key := key\<rparr>)
      in concat (map be_bytes (sha_iv ctx)))"

section \<open>Digests as text\<close>

definition hexChars :: string where
  "hexChars = ''0123456789ABCDEF''"

definition Ns_CtxString :: "8 word list \<Rightarrow> string" where
  "Ns_CtxString digest = concat (map (\<lambda>b. [hexChars ! unat (drop_bit 4 b), hexChars ! unat (b AND 0x0F)]) digest)"

definition NsTclSHA1ObjCmd :: "8 word list \<Rightarrow> 8 word list \<Rightarrow> string option" where
  "NsTclSHA1ObjCmd garbage str =
     map_option (\<lambda>ctx. Ns_CtxString (Ns_CtxSHAFinal ctx)) (Ns_CtxSHAUpdate (Ns_CtxSHAInit garbage) str)"

section \<open>The reference: FIPS 180-1\<close>

definition schedule :: "nat \<Rightarrow> 32 word list \<Rightarrow> 32 word list" where
  "schedule n M = foldl (\<lambda>W t. W @ [ROTL 1 (W ! (t - 3) XOR W ! (t - 8) XOR W ! (t - 14) XOR W ! (t - 16))]) M [16..<n]"

definition fips_fun :: "nat \<Rightarrow> 32 word \<Rightarrow> 32 word \<Rightarrow> 32 word \<Rightarrow> 32 word" where
  "fips_fun t b c d =
     (if t < 20 then (b AND c) OR (NOT b AND d)
      else if 40 \<le> t \<and> t < 60 then (b AND c) OR (b AND d) OR (c AND d)
      else b XOR c XOR d)"

definition fips_round :: "32 word list \<Rightarrow> regs \<Rightarrow> nat \<Rightarrow> regs" where
  "fips_round W s t = (case s of (a, b, c, d, e) \<Rightarrow>
     (ROTL 5 a + fips_fun t b c d + e + W ! t + round_key t, a, ROTL 30 b, c, d))"

definition fips_block :: "32 word list \<Rightarrow> 8 word list \<Rightarrow> 32 word list" where
  "fips_block H M =
     (case foldl (fips_round (schedule 80 (map (be32 M) [0..<16]))) (H ! 0, H ! 1, H ! 2, H ! 3, H ! 4) [0..<80] of
        (a, b, c, d, e) \<Rightarrow> [H ! 0 + a, H ! 1 + b, H ! 2 + c, H ! 3 + d, H ! 4 + e])"

definition fips_pad :: "8 word list \<Rightarrow> 8 word list" where
  "fips_pad msg =
     (let l = of_nat (8 * length msg) :: 64 word
      in msg @ [0x80] @ replicate ((119 - length msg mod 64) mod 64) 0 @
         be_bytes (ucast (drop_bit 32 l)) @ be_bytes (ucast l))"

function fips_blocks :: "32 word list \<Rightarrow> 8 word list \<Rightarrow> 32 word list" where
  "fips_blocks H M = (if length M < 64 then H else fips_blocks (fips_block H (take 64 M)) (drop 64 M))"
  by auto
termination by (relation "measure (\<lambda>(H, M). length M)") auto

declare fips_blocks.simps [simp del]

definition fips_sha1 :: "8 word list \<Rightarrow> 8 word list" where
  "fips_sha1 msg =
     concat (map be_bytes (fips_blocks [0x67452301, 0xEFCDAB89, 0x98BADCFE, 0x10325476, 0xC3D2E1F0] (fips_pad msg)))"

section \<open>Facts on words in memory\<close>

lemma nth_concat4:
  assumes "\<And>w. length (f w) = 4" "k < length ws" "j < 4"
  shows "(concat (map f ws) @ r) ! (4 * k + j) = f (ws ! k) ! j"
  using assms(2)
proof (induction ws arbitrary: k)
  case (Cons w ws)
  show ?case
  proof (cases k)
    case 0
    then show ?thesis using assms(1,3) by (simp add: nth_append)
  next
    case (Suc k')
    then have "(f w @ concat (map f ws) @ r) ! (4 * k + j) = (concat (map f ws) @ r) ! (4 * k' + j)"
      using assms(1) [of w] by (simp add: nth_append)
    then show ?thesis using Cons Suc by simp
  qed
qed simp

lemma length_concat4: "(\<And>w. length (f w) = 4) \<Longrightarrow> length (concat (map f ws)) = 4 * length ws"
  by (induction ws) auto

lemma length_word_bytes [simp]: "length (store_bytes w) = 4" "length (be_bytes w) = 4"
  by (simp_all add: store_bytes_def be_bytes_def)

lemma bytes_word:
  "push_bit 24 (ucast (ucast (drop_bit 24 w) :: 8 word)) OR push_bit 16 (ucast (ucast (drop_bit 16 w) :: 8 word)) OR
   push_bit 8 (ucast (ucast (drop_bit 8 w) :: 8 word)) OR ucast (ucast w :: 8 word) = w" (is "?l = _") for w :: "32 word"
proof (rule bit_word_eqI)
  fix n assume "n < LENGTH(32)"
  then have "n < 8 \<or> 8 \<le> n \<and> n < 16 \<or> 16 \<le> n \<and> n < 24 \<or> 24 \<le> n \<and> n < 32" by auto
  then show "bit ?l n = bit w n"
    by (elim disjE) (auto simp: bit_simps)
qed

lemma load_store: "k < length ws \<Longrightarrow> load_word (concat (map store_bytes ws) @ r) k = ws ! k"
proof -
  assume k: "k < length ws"
  have n: "(concat (map store_bytes ws) @ r) ! (4 * k + j) = store_bytes (ws ! k) ! j" if "j < 4" for j
    using k that by (intro nth_concat4) simp_all
  show ?thesis using n [of 0] n [of 1] n [of 2] n [of 3] bytes_word [of "ws ! k"]
    by (simp add: load_word_def store_bytes_def)
qed

lemma be32_be_bytes: "k < length ws \<Longrightarrow> be32 (concat (map be_bytes ws) @ r) k = ws ! k"
proof -
  assume k: "k < length ws"
  have n: "(concat (map be_bytes ws) @ r) ! (4 * k + j) = be_bytes (ws ! k) ! j" if "j < 4" for j
    using k that by (intro nth_concat4) simp_all
  show ?thesis using n [of 0] n [of 1] n [of 2] n [of 3] bytes_word [of "ws ! k"]
    by (simp add: be32_def be_bytes_def push_bit_or or.assoc)
qed

lemma length_store_words: "4 * length ws \<le> length m \<Longrightarrow> length (store_words m ws) = length m"
  by (simp add: store_words_def length_concat4)

lemma load_ByteSwap:
  assumes "length dest = 64"
  shows "load_words (SHAByteSwap dest src 16) = map (be32 src) [0..<16]"
  by (rule nth_equalityI) (simp_all add: load_words_def SHAByteSwap_def store_words_def load_store del: map_map)

section \<open>Facts on the compression function\<close>

lemma round_fun_fips: "round_fun t b c d = fips_fun t b c d"
proof -
  have "f1 b c d = (b AND c) OR (NOT b AND d)"
    unfolding f1_def by (rule bit_word_eqI) (auto simp: bit_simps)
  moreover have "f3 b c d = (b AND c) OR (b AND d) OR (c AND d)"
  proof -
    have "f3 b c d = (b AND c) OR (d AND (b XOR c))"
      unfolding f3_def by (rule disjunctive_add) (auto simp: bit_simps)
    also have "\<dots> = (b AND c) OR (b AND d) OR (c AND d)" by (rule bit_word_eqI) (auto simp: bit_simps)
    finally show ?thesis .
  qed
  ultimately show ?thesis by (simp add: round_fun_def fips_fun_def f2_def f4_def)
qed

lemma length_schedule: "length M = 16 \<Longrightarrow> 16 \<le> n \<Longrightarrow> length (schedule n M) = n"
proof (induction n)
  case (Suc n)
  show ?case
  proof (cases "n = 15")
    case False
    then show ?thesis using Suc by (simp add: schedule_def)
  qed (simp add: schedule_def Suc.prems)
qed simp

lemma schedule_Suc:
  "16 \<le> n \<Longrightarrow> schedule (Suc n) M = schedule n M @
     [ROTL 1 (schedule n M ! (n - 3) XOR schedule n M ! (n - 8) XOR schedule n M ! (n - 14) XOR schedule n M ! (n - 16))]"
  by (simp add: schedule_def)

lemma schedule_stable: "length M = 16 \<Longrightarrow> 16 \<le> n \<Longrightarrow> n \<le> m \<Longrightarrow> i < n \<Longrightarrow> schedule m M ! i = schedule n M ! i"
proof (induction m)
  case (Suc m)
  show ?case
  proof (cases "n = Suc m")
    case False
    then have "n \<le> m" "16 \<le> m" using Suc by auto
    then show ?thesis using Suc schedule_Suc [of m M] length_schedule [of M m] by (simp add: nth_append)
  qed simp
qed simp

lemma schedule_nth:
  assumes "length M = 16" "16 \<le> t" "t < 80"
  shows "schedule 80 M ! t = ROTL 1 (schedule 80 M ! (t - 3) XOR schedule 80 M ! (t - 8) XOR schedule 80 M ! (t - 14) XOR schedule 80 M ! (t - 16))"
proof -
  have "schedule 80 M ! t = schedule (Suc t) M ! t" using assms by (intro schedule_stable) simp_all
  also have "\<dots> = ROTL 1 (schedule t M ! (t - 3) XOR schedule t M ! (t - 8) XOR schedule t M ! (t - 14) XOR schedule t M ! (t - 16))"
    by (subst schedule_Suc [OF assms(2)]) (simp add: nth_append length_schedule [OF assms(1,2)])
  finally have eq: "schedule 80 M ! t = ROTL 1 (schedule t M ! (t - 3) XOR schedule t M ! (t - 8) XOR schedule t M ! (t - 14) XOR schedule t M ! (t - 16))" .
  have st: "schedule t M ! s = schedule 80 M ! s" if "s < t" for s
    by (rule schedule_stable [OF assms(1,2) less_imp_le [OF assms(3)] that, symmetric])
  have lt: "t - 3 < t" "t - 8 < t" "t - 14 < t" "t - 16 < t" using assms(2) by linarith+
  show ?thesis unfolding eq st [OF lt(1)] st [OF lt(2)] st [OF lt(3)] st [OF lt(4)] by (rule refl)
qed

lemma schedule_nth0: "length M = 16 \<Longrightarrow> t < 16 \<Longrightarrow> schedule 80 M ! t = M ! t"
proof -
  assume M: "length M = 16" "t < 16"
  have "schedule 80 M ! t = schedule 16 M ! t" by (rule schedule_stable [OF M(1) _ _ M(2)]) simp_all
  moreover have "schedule 16 M = M" by (simp add: schedule_def)
  ultimately show ?thesis by (simp only:)
qed

text \<open>
  The circular buffer before round \<open>t\<close>: the last sixteen words of the schedule that were written.
\<close>

definition circ :: "32 word list \<Rightarrow> nat \<Rightarrow> 32 word list \<Rightarrow> bool" where
  "circ S t W \<longleftrightarrow> length W = 16 \<and> (\<forall>s. min t 77 - 16 \<le> s \<and> s < max 16 (min t 77) \<longrightarrow> W ! (s mod 16) = S ! s)"

lemma mod16_eq: "a \<le> s \<Longrightarrow> s < a + 16 \<Longrightarrow> s mod 16 = a mod 16 \<Longrightarrow> s = a" for a s :: nat
proof -
  assume as: "a \<le> s" "s < a + 16" "s mod 16 = a mod 16"
  then have "16 dvd s - a" by (simp add: mod_eq_dvd_iff_nat)
  moreover have "s - a < 16" using as(2) by simp
  ultimately have "s - a = 0" by (metis nat_dvd_not_less not_gr_zero)
  then show "s = a" using as(1) by simp
qed

lemma circ_step:
  assumes "length M = 16" "t < 80" "circ (schedule 80 M) t W"
  shows "circ (schedule 80 M) (Suc t) (fst (sha_round (W, s) t)) \<and>
    snd (sha_round (W, s) t) = fips_round (schedule 80 M) s t"
proof -
  let ?S = "schedule 80 M"
  obtain a b c d e where s: "s = (a, b, c, d, e)" by (cases s) auto
  have sub: "subRound s (round_fun t) (round_key t) (?S ! t) = fips_round ?S s t"
    by (simp add: s subRound_def fips_round_def round_fun_fips)
  have W: "length W = 16" "\<And>s. min t 77 - 16 \<le> s \<Longrightarrow> s < max 16 (min t 77) \<Longrightarrow> W ! (s mod 16) = ?S ! s"
    using assms(3) by (auto simp: circ_def)
  show ?thesis
  proof (cases "t < 16")
    case True
    then have "W ! t = ?S ! t" using W(2) [of t] by simp
    then show ?thesis using True sub W by (simp add: sha_round_def circ_def min_def max_def)
  next
    case False
    have m: "t mod 16 = (t - 16) mod 16" using False by (simp add: le_mod_geq)
    have x: "expandx W t = ?S ! t"
    proof -
      have "W ! (t mod 16) = ?S ! (t - 16)" unfolding m using False assms(2) by (intro W(2)) (auto simp: min_def max_def)
      moreover have "W ! ((t - 14) mod 16) = ?S ! (t - 14)" "W ! ((t - 8) mod 16) = ?S ! (t - 8)" "W ! ((t - 3) mod 16) = ?S ! (t - 3)"
        by (rule W(2); use False assms(2) in \<open>auto simp: min_def max_def\<close>)+
      ultimately have "expandx W t = ROTL 1 (?S ! (t - 16) XOR ?S ! (t - 14) XOR ?S ! (t - 8) XOR ?S ! (t - 3))"
        unfolding expandx_def by (simp only:)
      also have "\<dots> = ?S ! t" unfolding schedule_nth [OF assms(1) _ assms(2), of, OF leI [OF False]]
        by (simp only: xor.assoc xor.commute xor.left_commute)
      finally show ?thesis .
    qed
    have r: "sha_round (W, s) t = (if t < 77 then W[t mod 16 := ?S ! t] else W, fips_round ?S s t)"
      using False x sub by (simp add: sha_round_def Let_def)
    have "circ ?S (Suc t) (if t < 77 then W[t mod 16 := ?S ! t] else W)"
    proof (cases "t < 77")
      case True
      have "W[t mod 16 := ?S ! t] ! (u mod 16) = ?S ! u" if u: "Suc t - 16 \<le> u" "u < Suc t" for u
      proof (cases "u = t")
        case False
        have "u \<le> t" "t < u + 16" using u by linarith+
        then have "u mod 16 \<noteq> t mod 16" using mod16_eq [of u t] False by metis
        then show ?thesis using W(2) [of u] u False True \<open>\<not> t < 16\<close> W(1) by simp
      qed (simp add: W(1))
      then show ?thesis using True False W(1) by (auto simp: circ_def)
    qed (use W in \<open>auto simp: circ_def min_def\<close>)
    then show ?thesis by (simp add: r)
  qed
qed

lemma rounds_fips:
  assumes "length M = 16" "n \<le> 80"
  shows "circ (schedule 80 M) n (fst (foldl sha_round (M, s) [0..<n])) \<and>
    snd (foldl sha_round (M, s) [0..<n]) = foldl (fips_round (schedule 80 M)) s [0..<n]"
  using assms(2)
proof (induction n)
  case 0
  have "circ (schedule 80 M) 0 M" using assms(1) schedule_nth0 [OF assms(1)] by (simp add: circ_def)
  then show ?case by simp
next
  case (Suc n)
  let ?f = "foldl sha_round (M, s) [0..<n]"
  have "circ (schedule 80 M) n (fst ?f)" "snd ?f = foldl (fips_round (schedule 80 M)) s [0..<n]" "n < 80"
    using Suc by auto
  moreover have "sha_round (fst ?f, snd ?f) n = sha_round ?f n" by simp
  ultimately show ?case using circ_step [OF assms(1), of n "fst ?f" "snd ?f"] by simp
qed

lemma Transform_fips:
  assumes "load_words (sha_key ctx) = map (be32 M) [0..<16]" "length (sha_key ctx) = 64"
  shows "sha_iv (SHATransform ctx) = fips_block (sha_iv ctx) M"
    and "length (sha_key (SHATransform ctx)) = 64" and "sha_bytes (SHATransform ctx) = sha_bytes ctx"
proof -
  let ?M = "map (be32 M) [0..<16]" and ?iv = "sha_iv ctx"
  let ?s = "(?iv ! 0, ?iv ! 1, ?iv ! 2, ?iv ! 3, ?iv ! 4)"
  have r: "circ (schedule 80 ?M) 80 (fst (foldl sha_round (?M, ?s) [0..<80]))"
    "snd (foldl sha_round (?M, ?s) [0..<80]) = foldl (fips_round (schedule 80 ?M)) ?s [0..<80]"
    using rounds_fips [of ?M 80 ?s] by auto
  show "sha_iv (SHATransform ctx) = fips_block (sha_iv ctx) M"
    unfolding SHATransform_def fips_block_def assms(1) r(2) [symmetric] Let_def case_prod_beta by simp
  have "length (fst (foldl sha_round (?M, ?s) [0..<80])) = 16" using r(1) by (simp add: circ_def)
  then show "length (sha_key (SHATransform ctx)) = 64"
    unfolding SHATransform_def assms(1) Let_def case_prod_beta using assms(2) by (simp add: length_store_words)
  show "sha_bytes (SHATransform ctx) = sha_bytes ctx" by (simp add: SHATransform_def Let_def case_prod_beta)
qed

lemma fips_block_take: "64 \<le> length M \<Longrightarrow> fips_block H (take 64 M) = fips_block H M"
proof -
  assume "64 \<le> length M"
  then have "map (be32 (take 64 M)) [0..<16] = map (be32 M) [0..<16]" by (simp add: be32_def)
  then show ?thesis unfolding fips_block_def by (simp only:)
qed

lemma Transform_swap:
  assumes "length (sha_key ctx) = 64" "ctx' = SHATransform (ctx\<lparr>sha_key := SHAByteSwap (sha_key ctx) M 16\<rparr>)"
  shows "sha_iv ctx' = fips_block (sha_iv ctx) M" "length (sha_key ctx') = 64" "sha_bytes ctx' = sha_bytes ctx"
proof -
  let ?c = "ctx\<lparr>sha_key := SHAByteSwap (sha_key ctx) M 16\<rparr>"
  have "load_words (sha_key ?c) = map (be32 M) [0..<16]" using load_ByteSwap [OF assms(1)] by simp
  moreover have "length (sha_key ?c) = 64" using assms(1) by (simp add: SHAByteSwap_def length_store_words)
  ultimately show "sha_iv ctx' = fips_block (sha_iv ctx) M" "length (sha_key ctx') = 64" "sha_bytes ctx' = sha_bytes ctx"
    using Transform_fips [of ?c M] assms(2) by simp_all
qed

section \<open>Facts on whole messages\<close>

lemma sha_blocks_fips:
  assumes "length (sha_key ctx) = 64" "sha_blocks ctx buf = (ctx', rest)"
  shows "length (sha_key ctx') = 64 \<and> sha_bytes ctx' = sha_bytes ctx \<and> length rest < 64 \<and>
    length rest = length buf mod 64 \<and>
    (\<forall>t. fips_blocks (sha_iv ctx) (buf @ t) = fips_blocks (sha_iv ctx') (rest @ t))"
  using assms
proof (induction ctx buf rule: sha_blocks.induct)
  case (1 ctx buf)
  show ?case
  proof (cases "length buf \<ge> 64")
    case True
    let ?c = "SHATransform (ctx\<lparr>sha_key := SHAByteSwap (sha_key ctx) buf 16\<rparr>)"
    note tr = Transform_swap [OF "1.prems"(1) refl, of buf]
    have b: "sha_blocks ?c (drop 64 buf) = (ctx', rest)" using "1.prems"(2) True by (subst (asm) sha_blocks.simps) simp
    have fb: "fips_blocks (sha_iv ctx) (buf @ t) = fips_blocks (sha_iv ?c) (drop 64 buf @ t)" for t
      using True fips_block_take [OF True] by (subst fips_blocks.simps) (simp add: tr(1))
    have "length (drop 64 buf) mod 64 = length buf mod 64" using True by (simp add: le_mod_geq)
    then show ?thesis using "1.IH" [OF True tr(2) b] tr(3) fb by simp
  next
    case False
    then show ?thesis using "1.prems" by (subst (asm) sha_blocks.simps) auto
  qed
qed

text \<open>The last block: 56 bytes of the key and the two words of the bit count.\<close>

lemma load_last_block:
  assumes "length key = 64"
  shows "load_words (take 56 (SHAByteSwap key key 14) @ store_bytes w14 @ store_bytes w15) =
    map (be32 (take 56 key @ be_bytes w14 @ be_bytes w15)) [0..<16]"
proof -
  let ?ws = "map (be32 key) [0..<14] @ [w14, w15]"
  have l: "length (concat (map store_bytes (map (be32 key) [0..<14]))) = 56" by (subst length_concat4) simp_all
  have "take 56 (SHAByteSwap key key 14) @ store_bytes w14 @ store_bytes w15 = concat (map store_bytes ?ws) @ []"
    using l by (simp add: SHAByteSwap_def store_words_def)
  then have "load_words (take 56 (SHAByteSwap key key 14) @ store_bytes w14 @ store_bytes w15) = map ((!) ?ws) [0..<16]"
    by (simp only: load_words_def) (rule map_cong [OF refl], rule load_store, simp)
  also have "\<dots> = map (be32 (take 56 key @ be_bytes w14 @ be_bytes w15)) [0..<16]"
  proof (rule map_cong [OF refl])
    fix k assume "k \<in> set [0..<16 :: nat]"
    then consider "k < 14" | "k = 14" | "k = 15" by fastforce
    then show "?ws ! k = be32 (take 56 key @ be_bytes w14 @ be_bytes w15) k"
    proof cases
      case 1
      then show ?thesis using assms by (simp add: nth_append be32_def)
    next
      case 2
      then show ?thesis using assms be32_be_bytes [of 0 "[w14]" "[]"] by (simp add: nth_append be32_def numeral_2_eq_2)
    next
      case 3
      then show ?thesis using assms be32_be_bytes [of 0 "[w15]" "[]"] by (simp add: nth_append be32_def numeral_2_eq_2)
    qed
  qed
  finally show ?thesis .
qed

lemma Transform_last:
  assumes "length key = 64"
  shows "sha_iv (SHATransform (ctx\<lparr>sha_key := take 56 (SHAByteSwap key key 14) @ store_bytes w14 @ store_bytes w15\<rparr>)) =
    fips_block (sha_iv ctx) (take 56 key @ be_bytes w14 @ be_bytes w15)"
proof -
  let ?c = "ctx\<lparr>sha_key := take 56 (SHAByteSwap key key 14) @ store_bytes w14 @ store_bytes w15\<rparr>"
  have "length (sha_key ?c) = 64" using assms by (simp add: SHAByteSwap_def length_store_words)
  then show ?thesis using Transform_fips(1) [of ?c] load_last_block [OF assms] by simp
qed

lemma bit_count:
  "ucast (drop_bit 29 b) = (ucast (drop_bit 32 (8 * b)) :: 32 word)" "push_bit 3 (ucast b) = (ucast (8 * b) :: 32 word)"
  for b :: "64 word"
proof -
  have p: "8 * b = push_bit 3 b" by (simp add: push_bit_eq_mult mult.commute)
  show "ucast (drop_bit 29 b) = (ucast (drop_bit 32 (8 * b)) :: 32 word)"
    unfolding p by (rule bit_word_eqI) (auto simp: bit_simps)
  show "push_bit 3 (ucast b) = (ucast (8 * b) :: 32 word)"
    unfolding p by (rule bit_word_eqI) (auto simp: bit_simps)
qed

lemma fips_blocks_one: "length M = 64 \<Longrightarrow> fips_blocks H M = fips_block H M"
  by (subst fips_blocks.simps, subst fips_blocks.simps) simp

lemma fips_blocks_two: "length M = 64 \<Longrightarrow> length N = 64 \<Longrightarrow> fips_blocks H (M @ N) = fips_block (fips_block H M) N"
  by (subst fips_blocks.simps) (simp add: fips_blocks_one)

lemma Final_fips:
  assumes "length (sha_key ctx) = 64" "take r (sha_key ctx) = rest" "length rest = r" "r < 64"
    and "unat (sha_bytes ctx) mod 64 = r"
  shows "Ns_CtxSHAFinal ctx = concat (map be_bytes (fips_blocks (sha_iv ctx)
    (rest @ [0x80] @ replicate ((119 - r) mod 64) 0 @
     be_bytes (ucast (drop_bit 32 (8 * sha_bytes ctx))) @ be_bytes (ucast (8 * sha_bytes ctx)))))"
proof -
  let ?b = "sha_bytes ctx" and ?key = "(sha_key ctx)[r := 0x80]"
  let ?len = "be_bytes (ucast (drop_bit 32 (8 * ?b))) @ be_bytes (ucast (8 * ?b))"
  have tk: "take (r + 1) ?key = rest @ [0x80]"
    using assms by (simp add: take_Suc_conv_app_nth take_update_cancel)
  show ?thesis
  proof (cases "63 - r < 8")
    case True
    let ?k = "rest @ [0x80] @ replicate (63 - r) 0"
    let ?c = "ctx\<lparr>sha_key := ?key\<rparr>"
    let ?first = "SHATransform (?c\<lparr>sha_key := SHAByteSwap ?k ?k 16\<rparr>)"
    have k: "length ?k = 64" using assms by simp
    have c1: "sha_iv ?first = fips_block (sha_iv ctx) ?k" "length (sha_key ?first) = 64" "sha_bytes ?first = ?b"
      using Transform_swap [of "?c\<lparr>sha_key := ?k\<rparr>" _ ?k] k by simp_all
    let ?last = "replicate 56 0 @ drop 56 (sha_key ?first)"
    have k2: "length ?last = 64" using c1(2) by simp
    have "Ns_CtxSHAFinal ctx = concat (map be_bytes (sha_iv (SHATransform (?first\<lparr>sha_key := take 56 (SHAByteSwap ?last ?last 14) @
        store_bytes (ucast (drop_bit 29 ?b)) @ store_bytes (push_bit 3 (ucast ?b))\<rparr>))))"
      using True tk assms(5) c1(3) by (simp add: Ns_CtxSHAFinal_def Let_def)
    also have "\<dots> = concat (map be_bytes (fips_block (fips_block (sha_iv ctx) ?k) (replicate 56 0 @ ?len)))"
      unfolding Transform_last [OF k2] c1(1) bit_count by simp
    also have "fips_block (fips_block (sha_iv ctx) ?k) (replicate 56 0 @ ?len) = fips_blocks (sha_iv ctx) (?k @ replicate 56 0 @ ?len)"
      using k by (subst fips_blocks_two) simp_all
    also have "?k @ replicate 56 0 @ ?len = rest @ [0x80] @ replicate ((119 - r) mod 64) 0 @ ?len"
    proof -
      have "(119 - r) mod 64 = (63 - r) + 56" using True assms(4) by simp
      then show ?thesis by (simp only: replicate_add append_assoc)
    qed
    finally show ?thesis .
  next
    case False
    let ?k = "(rest @ [0x80]) @ replicate (55 - r) 0 @ drop 56 ?key"
    have k: "length ?k = 64" using assms False by simp
    have "Ns_CtxSHAFinal ctx = concat (map be_bytes (sha_iv (SHATransform (ctx\<lparr>sha_key := take 56 (SHAByteSwap ?k ?k 14) @
        store_bytes (ucast (drop_bit 29 ?b)) @ store_bytes (push_bit 3 (ucast ?b))\<rparr>))))"
      using False tk assms(5) by (simp add: Ns_CtxSHAFinal_def Let_def)
    also have "\<dots> = concat (map be_bytes (fips_block (sha_iv ctx) (rest @ [0x80] @ replicate (55 - r) 0 @ ?len)))"
    proof -
      have "take 56 ?k = rest @ [0x80] @ replicate (55 - r) 0" using assms False by (simp add: take_Cons')
      then show ?thesis unfolding Transform_last [OF k] bit_count by simp
    qed
    also have "fips_block (sha_iv ctx) (rest @ [0x80] @ replicate (55 - r) 0 @ ?len) =
      fips_blocks (sha_iv ctx) (rest @ [0x80] @ replicate (55 - r) 0 @ ?len)"
      using assms False by (subst fips_blocks_one) simp_all
    also have "55 - r = (119 - r) mod 64" using False by (simp add: mod_if)
    finally show ?thesis .
  qed
qed

section \<open>Properties\<close>

lemma of_nat_mod64: "unat (of_nat n :: 64 word) mod 64 = n mod 64"
  by (simp add: unat_of_nat mod_mod_cancel)

text \<open>
  C23: \<open>ns_sha1\<close> computes the digest of the standard: the unrolled rounds with their circular buffer,
  the optimised round functions, the blocking of the input and the padding give for every string
  and every content of the uninitialised buffer the FIPS 180-1 hash, and no write leaves the buffer.
\<close>

theorem sha1_is_fips:
  assumes "length garbage = 64"
  shows "NsTclSHA1ObjCmd garbage str = Some (Ns_CtxString (fips_sha1 str))"
proof -
  let ?init = "(Ns_CtxSHAInit garbage)\<lparr>sha_bytes := of_nat (length str)\<rparr>"
  obtain c rest where b: "sha_blocks ?init str = (c, rest)" by fastforce
  have k0: "length (sha_key ?init) = 64" using assms by (simp add: Ns_CtxSHAInit_def)
  note bl = sha_blocks_fips [OF k0 b]
  let ?c = "c\<lparr>sha_key := rest @ drop (length rest) (sha_key c)\<rparr>"
  have upd: "Ns_CtxSHAUpdate (Ns_CtxSHAInit garbage) str = Some ?c"
  proof (cases "64 > length str")
    case True
    then have "c = ?init" "rest = str" using b by (auto simp: sha_blocks.simps [of ?init str])
    then show ?thesis using True k0 by (simp add: Ns_CtxSHAUpdate_def Let_def Ns_CtxSHAInit_def key_copy_def)
  next
    case False
    have "length rest < 64" "length (sha_key c) = 64" using bl by blast+
    then show ?thesis using False b by (auto simp: Ns_CtxSHAUpdate_def Let_def Ns_CtxSHAInit_def key_copy_def)
  qed
  have iv: "sha_iv ?init = [0x67452301, 0xEFCDAB89, 0x98BADCFE, 0x10325476, 0xC3D2E1F0]" by (simp add: Ns_CtxSHAInit_def)
  have bytes: "sha_bytes ?c = of_nat (length str)" using bl by simp
  have "Ns_CtxSHAFinal ?c = concat (map be_bytes (fips_blocks (sha_iv c)
    (rest @ [0x80] @ replicate ((119 - length rest) mod 64) 0 @
     be_bytes (ucast (drop_bit 32 (8 * sha_bytes ?c))) @ be_bytes (ucast (8 * sha_bytes ?c)))))"
    using Final_fips [of ?c "length rest" rest] bl bytes of_nat_mod64 [of "length str"] by simp
  also have "\<dots> = fips_sha1 str"
    using bl iv unfolding fips_sha1_def fips_pad_def Let_def bytes by (simp only: append_assoc of_nat_mult of_nat_numeral)
  finally show ?thesis unfolding NsTclSHA1ObjCmd_def upd by (simp only: option.map)
qed

lemma sha1_is_fips_witness:
  "NsTclSHA1ObjCmd (replicate 64 7) [97, 98, 99] = Some (Ns_CtxString (fips_sha1 [97, 98, 99]))"
  by (rule sha1_is_fips) simp

text \<open>
  \<open>Ns_CtxSHAUpdate\<close> cannot be used incrementally: it adds the number of buffered bytes to a
  pointer to words, so a second update writes behind the buffer as soon as four times the
  buffered bytes and the bytes to copy exceed it, and in any case when it fills the buffer.
\<close>

theorem sha_update_overflow:
  assumes "length (sha_key ctx) = 64" and "i = unat (sha_bytes ctx) mod 64" and "0 < i"
    and "64 < 4 * i + min (length buf) (64 - i)"
  shows "Ns_CtxSHAUpdate ctx buf = None"
  using assms by (auto simp: Ns_CtxSHAUpdate_def Let_def key_copy_def)

lemma sha_update_overflow_witness:
  "Ns_CtxSHAUpdate \<lparr>sha_key = replicate 64 0, sha_iv = [], sha_bytes = 20\<rparr> [1] = None"
  by (rule sha_update_overflow [of _ 20]) simp_all

end
