(* ===== verification/Md5.thy ===== *)
theory Md5
  imports Sha1
begin

unbundle bit_operations_syntax

text \<open>
  The MD5 digest of \<open>nsd/tclmisc.c\<close>, on a little-endian host, where \<open>byteReverse\<close> does nothing.
  The context has the 64 bytes of its input buffer, which are not initialised, and the bit count
  in two 32-bit words.
\<close>

section \<open>The compression function\<close>

record Ns_CtxMD5 =
  md5_buf :: "32 word list"
  md5_bits :: "32 word \<times> 32 word"
  md5_in :: "8 word list"

definition F1 :: "32 word \<Rightarrow> 32 word \<Rightarrow> 32 word \<Rightarrow> 32 word" where
  "F1 x y z = z XOR (x AND (y XOR z))"

definition F2 :: "32 word \<Rightarrow> 32 word \<Rightarrow> 32 word \<Rightarrow> 32 word" where
  "F2 x y z = F1 z x y"

definition F3 :: "32 word \<Rightarrow> 32 word \<Rightarrow> 32 word \<Rightarrow> 32 word" where
  "F3 x y z = x XOR y XOR z"

definition F4 :: "32 word \<Rightarrow> 32 word \<Rightarrow> 32 word \<Rightarrow> 32 word" where
  "F4 x y z = y XOR (x OR NOT z)"

type_synonym md5_regs = "32 word \<times> 32 word \<times> 32 word \<times> 32 word"

definition MD5STEP :: "32 word list \<Rightarrow> md5_regs \<Rightarrow> (32 word \<Rightarrow> 32 word \<Rightarrow> 32 word \<Rightarrow> 32 word) \<times> nat \<times> 32 word \<times> nat \<Rightarrow> md5_regs" where
  "MD5STEP inp r op =
     (case r of (w, x, y, z) \<Rightarrow> case op of (f, i, k, s) \<Rightarrow>
        let w = w + (f x y z + (inp ! i + k)); w = push_bit s w OR drop_bit (32 - s) w; w = w + x
        in (z, w, x, y))"

text \<open>
  The 64 steps in their order: function, input word, constant and shift.  The source renames the
  four variables from step to step; here a step returns them in the order of the next one.
\<close>

definition md5_steps :: "((32 word \<Rightarrow> 32 word \<Rightarrow> 32 word \<Rightarrow> 32 word) \<times> nat \<times> 32 word \<times> nat) list" where
  "md5_steps = [
    (F1, 0, 0xd76aa478, 7), (F1, 1, 0xe8c7b756, 12), (F1, 2, 0x242070db, 17), (F1, 3, 0xc1bdceee, 22),
    (F1, 4, 0xf57c0faf, 7), (F1, 5, 0x4787c62a, 12), (F1, 6, 0xa8304613, 17), (F1, 7, 0xfd469501, 22),
    (F1, 8, 0x698098d8, 7), (F1, 9, 0x8b44f7af, 12), (F1, 10, 0xffff5bb1, 17), (F1, 11, 0x895cd7be, 22),
    (F1, 12, 0x6b901122, 7), (F1, 13, 0xfd987193, 12), (F1, 14, 0xa679438e, 17), (F1, 15, 0x49b40821, 22),
    (F2, 1, 0xf61e2562, 5), (F2, 6, 0xc040b340, 9), (F2, 11, 0x265e5a51, 14), (F2, 0, 0xe9b6c7aa, 20),
    (F2, 5, 0xd62f105d, 5), (F2, 10, 0x02441453, 9), (F2, 15, 0xd8a1e681, 14), (F2, 4, 0xe7d3fbc8, 20),
    (F2, 9, 0x21e1cde6, 5), (F2, 14, 0xc33707d6, 9), (F2, 3, 0xf4d50d87, 14), (F2, 8, 0x455a14ed, 20),
    (F2, 13, 0xa9e3e905, 5), (F2, 2, 0xfcefa3f8, 9), (F2, 7, 0x676f02d9, 14), (F2, 12, 0x8d2a4c8a, 20),
    (F3, 5, 0xfffa3942, 4), (F3, 8, 0x8771f681, 11), (F3, 11, 0x6d9d6122, 16), (F3, 14, 0xfde5380c, 23),
    (F3, 1, 0xa4beea44, 4), (F3, 4, 0x4bdecfa9, 11), (F3, 7, 0xf6bb4b60, 16), (F3, 10, 0xbebfbc70, 23),
    (F3, 13, 0x289b7ec6, 4), (F3, 0, 0xeaa127fa, 11), (F3, 3, 0xd4ef3085, 16), (F3, 6, 0x04881d05, 23),
    (F3, 9, 0xd9d4d039, 4), (F3, 12, 0xe6db99e5, 11), (F3, 15, 0x1fa27cf8, 16), (F3, 2, 0xc4ac5665, 23),
    (F4, 0, 0xf4292244, 6), (F4, 7, 0x432aff97, 10), (F4, 14, 0xab9423a7, 15), (F4, 5, 0xfc93a039, 21),
    (F4, 12, 0x655b59c3, 6), (F4, 3, 0x8f0ccc92, 10), (F4, 10, 0xffeff47d, 15), (F4, 1, 0x85845dd1, 21),
    (F4, 8, 0x6fa87e4f, 6), (F4, 15, 0xfe2ce6e0, 10), (F4, 6, 0xa3014314, 15), (F4, 13, 0x4e0811a1, 21),
    (F4, 4, 0xf7537e82, 6), (F4, 11, 0xbd3af235, 10), (F4, 2, 0x2ad7d2bb, 15), (F4, 9, 0xeb86d391, 21)]"

definition MD5Transform :: "32 word list \<Rightarrow> 32 word list \<Rightarrow> 32 word list" where
  "MD5Transform buf inp =
     (case foldl (MD5STEP inp) (buf ! 0, buf ! 1, buf ! 2, buf ! 3) md5_steps of
        (a, b, c, d) \<Rightarrow> [buf ! 0 + a, buf ! 1 + b, buf ! 2 + c, buf ! 3 + d])"

section \<open>Updating and finishing\<close>

definition Ns_CtxMD5Init :: "8 word list \<Rightarrow> Ns_CtxMD5" where
  "Ns_CtxMD5Init garbage =
     \<lparr>md5_buf = [0x67452301, 0xefcdab89, 0x98badcfe, 0x10325476], md5_bits = (0, 0), md5_in = garbage\<rparr>"

text \<open>The count of bits grows by eight times the length, a 64-bit \<open>size_t\<close>, with a carry.\<close>

definition add_bits :: "32 word \<times> 32 word \<Rightarrow> nat \<Rightarrow> 32 word \<times> 32 word" where
  "add_bits bits len =
     (case bits of (lo, hi) \<Rightarrow>
        let lo' = lo + push_bit 3 (ucast (of_nat len :: 64 word));
            hi' = (if lo' < lo then hi + 1 else hi);
            hi'' = hi' + ucast (drop_bit 29 (of_nat len :: 64 word))
        in (lo', hi''))"

definition md5_count :: "32 word \<Rightarrow> nat" where
  "md5_count lo = unat (drop_bit 3 lo AND 0x3F)"

definition overlay :: "8 word list \<Rightarrow> nat \<Rightarrow> 8 word list \<Rightarrow> 8 word list" where
  "overlay m off xs = take off m @ xs @ drop (off + length xs) m"

function md5_blocks :: "32 word list \<Rightarrow> 8 word list \<Rightarrow> 8 word list \<Rightarrow> 32 word list \<times> 8 word list \<times> 8 word list" where
  "md5_blocks st inp buf =
     (if length buf \<ge> 64
      then let inp = overlay inp 0 (take 64 buf) in md5_blocks (MD5Transform st (load_words inp)) inp (drop 64 buf)
      else (st, inp, buf))"
  by auto
termination by (relation "measure (\<lambda>(st, inp, buf). length buf)") auto

declare md5_blocks.simps [simp del]

definition Ns_CtxMD5Update :: "Ns_CtxMD5 \<Rightarrow> 8 word list \<Rightarrow> Ns_CtxMD5" where
  "Ns_CtxMD5Update ctx buf =
     (let t = md5_count (fst (md5_bits ctx));
          ctx = ctx\<lparr>md5_bits := add_bits (md5_bits ctx) (length buf)\<rparr>
      in if t \<noteq> 0 \<and> length buf < 64 - t then ctx\<lparr>md5_in := overlay (md5_in ctx) t buf\<rparr>
         else
           (let (st, inp, buf) =
                  (if t \<noteq> 0
                   then let inp = overlay (md5_in ctx) t (take (64 - t) buf)
                        in (MD5Transform (md5_buf ctx) (load_words inp), inp, drop (64 - t) buf)
                   else (md5_buf ctx, md5_in ctx, buf));
                (st, inp, buf) = md5_blocks st inp buf
            in ctx\<lparr>md5_buf := st, md5_in := overlay inp 0 buf\<rparr>))"

text \<open>
  The bit count is stored to two bytes of the buffer, \<open>in[14]\<close> and \<open>in[15]\<close>, and the last eight bytes
  of the buffer are left as they are.
\<close>

definition Ns_CtxMD5Final :: "Ns_CtxMD5 \<Rightarrow> 8 word list" where
  "Ns_CtxMD5Final ctx =
     (let count = md5_count (fst (md5_bits ctx));
          inp = (md5_in ctx)[count := 0x80];
          n = 64 - 1 - count;
          (st, inp) =
            (if n < 8
             then let inp = overlay inp (count + 1) (replicate n 0)
                  in (MD5Transform (md5_buf ctx) (load_words inp), overlay inp 0 (replicate 56 0))
             else (md5_buf ctx, overlay inp (count + 1) (replicate (n - 8) 0)));
          inp = inp[14 := ucast (fst (md5_bits ctx)), 15 := ucast (snd (md5_bits ctx))];
          st = MD5Transform st (load_words inp)
      in concat (map store_bytes st))"

definition NsTclMD5ObjCmd :: "8 word list \<Rightarrow> 8 word list \<Rightarrow> string" where
  "NsTclMD5ObjCmd garbage str = Ns_CtxString (Ns_CtxMD5Final (Ns_CtxMD5Update (Ns_CtxMD5Init garbage) str))"

section \<open>Facts on the bit count\<close>

definition bits_val :: "32 word \<times> 32 word \<Rightarrow> nat" where
  "bits_val b = unat (fst b) + 2 ^ 32 * unat (snd b)"

lemma mod_wrap: "a < k \<Longrightarrow> b < k \<Longrightarrow> k \<le> a + b \<Longrightarrow> (a + b) mod k = a + b - k" for a b k :: nat
  by (simp add: le_mod_geq)

lemma mod_split: "a < k \<Longrightarrow> a + k * (x mod m) = (a + k * x) mod (k * m)" for a k x m :: nat
  by (simp add: mod_mult2_eq)

lemma unat32: "unat (x :: 32 word) < 2 ^ 32"
proof -
  have "unat x < 2 ^ LENGTH(32)" by (rule unsigned_less)
  then show ?thesis by simp
qed

lemma bits_val_inj: "bits_val a = bits_val b \<Longrightarrow> a = b"
proof -
  assume e: "bits_val a = bits_val b"
  have lt: "unat (fst x) < 2 ^ 32" for x :: "32 word \<times> 32 word" by (rule unat32)
  have "unat (fst a) = bits_val a mod 2 ^ 32" "unat (fst b) = bits_val b mod 2 ^ 32"
    using lt [of a] lt [of b] by (simp_all add: bits_val_def)
  moreover have "unat (snd a) = bits_val a div 2 ^ 32" "unat (snd b) = bits_val b div 2 ^ 32"
    using lt [of a] lt [of b] by (simp_all add: bits_val_def)
  ultimately show "a = b" using e by (simp add: prod_eq_iff word_unat_eq_iff)
qed

lemma bits_val_add: "bits_val (add_bits b n) = (bits_val b + 8 * n) mod 2 ^ 64"
proof -
  obtain lo hi where b: "b = (lo, hi)" by (cases b)
  let ?l = "unat lo" and ?h = "unat hi" and ?m = "(8 * n) mod 2 ^ 32" and ?d = "n div 2 ^ 29"
  have w: "unat (push_bit 3 (ucast (of_nat n :: 64 word)) :: 32 word) = ?m"
    by (simp add: push_bit_eq_mult unsigned_ucast_eq unat_word_ariths unat_of_nat take_bit_eq_mod mod_mod_cancel)
      (metis mod_mult_right_eq mult.commute)
  have u: "unat (ucast (drop_bit 29 (of_nat n :: 64 word)) :: 32 word) = ?d mod 2 ^ 32"
  proof -
    have "unat (drop_bit 29 (of_nat n :: 64 word)) = drop_bit 29 (take_bit 64 n)"
      by (simp add: unat_drop_bit_eq unsigned_of_nat)
    also have "\<dots> = take_bit 35 (drop_bit 29 n)" by (simp add: drop_bit_take_bit)
    finally have "unat (ucast (drop_bit 29 (of_nat n :: 64 word)) :: 32 word) = take_bit 32 (take_bit 35 (drop_bit 29 n))"
      by (simp add: unsigned_ucast_eq)
    then show ?thesis by (simp add: take_bit_eq_mod drop_bit_eq_div mod_mod_cancel)
  qed
  define lo' where "lo' = lo + push_bit 3 (ucast (of_nat n :: 64 word))"
  define c where "c = (if lo' < lo then 1 else 0 :: nat)"
  have l: "?l < 2 ^ 32" by (rule unat32)
  have m: "?m < 2 ^ 32" by simp
  have ul: "unat lo' = (?l + ?m) mod 2 ^ 32" unfolding lo'_def unat_word_ariths w by simp
  have lm: "?l + ?m = unat lo' + 2 ^ 32 * c"
  proof (cases "?l + ?m < 2 ^ 32")
    case True
    then have "unat lo' = ?l + ?m" using ul by simp
    then show ?thesis by (simp add: c_def word_less_nat_alt)
  next
    case False
    then have ge: "2 ^ 32 \<le> ?l + ?m" by simp
    have "unat lo' = ?l + ?m - 2 ^ 32" unfolding ul by (rule mod_wrap [OF l m ge])
    then have "unat lo' + 2 ^ 32 = ?l + ?m" "unat lo' < ?l" using ge m by linarith+
    then show ?thesis by (simp add: c_def word_less_nat_alt)
  qed
  have hi: "unat ((if lo' < lo then hi + 1 else hi) + ucast (drop_bit 29 (of_nat n :: 64 word))) = (?h + c + ?d) mod 2 ^ 32"
  proof -
    have a: "unat (x + y) = (unat x + unat y) mod 2 ^ 32" for x y :: "32 word" by (simp add: unat_word_ariths)
    have "unat (if lo' < lo then hi + 1 else hi) = (?h + c) mod 2 ^ 32"
      using unat32 [of hi] a [of hi 1] by (auto simp: c_def)
    then show ?thesis unfolding a u by (simp only: mod_add_eq)
  qed
  have n8: "8 * n = ?m + 2 ^ 32 * ?d"
  proof -
    have "8 * n div 2 ^ 32 = ?d" by simp
    then show ?thesis by (metis mod_mult_div_eq)
  qed
  have "bits_val (add_bits b n) = unat lo' + 2 ^ 32 * ((?h + c + ?d) mod 2 ^ 32)"
    unfolding bits_val_def add_bits_def b using hi by (simp add: Let_def lo'_def)
  moreover have "unat lo' + 2 ^ 32 * ((?h + c + ?d) mod 2 ^ 32) = (unat lo' + 2 ^ 32 * (?h + c + ?d)) mod 2 ^ 64"
    using mod_split [OF unat32, of lo' "?h + c + ?d" "2 ^ 32"] by simp
  moreover have "unat lo' + 2 ^ 32 * (?h + c + ?d) = bits_val b + 8 * n"
    using lm n8 by (simp add: bits_val_def b distrib_left)
  ultimately show ?thesis by (simp only:)
qed

lemma add_bits_add: "add_bits (add_bits b m) n = add_bits b (m + n)"
  by (rule bits_val_inj) (simp add: bits_val_add mod_simps algebra_simps)

lemma md5_count_val: "md5_count (fst x) = bits_val x div 8 mod 64"
proof -
  have "drop_bit 3 (fst x) AND 0x3F = take_bit 6 (drop_bit 3 (fst x))" by (simp add: take_bit_eq_mask mask_numeral)
  then have "md5_count (fst x) = unat (fst x) div 8 mod 64"
    by (simp add: md5_count_def take_bit_eq_mod drop_bit_eq_div unat_div_distrib unat_mod_distrib)
  moreover have "bits_val x div 8 mod 64 = (unat (fst x) div 8 + 2 ^ 29 * unat (snd x)) mod 64"
    unfolding bits_val_def by (simp add: div_add1_eq)
  moreover have "(unat (fst x) div 8 + 2 ^ 29 * unat (snd x)) mod 64 = unat (fst x) div 8 mod 64"
    by (simp add: mod_add_eq [symmetric] mod_mult_left_eq [symmetric])
  ultimately show ?thesis by simp
qed

lemma md5_count_lt: "md5_count (fst x) < 64" for x :: "32 word \<times> 32 word"
  unfolding md5_count_val by simp

lemma count_add: "md5_count (fst (add_bits b n)) = (md5_count (fst b) + n) mod 64"
proof -
  have "(x mod 2 ^ 64) div 8 mod 64 = x div 8 mod 64" for x :: nat
  proof -
    have "drop_bit 3 (take_bit 64 x) = take_bit 61 (drop_bit 3 x)" by (simp add: drop_bit_take_bit)
    then have "(x mod 2 ^ 64) div 8 = (x div 8) mod 2 ^ 61" by (simp add: take_bit_eq_mod drop_bit_eq_div)
    then show ?thesis by (simp add: mod_mod_cancel)
  qed
  then show ?thesis unfolding md5_count_val bits_val_add by (simp add: mod_simps add.commute)
qed

section \<open>Feeding one byte at a time\<close>

text \<open>The reference: bytes enter the buffer one by one, and a full buffer is compressed.\<close>

fun feed :: "nat \<Rightarrow> 32 word list \<Rightarrow> 8 word list \<Rightarrow> 8 word list \<Rightarrow> 32 word list \<times> 8 word list" where
  "feed t st inp [] = (st, inp)"
| "feed t st inp (x # xs) =
     (let inp = inp[t := x]
      in if t = 63 then feed 0 (MD5Transform st (load_words inp)) inp xs else feed (t + 1) st inp xs)"

lemma feed_append:
  "feed t st inp (xs @ ys) = (case feed t st inp xs of (st', inp') \<Rightarrow> feed ((t + length xs) mod 64) st' inp' ys)"
  if "t < 64"
  using that
proof (induction t st inp xs rule: feed.induct)
  case (2 t st inp x xs)
  show ?case
  proof (cases "t = 63")
    case True
    have "(63 + Suc n) mod 64 = n mod 64" for n :: nat by (simp add: mod_simps)
    then show ?thesis using 2 True by (simp add: Let_def)
  next
    case False
    then show ?thesis using 2 by (simp add: Let_def)
  qed
qed simp

lemma overlay_Cons: "t < length inp \<Longrightarrow> overlay inp t (x # xs) = overlay (inp[t := x]) (t + 1) xs"
  by (simp add: overlay_def take_Suc_conv_app_nth take_update_cancel)

lemma overlay_Nil [simp]: "overlay inp t [] = inp"
  by (simp add: overlay_def)

lemma length_overlay: "t + length xs \<le> length inp \<Longrightarrow> length (overlay inp t xs) = length inp"
  by (simp add: overlay_def)

lemma feed_short: "t + length xs < 64 \<Longrightarrow> length inp = 64 \<Longrightarrow> feed t st inp xs = (st, overlay inp t xs)"
  by (induction t st inp xs rule: feed.induct) (auto simp: Let_def overlay_Cons)

lemma feed_full:
  "t + length xs = 64 \<Longrightarrow> xs \<noteq> [] \<Longrightarrow> length inp = 64 \<Longrightarrow>
   feed t st inp xs = (MD5Transform st (load_words (overlay inp t xs)), overlay inp t xs)"
proof (induction t st inp xs rule: feed.induct)
  case (2 t st inp x xs)
  then show ?case by (cases xs) (auto simp: Let_def overlay_Cons)
qed simp

lemma blocks_feed:
  "length inp = 64 \<Longrightarrow>
   (case md5_blocks st inp buf of (st', inp', rest) \<Rightarrow> (st', overlay inp' 0 rest)) = feed 0 st inp buf"
proof (induction st inp buf rule: md5_blocks.induct)
  case (1 st inp buf)
  show ?case
  proof (cases "length buf \<ge> 64")
    case True
    let ?i = "overlay inp 0 (take 64 buf)"
    have i: "length ?i = 64" using "1.prems" True by (simp add: length_overlay)
    have "feed 0 st inp (take 64 buf) = (MD5Transform st (load_words ?i), ?i)"
      using True "1.prems" by (intro feed_full) auto
    then have "feed 0 st inp (take 64 buf @ drop 64 buf) = feed 0 (MD5Transform st (load_words ?i)) ?i (drop 64 buf)"
      using True by (subst feed_append) (simp_all add: min_def)
    then show ?thesis using "1.IH" [OF True refl i] True by (subst md5_blocks.simps) (simp add: Let_def)
  next
    case False
    then show ?thesis using "1.prems" feed_short [of 0 buf inp st] by (subst md5_blocks.simps) simp
  qed
qed

lemma Update_feed:
  assumes "length (md5_in ctx) = 64"
  shows "Ns_CtxMD5Update ctx buf =
    (case feed (md5_count (fst (md5_bits ctx))) (md5_buf ctx) (md5_in ctx) buf of
       (st, inp) \<Rightarrow> ctx\<lparr>md5_buf := st, md5_bits := add_bits (md5_bits ctx) (length buf), md5_in := inp\<rparr>)"
proof -
  let ?t = "md5_count (fst (md5_bits ctx))" and ?st = "md5_buf ctx" and ?i = "md5_in ctx"
  have t: "?t < 64" by (rule md5_count_lt)
  show ?thesis
  proof (cases "?t + length buf < 64")
    case True
    then show ?thesis using feed_short [OF True assms, of ?st] blocks_feed [OF assms, of ?st buf]
      by (cases "?t = 0") (auto simp: Ns_CtxMD5Update_def Let_def md5_blocks.simps [of _ _ buf])
  next
    case False
    let ?o = "overlay ?i ?t (take (64 - ?t) buf)"
    have o: "length ?o = 64" using assms False t by (simp add: length_overlay)
    show ?thesis
    proof (cases "?t = 0")
      case True
      then show ?thesis using False
        by (simp add: Ns_CtxMD5Update_def Let_def case_prod_beta blocks_feed [OF assms, symmetric])
    next
      case ne: False
      have "feed ?t ?st ?i (take (64 - ?t) buf) = (MD5Transform ?st (load_words ?o), ?o)"
        using False t assms by (intro feed_full) auto
      then have "feed ?t ?st ?i (take (64 - ?t) buf @ drop (64 - ?t) buf) =
          feed 0 (MD5Transform ?st (load_words ?o)) ?o (drop (64 - ?t) buf)"
        using False t by (subst feed_append [OF t]) (simp add: min_def)
      then show ?thesis using False ne
        by (simp add: Ns_CtxMD5Update_def Let_def case_prod_beta blocks_feed [OF o, symmetric])
    qed
  qed
qed

lemma length_feed: "length inp = 64 \<Longrightarrow> length (snd (feed t st inp xs)) = 64"
  by (induction t st inp xs rule: feed.induct) (auto simp: Let_def)

lemma Update_md5_in: "length (md5_in ctx) = 64 \<Longrightarrow> length (md5_in (Ns_CtxMD5Update ctx buf)) = 64"
  using length_feed [of "md5_in ctx"] by (simp add: Update_feed case_prod_beta)

section \<open>Properties\<close>

text \<open>
  \<open>Ns_CtxMD5Update\<close> reflects the concatenation of its arguments: it does what feeding the bytes one
  by one does, whatever the sizes of the chunks, and updating with two buffers in turn is updating
  with their concatenation, bit count and buffer included.
\<close>

theorem md5_update_append:
  assumes "length (md5_in ctx) = 64"
  shows "Ns_CtxMD5Update (Ns_CtxMD5Update ctx a) b = Ns_CtxMD5Update ctx (a @ b)"
proof -
  let ?t = "md5_count (fst (md5_bits ctx))"
  obtain st inp where f: "feed ?t (md5_buf ctx) (md5_in ctx) a = (st, inp)" by fastforce
  have a: "Ns_CtxMD5Update ctx a = ctx\<lparr>md5_buf := st, md5_bits := add_bits (md5_bits ctx) (length a), md5_in := inp\<rparr>"
    by (simp add: Update_feed [OF assms] f)
  have "feed ?t (md5_buf ctx) (md5_in ctx) (a @ b) = feed (md5_count (fst (add_bits (md5_bits ctx) (length a)))) st inp b"
    using feed_append [OF md5_count_lt, of "md5_bits ctx" "md5_buf ctx" "md5_in ctx" a b] f by (simp add: count_add)
  moreover have "length inp = 64" using length_feed [OF assms, of ?t "md5_buf ctx" a] f by simp
  ultimately show ?thesis unfolding a using assms
    by (simp add: Update_feed add_bits_add case_prod_beta)
qed

lemma md5_update_append_witness:
  "Ns_CtxMD5Update (Ns_CtxMD5Update (Ns_CtxMD5Init (replicate 64 0)) [1, 2, 3]) [4] =
   Ns_CtxMD5Update (Ns_CtxMD5Init (replicate 64 0)) [1, 2, 3, 4]"
  using md5_update_append [of "Ns_CtxMD5Init (replicate 64 0)" "[1, 2, 3]" "[4]"] by (simp add: Ns_CtxMD5Init_def)

text \<open>
  \<open>ns_md5\<close> is not MD5: \<open>Ns_CtxMD5Final\<close> stores the bit count over two bytes of the message instead of
  behind it, so the digest of a string of 15 to 55 bytes does not depend on its byte 14, and
  strings that differ only there have the same digest.
\<close>

theorem md5_final_collision:
  assumes "length garbage = 64" "14 < length str" "length str < 56"
  shows "NsTclMD5ObjCmd garbage (str[14 := x]) = NsTclMD5ObjCmd garbage str"
proof -
  let ?bits = "add_bits (0, 0) (length str)"
  have c0: "md5_count (fst (0, 0 :: 32 word)) = 0" by (simp add: md5_count_def)
  have cnt: "md5_count (fst ?bits) = length str"
    using count_add [of "(0, 0)" "length str"] c0 assms(3) by simp
  have upd: "Ns_CtxMD5Update (Ns_CtxMD5Init garbage) s =
    \<lparr>md5_buf = [0x67452301, 0xefcdab89, 0x98badcfe, 0x10325476], md5_bits = ?bits, md5_in = overlay garbage 0 s\<rparr>"
    if "length s = length str" for s
    using feed_short [of 0 s garbage] that assms c0 by (simp add: Update_feed Ns_CtxMD5Init_def)
  let ?pad = "\<lambda>s. overlay ((overlay garbage 0 s)[length str := 0x80]) (length str + 1) (replicate (55 - length str) 0)"
  have fin: "Ns_CtxMD5Final (Ns_CtxMD5Update (Ns_CtxMD5Init garbage) s) =
    concat (map store_bytes (MD5Transform [0x67452301, 0xefcdab89, 0x98badcfe, 0x10325476]
      (load_words ((?pad s)[14 := ucast (fst ?bits), 15 := ucast (snd ?bits)]))))"
    if "length s = length str" for s
  proof -
    have "\<not> 64 - 1 - length str < 8" "64 - 1 - length str - 8 = 55 - length str" using assms(3) by linarith+
    then show ?thesis unfolding upd [OF that] Ns_CtxMD5Final_def Let_def using cnt by simp
  qed
  have "?pad (str[14 := x]) = (?pad str)[14 := x]"
  proof -
    have "overlay garbage 0 (str[14 := x]) = (overlay garbage 0 str)[14 := x]"
      using assms by (simp add: overlay_def list_update_append)
    then show ?thesis using assms
      by (simp add: overlay_def list_update_append list_update_swap [of 14] take_update_swap)
  qed
  then show ?thesis unfolding NsTclMD5ObjCmd_def using fin [of str] fin [of "str[14 := x]"] by simp
qed

lemma md5_final_collision_witness:
  "NsTclMD5ObjCmd (replicate 64 0) ((replicate 20 65)[14 := 66]) = NsTclMD5ObjCmd (replicate 64 0) (replicate 20 65)"
  by (rule md5_final_collision) simp_all

end
