(* ===== verification/Locks.thy ===== *)
theory Locks
  imports Main
begin

text \<open>
  The synchronisation objects built from a mutex and condition variables: read/write locks
  (\<open>nsthread/rwlock.c\<close>), counting semaphores (\<open>nsthread/sema.c\<close>) and critical sections
  (\<open>nsthread/cslock.c\<close>).  The code between locking the mutex and unlocking it, or waiting on a
  condition, runs as one step.  Each thread has a control state: outside, asleep in a condition
  wait, woken (signalled, or woken for no reason as POSIX allows, but not yet in possession of the
  mutex), or holding the object.  A signal wakes any one sleeper, a broadcast all of them.
  Creating the object on first use under the master lock is not part of the model.
\<close>

section \<open>Transition systems with an invariant\<close>

locale invariant_system =
  fixes init :: "'s \<Rightarrow> bool" and step :: "'s \<Rightarrow> 's \<Rightarrow> bool" and inv :: "'s \<Rightarrow> bool"
  assumes inv_init: "init s \<Longrightarrow> inv s"
    and inv_step: "inv s \<Longrightarrow> step s s' \<Longrightarrow> inv s'"
begin

lemma reachable_inv: "init s \<Longrightarrow> step\<^sup>*\<^sup>* s s' \<Longrightarrow> inv s'"
proof -
  assume "init s" "step\<^sup>*\<^sup>* s s'"
  then have "inv s" by (simp add: inv_init)
  with \<open>step\<^sup>*\<^sup>* s s'\<close> show "inv s'" by (induction rule: rtranclp_induct) (auto intro: inv_step)
qed

end

section \<open>Counting threads\<close>

definition cnt :: "'a list \<Rightarrow> 'a \<Rightarrow> nat" where
  "cnt pcs s = length (filter (\<lambda>x. x = s) pcs)"

lemma cnt_simps [simp]: "cnt [] x = 0" "cnt (a # as) x = (if a = x then Suc (cnt as x) else cnt as x)"
  by (simp_all add: cnt_def)

lemma cnt_pos: "0 < cnt pcs s \<longleftrightarrow> s \<in> set pcs"
  by (induction pcs) (auto simp: cnt_def)

lemma cnt_update:
  "t < length pcs \<Longrightarrow> pcs ! t = s \<Longrightarrow> s \<noteq> s' \<Longrightarrow>
   cnt (pcs[t := s']) x = (if x = s then cnt pcs x - 1 else if x = s' then cnt pcs x + 1 else cnt pcs x)"
proof -
  assume t: "t < length pcs" "pcs ! t = s" "s \<noteq> s'"
  have p: "pcs = take t pcs @ s # drop (Suc t) pcs" using t id_take_nth_drop [of t pcs] by simp
  have u: "pcs[t := s'] = take t pcs @ s' # drop (Suc t) pcs" using t by (simp add: upd_conv_take_nth_drop)
  have "cnt pcs x = cnt (take t pcs) x + (if s = x then 1 else 0) + cnt (drop (Suc t) pcs) x"
    by (subst p) (simp add: cnt_def)
  moreover have "cnt (pcs[t := s']) x = cnt (take t pcs) x + (if s' = x then 1 else 0) + cnt (drop (Suc t) pcs) x"
    unfolding u by (simp add: cnt_def)
  ultimately show ?thesis using t(3) by auto
qed

lemma cnt_self: "t < length pcs \<Longrightarrow> pcs ! t = s \<Longrightarrow> 0 < cnt pcs s"
  by (auto simp: cnt_pos)

definition wake_all :: "'a \<Rightarrow> 'a \<Rightarrow> 'a list \<Rightarrow> 'a list" where
  "wake_all s s' pcs = map (\<lambda>x. if x = s then s' else x) pcs"

lemma cnt_wake_all:
  "s \<noteq> s' \<Longrightarrow> cnt (wake_all s s' pcs) x = (if x = s then 0 else if x = s' then cnt pcs s + cnt pcs s' else cnt pcs x)"
  by (induction pcs) (auto simp: wake_all_def)

lemma cnt_replicate: "cnt (replicate n s) x = (if x = s then n else 0)"
  by (simp add: cnt_def)

section \<open>Read/write locks\<close>

datatype rw_pc = RwIdle | WaitR | WokenR | HoldR | WaitW | WokenW | HoldW

record RwLock =
  nreaders :: int
  nwriters :: int
  lockcnt :: int
  rw_pcs :: "rw_pc list"

definition Ns_RWLockInit :: "nat \<Rightarrow> RwLock" where
  "Ns_RWLockInit n = \<lparr>nreaders = 0, nwriters = 0, lockcnt = 0, rw_pcs = replicate n RwIdle\<rparr>"

text \<open>The test of the waiting loop of \<open>Ns_RWLockRdLock\<close>, with what follows it on either side.\<close>

definition rd_test :: "RwLock \<Rightarrow> nat \<Rightarrow> RwLock" where
  "rd_test l t =
     (if lockcnt l < 0 \<or> nwriters l > 0
      then l\<lparr>nreaders := nreaders l + 1, rw_pcs := (rw_pcs l)[t := WaitR]\<rparr>
      else l\<lparr>lockcnt := lockcnt l + 1, rw_pcs := (rw_pcs l)[t := HoldR]\<rparr>)"

definition Ns_RWLockRdLock :: "RwLock \<Rightarrow> nat \<Rightarrow> RwLock" where
  "Ns_RWLockRdLock l t = rd_test l t"

definition rd_resume :: "RwLock \<Rightarrow> nat \<Rightarrow> RwLock" where
  "rd_resume l t = rd_test (l\<lparr>nreaders := nreaders l - 1\<rparr>) t"

definition wr_test :: "RwLock \<Rightarrow> nat \<Rightarrow> RwLock" where
  "wr_test l t =
     (if lockcnt l \<noteq> 0
      then l\<lparr>nwriters := nwriters l + 1, rw_pcs := (rw_pcs l)[t := WaitW]\<rparr>
      else l\<lparr>lockcnt := -1, rw_pcs := (rw_pcs l)[t := HoldW]\<rparr>)"

definition Ns_RWLockWrLock :: "RwLock \<Rightarrow> nat \<Rightarrow> RwLock" where
  "Ns_RWLockWrLock l t = wr_test l t"

definition wr_resume :: "RwLock \<Rightarrow> nat \<Rightarrow> RwLock" where
  "wr_resume l t = wr_test (l\<lparr>nwriters := nwriters l - 1\<rparr>) t"

text \<open>\<open>pick\<close> is the sleeping writer that \<open>Ns_CondSignal\<close> wakes, if there is one.\<close>

definition Ns_RWLockUnlock :: "RwLock \<Rightarrow> nat \<Rightarrow> nat option \<Rightarrow> RwLock" where
  "Ns_RWLockUnlock l t pick =
     (let c = (if lockcnt l - 1 < 0 then 0 else lockcnt l - 1);
          pcs = (rw_pcs l)[t := RwIdle]
      in l\<lparr>lockcnt := c,
           rw_pcs := (if nwriters l \<noteq> 0 then (case pick of None \<Rightarrow> pcs | Some w \<Rightarrow> pcs[w := WokenW])
                      else if nreaders l \<noteq> 0 then wake_all WaitR WokenR pcs else pcs)\<rparr>)"

definition pick_ok :: "'a \<Rightarrow> 'a list \<Rightarrow> nat option \<Rightarrow> bool" where
  "pick_ok s pcs pick = (case pick of None \<Rightarrow> s \<notin> set pcs | Some w \<Rightarrow> w < length pcs \<and> pcs ! w = s)"

inductive rw_step :: "RwLock \<Rightarrow> RwLock \<Rightarrow> bool" where
  rd_lock: "t < length (rw_pcs l) \<Longrightarrow> rw_pcs l ! t = RwIdle \<Longrightarrow> rw_step l (Ns_RWLockRdLock l t)"
| wr_lock: "t < length (rw_pcs l) \<Longrightarrow> rw_pcs l ! t = RwIdle \<Longrightarrow> rw_step l (Ns_RWLockWrLock l t)"
| rd_wake: "t < length (rw_pcs l) \<Longrightarrow> rw_pcs l ! t = WokenR \<Longrightarrow> rw_step l (rd_resume l t)"
| wr_wake: "t < length (rw_pcs l) \<Longrightarrow> rw_pcs l ! t = WokenW \<Longrightarrow> rw_step l (wr_resume l t)"
| unlock: "t < length (rw_pcs l) \<Longrightarrow> rw_pcs l ! t = HoldR \<or> rw_pcs l ! t = HoldW \<Longrightarrow>
    pick_ok WaitW (rw_pcs l) pick \<Longrightarrow> rw_step l (Ns_RWLockUnlock l t pick)"
| spurious_r: "t < length (rw_pcs l) \<Longrightarrow> rw_pcs l ! t = WaitR \<Longrightarrow> rw_step l (l\<lparr>rw_pcs := (rw_pcs l)[t := WokenR]\<rparr>)"
| spurious_w: "t < length (rw_pcs l) \<Longrightarrow> rw_pcs l ! t = WaitW \<Longrightarrow> rw_step l (l\<lparr>rw_pcs := (rw_pcs l)[t := WokenW]\<rparr>)"

definition rw_init :: "RwLock \<Rightarrow> bool" where
  "rw_init l \<longleftrightarrow> (\<exists>n. l = Ns_RWLockInit n)"

definition rw_inv :: "RwLock \<Rightarrow> bool" where
  "rw_inv l \<longleftrightarrow>
     nreaders l = int (cnt (rw_pcs l) WaitR + cnt (rw_pcs l) WokenR) \<and>
     nwriters l = int (cnt (rw_pcs l) WaitW + cnt (rw_pcs l) WokenW) \<and>
     (if cnt (rw_pcs l) HoldW = 0 then lockcnt l = int (cnt (rw_pcs l) HoldR)
      else lockcnt l = -1 \<and> cnt (rw_pcs l) HoldW = 1 \<and> cnt (rw_pcs l) HoldR = 0) \<and>
     (lockcnt l = 0 \<and> 0 < cnt (rw_pcs l) WaitW \<longrightarrow> 0 < cnt (rw_pcs l) WokenW) \<and>
     (0 \<le> lockcnt l \<and> nwriters l = 0 \<longrightarrow> cnt (rw_pcs l) WaitR = 0)"

lemma rw_inv_rd_test:
  assumes "t < length (rw_pcs l)" "rw_pcs l ! t = RwIdle \<or> rw_pcs l ! t = WokenR"
    and "rw_inv (l\<lparr>nreaders := nreaders l + (if rw_pcs l ! t = WokenR then 1 else 0)\<rparr>)"
  shows "rw_inv (rd_test l t)"
  using assms cnt_self [of t "rw_pcs l"]
  by (auto simp: rw_inv_def rd_test_def cnt_update split: if_splits)

lemma rw_inv_wr_test:
  assumes "t < length (rw_pcs l)" "rw_pcs l ! t = RwIdle \<or> rw_pcs l ! t = WokenW"
    and "rw_inv (l\<lparr>nwriters := nwriters l + (if rw_pcs l ! t = WokenW then 1 else 0)\<rparr>)"
  shows "rw_inv (wr_test l t)"
  using assms cnt_self [of t "rw_pcs l"]
  by (auto simp: rw_inv_def wr_test_def cnt_update split: if_splits)

lemma cnt_pick:
  "pick_ok s pcs (Some w) \<Longrightarrow> t < length pcs \<Longrightarrow> pcs ! t \<noteq> s \<Longrightarrow> pcs ! t \<noteq> i \<Longrightarrow> s \<noteq> i \<Longrightarrow> s \<noteq> s' \<Longrightarrow>
   cnt (pcs[t := i, w := s']) x =
     (if x = s then cnt (pcs[t := i]) s - 1 else if x = s' then cnt (pcs[t := i]) s' + 1 else cnt (pcs[t := i]) x)"
proof -
  assume a: "pick_ok s pcs (Some w)" "t < length pcs" "pcs ! t \<noteq> s" "s \<noteq> s'"
  then have w: "w \<noteq> t" "w < length pcs" "pcs ! w = s" by (auto simp: pick_ok_def)
  then have "w < length (pcs[t := i])" "pcs[t := i] ! w = s" by simp_all
  then show ?thesis using cnt_update [of w "pcs[t := i]" s s' x] a(4) by simp
qed

lemma rw_inv_unlock:
  assumes "t < length (rw_pcs l)" "rw_pcs l ! t = HoldR \<or> rw_pcs l ! t = HoldW"
    and "pick_ok WaitW (rw_pcs l) pick" "rw_inv l"
  shows "rw_inv (Ns_RWLockUnlock l t pick)"
proof -
  have hold: "0 < cnt (rw_pcs l) (rw_pcs l ! t)" using assms(1) by (auto simp: cnt_pos)
  have idle: "cnt ((rw_pcs l)[t := RwIdle]) x =
    (if x = rw_pcs l ! t then cnt (rw_pcs l) x - 1 else if x = RwIdle then cnt (rw_pcs l) x + 1 else cnt (rw_pcs l) x)" for x
    using assms(1,2) by (intro cnt_update) auto
  show ?thesis
  proof (cases "nwriters l = 0")
    case True
    then show ?thesis using assms(2,4) hold
      by (auto simp: rw_inv_def Ns_RWLockUnlock_def Let_def idle cnt_wake_all split: if_splits)
  next
    case False
    show ?thesis
    proof (cases pick)
      case None
      then have "cnt (rw_pcs l) WaitW = 0" using assms(3) cnt_pos [of "rw_pcs l" WaitW] by (auto simp: pick_ok_def)
      then show ?thesis using False None assms(2,4) hold
        by (auto simp: rw_inv_def Ns_RWLockUnlock_def Let_def idle split: if_splits)
    next
      case (Some w)
      have w: "0 < cnt (rw_pcs l) WaitW" using assms(3) Some cnt_self [of w "rw_pcs l" WaitW] by (simp add: pick_ok_def)
      have "cnt ((rw_pcs l)[t := RwIdle, w := WokenW]) x =
        (if x = WaitW then cnt ((rw_pcs l)[t := RwIdle]) WaitW - 1
         else if x = WokenW then cnt ((rw_pcs l)[t := RwIdle]) WokenW + 1 else cnt ((rw_pcs l)[t := RwIdle]) x)" for x
        using assms(1-3) Some by (intro cnt_pick) auto
      then show ?thesis using False Some assms(2,4) hold w
        by (auto simp: rw_inv_def Ns_RWLockUnlock_def Let_def idle split: if_splits)
    qed
  qed
qed

lemma rw_inv_spurious:
  assumes "t < length (rw_pcs l)" "rw_inv l"
    and "rw_pcs l ! t = WaitR \<and> s = WokenR \<or> rw_pcs l ! t = WaitW \<and> s = WokenW"
  shows "rw_inv (l\<lparr>rw_pcs := (rw_pcs l)[t := s]\<rparr>)"
  using assms cnt_self [of t "rw_pcs l"] by (auto simp: rw_inv_def cnt_update split: if_splits)

interpretation rw: invariant_system rw_init rw_step rw_inv
proof
  show "rw_init s \<Longrightarrow> rw_inv s" for s
    by (auto simp: rw_init_def rw_inv_def Ns_RWLockInit_def cnt_replicate)
  show "rw_inv s \<Longrightarrow> rw_step s s' \<Longrightarrow> rw_inv s'" for s s'
  proof -
    assume inv: "rw_inv s" and step: "rw_step s s'"
    from step show "rw_inv s'"
    proof cases
      case (rd_lock t)
      then show ?thesis using inv rw_inv_rd_test [of t s] by (simp add: Ns_RWLockRdLock_def)
    next
      case (wr_lock t)
      then show ?thesis using inv rw_inv_wr_test [of t s] by (simp add: Ns_RWLockWrLock_def)
    next
      case (rd_wake t)
      then show ?thesis using inv rw_inv_rd_test [of t "s\<lparr>nreaders := nreaders s - 1\<rparr>"] by (simp add: rd_resume_def)
    next
      case (wr_wake t)
      then show ?thesis using inv rw_inv_wr_test [of t "s\<lparr>nwriters := nwriters s - 1\<rparr>"] by (simp add: wr_resume_def)
    next
      case (unlock t pick)
      then show ?thesis using inv rw_inv_unlock by blast
    next
      case (spurious_r t)
      then show ?thesis using inv rw_inv_spurious [of t s] by blast
    next
      case (spurious_w t)
      then show ?thesis using inv rw_inv_spurious [of t s] by blast
    qed
  qed
qed

section \<open>Semaphores\<close>

datatype sm_pc = SmIdle | SmWait | SmWoken

text \<open>\<open>sm_taken\<close> and \<open>sm_posted\<close> record what was taken and posted so far; the code does not keep them.\<close>

record Sema =
  sm_count :: int
  sm_pcs :: "sm_pc list"
  sm_posted :: int
  sm_taken :: int

definition Ns_SemaInit :: "int \<Rightarrow> nat \<Rightarrow> Sema" where
  "Ns_SemaInit count n = \<lparr>sm_count = count, sm_pcs = replicate n SmIdle, sm_posted = count, sm_taken = 0\<rparr>"

definition Ns_SemaWait :: "Sema \<Rightarrow> nat \<Rightarrow> Sema" where
  "Ns_SemaWait s t =
     (if sm_count s = 0 then s\<lparr>sm_pcs := (sm_pcs s)[t := SmWait]\<rparr>
      else s\<lparr>sm_count := sm_count s - 1, sm_taken := sm_taken s + 1, sm_pcs := (sm_pcs s)[t := SmIdle]\<rparr>)"

definition Ns_SemaPost :: "Sema \<Rightarrow> int \<Rightarrow> nat option \<Rightarrow> Sema" where
  "Ns_SemaPost s count pick =
     s\<lparr>sm_count := sm_count s + count, sm_posted := sm_posted s + count,
       sm_pcs := (if count = 1 then (case pick of None \<Rightarrow> sm_pcs s | Some w \<Rightarrow> (sm_pcs s)[w := SmWoken])
                  else wake_all SmWait SmWoken (sm_pcs s))\<rparr>"

inductive sm_step :: "Sema \<Rightarrow> Sema \<Rightarrow> bool" where
  sm_wait: "t < length (sm_pcs s) \<Longrightarrow> sm_pcs s ! t = SmIdle \<or> sm_pcs s ! t = SmWoken \<Longrightarrow> sm_step s (Ns_SemaWait s t)"
| sm_post: "0 \<le> count \<Longrightarrow> pick_ok SmWait (sm_pcs s) pick \<Longrightarrow> sm_step s (Ns_SemaPost s count pick)"
| sm_spurious: "t < length (sm_pcs s) \<Longrightarrow> sm_pcs s ! t = SmWait \<Longrightarrow> sm_step s (s\<lparr>sm_pcs := (sm_pcs s)[t := SmWoken]\<rparr>)"

definition sm_init :: "Sema \<Rightarrow> bool" where
  "sm_init s \<longleftrightarrow> (\<exists>count n. 0 \<le> count \<and> s = Ns_SemaInit count n)"

definition sm_inv :: "Sema \<Rightarrow> bool" where
  "sm_inv s \<longleftrightarrow> 0 \<le> sm_count s \<and> sm_count s = sm_posted s - sm_taken s \<and>
     (0 < cnt (sm_pcs s) SmWait \<longrightarrow> sm_count s \<le> int (cnt (sm_pcs s) SmWoken))"

lemma sm_inv_wait:
  assumes "t < length (sm_pcs s)" "sm_pcs s ! t = SmIdle \<or> sm_pcs s ! t = SmWoken" "sm_inv s"
  shows "sm_inv (Ns_SemaWait s t)"
proof -
  have c: "cnt ((sm_pcs s)[t := SmWait]) x =
    (if x = sm_pcs s ! t then cnt (sm_pcs s) x - 1 else if x = SmWait then cnt (sm_pcs s) x + 1 else cnt (sm_pcs s) x)" for x
    using assms(1,2) by (intro cnt_update) auto
  have i: "cnt ((sm_pcs s)[t := SmIdle]) SmWait = cnt (sm_pcs s) SmWait"
    "int (cnt ((sm_pcs s)[t := SmIdle]) SmWoken) \<ge> int (cnt (sm_pcs s) SmWoken) - 1"
  proof -
    have "sm_pcs s ! t = SmIdle \<Longrightarrow> (sm_pcs s)[t := SmIdle] = sm_pcs s" by (metis list_update_id)
    then show "cnt ((sm_pcs s)[t := SmIdle]) SmWait = cnt (sm_pcs s) SmWait"
      "int (cnt ((sm_pcs s)[t := SmIdle]) SmWoken) \<ge> int (cnt (sm_pcs s) SmWoken) - 1"
      using assms(1,2) cnt_update [of t "sm_pcs s" SmWoken SmIdle] by auto
  qed
  show ?thesis using assms(3) c i by (auto simp: sm_inv_def Ns_SemaWait_def split: if_splits)
qed

lemma sm_inv_post:
  assumes "0 \<le> count" "pick_ok SmWait (sm_pcs s) pick" "sm_inv s"
  shows "sm_inv (Ns_SemaPost s count pick)"
proof (cases pick)
  case None
  then have "cnt (sm_pcs s) SmWait = 0" using assms(2) cnt_pos [of "sm_pcs s" SmWait] by (auto simp: pick_ok_def)
  then show ?thesis using None assms(1,3) by (auto simp: sm_inv_def Ns_SemaPost_def cnt_wake_all)
next
  case (Some w)
  then show ?thesis using assms cnt_update [of w "sm_pcs s" SmWait SmWoken] cnt_self [of w "sm_pcs s" SmWait]
    by (auto simp: sm_inv_def Ns_SemaPost_def cnt_wake_all pick_ok_def)
qed

interpretation sm: invariant_system sm_init sm_step sm_inv
proof
  show "sm_init s \<Longrightarrow> sm_inv s" for s
    by (auto simp: sm_init_def sm_inv_def Ns_SemaInit_def cnt_replicate)
  show "sm_inv s \<Longrightarrow> sm_step s s' \<Longrightarrow> sm_inv s'" for s s'
  proof -
    assume inv: "sm_inv s" and step: "sm_step s s'"
    from step show "sm_inv s'"
    proof cases
      case (sm_spurious t)
      then show ?thesis using inv cnt_update [of t "sm_pcs s" SmWait SmWoken] by (auto simp: sm_inv_def)
    qed (use inv sm_inv_wait sm_inv_post in blast)+
  qed
qed

section \<open>Critical sections\<close>

datatype cs_pc = CsIdle | CsWait | CsWoken | CsIn nat

text \<open>\<open>CsIn n\<close>: the thread has entered the section \<open>n\<close> times more than it left it.\<close>

record CsLock =
  cs_tid :: nat
  cs_count :: int
  cs_pcs :: "cs_pc list"

definition Ns_CsInit :: "nat \<Rightarrow> nat \<Rightarrow> CsLock" where
  "Ns_CsInit garbage n = \<lparr>cs_tid = garbage, cs_count = 0, cs_pcs = replicate n CsIdle\<rparr>"

definition cs_depth :: "cs_pc \<Rightarrow> nat" where
  "cs_depth p = (case p of CsIn n \<Rightarrow> n | _ \<Rightarrow> 0)"

definition Ns_CsEnter :: "CsLock \<Rightarrow> nat \<Rightarrow> CsLock" where
  "Ns_CsEnter l t =
     (if cs_count l > 0 \<and> cs_tid l \<noteq> t then l\<lparr>cs_pcs := (cs_pcs l)[t := CsWait]\<rparr>
      else l\<lparr>cs_tid := t, cs_count := cs_count l + 1, cs_pcs := (cs_pcs l)[t := CsIn (cs_depth (cs_pcs l ! t) + 1)]\<rparr>)"

definition Ns_CsLeave :: "CsLock \<Rightarrow> nat \<Rightarrow> nat option \<Rightarrow> CsLock" where
  "Ns_CsLeave l t pick =
     (let c = cs_count l - 1; d = cs_depth (cs_pcs l ! t) - 1;
          pcs = (cs_pcs l)[t := if d = 0 then CsIdle else CsIn d]
      in l\<lparr>cs_count := c,
           cs_pcs := (if c = 0 then (case pick of None \<Rightarrow> pcs | Some w \<Rightarrow> pcs[w := CsWoken]) else pcs)\<rparr>)"

inductive cs_step :: "CsLock \<Rightarrow> CsLock \<Rightarrow> bool" where
  cs_enter: "t < length (cs_pcs l) \<Longrightarrow> cs_pcs l ! t \<noteq> CsWait \<Longrightarrow> cs_step l (Ns_CsEnter l t)"
| cs_leave: "t < length (cs_pcs l) \<Longrightarrow> cs_pcs l ! t = CsIn n \<Longrightarrow> pick_ok CsWait (cs_pcs l) pick \<Longrightarrow>
    cs_step l (Ns_CsLeave l t pick)"
| cs_spurious: "t < length (cs_pcs l) \<Longrightarrow> cs_pcs l ! t = CsWait \<Longrightarrow> cs_step l (l\<lparr>cs_pcs := (cs_pcs l)[t := CsWoken]\<rparr>)"

definition cs_init :: "CsLock \<Rightarrow> bool" where
  "cs_init l \<longleftrightarrow> (\<exists>g n. l = Ns_CsInit g n)"

definition cs_inv :: "CsLock \<Rightarrow> bool" where
  "cs_inv l \<longleftrightarrow>
     (\<forall>t < length (cs_pcs l). \<forall>n. cs_pcs l ! t = CsIn n \<longrightarrow> cs_tid l = t \<and> cs_count l = int n \<and> 0 < n) \<and>
     (cs_count l = 0 \<or> cs_tid l < length (cs_pcs l) \<and> 0 < cs_count l \<and> cs_pcs l ! cs_tid l = CsIn (nat (cs_count l))) \<and>
     (cs_count l = 0 \<and> CsWait \<in> set (cs_pcs l) \<longrightarrow> CsWoken \<in> set (cs_pcs l))"

lemma cs_in:
  assumes "cs_inv l" "t < length (cs_pcs l)" "cs_pcs l ! t = CsIn n"
  shows "cs_tid l = t" "cs_count l = int n" "0 < n"
  using assms by (auto simp: cs_inv_def)

lemma cs_inv_enter:
  assumes "t < length (cs_pcs l)" "cs_pcs l ! t \<noteq> CsWait" "cs_inv l"
  shows "cs_inv (Ns_CsEnter l t)"
proof (cases "cs_count l > 0 \<and> cs_tid l \<noteq> t")
  case True
  then show ?thesis using assms by (auto simp: cs_inv_def Ns_CsEnter_def nth_list_update)
next
  case False
  have d: "cs_count l = int (cs_depth (cs_pcs l ! t))"
  proof (cases "cs_count l = 0")
    case True
    then show ?thesis using cs_in [OF assms(3,1)] by (cases "cs_pcs l ! t") (auto simp: cs_depth_def)
  next
    case ne: False
    then show ?thesis using assms(3) False by (auto simp: cs_inv_def cs_depth_def)
  qed
  have other: "cs_pcs l ! u \<noteq> CsIn n" if "u < length (cs_pcs l)" "u \<noteq> t" for u n
  proof
    assume "cs_pcs l ! u = CsIn n"
    from cs_in [OF assms(3) that(1) this] show False using False that(2) by auto
  qed
  have "Ns_CsEnter l t = l\<lparr>cs_tid := t, cs_count := cs_count l + 1,
      cs_pcs := (cs_pcs l)[t := CsIn (cs_depth (cs_pcs l ! t) + 1)]\<rparr>"
    using False by (auto simp: Ns_CsEnter_def)
  then show ?thesis using d other assms(1) by (auto simp: cs_inv_def nth_list_update)
qed

lemma cs_inv_leave:
  assumes "t < length (cs_pcs l)" "cs_pcs l ! t = CsIn n" "pick_ok CsWait (cs_pcs l) pick" "cs_inv l"
  shows "cs_inv (Ns_CsLeave l t pick)"
proof -
  note own = cs_in [OF assms(4,1,2)]
  have other: "cs_pcs l ! u \<noteq> CsIn m" if "u < length (cs_pcs l)" "u \<noteq> t" for u m
    using cs_in(1) [OF assms(4) that(1)] own that(2) by auto
  show ?thesis
  proof (cases "n = 1")
    case True
    let ?pcs = "(cs_pcs l)[t := CsIdle]"
    have idle: "?pcs ! u \<noteq> CsIn m" if "u < length ?pcs" for u m using other [of u m] that by (cases "u = t") auto
    show ?thesis
    proof (cases pick)
      case None
      then have "CsWait \<notin> set ?pcs" using assms(3) set_update_subset_insert [of "cs_pcs l" t CsIdle]
        by (auto simp: pick_ok_def)
      then show ?thesis using True None own idle assms(2) by (auto simp: cs_inv_def Ns_CsLeave_def Let_def cs_depth_def)
    next
      case (Some w)
      then have w: "w < length ?pcs" using assms(3) by (simp add: pick_ok_def)
      then have "CsWoken \<in> set (?pcs[w := CsWoken])" by (rule set_update_memI)
      moreover have "?pcs[w := CsWoken] ! u \<noteq> CsIn m" if "u < length ?pcs" for u m
        using idle [OF that] that by (cases "u = w") simp_all
      ultimately show ?thesis using True Some own assms(2) by (auto simp: cs_inv_def Ns_CsLeave_def Let_def cs_depth_def)
    qed
  next
    case False
    then show ?thesis using own other assms(1,2) by (auto simp: cs_inv_def Ns_CsLeave_def Let_def cs_depth_def nth_list_update)
  qed
qed

lemma cs_inv_spurious:
  assumes "t < length (cs_pcs l)" "cs_pcs l ! t = CsWait" "cs_inv l"
  shows "cs_inv (l\<lparr>cs_pcs := (cs_pcs l)[t := CsWoken]\<rparr>)"
proof -
  let ?pcs = "(cs_pcs l)[t := CsWoken]"
  have in_iff: "?pcs ! u = CsIn n \<longleftrightarrow> cs_pcs l ! u = CsIn n" if "u < length (cs_pcs l)" for u n
    using that assms(2) by (cases "u = t") auto
  have "CsWoken \<in> set ?pcs" using assms(1) by (rule set_update_memI)
  then show ?thesis using assms(3) in_iff unfolding cs_inv_def by (auto simp del: nth_list_update)
qed

lemma rw_reachable_inv: "rw_step\<^sup>*\<^sup>* (Ns_RWLockInit n) l \<Longrightarrow> rw_inv l"
  using rw.reachable_inv rw_init_def by blast

lemma sm_reachable_inv: "sm_step\<^sup>*\<^sup>* (Ns_SemaInit c n) l \<Longrightarrow> 0 \<le> c \<Longrightarrow> sm_inv l"
  using sm.reachable_inv sm_init_def by blast

interpretation cs: invariant_system cs_init cs_step cs_inv
proof
  show "cs_init s \<Longrightarrow> cs_inv s" for s by (auto simp: cs_init_def cs_inv_def Ns_CsInit_def)
  show "cs_inv s \<Longrightarrow> cs_step s s' \<Longrightarrow> cs_inv s'" for s s'
    by (erule cs_step.cases) (auto intro: cs_inv_enter cs_inv_leave cs_inv_spurious)
qed

lemma cs_reachable_inv: "cs_step\<^sup>*\<^sup>* (Ns_CsInit g n) l \<Longrightarrow> cs_inv l"
  using cs.reachable_inv cs_init_def by blast

section \<open>Properties\<close>

text \<open>
  C25: read/write locks exclude: in every reachable state at most one thread holds the lock for
  writing, and then no thread holds it for reading; the lock count is the number of readers, or -1.
\<close>

theorem rwlock_exclusion:
  assumes "rw_step\<^sup>*\<^sup>* (Ns_RWLockInit n) l"
  shows "(cnt (rw_pcs l) HoldW = 0 \<and> lockcnt l = int (cnt (rw_pcs l) HoldR)) \<or>
    (cnt (rw_pcs l) HoldW = 1 \<and> cnt (rw_pcs l) HoldR = 0 \<and> lockcnt l = -1)"
  using rw_reachable_inv [OF assms] unfolding rw_inv_def by (cases "cnt (rw_pcs l) HoldW = 0") simp_all

lemma rwlock_exclusion_witness:
  "cnt (rw_pcs (Ns_RWLockWrLock (Ns_RWLockInit 2) 0)) HoldW = 1"
proof -
  have "rw_step (Ns_RWLockInit 2) (Ns_RWLockWrLock (Ns_RWLockInit 2) 0)"
    by (rule wr_lock) (simp_all add: Ns_RWLockInit_def)
  from rwlock_exclusion [OF r_into_rtranclp [of rw_step, OF this]] show ?thesis
    by (auto simp: Ns_RWLockWrLock_def wr_test_def Ns_RWLockInit_def cnt_def numeral_2_eq_2)
qed

text \<open>
  C24: no wakeup is lost: in a reachable state of a free lock in which a thread sleeps, a woken
  writer exists, and when it runs it takes the lock; so a free lock with sleepers is never
  stuck, whoever else comes first.
\<close>

theorem rwlock_no_lost_wakeup:
  assumes "rw_step\<^sup>*\<^sup>* (Ns_RWLockInit n) l" and "lockcnt l = 0" and "WaitR \<in> set (rw_pcs l) \<or> WaitW \<in> set (rw_pcs l)"
  shows "\<exists>t < length (rw_pcs l). rw_pcs l ! t = WokenW \<and> rw_step l (wr_resume l t) \<and> rw_pcs (wr_resume l t) ! t = HoldW"
proof -
  have inv: "rw_inv l" by (rule rw_reachable_inv [OF assms(1)])
  have "0 < cnt (rw_pcs l) WokenW"
  proof (cases "WaitW \<in> set (rw_pcs l)")
    case True
    then show ?thesis using inv assms(2) cnt_pos [of "rw_pcs l" WaitW] by (auto simp: rw_inv_def)
  next
    case False
    then have r: "0 < cnt (rw_pcs l) WaitR" "cnt (rw_pcs l) WaitW = 0"
      using assms(3) cnt_pos [of "rw_pcs l"] by (auto simp flip: neq0_conv)
    then have "nwriters l \<noteq> 0" using inv assms(2) by (auto simp: rw_inv_def)
    then show ?thesis using inv r(2) by (auto simp: rw_inv_def)
  qed
  then obtain t where t: "t < length (rw_pcs l)" "rw_pcs l ! t = WokenW"
    using cnt_pos [of "rw_pcs l" WokenW] by (auto simp: in_set_conv_nth)
  moreover have "rw_pcs (wr_resume l t) ! t = HoldW" using t assms(2) by (simp add: wr_resume_def wr_test_def)
  ultimately show ?thesis using wr_wake [OF t] by blast
qed

lemma rwlock_no_lost_wakeup_witness:
  "\<exists>t < 3. rw_pcs (Ns_RWLockUnlock (Ns_RWLockWrLock (Ns_RWLockWrLock (Ns_RWLockWrLock (Ns_RWLockInit 3) 0) 1) 2) 0 (Some 1)) ! t = WokenW"
proof -
  let ?a = "Ns_RWLockWrLock (Ns_RWLockInit 3) 0" let ?b = "Ns_RWLockWrLock ?a 1" let ?c = "Ns_RWLockWrLock ?b 2"
  let ?d = "Ns_RWLockUnlock ?c 0 (Some 1)"
  note defs = Ns_RWLockInit_def Ns_RWLockWrLock_def wr_test_def numeral_3_eq_3
  have s: "rw_step (Ns_RWLockInit 3) ?a" "rw_step ?a ?b" "rw_step ?b ?c"
    by (rule wr_lock; simp add: defs)+
  have "rw_step ?c ?d" by (rule unlock) (simp_all add: defs pick_ok_def)
  note converse_rtranclp_into_rtranclp [of rw_step, OF s(3) r_into_rtranclp [of rw_step, OF this]]
  note converse_rtranclp_into_rtranclp [of rw_step, OF s(2) this]
  note converse_rtranclp_into_rtranclp [of rw_step, OF s(1) this]
  moreover have "lockcnt ?d = 0" "rw_pcs ?d = [RwIdle, WokenW, WaitW]"
    by (simp_all add: defs Ns_RWLockUnlock_def numeral_2_eq_2)
  ultimately show ?thesis using rwlock_no_lost_wakeup [of 3 ?d] by (auto simp: numeral_3_eq_3)
qed

text \<open>
  Semaphores neither lose counts nor wakeups: in every reachable state the count is what was
  posted less what was taken and never negative, and while a thread sleeps there are at least as
  many woken threads as the count allows to proceed.
\<close>

theorem sema_no_lost_wakeup:
  assumes "sm_step\<^sup>*\<^sup>* (Ns_SemaInit count n) s" and "0 \<le> count"
  shows "sm_count s = sm_posted s - sm_taken s \<and> 0 \<le> sm_count s \<and>
    (SmWait \<in> set (sm_pcs s) \<longrightarrow> sm_count s \<le> int (cnt (sm_pcs s) SmWoken))"
proof -
  have "sm_inv s" by (rule sm_reachable_inv [OF assms])
  then show ?thesis using cnt_pos [of "sm_pcs s" SmWait] by (auto simp: sm_inv_def)
qed

lemma sema_no_lost_wakeup_witness:
  "sm_count (Ns_SemaPost (Ns_SemaWait (Ns_SemaInit 0 1) 0) 2 (Some 0)) = 2"
proof -
  let ?a = "Ns_SemaWait (Ns_SemaInit 0 1) 0"
  have s: "sm_step (Ns_SemaInit 0 1) ?a" by (rule sm_wait) (simp_all add: Ns_SemaInit_def)
  have "sm_step ?a (Ns_SemaPost ?a 2 (Some 0))"
    by (rule sm_post) (simp_all add: Ns_SemaInit_def Ns_SemaWait_def pick_ok_def)
  note converse_rtranclp_into_rtranclp [of sm_step, OF s r_into_rtranclp [of sm_step, OF this]]
  from sema_no_lost_wakeup [OF this] show ?thesis by (simp add: Ns_SemaPost_def Ns_SemaWait_def Ns_SemaInit_def)
qed

text \<open>
  A critical section has one owner: in every reachable state at most one thread is inside, its
  number of entries is the count, and a section left by its last owner while threads sleep has a
  woken thread.
\<close>

theorem cslock_exclusion:
  assumes "cs_step\<^sup>*\<^sup>* (Ns_CsInit g n) l" and "t < length (cs_pcs l)" "cs_pcs l ! t = CsIn d"
    and "u < length (cs_pcs l)" "cs_pcs l ! u = CsIn e"
  shows "t = u \<and> d = e \<and> cs_count l = int d \<and> cs_tid l = t"
proof -
  have inv: "cs_inv l" by (rule cs_reachable_inv [OF assms(1)])
  show ?thesis using cs_in [OF inv assms(2,3)] cs_in [OF inv assms(4,5)] by auto
qed

lemma cslock_exclusion_witness:
  "cs_count (Ns_CsEnter (Ns_CsEnter (Ns_CsInit 7 2) 1) 1) = 2"
proof -
  let ?a = "Ns_CsEnter (Ns_CsInit 7 2) 1"
  have s: "cs_step (Ns_CsInit 7 2) ?a" by (rule cs_enter) (simp_all add: Ns_CsInit_def)
  have "cs_step ?a (Ns_CsEnter ?a 1)"
    by (rule cs_enter) (simp_all add: Ns_CsInit_def Ns_CsEnter_def)
  note r = converse_rtranclp_into_rtranclp [of cs_step, OF s r_into_rtranclp [of cs_step, OF this]]
  have "cs_pcs (Ns_CsEnter ?a 1) = [CsIdle, CsIn 2]"
    by (simp add: Ns_CsInit_def Ns_CsEnter_def cs_depth_def numeral_2_eq_2)
  then show ?thesis using cslock_exclusion [OF r, of 1 2 1 2] by simp
qed

lemma cslock_wakeup:
  "cs_step\<^sup>*\<^sup>* (Ns_CsInit g n) l \<Longrightarrow> cs_count l = 0 \<Longrightarrow> CsWait \<in> set (cs_pcs l) \<Longrightarrow> CsWoken \<in> set (cs_pcs l)"
  using cs_reachable_inv [of g n l] by (simp add: cs_inv_def)

end
