(* ===== verification/Queue.thy ===== *)
theory Queue
  imports Locks "HOL-Library.Multiset"
begin

text \<open>
  The connection queue and its pool of threads: \<open>nsd/queue.c\<close>.  The shared state is that of
  \<open>ConnPool\<close>: the thread slots, the queue of idle threads, the waiting and the free connections and
  the counters.  Driver threads run \<open>NsQueueConn\<close> and \<open>NsEnsureRunningConnectionThreads\<close>,
  connection threads run \<open>NsConnThread\<close>; every step is a stretch of code under one mutex, or one
  access without a mutex, so that all interleavings are covered.  A thread that waits for its
  condition may be woken by a signal, by a timeout or spuriously; while it gets the mutex back
  signals are lost.  Running a connection is one step; statistics, ids and logging are left out.
\<close>

section \<open>State\<close>

datatype ConnThreadState =
  connThread_free | connThread_initial | connThread_warmup | connThread_ready | connThread_idle | connThread_busy | connThread_dead

datatype wait_status = W_OK | W_TIMEOUT

text \<open>Where a connection thread stands; \<open>Absent\<close> is a slot without a thread.\<close>

datatype tpc =
    Absent
  | Start
  | Warmup
  | Top
  | Pop
  | Store "nat option"
  | Chosen
  | GoIdle
  | Enqueue
  | LoopTest wait_status
  | Waiting
  | Resumed wait_status
  | Woke wait_status
  | Unqueue wait_status
  | Assigned wait_status
  | Unidle wait_status
  | Checking wait_status
  | Begin
  | Running nat
  | Release nat
  | Again
  | Decide
  | Dying
  | Leaving
  | NullConn

record ConnThreadArg =
  t_conn :: "nat option"
  t_state :: ConnThreadState
  t_pc :: tpc
  t_ncons :: int

text \<open>Where a driver stands in \<open>NsQueueConn\<close>; \<open>NoSlot\<close> is the failed assertion of \<open>CreateConnThread\<close>.\<close>

datatype dpc =
    DIdle
  | DBegin
  | DGot nat
  | DAssign nat nat
  | DNeed nat
  | DWait nat
  | DSignal nat bool
  | DCount
  | DSpawn
  | NoSlot

record ConnPool =
  args :: "ConnThreadArg list"
  tqueue :: "nat list"
  waitq :: "nat list"
  wait_num :: int
  freeq :: "nat list"
  creating :: int
  current :: int
  idle :: int
  shutdown :: bool
  drivers :: "dpc list"

record pool_cfg =
  tmin :: int
  tmax :: nat
  lowwatermark :: int
  highwatermark :: int
  cpt :: int

definition upd :: "nat \<Rightarrow> (ConnThreadArg \<Rightarrow> ConnThreadArg) \<Rightarrow> ConnPool \<Rightarrow> ConnPool" where
  "upd i f p = p\<lparr>args := (args p)[i := f (args p ! i)]\<rparr>"

definition goto :: "nat \<Rightarrow> tpc \<Rightarrow> ConnPool \<Rightarrow> ConnPool" where
  "goto i pc p = upd i (\<lambda>t. t\<lparr>t_pc := pc\<rparr>) p"

definition dgoto :: "nat \<Rightarrow> dpc \<Rightarrow> ConnPool \<Rightarrow> ConnPool" where
  "dgoto d pc p = p\<lparr>drivers := (drivers p)[d := pc]\<rparr>"

section \<open>Drivers\<close>

definition neededAdditionalConnectionThreads :: "pool_cfg \<Rightarrow> ConnPool \<Rightarrow> bool" where
  "neededAdditionalConnectionThreads cf p \<longleftrightarrow>
     (creating p = 0 \<or> wait_num p > highwatermark cf) \<and> (current p < tmin cf \<or> wait_num p > lowwatermark cf) \<and>
     current p < int (tmax cf) \<and> \<not> shutdown p"

definition NsEnsureRunningConnectionThreads :: "pool_cfg \<Rightarrow> nat \<Rightarrow> ConnPool \<Rightarrow> ConnPool" where
  "NsEnsureRunningConnectionThreads cf d p =
     (if neededAdditionalConnectionThreads cf p
      then dgoto d DSpawn (p\<lparr>current := current p + 1, creating := creating p + 1\<rparr>) else p)"

text \<open>The first free slot is taken; the number of connections per thread is read by the thread.\<close>

definition CreateConnThread :: "pool_cfg \<Rightarrow> nat \<Rightarrow> ConnPool \<Rightarrow> ConnPool" where
  "CreateConnThread cf d p =
     (case find (\<lambda>i. t_state (args p ! i) = connThread_free) [0..<length (args p)] of
        None \<Rightarrow> dgoto d NoSlot p
      | Some i \<Rightarrow> dgoto d DIdle (upd i (\<lambda>t. \<lparr>t_conn = None, t_state = connThread_initial, t_pc = Start, t_ncons = cpt cf\<rparr>) p))"

text \<open>A signal wakes the thread if it is waiting and is lost otherwise.\<close>

definition CondSignal :: "nat \<Rightarrow> ConnPool \<Rightarrow> ConnPool" where
  "CondSignal i p = (if t_pc (args p ! i) = Waiting then goto i (Resumed W_OK) p else p)"

text \<open>The next step of driver \<open>d\<close>; from \<open>DIdle\<close> it begins to queue a connection.\<close>

definition NsQueueConn :: "pool_cfg \<Rightarrow> nat \<Rightarrow> ConnPool \<Rightarrow> ConnPool" where
  "NsQueueConn cf d p =
     (case drivers p ! d of
        DIdle \<Rightarrow> if shutdown p then p else dgoto d DBegin p
      | DBegin \<Rightarrow> (case freeq p of [] \<Rightarrow> dgoto d DIdle p | c # cs \<Rightarrow> dgoto d (DGot c) (p\<lparr>freeq := cs\<rparr>))
      | DGot c \<Rightarrow> (case tqueue p of [] \<Rightarrow> dgoto d (DWait c) p | i # is \<Rightarrow> dgoto d (DAssign c i) (p\<lparr>tqueue := is\<rparr>))
      | DAssign c i \<Rightarrow> dgoto d (DNeed i) (upd i (\<lambda>t. t\<lparr>t_conn := Some c\<rparr>) p)
      | DNeed i \<Rightarrow> dgoto d (DSignal i (neededAdditionalConnectionThreads cf p)) p
      | DWait c \<Rightarrow>
          let p1 = p\<lparr>waitq := waitq p @ [c], wait_num := wait_num p + 1\<rparr>
          in dgoto d (if neededAdditionalConnectionThreads cf p1 then DCount else DIdle) p1
      | DSignal i create \<Rightarrow> dgoto d (if create then DCount else DIdle) (CondSignal i p)
      | DCount \<Rightarrow> dgoto d DSpawn (p\<lparr>current := current p + 1, creating := creating p + 1\<rparr>)
      | DSpawn \<Rightarrow> CreateConnThread cf d p
      | NoSlot \<Rightarrow> p)"

section \<open>Connection threads\<close>

definition thread_init :: "nat \<Rightarrow> ConnPool \<Rightarrow> ConnPool" where
  "thread_init i p =
     (case t_pc (args p ! i) of
        Start \<Rightarrow> upd i (\<lambda>t. t\<lparr>t_state := connThread_warmup, t_pc := Warmup\<rparr>) p
      | Warmup \<Rightarrow>
          upd i (\<lambda>t. t\<lparr>t_state := connThread_ready, t_pc := Top\<rparr>) (p\<lparr>creating := (if creating p > 0 then creating p - 1 else creating p)\<rparr>)
      | _ \<Rightarrow> p)"

text \<open>A waiting connection is taken, or the thread goes to the idle queue.\<close>

definition thread_pick :: "nat \<Rightarrow> ConnPool \<Rightarrow> ConnPool" where
  "thread_pick i p =
     (case t_pc (args p ! i) of
        Top \<Rightarrow> goto i (if waitq p \<noteq> [] then Pop else Chosen) p
      | Pop \<Rightarrow>
          (case waitq p of
             [] \<Rightarrow> goto i (Store None) p
           | c # cs \<Rightarrow> goto i (Store (Some c)) (p\<lparr>waitq := cs, wait_num := wait_num p - 1\<rparr>))
      | Store x \<Rightarrow> upd i (\<lambda>t. t\<lparr>t_conn := x, t_pc := Chosen\<rparr>) p
      | Chosen \<Rightarrow> goto i (if t_conn (args p ! i) = None then GoIdle else Begin) p
      | GoIdle \<Rightarrow> goto i Enqueue (p\<lparr>idle := idle p + 1\<rparr>)
      | Enqueue \<Rightarrow> upd i (\<lambda>t. t\<lparr>t_state := connThread_idle, t_pc := LoopTest W_OK\<rparr>) (p\<lparr>tqueue := i # tqueue p\<rparr>)
      | _ \<Rightarrow> p)"

definition thread_wait :: "pool_cfg \<Rightarrow> nat \<Rightarrow> ConnPool \<Rightarrow> ConnPool" where
  "thread_wait cf i p =
     (case t_pc (args p ! i) of
        LoopTest st \<Rightarrow> goto i (if shutdown p then Woke st else Waiting) p
      | Resumed W_TIMEOUT \<Rightarrow>
          let st = (if t_conn (args p ! i) \<noteq> None then W_OK else W_TIMEOUT)
          in goto i (if current p \<le> tmin cf then LoopTest st else Woke st) p
      | Resumed W_OK \<Rightarrow> goto i (if t_conn (args p ! i) \<noteq> None then Woke W_OK else LoopTest W_OK) p
      | Woke st \<Rightarrow> goto i (if t_conn (args p ! i) = None then Unqueue st else Assigned st) p
      | Unqueue st \<Rightarrow> upd i (\<lambda>t. t\<lparr>t_state := connThread_busy, t_pc := Unidle st\<rparr>) (p\<lparr>tqueue := remove1 i (tqueue p)\<rparr>)
      | Assigned st \<Rightarrow> upd i (\<lambda>t. t\<lparr>t_state := connThread_busy, t_pc := Unidle st\<rparr>) p
      | Unidle st \<Rightarrow> goto i (Checking st) (p\<lparr>idle := idle p - 1\<rparr>)
      | Checking st \<Rightarrow> goto i (if shutdown p \<or> st = W_TIMEOUT then Dying else Begin) p
      | _ \<Rightarrow> p)"

text \<open>The connection is run and given back; then the thread goes on or ends.\<close>

definition keep_serving :: "pool_cfg \<Rightarrow> int \<Rightarrow> ConnPool \<Rightarrow> bool" where
  "keep_serving cf ncons p \<longleftrightarrow>
     (if cpt cf \<noteq> 0
      then wait_num p > 0 \<and> (ncons > 0 \<or> wait_num p > lowwatermark cf \<or> current p \<le> 1) \<or> \<not> ncons \<le> 0
      else \<not> ncons \<le> 0)"

definition thread_serve :: "pool_cfg \<Rightarrow> nat \<Rightarrow> ConnPool \<Rightarrow> ConnPool" where
  "thread_serve cf i p =
     (case t_pc (args p ! i) of
        Begin \<Rightarrow> (case t_conn (args p ! i) of None \<Rightarrow> goto i NullConn p | Some c \<Rightarrow> goto i (Running c) p)
      | Running c \<Rightarrow> upd i (\<lambda>t. t\<lparr>t_conn := None, t_pc := Release c\<rparr>) p
      | Release c \<Rightarrow> goto i Again (p\<lparr>freeq := c # freeq p\<rparr>)
      | Again \<Rightarrow> upd i (\<lambda>t. t\<lparr>t_state := connThread_ready, t_pc := Decide\<rparr>) p
      | Decide \<Rightarrow>
          let n = (if cpt cf \<noteq> 0 then t_ncons (args p ! i) - 1 else t_ncons (args p ! i))
          in upd i (\<lambda>t. t\<lparr>t_ncons := n, t_pc := (if keep_serving cf n p then Top else Dying)\<rparr>) p
      | _ \<Rightarrow> p)"

definition thread_exit :: "nat \<Rightarrow> ConnPool \<Rightarrow> ConnPool" where
  "thread_exit i p =
     (case t_pc (args p ! i) of
        Dying \<Rightarrow> upd i (\<lambda>t. t\<lparr>t_state := connThread_dead, t_pc := Leaving\<rparr>) (p\<lparr>current := current p - 1\<rparr>)
      | Leaving \<Rightarrow> upd i (\<lambda>t. t\<lparr>t_state := connThread_free, t_pc := Absent\<rparr>) p
      | _ \<Rightarrow> p)"

text \<open>The next step of the thread in slot \<open>i\<close>.\<close>

definition NsConnThread :: "pool_cfg \<Rightarrow> nat \<Rightarrow> ConnPool \<Rightarrow> ConnPool" where
  "NsConnThread cf i p =
     (case t_pc (args p ! i) of
        Start \<Rightarrow> thread_init i p | Warmup \<Rightarrow> thread_init i p
      | Top \<Rightarrow> thread_pick i p | Pop \<Rightarrow> thread_pick i p | Store _ \<Rightarrow> thread_pick i p | Chosen \<Rightarrow> thread_pick i p
      | GoIdle \<Rightarrow> thread_pick i p | Enqueue \<Rightarrow> thread_pick i p
      | Begin \<Rightarrow> thread_serve cf i p | Running _ \<Rightarrow> thread_serve cf i p | Release _ \<Rightarrow> thread_serve cf i p
      | Again \<Rightarrow> thread_serve cf i p | Decide \<Rightarrow> thread_serve cf i p
      | Dying \<Rightarrow> thread_exit i p | Leaving \<Rightarrow> thread_exit i p
      | _ \<Rightarrow> thread_wait cf i p)"

section \<open>Steps\<close>

datatype act = ThreadStep nat | Timeout nat | Spurious nat | DriverStep nat | Ensure nat | StopServer

definition enabled :: "act \<Rightarrow> ConnPool \<Rightarrow> bool" where
  "enabled a p =
     (case a of
        ThreadStep i \<Rightarrow> i < length (args p) \<and> t_pc (args p ! i) \<notin> {Absent, Waiting, NullConn}
      | Timeout i \<Rightarrow> i < length (args p) \<and> t_pc (args p ! i) = Waiting
      | Spurious i \<Rightarrow> i < length (args p) \<and> t_pc (args p ! i) = Waiting
      | DriverStep d \<Rightarrow> d < length (drivers p) \<and> drivers p ! d \<noteq> NoSlot
      | Ensure d \<Rightarrow> d < length (drivers p) \<and> drivers p ! d = DIdle
      | StopServer \<Rightarrow> True)"

definition perform :: "pool_cfg \<Rightarrow> act \<Rightarrow> ConnPool \<Rightarrow> ConnPool" where
  "perform cf a p =
     (case a of
        ThreadStep i \<Rightarrow> NsConnThread cf i p
      | Timeout i \<Rightarrow> goto i (Resumed W_TIMEOUT) p
      | Spurious i \<Rightarrow> goto i (Resumed W_OK) p
      | DriverStep d \<Rightarrow> NsQueueConn cf d p
      | Ensure d \<Rightarrow> NsEnsureRunningConnectionThreads cf d p
      | StopServer \<Rightarrow> p\<lparr>shutdown := True\<rparr>)"

inductive pool_step :: "pool_cfg \<Rightarrow> ConnPool \<Rightarrow> ConnPool \<Rightarrow> bool" for cf where
  act: "enabled a p \<Longrightarrow> pool_step cf p (perform cf a p)"

definition free_slot :: ConnThreadArg where
  "free_slot = \<lparr>t_conn = None, t_state = connThread_free, t_pc = Absent, t_ncons = 0\<rparr>"

text \<open>A pool with \<open>maxconns\<close> connections and \<open>nd\<close> drivers, before any thread was created.\<close>

definition pool_init :: "pool_cfg \<Rightarrow> nat \<Rightarrow> nat \<Rightarrow> ConnPool" where
  "pool_init cf maxconns nd =
     \<lparr>args = replicate (tmax cf) free_slot, tqueue = [], waitq = [], wait_num = 0, freeq = [0..<maxconns], creating = 0, current = 0,
      idle = 0, shutdown = False, drivers = replicate nd DIdle\<rparr>"

text \<open>A schedule is a list of actions; \<open>None\<close> if one of them is not possible.\<close>

fun run_pool :: "pool_cfg \<Rightarrow> act list \<Rightarrow> ConnPool \<Rightarrow> ConnPool option" where
  "run_pool cf [] p = Some p"
| "run_pool cf (a # as) p = (if enabled a p then run_pool cf as (perform cf a p) else None)"

lemma run_pool_reachable: "run_pool cf as p = Some q \<Longrightarrow> (pool_step cf)\<^sup>*\<^sup>* p q"
proof (induction as arbitrary: p)
  case (Cons a as)
  then have "pool_step cf p (perform cf a p)" "(pool_step cf)\<^sup>*\<^sup>* (perform cf a p) q"
    by (auto intro: pool_step.intros split: if_splits)
  then show ?case by (rule converse_rtranclp_into_rtranclp)
qed simp

section \<open>Ownership of connections\<close>

definition opt_mset :: "nat option \<Rightarrow> nat multiset" where
  "opt_mset x = (case x of None \<Rightarrow> {#} | Some c \<Rightarrow> {#c#})"

text \<open>The connections a thread or a driver has in its hands.\<close>

definition thread_owns :: "ConnThreadArg \<Rightarrow> nat multiset" where
  "thread_owns t =
     (case t_pc t of
        Store x \<Rightarrow> opt_mset x + opt_mset (t_conn t)
      | Running c \<Rightarrow> {#c#} + (if t_conn t = Some c then {#} else opt_mset (t_conn t))
      | Release c \<Rightarrow> {#c#} + opt_mset (t_conn t)
      | _ \<Rightarrow> opt_mset (t_conn t))"

definition driver_owns :: "dpc \<Rightarrow> nat multiset" where
  "driver_owns d = (case d of DGot c \<Rightarrow> {#c#} | DAssign c i \<Rightarrow> {#c#} | DWait c \<Rightarrow> {#c#} | _ \<Rightarrow> {#})"

definition owners :: "ConnPool \<Rightarrow> nat multiset" where
  "owners p = mset (freeq p) + mset (waitq p) + sum_list (map driver_owns (drivers p)) + sum_list (map thread_owns (args p))"

lemma sum_list_update_add:
  fixes f :: "'a \<Rightarrow> 'b :: comm_monoid_add"
  assumes "i < length xs"
  shows "sum_list (map f (xs[i := y])) + f (xs ! i) = sum_list (map f xs) + f y"
proof -
  have x: "sum_list (map f xs) = sum_list (map f (take i xs)) + (f (xs ! i) + sum_list (map f (drop (Suc i) xs)))"
    using arg_cong [OF id_take_nth_drop [OF assms], of "\<lambda>l. sum_list (map f l)"] by simp
  show ?thesis unfolding upd_conv_take_nth_drop [OF assms] x by (simp add: ac_simps)
qed

text \<open>How an update of one part of the pool changes the owners, for each connection.\<close>

abbreviation own :: "ConnPool \<Rightarrow> nat \<Rightarrow> nat" where
  "own p c \<equiv> count (owners p) c"

lemma own_upd:
  assumes "i < length (args p)"
  shows "own (upd i f p) c + count (thread_owns (args p ! i)) c = own p c + count (thread_owns (f (args p ! i))) c"
proof -
  have "owners (upd i f p) + thread_owns (args p ! i) = owners p + thread_owns (f (args p ! i))"
    using sum_list_update_add [OF assms, of thread_owns "f (args p ! i)"] by (simp add: owners_def upd_def ac_simps)
  then show ?thesis by (metis count_union)
qed

lemma own_dgoto:
  assumes "d < length (drivers p)"
  shows "own (dgoto d pc p) c + count (driver_owns (drivers p ! d)) c = own p c + count (driver_owns pc) c"
proof -
  have "owners (dgoto d pc p) + driver_owns (drivers p ! d) = owners p + driver_owns pc"
    using sum_list_update_add [OF assms, of driver_owns pc] by (simp add: owners_def dgoto_def ac_simps)
  then show ?thesis by (metis count_union)
qed

lemma own_fields [simp]:
  "owners (p\<lparr>tqueue := x\<rparr>) = owners p" "owners (p\<lparr>creating := k\<rparr>) = owners p" "owners (p\<lparr>current := k\<rparr>) = owners p"
  "owners (p\<lparr>idle := k\<rparr>) = owners p" "owners (p\<lparr>wait_num := k\<rparr>) = owners p" "owners (p\<lparr>shutdown := b\<rparr>) = owners p"
  by (simp_all add: owners_def)

lemma own_push [simp]:
  "own (p\<lparr>freeq := x # freeq p\<rparr>) c = own p c + count {#x#} c"
  "own (p\<lparr>waitq := waitq p @ [x]\<rparr>) c = own p c + count {#x#} c"
  by (simp_all add: owners_def)

lemma own_take:
  "freeq p = x # xs \<Longrightarrow> own (p\<lparr>freeq := xs\<rparr>) c + count {#x#} c = own p c"
  "waitq p = x # xs \<Longrightarrow> own (p\<lparr>waitq := xs\<rparr>) c + count {#x#} c = own p c"
  by (simp_all add: owners_def)

lemma upd_le:
  assumes "i < length (args q)" "own q c + count (thread_owns (f (args q ! i))) c \<le> own p c + count (thread_owns (args q ! i)) c"
  shows "own (upd i f q) c \<le> own p c"
  using own_upd [OF assms(1), of f c] assms(2) by linarith

lemma dgoto_le:
  assumes "d < length (drivers q)" "own q c + count (driver_owns pc) c \<le> own p c + count (driver_owns (drivers q ! d)) c"
  shows "own (dgoto d pc q) c \<le> own p c"
  using own_dgoto [OF assms(1), of pc c] assms(2) by linarith

lemmas owns_defs = thread_owns_def opt_mset_def driver_owns_def

lemma own_thread_init: "i < length (args p) \<Longrightarrow> own (thread_init i p) c \<le> own p c"
  by (cases "t_pc (args p ! i)") (simp_all add: thread_init_def upd_le thread_owns_def)

lemma own_thread_wait: "i < length (args p) \<Longrightarrow> own (thread_wait cf i p) c \<le> own p c"
  unfolding thread_wait_def goto_def Let_def
  by (auto intro!: upd_le simp: thread_owns_def split: tpc.splits wait_status.splits)

lemma own_thread_exit: "i < length (args p) \<Longrightarrow> own (thread_exit i p) c \<le> own p c"
  by (cases "t_pc (args p ! i)") (simp_all add: thread_exit_def upd_le thread_owns_def)

lemma own_thread_pick:
  assumes "i < length (args p)"
  shows "own (thread_pick i p) c \<le> own p c"
proof (cases "t_pc (args p ! i) = Pop \<and> waitq p \<noteq> []")
  case True
  then obtain x xs where w: "waitq p = x # xs" by (cases "waitq p") auto
  let ?q = "p\<lparr>waitq := xs, wait_num := wait_num p - 1\<rparr>"
  have "own (upd i (\<lambda>t. t\<lparr>t_pc := Store (Some x)\<rparr>) ?q) c \<le> own p c"
    by (rule upd_le) (use assms True own_take(2) [OF w, of c] in \<open>auto simp: thread_owns_def opt_mset_def split: if_splits\<close>)
  then show ?thesis using True w by (simp add: thread_pick_def goto_def)
next
  case False
  then show ?thesis using assms unfolding thread_pick_def goto_def
    by (auto intro!: upd_le simp: thread_owns_def opt_mset_def split: tpc.splits list.splits option.splits)
qed

lemma own_thread_serve: "i < length (args p) \<Longrightarrow> own (thread_serve cf i p) c \<le> own p c"
  unfolding thread_serve_def goto_def Let_def
  by (auto intro!: upd_le simp: thread_owns_def opt_mset_def split: tpc.splits option.splits)

lemma own_conn_thread: "i < length (args p) \<Longrightarrow> own (NsConnThread cf i p) c \<le> own p c"
  by (simp add: NsConnThread_def own_thread_init own_thread_wait own_thread_exit own_thread_pick own_thread_serve split: tpc.splits)

lemma own_create:
  assumes "d < length (drivers p)"
  shows "own (CreateConnThread cf d p) c \<le> own p c"
proof (cases "find (\<lambda>i. t_state (args p ! i) = connThread_free) [0..<length (args p)]")
  case None
  then show ?thesis using assms by (auto simp: CreateConnThread_def driver_owns_def intro: dgoto_le)
next
  case (Some i)
  let ?p = "upd i (\<lambda>t. \<lparr>t_conn = None, t_state = connThread_initial, t_pc = Start, t_ncons = cpt cf\<rparr>) p"
  have "i < length (args p)" using Some by (auto simp: find_Some_iff)
  then have "own ?p c \<le> own p c" by (rule upd_le) (simp add: thread_owns_def opt_mset_def)
  then show ?thesis using assms Some by (auto simp: CreateConnThread_def driver_owns_def upd_def intro!: dgoto_le)
qed

lemma own_queue_conn:
  assumes "d < length (drivers p)"
  shows "own (NsQueueConn cf d p) c \<le> own p c"
proof (cases "drivers p ! d")
  case DBegin
  show ?thesis
  proof (cases "freeq p")
    case (Cons x xs)
    have "own (dgoto d (DGot x) (p\<lparr>freeq := xs\<rparr>)) c \<le> own p c"
      by (rule dgoto_le) (use assms DBegin own_take(1) [OF Cons, of c] in \<open>simp_all add: driver_owns_def\<close>)
    then show ?thesis using DBegin Cons by (simp add: NsQueueConn_def)
  qed (use assms DBegin in \<open>simp add: NsQueueConn_def dgoto_le driver_owns_def\<close>)
next
  case (DAssign x i)
  have "own (upd i (\<lambda>t. t\<lparr>t_conn := Some x\<rparr>) p) c \<le> own p c + count {#x#} c"
  proof (cases "i < length (args p)")
    case True
    then show ?thesis using own_upd [OF True, of "\<lambda>t. t\<lparr>t_conn := Some x\<rparr>" c]
      by (auto simp: thread_owns_def opt_mset_def split: tpc.splits option.splits if_splits)
  next
    case False
    then have "upd i (\<lambda>t. t\<lparr>t_conn := Some x\<rparr>) p = p" by (simp add: upd_def list_update_beyond)
    then show ?thesis by simp
  qed
  then have "own (dgoto d (DNeed i) (upd i (\<lambda>t. t\<lparr>t_conn := Some x\<rparr>) p)) c \<le> own p c"
    using assms DAssign by (intro dgoto_le) (simp_all add: driver_owns_def upd_def)
  then show ?thesis using DAssign by (simp add: NsQueueConn_def)
next
  case (DSignal i b)
  have "own (CondSignal i p) c \<le> own p c"
  proof (cases "i < length (args p)")
    case True
    then show ?thesis by (auto simp: CondSignal_def goto_def thread_owns_def intro!: upd_le)
  next
    case False
    then show ?thesis by (simp add: CondSignal_def goto_def upd_def list_update_beyond)
  qed
  then show ?thesis using assms DSignal by (auto simp: NsQueueConn_def driver_owns_def CondSignal_def goto_def upd_def intro!: dgoto_le)
next
  case DSpawn
  then show ?thesis using own_create [OF assms] by (simp add: NsQueueConn_def)
qed (use assms in \<open>auto simp: NsQueueConn_def driver_owns_def Let_def intro!: dgoto_le split: list.splits\<close>)

lemma own_step: "pool_step cf p q \<Longrightarrow> own q c \<le> own p c"
proof (erule pool_step.cases)
  fix a p' assume "p = p'" "q = perform cf a p'" "enabled a p'"
  then show ?thesis
    using own_conn_thread own_queue_conn
    by (cases a) (auto simp: perform_def enabled_def goto_def thread_owns_def NsEnsureRunningConnectionThreads_def driver_owns_def
        intro!: upd_le dgoto_le)
qed

section \<open>Counters and assertions\<close>

definition idle_n :: "ConnThreadArg \<Rightarrow> int" where
  "idle_n t =
     (case t_pc t of
        Enqueue \<Rightarrow> 1 | LoopTest _ \<Rightarrow> 1 | Waiting \<Rightarrow> 1 | Resumed _ \<Rightarrow> 1 | Woke _ \<Rightarrow> 1 | Unqueue _ \<Rightarrow> 1 | Assigned _ \<Rightarrow> 1 | Unidle _ \<Rightarrow> 1
      | _ \<Rightarrow> 0)"

definition live_n :: "ConnThreadArg \<Rightarrow> int" where
  "live_n t = (if t_pc t \<in> {Absent, Leaving} then 0 else 1)"

definition spawn_n :: "dpc \<Rightarrow> int" where
  "spawn_n d = (if d \<in> {DSpawn, NoSlot} then 1 else 0)"

text \<open>
  The counters are those of their definitions: \<open>current\<close> counts the threads that have not left and
  the drivers that are about to create one.
\<close>

definition counts_ok :: "ConnPool \<Rightarrow> bool" where
  "counts_ok p \<longleftrightarrow> wait_num p = int (length (waitq p)) \<and> idle p = sum_list (map idle_n (args p)) \<and>
     current p = sum_list (map live_n (args p)) + sum_list (map spawn_n (drivers p))"

text \<open>A thread that begins to run a connection has one; a slot is free when no thread is on it.\<close>

definition thread_ok :: "bool \<Rightarrow> ConnThreadArg \<Rightarrow> bool" where
  "thread_ok sh t \<longleftrightarrow>
     (t_state t = connThread_free \<longleftrightarrow> t_pc t = Absent) \<and> t_pc t \<noteq> NullConn \<and> (t_pc t = Begin \<longrightarrow> t_conn t \<noteq> None) \<and>
     (t_pc t \<in> {Woke W_OK, Unqueue W_OK, Assigned W_OK, Unidle W_OK, Checking W_OK} \<longrightarrow> t_conn t \<noteq> None \<or> sh)"

definition pool_inv :: "ConnPool \<Rightarrow> bool" where
  "pool_inv p \<longleftrightarrow> counts_ok p \<and> (\<forall>t \<in> set (args p). thread_ok (shutdown p) t)"

lemma sum_upd:
  fixes f :: "ConnThreadArg \<Rightarrow> int"
  shows "i < length (args p) \<Longrightarrow> sum_list (map f (args (upd i g p))) = sum_list (map f (args p)) - f (args p ! i) + f (g (args p ! i))"
  using sum_list_update_add [of i "args p" f "g (args p ! i)"] by (simp add: upd_def)

lemma sum_dgoto:
  fixes f :: "dpc \<Rightarrow> int"
  shows "d < length (drivers p) \<Longrightarrow> sum_list (map f (drivers (dgoto d pc p))) = sum_list (map f (drivers p)) - f (drivers p ! d) + f pc"
  using sum_list_update_add [of d "drivers p" f pc] by (simp add: dgoto_def)

lemma upd_sel [simp]:
  "tqueue (upd i f p) = tqueue p" "waitq (upd i f p) = waitq p" "wait_num (upd i f p) = wait_num p" "freeq (upd i f p) = freeq p"
  "creating (upd i f p) = creating p" "current (upd i f p) = current p" "idle (upd i f p) = idle p" "shutdown (upd i f p) = shutdown p"
  "drivers (upd i f p) = drivers p" "length (args (upd i f p)) = length (args p)"
  by (simp_all add: upd_def)

lemma dgoto_sel [simp]:
  "tqueue (dgoto d pc p) = tqueue p" "waitq (dgoto d pc p) = waitq p" "wait_num (dgoto d pc p) = wait_num p" "freeq (dgoto d pc p) = freeq p"
  "creating (dgoto d pc p) = creating p" "current (dgoto d pc p) = current p" "idle (dgoto d pc p) = idle p"
  "shutdown (dgoto d pc p) = shutdown p" "args (dgoto d pc p) = args p" "length (drivers (dgoto d pc p)) = length (drivers p)"
  by (simp_all add: dgoto_def)

lemma threads_ok_upd:
  assumes "\<forall>t \<in> set (args p). thread_ok sh t" "i < length (args p)" "thread_ok sh (args p ! i) \<Longrightarrow> thread_ok sh (f (args p ! i))"
  shows "\<forall>t \<in> set (args (upd i f p)). thread_ok sh t"
  using assms set_update_subset_insert [of "args p" i "f (args p ! i)"] by (auto simp: upd_def)

lemma inv_upd:
  assumes "pool_inv p" "i < length (args p)" "args q = args p" "drivers q = drivers p" "shutdown q = shutdown p"
    and "wait_num q - int (length (waitq q)) = wait_num p - int (length (waitq p))"
    and "idle q + idle_n (args p ! i) = idle p + idle_n (f (args p ! i))" "current q + live_n (args p ! i) = current p + live_n (f (args p ! i))"
    and "thread_ok (shutdown p) (args p ! i) \<Longrightarrow> thread_ok (shutdown p) (f (args p ! i))"
  shows "pool_inv (upd i f q)"
proof -
  have "i < length (args q)" using assms(2,3) by simp
  from sum_upd [OF this, of idle_n f] sum_upd [OF this, of live_n f] threads_ok_upd [OF _ this, of "shutdown p" f] assms
  show ?thesis by (simp add: pool_inv_def counts_ok_def)
qed

lemmas pc_defs = idle_n_def live_n_def thread_ok_def

lemma inv_thread_init: "pool_inv p \<Longrightarrow> i < length (args p) \<Longrightarrow> pool_inv (thread_init i p)"
  by (cases "t_pc (args p ! i)") (auto simp: thread_init_def pc_defs intro!: inv_upd)

lemma inv_thread_pick: "pool_inv p \<Longrightarrow> i < length (args p) \<Longrightarrow> pool_inv (thread_pick i p)"
  by (cases "t_pc (args p ! i)") (auto simp: thread_pick_def goto_def pc_defs intro!: inv_upd split: list.splits)

lemma inv_thread_exit: "pool_inv p \<Longrightarrow> i < length (args p) \<Longrightarrow> pool_inv (thread_exit i p)"
  by (cases "t_pc (args p ! i)") (auto simp: thread_exit_def pc_defs intro!: inv_upd)

lemma not_timeout [simp]: "st \<noteq> W_TIMEOUT \<longleftrightarrow> st = W_OK" "st \<noteq> W_OK \<longleftrightarrow> st = W_TIMEOUT"
  by (cases st; simp)+

lemma inv_thread_wait: "pool_inv p \<Longrightarrow> i < length (args p) \<Longrightarrow> pool_inv (thread_wait cf i p)"
  by (cases "t_pc (args p ! i)") (auto simp: thread_wait_def goto_def pc_defs Let_def intro!: inv_upd split: wait_status.splits)

lemma inv_thread: "pool_inv p \<Longrightarrow> i < length (args p) \<Longrightarrow> thread_ok (shutdown p) (args p ! i)"
  by (simp add: pool_inv_def)

lemma inv_thread_serve:
  assumes "pool_inv p" "i < length (args p)"
  shows "pool_inv (thread_serve cf i p)"
proof -
  have "t_pc (args p ! i) = Begin \<Longrightarrow> t_conn (args p ! i) \<noteq> None" using inv_thread [OF assms] by (simp add: thread_ok_def)
  then show ?thesis using assms
    by (cases "t_pc (args p ! i)") (auto simp: thread_serve_def goto_def pc_defs Let_def intro!: inv_upd)
qed

lemma inv_conn_thread: "pool_inv p \<Longrightarrow> i < length (args p) \<Longrightarrow> pool_inv (NsConnThread cf i p)"
  by (simp add: NsConnThread_def inv_thread_init inv_thread_wait inv_thread_exit inv_thread_pick inv_thread_serve split: tpc.splits)

lemma inv_dgoto:
  assumes "pool_inv p" "d < length (drivers p)" "args q = args p" "drivers q = drivers p" "shutdown q = shutdown p"
    and "wait_num q - int (length (waitq q)) = wait_num p - int (length (waitq p))" "idle q = idle p"
    and "current q + spawn_n (drivers p ! d) = current p + spawn_n pc"
  shows "pool_inv (dgoto d pc q)"
proof -
  have "d < length (drivers q)" using assms(2,4) by simp
  from sum_dgoto [OF this, of spawn_n pc] assms show ?thesis by (simp add: pool_inv_def counts_ok_def)
qed

lemma inv_create:
  assumes "pool_inv p" "d < length (drivers p)" "drivers p ! d = DSpawn"
  shows "pool_inv (CreateConnThread cf d p)"
proof (cases "find (\<lambda>i. t_state (args p ! i) = connThread_free) [0..<length (args p)]")
  case None
  then show ?thesis using assms by (auto simp: CreateConnThread_def spawn_n_def intro!: inv_dgoto)
next
  case (Some i)
  let ?f = "\<lambda>t. \<lparr>t_conn = None, t_state = connThread_initial, t_pc = Start, t_ncons = cpt cf\<rparr>"
  have i: "i < length (args p)" "t_state (args p ! i) = connThread_free" using Some by (auto simp: find_Some_iff)
  then have a: "t_pc (args p ! i) = Absent" using inv_thread [OF assms(1) i(1)] by (simp add: thread_ok_def)
  let ?q = "dgoto d DIdle (upd i ?f p)"
  have n: "idle_n (?f t) = 0" "live_n (?f t) = 1" "thread_ok sh (?f t)" "spawn_n DIdle = 0" "spawn_n DSpawn = 1" for t sh
    by (simp_all add: pc_defs spawn_n_def)
  have "idle_n (args p ! i) = 0" "live_n (args p ! i) = 0" using a by (simp_all add: pc_defs)
  moreover have "\<forall>t \<in> set (args (upd i ?f p)). thread_ok (shutdown p) t"
    using assms(1) i(1) n(3) by (intro threads_ok_upd) (simp_all add: pool_inv_def)
  ultimately have "pool_inv ?q"
    using assms sum_upd [OF i(1), of idle_n ?f] sum_upd [OF i(1), of live_n ?f] n sum_dgoto [of d "upd i ?f p" spawn_n DIdle]
    by (simp add: pool_inv_def counts_ok_def)
  then show ?thesis using Some by (simp add: CreateConnThread_def)
qed

lemma upd_beyond: "\<not> i < length (args p) \<Longrightarrow> upd i f p = p"
  by (simp add: upd_def list_update_beyond)

lemma inv_assign: "pool_inv p \<Longrightarrow> pool_inv (upd i (\<lambda>t. t\<lparr>t_conn := Some c\<rparr>) p)"
  by (cases "i < length (args p)") (auto simp: upd_beyond pc_defs intro!: inv_upd split: tpc.splits)

lemma inv_signal: "pool_inv p \<Longrightarrow> pool_inv (CondSignal i p)"
  by (cases "i < length (args p)") (auto simp: CondSignal_def goto_def upd_beyond pc_defs intro!: inv_upd)

lemma signal_sel [simp]: "drivers (CondSignal i p) = drivers p" "current (CondSignal i p) = current p"
  by (simp_all add: CondSignal_def goto_def)

lemma inv_queue_conn:
  assumes "pool_inv p" "d < length (drivers p)"
  shows "pool_inv (NsQueueConn cf d p)"
proof (cases "drivers p ! d")
  case (DAssign c i)
  have "pool_inv (dgoto d (DNeed i) (upd i (\<lambda>t. t\<lparr>t_conn := Some c\<rparr>) p))"
    by (rule inv_dgoto [OF inv_assign [OF assms(1), of i c]]) (use assms DAssign in \<open>simp_all add: spawn_n_def\<close>)
  then show ?thesis using DAssign by (simp add: NsQueueConn_def)
next
  case (DSignal i b)
  have "pool_inv (dgoto d (if b then DCount else DIdle) (CondSignal i p))"
    by (rule inv_dgoto [OF inv_signal [OF assms(1), of i]]) (use assms DSignal in \<open>simp_all add: spawn_n_def\<close>)
  then show ?thesis using DSignal by (simp add: NsQueueConn_def)
next
  case DSpawn
  then show ?thesis using inv_create [OF assms DSpawn] by (simp add: NsQueueConn_def)
qed (use assms in \<open>auto simp: NsQueueConn_def spawn_n_def Let_def intro!: inv_dgoto split: list.splits\<close>)

lemma inv_perform:
  assumes "pool_inv p" "enabled a p"
  shows "pool_inv (perform cf a p)"
proof (cases a)
  case (ThreadStep i)
  then show ?thesis using assms by (simp add: perform_def enabled_def inv_conn_thread)
next
  case (DriverStep d)
  then show ?thesis using assms by (simp add: perform_def enabled_def inv_queue_conn)
next
  case (Ensure d)
  then show ?thesis using assms
    by (auto simp: perform_def enabled_def NsEnsureRunningConnectionThreads_def spawn_n_def intro!: inv_dgoto)
next
  case StopServer
  then show ?thesis using assms by (auto simp: perform_def pool_inv_def counts_ok_def thread_ok_def)
qed (use assms in \<open>auto simp: perform_def enabled_def goto_def pc_defs intro!: inv_upd\<close>)

interpretation pl: invariant_system "\<lambda>p. \<exists>n nd. p = pool_init cf n nd" "pool_step cf" pool_inv for cf
proof
  show "\<exists>n nd. p = pool_init cf n nd \<Longrightarrow> pool_inv p" for p
    by (auto simp: pool_init_def pool_inv_def counts_ok_def free_slot_def pc_defs spawn_n_def sum_list_replicate map_replicate_const)
  show "pool_inv p \<Longrightarrow> pool_step cf p q \<Longrightarrow> pool_inv q" for p q
    by (erule pool_step.cases) (auto intro: inv_perform)
qed

lemma sum_empty: "sum_list (replicate k ({#} :: nat multiset)) = {#}"
  by (induction k) simp_all

interpretation ow: invariant_system "\<lambda>p. p = pool_init cf n nd" "pool_step cf" "\<lambda>p. \<forall>c. own p c \<le> (if c < n then 1 else 0)" for cf n nd
proof
  have "sum_list (map driver_owns (replicate nd DIdle)) = {#}" "sum_list (map thread_owns (replicate k free_slot)) = {#}" for k
    by (simp_all add: driver_owns_def thread_owns_def free_slot_def opt_mset_def map_replicate_const sum_empty)
  then show "\<forall>c. own p c \<le> (if c < n then 1 else 0)" if "p = pool_init cf n nd" for p
    using that by (simp add: owners_def pool_init_def count_mset_set)
  show "\<forall>c. own q c \<le> (if c < n then 1 else 0)" if "\<forall>c. own p c \<le> (if c < n then 1 else 0)" "pool_step cf p q" for p q
    using that own_step [OF that(2)] order_trans by blast
qed

section \<open>Properties\<close>

lemma sum_list_two:
  fixes f :: "'a \<Rightarrow> nat"
  assumes "i < length xs" "j < length xs" "i \<noteq> j"
  shows "f (xs ! i) + f (xs ! j) \<le> sum_list (map f xs)"
proof -
  have "sum_list (map f xs) = (\<Sum>k < length xs. f (xs ! k))" by (simp add: sum_list_sum_nth atLeast0LessThan)
  moreover have "(\<Sum>k \<in> {i, j}. f (xs ! k)) \<le> (\<Sum>k < length xs. f (xs ! k))" using assms by (intro sum_mono2) auto
  ultimately show ?thesis using assms(3) by simp
qed

lemma count_sum_list: "count (sum_list (map f xs)) c = sum_list (map (\<lambda>x. count (f x) c) xs)"
  by (induction xs) simp_all

lemma own_parts:
  "own p c = count (mset (freeq p @ waitq p)) c + sum_list (map (\<lambda>d. count (driver_owns d) c) (drivers p)) +
     sum_list (map (\<lambda>t. count (thread_owns t) c) (args p))"
  by (simp add: owners_def count_sum_list)

lemma running_owned: "t_pc t = Running c \<Longrightarrow> 1 \<le> count (thread_owns t) c"
  by (simp add: thread_owns_def)

lemma pool_exclusive_aux:
  assumes "\<forall>c. own p c \<le> (if c < n then 1 else 0)" "i < length (args p)" "t_pc (args p ! i) = Running c"
  shows "c \<notin> set (freeq p @ waitq p) \<and> (\<forall>j < length (args p). t_pc (args p ! j) = Running c \<longrightarrow> j = i)"
proof -
  let ?f = "\<lambda>t. count (thread_owns t) c"
  have le: "own p c \<le> 1" using assms(1) [rule_format, of c] by (simp split: if_splits)
  have r: "1 \<le> ?f (args p ! i)" using assms(3) by (rule running_owned)
  have "?f (args p ! i) \<le> sum_list (map ?f (args p))" using assms(2) by (intro member_le_sum_list) auto
  then have "count (mset (freeq p @ waitq p)) c = 0" using le r unfolding own_parts by linarith
  moreover have "j = i" if "j < length (args p)" "t_pc (args p ! j) = Running c" for j
  proof (rule ccontr)
    assume "j \<noteq> i"
    with sum_list_two [OF assms(2) that(1), of ?f] have "?f (args p ! i) + ?f (args p ! j) \<le> sum_list (map ?f (args p))" by simp
    then show False using running_owned [OF that(2)] r le unfolding own_parts by linarith
  qed
  ultimately show ?thesis by (simp add: count_eq_zero_iff)
qed

text \<open>
  C11: With any number of drivers and threads and under every interleaving: no connection is in two
  places, neither twice in the queues nor run by two threads nor run while it is queued or free; a
  thread that begins to run a connection has one (the assertion in the loop holds); and the
  counters of waiting connections, idle threads and running threads are right.
\<close>

theorem pool_exclusive:
  assumes "(pool_step cf)\<^sup>*\<^sup>* (pool_init cf n nd) p"
  shows "distinct (freeq p @ waitq p) \<and>
    (\<forall>i c. i < length (args p) \<and> t_pc (args p ! i) = Running c \<longrightarrow>
       c \<notin> set (freeq p @ waitq p) \<and> (\<forall>j < length (args p). t_pc (args p ! j) = Running c \<longrightarrow> j = i)) \<and>
    (\<forall>t \<in> set (args p). t_pc t \<noteq> NullConn) \<and>
    wait_num p = int (length (waitq p)) \<and> idle p = sum_list (map idle_n (args p)) \<and>
    current p = sum_list (map live_n (args p)) + sum_list (map spawn_n (drivers p))"
proof -
  have o: "\<forall>c. own p c \<le> (if c < n then 1 else 0)" using ow.reachable_inv [OF refl assms] .
  have "count (mset (freeq p @ waitq p)) c \<le> 1" for c
  proof -
    have "own p c \<le> 1" using o [rule_format, of c] by (cases "c < n") simp_all
    then show ?thesis unfolding own_parts by linarith
  qed
  then have "distinct (freeq p @ waitq p)"
    by (metis distinct_count_atmost_1 count_mset_0_iff le_antisym less_one not_le)
  moreover have "pool_inv p" using pl.reachable_inv [OF _ assms] by blast
  ultimately show ?thesis using pool_exclusive_aux [OF o] by (auto simp: pool_inv_def counts_ok_def thread_ok_def)
qed

text \<open>Drivers that have decided to create a thread but have not counted it yet.\<close>

definition will_count :: "dpc \<Rightarrow> int" where
  "will_count d = (case d of DCount \<Rightarrow> 1 | DSignal i b \<Rightarrow> if b then 1 else 0 | _ \<Rightarrow> 0)"

lemma thread_current: "current (NsConnThread cf i p) \<le> current p" "drivers (NsConnThread cf i p) = drivers p"
  by (auto simp: NsConnThread_def thread_init_def thread_pick_def thread_wait_def thread_serve_def thread_exit_def goto_def Let_def
      split: tpc.splits wait_status.splits list.splits option.splits)

definition one_driver :: "pool_cfg \<Rightarrow> ConnPool \<Rightarrow> bool" where
  "one_driver cf p \<longleftrightarrow> length (drivers p) = 1 \<and> current p + will_count (drivers p ! 0) \<le> int (tmax cf)"

lemma drivers_dgoto: "length (drivers p) = 1 \<Longrightarrow> drivers (dgoto 0 pc p) = [pc]"
  by (cases "drivers p") (simp_all add: dgoto_def)

lemma one_driver_queue:
  assumes "one_driver cf p"
  shows "one_driver cf (NsQueueConn cf 0 p)"
proof -
  have l: "length (drivers p) = 1" "length (drivers (CondSignal i p)) = 1" "length (drivers (upd i f p)) = 1" for i f
    using assms by (simp_all add: one_driver_def)
  show ?thesis using assms
    by (cases "drivers p ! 0")
      (auto simp: NsQueueConn_def one_driver_def CreateConnThread_def Let_def drivers_dgoto l will_count_def
        neededAdditionalConnectionThreads_def split: list.splits option.splits)
qed

interpretation od: invariant_system "\<lambda>p. \<exists>n. p = pool_init cf n 1" "pool_step cf" "one_driver cf" for cf
proof
  show "\<exists>n. p = pool_init cf n 1 \<Longrightarrow> one_driver cf p" for p
    by (auto simp: pool_init_def one_driver_def will_count_def)
  show "one_driver cf q" if "one_driver cf p" "pool_step cf p q" for p q
    using that(2)
  proof cases
    case (act a)
    then show ?thesis using that(1) one_driver_queue thread_current [of cf _ p]
      by (cases a) (auto simp: perform_def enabled_def one_driver_def goto_def NsEnsureRunningConnectionThreads_def drivers_dgoto will_count_def
          neededAdditionalConnectionThreads_def intro: order_trans [rotated])
  qed
qed

section \<open>Divergences\<close>



definition one_thread :: "int \<Rightarrow> int \<Rightarrow> pool_cfg" where
  "one_thread mn k = \<lparr>tmin = mn, tmax = 1, lowwatermark = 0, highwatermark = 10, cpt = k\<rparr>"

text \<open>A first connection waits until a thread is created, which runs it and then goes to sleep.\<close>

definition first_served :: "act list" where
  "first_served = replicate 6 (DriverStep 0) @ replicate 10 (ThreadStep 0)"

definition and_sleeps :: "act list" where
  "and_sleeps = replicate 6 (ThreadStep 0)"

text \<open>The thread times out while a driver, which took it from the queue, has not yet given it the connection.\<close>

definition thread_leaves :: "act list" where
  "thread_leaves = replicate 3 (DriverStep 0) @ [Timeout 0] @ replicate 7 (ThreadStep 0) @ replicate 3 (DriverStep 0)"


text \<open>
  A connection can wait beside an idle thread: the thread found the queue of connections empty and
  the driver found the queue of threads empty.  Timeouts and the check for missing threads change
  nothing, so that it waits for the next connection.
\<close>

theorem waiting_beside_idle:
  "\<exists>p. (pool_step (one_thread 1 100))\<^sup>*\<^sup>* (pool_init (one_thread 1 100) 2 1) p \<and>
     waitq p = [0] \<and> tqueue p = [0] \<and> map t_pc (args p) = [Waiting] \<and> drivers p = [DIdle] \<and>
     run_pool (one_thread 1 100) [Timeout 0, ThreadStep 0, ThreadStep 0] p = Some p \<and> perform (one_thread 1 100) (Ensure 0) p = p"
proof -
  let ?p = "\<lparr>args = [\<lparr>t_conn = None, t_state = connThread_idle, t_pc = Waiting, t_ncons = 99\<rparr>], tqueue = [0], waitq = [0], wait_num = 1,
      freeq = [1], creating = 0, current = 1, idle = 1, shutdown = False, drivers = [DIdle]\<rparr>"
  have "run_pool (one_thread 1 100) (first_served @ [DriverStep 0, DriverStep 0, ThreadStep 0, ThreadStep 0, DriverStep 0, DriverStep 0] @ replicate 4 (ThreadStep 0))
      (pool_init (one_thread 1 100) 2 1) = Some ?p"
    by code_simp
  moreover have "run_pool (one_thread 1 100) [Timeout 0, ThreadStep 0, ThreadStep 0] ?p = Some ?p" by code_simp
  moreover have "perform (one_thread 1 100) (Ensure 0) ?p = ?p" by code_simp
  ultimately show ?thesis using run_pool_reachable by (intro exI [of _ ?p]) auto
qed

text \<open>
  A connection can be stuck with its thread: if the thread times out between the assignment and
  the signal, the signal is lost; the warning in the code then resumes the thread only if there are more
  than the minimum of threads.  Every further timeout leads to the same state.
\<close>

theorem signal_lost:
  "\<exists>p. (pool_step (one_thread 1 100))\<^sup>*\<^sup>* (pool_init (one_thread 1 100) 1 1) p \<and>
     map t_pc (args p) = [Waiting] \<and> map t_conn (args p) = [Some 0] \<and> drivers p = [DIdle] \<and>
     run_pool (one_thread 1 100) [Timeout 0, ThreadStep 0, ThreadStep 0] p = Some p"
proof -
  let ?p = "\<lparr>args = [\<lparr>t_conn = Some 0, t_state = connThread_idle, t_pc = Waiting, t_ncons = 99\<rparr>], tqueue = [], waitq = [], wait_num = 0,
      freeq = [], creating = 0, current = 1, idle = 1, shutdown = False, drivers = [DIdle]\<rparr>"
  have "run_pool (one_thread 1 100) (first_served @ and_sleeps @ replicate 4 (DriverStep 0) @ [Timeout 0] @ replicate 2 (DriverStep 0) @ replicate 2 (ThreadStep 0))
      (pool_init (one_thread 1 100) 1 1) = Some ?p"
    by code_simp
  moreover have "run_pool (one_thread 1 100) [Timeout 0, ThreadStep 0, ThreadStep 0] ?p = Some ?p" by code_simp
  ultimately show ?thesis using run_pool_reachable by (intro exI [of _ ?p]) auto
qed

text \<open>
  A driver can find no free slot: a thread that ends counts itself out before its slot is free.  The
  assertion of \<open>CreateConnThread\<close> then fails.
\<close>

theorem no_free_slot:
  "\<exists>p. (pool_step (one_thread 0 1))\<^sup>*\<^sup>* (pool_init (one_thread 0 1) 1 1) p \<and> drivers p = [NoSlot] \<and> map t_state (args p) = [connThread_dead]"
proof -
  let ?p = "\<lparr>args = [\<lparr>t_conn = None, t_state = connThread_dead, t_pc = Leaving, t_ncons = 0\<rparr>], tqueue = [], waitq = [0], wait_num = 1,
      freeq = [], creating = 1, current = 1, idle = 0, shutdown = False, drivers = [NoSlot]\<rparr>"
  have "run_pool (one_thread 0 1) (first_served @ replicate 2 (ThreadStep 0) @ replicate 6 (DriverStep 0)) (pool_init (one_thread 0 1) 1 1) = Some ?p"
    by code_simp
  from run_pool_reachable [OF this] show ?thesis by (intro exI [of _ ?p]) simp
qed

text \<open>
  With \<open>connsperthread\<close> 0 a thread ends after its first connection, although only a positive number is to
  limit its connections.
\<close>

theorem unlimited_is_one:
  assumes "cpt cf = 0" "i < length (args p)" "t_pc (args p ! i) = Decide" "t_ncons (args p ! i) = cpt cf"
  shows "t_pc (args (NsConnThread cf i p) ! i) = Dying"
  using assms by (simp add: NsConnThread_def thread_serve_def keep_serving_def upd_def)

theorem pool_exclusive_witness:
  "\<exists>p. run_pool (one_thread 0 100) (replicate 6 (DriverStep 0) @ replicate 7 (ThreadStep 0)) (pool_init (one_thread 0 100) 2 1) = Some p \<and>
    map t_pc (args p) = [Running 0] \<and> distinct (freeq p @ waitq p) \<and> 0 \<notin> set (freeq p @ waitq p) \<and> current p = 1"
proof -
  let ?p = "\<lparr>args = [\<lparr>t_conn = Some 0, t_state = connThread_ready, t_pc = Running 0, t_ncons = 100\<rparr>], tqueue = [], waitq = [], wait_num = 0,
      freeq = [1], creating = 0, current = 1, idle = 0, shutdown = False, drivers = [DIdle]\<rparr>"
  have r: "run_pool (one_thread 0 100) (replicate 6 (DriverStep 0) @ replicate 7 (ThreadStep 0)) (pool_init (one_thread 0 100) 2 1) = Some ?p"
    by code_simp
  have "distinct (freeq ?p @ waitq ?p) \<and> 0 \<notin> set (freeq ?p @ waitq ?p) \<and> current ?p = 1"
    using pool_exclusive [OF run_pool_reachable [OF r]] by (auto simp: live_n_def spawn_n_def)
  then show ?thesis using r by (intro exI [of _ ?p]) simp
qed

theorem two_drivers_exceed:
  "\<exists>p. (pool_step (one_thread 0 100))\<^sup>*\<^sup>* (pool_init (one_thread 0 100) 2 2) p \<and> current p = 2 \<and> drivers p = [DIdle, NoSlot]"
proof -
  let ?as = "replicate 4 (DriverStep 0) @ replicate 4 (DriverStep 1) @ [DriverStep 0, DriverStep 1, DriverStep 0, DriverStep 1]"
  let ?p = "\<lparr>args = [\<lparr>t_conn = None, t_state = connThread_initial, t_pc = Start, t_ncons = 100\<rparr>], tqueue = [], waitq = [0, 1], wait_num = 2,
      freeq = [], creating = 2, current = 2, idle = 0, shutdown = False, drivers = [DIdle, NoSlot]\<rparr>"
  have "run_pool (one_thread 0 100) ?as (pool_init (one_thread 0 100) 2 2) = Some ?p" by code_simp
  from run_pool_reachable [OF this] show ?thesis by (intro exI [of _ ?p]) simp
qed


end
