(* ===== verification/SockVec.thy ===== *)
theory SockVec
  imports Prelude
begin

text \<open>
  Vectors of buffers and the loops that send them: \<open>Ns_SetVec\<close>, \<open>Ns_ResetVec\<close>, \<open>Ns_SumVec\<close> and
  \<open>Ns_SockSendBufs\<close> of \<open>nsd/sock.c\<close>.  A pointer into memory is the bytes from there on; NULL is
  \<open>None\<close>.  The communication driver, a loadable module, is a parameter that answers every call of
  its send procedure; what it takes goes to the \<open>wire\<close> of the socket.  The array on the stack of
  \<open>Ns_SockSendBufs\<close> is modelled with its bounds: an access outside of it, or of a slot that was
  never written, is \<open>BadMemory\<close>.  The loop runs with fuel, one unit for each turn.
\<close>

section \<open>Vectors of memory buffers\<close>

record iovec =
  iov_base :: "string option"
  iov_len :: nat

definition iov_bytes :: "iovec \<Rightarrow> string" where
  "iov_bytes b = (case iov_base b of None \<Rightarrow> [] | Some s \<Rightarrow> take (iov_len b) s)"

definition iov_ok :: "iovec \<Rightarrow> bool" where
  "iov_ok b \<longleftrightarrow> iov_len b \<le> (case iov_base b of None \<Rightarrow> 0 | Some s \<Rightarrow> length s)"

abbreviation vec_bytes :: "iovec list \<Rightarrow> string" where
  "vec_bytes bs \<equiv> concat (map iov_bytes bs)"

definition Ns_SetVec :: "iovec option list \<Rightarrow> nat \<Rightarrow> string option \<Rightarrow> nat \<Rightarrow> (nat \<times> iovec option list) option" where
  "Ns_SetVec bufs i data len = map_option (\<lambda>a. (len, a)) (arr_write bufs i (Some \<lparr>iov_base = data, iov_len = len\<rparr>))"

fun reset_vec_loop :: "iovec list \<Rightarrow> nat \<Rightarrow> nat \<Rightarrow> nat \<times> iovec list" where
  "reset_vec_loop [] sent i = (i, [])"
| "reset_vec_loop (b # bs) sent i =
     (if sent = 0 then (i, b # bs)
      else if iov_len b > 0 then
        if iov_len b \<le> sent
        then (case reset_vec_loop bs (sent - iov_len b) (i + 1) of (j, r) \<Rightarrow> (j, \<lparr>iov_base = None, iov_len = 0\<rparr> # r))
        else (i, \<lparr>iov_base = map_option (drop sent) (iov_base b), iov_len = iov_len b - sent\<rparr> # bs)
      else (case reset_vec_loop bs sent (i + 1) of (j, r) \<Rightarrow> (j, b # r)))"

definition Ns_ResetVec :: "iovec list \<Rightarrow> nat \<Rightarrow> nat \<times> iovec list" where
  "Ns_ResetVec bufs sent = reset_vec_loop bufs sent 0"

definition Ns_SumVec :: "iovec list \<Rightarrow> nat" where
  "Ns_SumVec bufs = foldl (\<lambda>sum b. if iov_len b > 0 then sum + iov_len b else sum) 0 bufs"

section \<open>The driver\<close>

datatype drv_answer = Took nat | WouldBlock | Failed

record Sock =
  wire :: string
  calls :: nat

type_synonym send_proc = "nat \<Rightarrow> string \<Rightarrow> drv_answer"

text \<open>The \<open>k\<close>-th call of the driver is offered the bytes \<open>d\<close> and answers \<open>p k d\<close>.\<close>

definition NsDriverSend :: "send_proc \<Rightarrow> iovec list \<Rightarrow> Sock \<Rightarrow> drv_answer \<times> Sock" where
  "NsDriverSend p bufs s =
     (let d = vec_bytes bufs; s1 = s\<lparr>calls := Suc (calls s)\<rparr>
      in case p (calls s) d of
           Took n \<Rightarrow> (Took n, s1\<lparr>wire := wire s @ take n d\<rparr>)
         | a \<Rightarrow> (a, s1))"

text \<open>What the manual page of \<open>send\<close> promises: at least one of the bytes offered, and no more than them.\<close>

definition drv_ok :: "send_proc \<Rightarrow> bool" where
  "drv_ok p \<longleftrightarrow> (\<forall>k d n. p k d = Took n \<longrightarrow> n \<le> length d \<and> (d \<noteq> [] \<longrightarrow> 0 < n))"

section \<open>Sending a vector\<close>

datatype send_end = SendDone int | BadMemory | NoFuel

fun fill_sbufs :: "iovec option list \<Rightarrow> nat \<Rightarrow> int \<Rightarrow> nat \<Rightarrow> nat \<Rightarrow> nat \<Rightarrow> iovec list \<Rightarrow>
    (iovec option list \<times> nat \<times> nat \<times> iovec list) option" where
  "fill_sbufs arr base len idx ns tw [] = Some (arr, ns, tw, [])"
| "fill_sbufs arr base len idx ns tw (b # bs) =
     (if int idx < len then
        if iov_len b > 0 \<and> iov_base b \<noteq> None
        then (case Ns_SetVec arr (base + idx) (iov_base b) (iov_len b) of
                None \<Rightarrow> None
              | Some (n, arr1) \<Rightarrow> fill_sbufs arr1 base len (idx + 1) (ns + 1) (tw + n) bs)
        else fill_sbufs arr base len idx ns tw bs
      else Some (arr, ns, tw, b # bs))"

definition window :: "iovec option list \<Rightarrow> nat \<Rightarrow> nat \<Rightarrow> iovec list option" where
  "window arr base ns = (if base + ns \<le> length arr then those (take ns (drop base arr)) else None)"

definition put_window :: "iovec option list \<Rightarrow> nat \<Rightarrow> iovec list \<Rightarrow> iovec option list" where
  "put_window arr base vs = take base arr @ map Some vs @ drop (base + length vs) arr"

text \<open>\<open>memmove(sbufPtr, sbufPtr + idx, ns)\<close>\<close>

definition move_down :: "iovec option list \<Rightarrow> nat \<Rightarrow> nat \<Rightarrow> nat \<Rightarrow> iovec option list option" where
  "move_down arr base idx ns =
     (if base + idx + ns \<le> length arr
      then Some (take base arr @ take ns (drop (base + idx) arr) @ drop (base + ns) arr) else None)"

text \<open>The driver is called a second time if the first call would block and the socket becomes writable in time.\<close>

definition send_retry :: "send_proc \<Rightarrow> (nat \<Rightarrow> bool) \<Rightarrow> iovec list \<Rightarrow> Sock \<Rightarrow> drv_answer \<times> Sock" where
  "send_retry p w vs s =
     (case NsDriverSend p vs s of
        (WouldBlock, s1) \<Rightarrow> if w (calls s1) then NsDriverSend p vs s1 else (WouldBlock, s1)
      | r \<Rightarrow> r)"

fun send_loop :: "nat \<Rightarrow> send_proc \<Rightarrow> (nat \<Rightarrow> bool) \<Rightarrow> iovec option list \<Rightarrow> nat \<Rightarrow> int \<Rightarrow> nat \<Rightarrow> iovec list \<Rightarrow>
    nat \<Rightarrow> nat \<Rightarrow> int \<Rightarrow> Sock \<Rightarrow> send_end \<times> Sock" where
  "send_loop 0 p w arr base len ns rest tw nw sent s = (NoFuel, s)"
| "send_loop (Suc fuel) p w arr base len ns rest tw nw sent s =
     (if rest \<noteq> [] \<or> tw > 0 then
        case fill_sbufs arr base len 0 ns tw rest of
          None \<Rightarrow> (BadMemory, s)
        | Some (arr1, ns1, tw1, rest1) \<Rightarrow>
           (case window arr1 base ns1 of
              None \<Rightarrow> (BadMemory, s)
            | Some vs \<Rightarrow>
               (case send_retry p w vs s of
                  (Took n, s2) \<Rightarrow>
                    if tw1 - n > 0 then
                      (case Ns_ResetVec vs n of
                         (idx, vs1) \<Rightarrow>
                           let arr2 = put_window arr1 base vs1; ns2 = ns1 - idx in
                           if length rest1 > 1 then
                             (case move_down arr2 base idx ns2 of
                                None \<Rightarrow> (BadMemory, s2)
                              | Some arr3 \<Rightarrow> send_loop fuel p w arr3 base len ns2 rest1 (tw1 - n) (nw + n) (int n) s2)
                           else send_loop fuel p w arr2 (base + idx) (int ns2 - int idx) ns2 rest1 (tw1 - n) (nw + n) (int n) s2)
                    else send_loop fuel p w arr1 base len 0 rest1 (tw1 - n) (nw + n) (int n) s2
                | (_, s2) \<Rightarrow> (SendDone (if nw \<noteq> 0 then int nw else -1), s2)))
      else (SendDone (if nw \<noteq> 0 then int nw else sent), s))"

text \<open>The array has \<open>UIO_MAXIOV\<close> slots, a limit of the operating system.\<close>

definition Ns_SockSendBufs :: "nat \<Rightarrow> nat \<Rightarrow> send_proc \<Rightarrow> (nat \<Rightarrow> bool) \<Rightarrow> Sock \<Rightarrow> iovec list \<Rightarrow> send_end \<times> Sock" where
  "Ns_SockSendBufs maxiov fuel p w s bufs = send_loop fuel p w (replicate maxiov None) 0 (int maxiov) 0 bufs 0 0 (-1) s"

section \<open>What the operations on vectors do to the bytes\<close>

text \<open>
  The two vectors of the server, of memory buffers and of file ranges, are cut off after a partial
  send by loops of the same shape.  The interface below is what such a loop relies on: a buffer
  has a length and bytes, can be emptied and can be advanced.
\<close>

locale buffer_vector =
  fixes len :: "'b \<Rightarrow> nat" and bytes :: "'b \<Rightarrow> string" and ok :: "'b \<Rightarrow> bool"
    and zero :: "'b \<Rightarrow> 'b" and advance :: "nat \<Rightarrow> 'b \<Rightarrow> 'b"
    and loop :: "'b list \<Rightarrow> nat \<Rightarrow> nat \<Rightarrow> nat \<times> 'b list"
  assumes length_bytes: "ok b \<Longrightarrow> length (bytes b) = len b"
    and zero_ok: "ok (zero b)" "bytes (zero b) = []"
    and advance_ok: "ok b \<Longrightarrow> k < len b \<Longrightarrow> ok (advance k b)"
      "ok b \<Longrightarrow> k < len b \<Longrightarrow> bytes (advance k b) = drop k (bytes b)"
    and loop_Nil: "loop [] sent i = (i, [])"
    and loop_Cons: "loop (b # bs) sent i =
      (if sent = 0 then (i, b # bs)
       else if len b > 0 then
         if len b \<le> sent then (case loop bs (sent - len b) (i + 1) of (j, r) \<Rightarrow> (j, zero b # r))
         else (i, advance sent b # bs)
       else (case loop bs sent (i + 1) of (j, r) \<Rightarrow> (j, b # r)))"
begin

lemma length_concat_bytes: "\<forall>b \<in> set bs. ok b \<Longrightarrow> length (concat (map bytes bs)) = sum_list (map len bs)"
  by (induction bs) (auto simp: length_bytes)

definition reset_post :: "'b list \<Rightarrow> nat \<Rightarrow> nat \<Rightarrow> nat \<Rightarrow> 'b list \<Rightarrow> bool" where
  "reset_post bs sent i j r \<longleftrightarrow> i \<le> j \<and> j \<le> i + length bs \<and> length r = length bs \<and> (\<forall>b \<in> set r. ok b) \<and>
     concat (map bytes r) = drop sent (concat (map bytes bs)) \<and> concat (map bytes (take (j - i) r)) = []"

lemma reset_post_Cons:
  assumes "reset_post bs (sent - len b) (Suc i) j r" "ok b" "len b \<le> sent" "ok c" "bytes c = []"
  shows "reset_post (b # bs) sent i j (c # r)"
proof -
  have "j - i = Suc (j - Suc i)" using assms(1) by (auto simp: reset_post_def)
  then show ?thesis using assms by (auto simp: reset_post_def length_bytes)
qed

lemma reset_loop_post:
  "loop bs sent i = (j, r) \<Longrightarrow> \<forall>b \<in> set bs. ok b \<Longrightarrow> reset_post bs sent i j r"
proof (induction bs arbitrary: sent i j r)
  case Nil
  then show ?case by (simp add: reset_post_def loop_Nil)
next
  case (Cons b bs)
  have b: "ok b" "length (bytes b) = len b" using Cons.prems(2) by (simp_all add: length_bytes)
  consider "sent = 0" | "0 < sent" "sent < len b" | "0 < sent" "len b \<le> sent" by linarith
  then show ?case
  proof cases
    case 1
    then show ?thesis using Cons.prems by (auto simp: reset_post_def loop_Cons)
  next
    case 2
    then have "j = i" "r = advance sent b # bs" using Cons.prems(1) by (auto simp: loop_Cons)
    then show ?thesis using 2 b Cons.prems(2) by (simp add: reset_post_def advance_ok)
  next
    case 3
    obtain j1 r1 where l: "loop bs (sent - len b) (Suc i) = (j1, r1)" by fastforce
    have IH: "reset_post bs (sent - len b) (Suc i) j1 r1" using Cons.IH [OF l] Cons.prems(2) by simp
    show ?thesis
    proof (cases "len b = 0")
      case True
      then have "j = j1" "r = b # r1" using Cons.prems(1) l 3 by (simp_all add: loop_Cons)
      then show ?thesis using reset_post_Cons [OF IH b(1) 3(2) b(1)] b(2) True by simp
    next
      case False
      then have "j = j1" "r = zero b # r1" using Cons.prems(1) l 3 by (simp_all add: loop_Cons)
      then show ?thesis using reset_post_Cons [OF IH b(1) 3(2) zero_ok] by simp
    qed
  qed
qed

text \<open>The buffers from the returned index on hold what is left to send.\<close>

lemma reset_rest:
  assumes "loop bs sent 0 = (j, r)" "\<forall>b \<in> set bs. ok b"
  shows "j \<le> length bs" "length r = length bs" "\<forall>b \<in> set r. ok b"
    "concat (map bytes r) = drop sent (concat (map bytes bs))"
    "concat (map bytes (drop j r)) = drop sent (concat (map bytes bs))"
proof -
  have P: "reset_post bs sent 0 j r" using reset_loop_post assms by blast
  then show "j \<le> length bs" "length r = length bs" "\<forall>b \<in> set r. ok b"
    "concat (map bytes r) = drop sent (concat (map bytes bs))" by (simp_all add: reset_post_def)
  have "concat (map bytes r) = concat (map bytes (take j r)) @ concat (map bytes (drop j r))"
    by (metis append_take_drop_id concat_append map_append)
  then show "concat (map bytes (drop j r)) = drop sent (concat (map bytes bs))"
    using P unfolding reset_post_def by (metis append_Nil diff_zero)
qed

end

interpretation iov: buffer_vector iov_len iov_bytes iov_ok "\<lambda>b. \<lparr>iov_base = None, iov_len = 0\<rparr>"
  "\<lambda>k b. \<lparr>iov_base = map_option (drop k) (iov_base b), iov_len = iov_len b - k\<rparr>" reset_vec_loop
  by unfold_locales (auto simp: iov_ok_def iov_bytes_def drop_take split: option.splits)

lemmas length_vec_bytes = iov.length_concat_bytes

lemma sum_vec_len: "Ns_SumVec bs = sum_list (map iov_len bs)"
proof -
  have "foldl (\<lambda>sum b. if iov_len b > 0 then sum + iov_len b else sum) a bs = a + sum_list (map iov_len bs)" for a
    by (induction bs arbitrary: a) auto
  then show ?thesis by (simp add: Ns_SumVec_def)
qed

lemma sum_vec_bytes: "\<forall>b \<in> set bs. iov_ok b \<Longrightarrow> Ns_SumVec bs = length (vec_bytes bs)"
  by (simp add: sum_vec_len length_vec_bytes)

section \<open>Sending all of a vector\<close>

lemma those_Some: "those xs = Some ys \<longleftrightarrow> xs = map Some ys"
proof (induction xs arbitrary: ys)
  case (Cons x xs)
  then show ?case by (cases x; cases ys) auto
qed auto

lemma window_Some: "window arr base ns = Some vs \<longleftrightarrow> base + ns \<le> length arr \<and> take ns (drop base arr) = map Some vs"
  by (simp add: window_def those_Some)

lemma window_length: "window arr base ns = Some vs \<Longrightarrow> length vs = ns"
proof -
  assume "window arr base ns = Some vs"
  then have "base + ns \<le> length arr" "length (take ns (drop base arr)) = length vs" by (simp_all add: window_Some)
  then show ?thesis by simp
qed

lemma window_advance:
  assumes "window arr base ns = Some vs" "length vs1 = length vs" "idx \<le> ns"
  shows "window (put_window arr base vs1) (base + idx) (ns - idx) = Some (drop idx vs1)"
proof -
  have l: "base + ns \<le> length arr" "length vs1 = ns"
    using assms window_length [OF assms(1)] by (simp_all add: window_Some)
  have "drop (base + idx) (put_window arr base vs1) = map Some (drop idx vs1) @ drop (base + ns) arr"
    using l assms(3) by (simp add: put_window_def drop_map)
  then show ?thesis using l assms(3) by (simp add: window_Some put_window_def)
qed

definition never_fails :: "send_proc \<Rightarrow> bool" where
  "never_fails p \<longleftrightarrow> (\<forall>k d. \<exists>n. p k d = Took n)"

lemma driver_send_cases:
  assumes "NsDriverSend p vs s = (a, s1)"
  shows "(\<exists>n. a = Took n \<and> p (calls s) (vec_bytes vs) = Took n \<and> wire s1 = wire s @ take n (vec_bytes vs)) \<or>
     ((\<forall>n. a \<noteq> Took n) \<and> wire s1 = wire s \<and> \<not> never_fails p)"
  using assms by (cases "p (calls s) (vec_bytes vs)") (auto simp: NsDriverSend_def Let_def never_fails_def, (metis drv_answer.distinct)+)

lemma send_retry_cases:
  assumes "send_retry p w vs s = (a, s1)" "drv_ok p"
  shows "(\<exists>n. a = Took n \<and> n \<le> length (vec_bytes vs) \<and> (vec_bytes vs \<noteq> [] \<longrightarrow> 0 < n) \<and> wire s1 = wire s @ take n (vec_bytes vs)) \<or>
     ((\<forall>n. a \<noteq> Took n) \<and> wire s1 = wire s \<and> \<not> never_fails p)"
proof -
  obtain b s2 where b: "NsDriverSend p vs s = (b, s2)" by fastforce
  note D = driver_send_cases [OF b]
  show ?thesis
  proof (cases "b = WouldBlock \<and> w (calls s2)")
    case True
    then have "NsDriverSend p vs s2 = (a, s1)" using assms(1) b by (simp add: send_retry_def)
    from driver_send_cases [OF this] D True show ?thesis using assms(2) by (auto simp: drv_ok_def)
  next
    case False
    then have "a = b" "s1 = s2" using assms(1) b by (auto simp: send_retry_def split: drv_answer.splits if_splits)
    then show ?thesis using D assms(2) by (auto simp: drv_ok_def)
  qed
qed

text \<open>
  The result of a run that offers the bytes \<open>d\<close> after \<open>nw\<close> bytes went out: \<open>n\<close> of them are on the
  wire, in order, and all of them if the driver never fails.
\<close>

definition sent_post :: "send_proc \<Rightarrow> nat \<Rightarrow> int \<Rightarrow> string \<Rightarrow> Sock \<Rightarrow> send_end \<times> Sock \<Rightarrow> bool" where
  "sent_post p nw sent d s r \<longleftrightarrow>
     (\<exists>n s'. n \<le> length d \<and> wire s' = wire s @ take n d \<and> (never_fails p \<longrightarrow> n = length d) \<and>
        r = (SendDone (if nw + n \<noteq> 0 then int (nw + n) else if d = [] then sent else -1), s'))"

lemma sent_post_step:
  assumes "sent_post p (nw + n) (int n) (drop n d) s1 r" "wire s1 = wire s @ take n d" "n \<le> length d" "0 < n"
  shows "sent_post p nw sent d s r"
proof -
  from assms(1) obtain m s' where m: "m \<le> length d - n" "wire s' = wire s1 @ take m (drop n d)" "never_fails p \<longrightarrow> m = length d - n"
    "r = (SendDone (int (nw + n + m)), s')"
    using assms(4) by (auto simp: sent_post_def)
  have "take n d @ take m (drop n d) = take (n + m) d" by (simp add: take_add)
  with m assms(2-4) show ?thesis
    unfolding sent_post_def by (intro exI [of _ "n + m"] exI [of _ s']) (auto simp: add.assoc)
qed

lemma send_rest:
  assumes "drv_ok p"
  shows "\<lbrakk>window arr base ns = Some vs; \<forall>b \<in> set vs. iov_ok b; tw = length (vec_bytes vs); tw < fuel\<rbrakk> \<Longrightarrow>
     sent_post p nw sent (vec_bytes vs) s (send_loop fuel p w arr base len ns [] tw nw sent s)"
proof (induction fuel arbitrary: arr base len ns vs tw nw sent s)
  case (Suc fuel)
  show ?case
  proof (cases "tw = 0")
    case True
    then show ?thesis using Suc.prems(3) by (auto simp: sent_post_def)
  next
    case False
    then have ne: "vec_bytes vs \<noteq> []" using Suc.prems(3) by auto
    obtain a s1 where a: "send_retry p w vs s = (a, s1)" by fastforce
    from send_retry_cases [OF a assms] show ?thesis
    proof
      assume "\<exists>n. a = Took n \<and> n \<le> length (vec_bytes vs) \<and> (vec_bytes vs \<noteq> [] \<longrightarrow> 0 < n) \<and> wire s1 = wire s @ take n (vec_bytes vs)"
      then obtain n where n: "a = Took n" "n \<le> length (vec_bytes vs)" "0 < n" "wire s1 = wire s @ take n (vec_bytes vs)"
        using ne by blast
      obtain idx vs1 where v: "Ns_ResetVec vs n = (idx, vs1)" by fastforce
      note P = iov.reset_rest [OF v [unfolded Ns_ResetVec_def] Suc.prems(2)]
      have l: "length vs = ns" using window_length [OF Suc.prems(1)] .
      note d = P(5)
      have "sent_post p (nw + n) (int n) (drop n (vec_bytes vs)) s1 (send_loop (Suc fuel) p w arr base len ns [] tw nw sent s)"
      proof (cases "tw - n > 0")
        case True
        have "sent_post p (nw + n) (int n) (vec_bytes (drop idx vs1)) s1
            (send_loop fuel p w (put_window arr base vs1) (base + idx) (int (ns - idx) - int idx) (ns - idx) [] (tw - n) (nw + n) (int n) s1)"
        proof (rule Suc.IH)
          show "window (put_window arr base vs1) (base + idx) (ns - idx) = Some (drop idx vs1)"
            using P(1,2) l by (intro window_advance [OF Suc.prems(1)]) simp_all
          show "\<forall>b \<in> set (drop idx vs1). iov_ok b" using P(3) by (auto dest: in_set_dropD)
          show "tw - n = length (vec_bytes (drop idx vs1))" using d Suc.prems(3) by simp
          show "tw - n < fuel" using Suc.prems(4) n(3) False by linarith
        qed
        then show ?thesis using True False n(1) a v Suc.prems(1) by (simp add: d Let_def)
      next
        case False
        then have "drop n (vec_bytes vs) = []" using Suc.prems(3) by simp
        moreover have "0 < fuel" using Suc.prems(3,4) n(2,3) by linarith
        then have "send_loop fuel p w arr base len 0 [] (tw - n) (nw + n) (int n) s1 = (SendDone (int (nw + n)), s1)"
          using False n(3) by (cases fuel) auto
        moreover have "send_loop (Suc fuel) p w arr base len ns [] tw nw sent s =
            send_loop fuel p w arr base len 0 [] (tw - n) (nw + n) (int n) s1"
          using False \<open>tw \<noteq> 0\<close> n(1) a Suc.prems(1) by simp
        ultimately show ?thesis using n(3) by (simp add: sent_post_def)
      qed
      then show ?thesis by (rule sent_post_step [OF _ n(4,2,3)])
    next
      assume f: "(\<forall>n. a \<noteq> Took n) \<and> wire s1 = wire s \<and> \<not> never_fails p"
      then have "send_loop (Suc fuel) p w arr base len ns [] tw nw sent s = (SendDone (if nw \<noteq> 0 then int nw else -1), s1)"
        using False a Suc.prems(1) by (cases a) auto
      moreover have "\<exists>n s'. n \<le> length (vec_bytes vs) \<and> wire s' = wire s @ take n (vec_bytes vs) \<and>
          (never_fails p \<longrightarrow> n = length (vec_bytes vs)) \<and>
          (SendDone (if nw \<noteq> 0 then int nw else -1), s1) = (SendDone (if nw + n \<noteq> 0 then int (nw + n) else if vec_bytes vs = [] then sent else -1), s')"
        using f ne by (intro exI [of _ 0] exI [of _ s1]) (simp del: concat_eq_Nil_conv)
      ultimately show ?thesis unfolding sent_post_def by simp
    qed
  qed
qed simp

definition full_buf :: "iovec \<Rightarrow> bool" where
  "full_buf b \<longleftrightarrow> iov_len b > 0 \<and> iov_base b \<noteq> None"

lemma full_bufs_bytes: "vec_bytes (filter full_buf bs) = vec_bytes bs"
  by (induction bs) (auto simp: full_buf_def iov_bytes_def split: option.splits)

lemma window_snoc:
  assumes "window arr 0 i = Some vs" "i < length arr"
  shows "window (arr[i := Some b]) 0 (Suc i) = Some (vs @ [b])"
  using assms by (simp add: window_Some take_Suc_conv_app_nth)

lemma fill_all:
  "\<lbrakk>window arr 0 i = Some vs; i + length bs \<le> length arr\<rbrakk> \<Longrightarrow>
   \<exists>arr1. fill_sbufs arr 0 (int (length arr)) i i tw bs =
       Some (arr1, i + length (filter full_buf bs), tw + sum_list (map iov_len (filter full_buf bs)), []) \<and>
     window arr1 0 (i + length (filter full_buf bs)) = Some (vs @ filter full_buf bs)"
proof (induction bs arbitrary: arr i vs tw)
  case (Cons b bs)
  show ?case
  proof (cases "full_buf b")
    case True
    have b: "\<lparr>iov_base = iov_base b, iov_len = iov_len b\<rparr> = b" by (cases b) simp
    have i: "i < length arr" using Cons.prems(2) by simp
    with Cons.prems True Cons.IH [of "arr[i := Some b]" "Suc i" "vs @ [b]" "tw + iov_len b"] window_snoc [OF Cons.prems(1) i]
    show ?thesis by (simp add: Ns_SetVec_def arr_write_def b full_buf_def add.assoc)
  next
    case False
    with Cons.prems Cons.IH [of arr i vs tw] show ?thesis by (auto simp: full_buf_def)
  qed
qed simp

lemma send_bufs_all:
  assumes "drv_ok p" "\<forall>b \<in> set bufs. iov_ok b" "length bufs \<le> maxiov" "length (vec_bytes bufs) + 1 < fuel"
  shows "\<exists>n r s'. Ns_SockSendBufs maxiov fuel p w s bufs = (SendDone r, s') \<and> n \<le> length (vec_bytes bufs) \<and>
    wire s' = wire s @ take n (vec_bytes bufs) \<and> (never_fails p \<longrightarrow> n = length (vec_bytes bufs)) \<and>
    (if 0 < n then r = int n else r \<in> {-1, 0})"
proof -
  let ?f = "filter full_buf bufs" and ?d = "vec_bytes bufs"
  let ?R = "Ns_SockSendBufs maxiov fuel p w s bufs"
  have post: "\<exists>n r s'. ?R = (SendDone r, s') \<and> n \<le> length ?d \<and> wire s' = wire s @ take n ?d \<and>
      (never_fails p \<longrightarrow> n = length ?d) \<and> (if 0 < n then r = int n else r \<in> {-1, 0})"
    if "sent_post p 0 c ?d s ?R" "c \<in> {-1, 0}" for c
  proof -
    from that(1) obtain n s' where "n \<le> length ?d" "wire s' = wire s @ take n ?d" "never_fails p \<longrightarrow> n = length ?d"
      "?R = (SendDone (if 0 + n \<noteq> 0 then int (0 + n) else if ?d = [] then c else -1), s')"
      unfolding sent_post_def by blast
    with that(2) show ?thesis by (intro exI [of _ n] exI conjI) (auto simp del: concat_eq_Nil_conv)
  qed
  obtain arr where arr: "fill_sbufs (replicate maxiov None) 0 (int maxiov) 0 0 0 bufs =
      Some (arr, length ?f, length ?d, [])" "window arr 0 (length ?f) = Some ?f"
    using fill_all [of "replicate maxiov None" 0 "[]" bufs 0] assms(2,3) length_vec_bytes [of ?f]
    by (auto simp: window_Some full_bufs_bytes)
  obtain fuel1 where fuel: "fuel = Suc fuel1" "length ?d < fuel1" using assms(4) by (cases fuel) auto
  have ok: "\<forall>b \<in> set ?f. iov_ok b" using assms(2) by simp
  show ?thesis
  proof (cases "?d = []")
    case False
    have "send_loop fuel p w (replicate maxiov None) 0 (int maxiov) 0 bufs 0 0 (-1) s =
        send_loop fuel p w arr 0 (int maxiov) (length ?f) [] (length ?d) 0 (-1) s"
      using arr False unfolding fuel(1) by (auto simp: window_Some)
    then have "sent_post p 0 (-1) ?d s ?R"
      using send_rest [OF assms(1) arr(2) ok, of "length ?d" fuel] assms(4)
      by (simp add: Ns_SockSendBufs_def full_bufs_bytes)
    then show ?thesis using post by blast
  next
    case True
    obtain a s1 where a: "send_retry p w ?f s = (a, s1)" by fastforce
    show ?thesis
    proof (cases "bufs = []")
      case True
      then show ?thesis using fuel(1) by (auto simp: Ns_SockSendBufs_def)
    next
      case ne: False
      have "(\<exists>n. a = Took n \<and> n = 0) \<or> (\<forall>n. a \<noteq> Took n)" "wire s1 = wire s" "never_fails p \<Longrightarrow> \<exists>n. a = Took n"
        using send_retry_cases [OF a assms(1)] True by (auto simp: full_bufs_bytes)
      moreover have "\<exists>r \<in> {-1, 0}. ?R = (SendDone r, s1)" using calculation(1)
      proof
        assume "\<exists>n. a = Took n \<and> n = 0"
        then show ?thesis using arr ne a True fuel(2) by (cases fuel1) (auto simp: Ns_SockSendBufs_def fuel(1))
      next
        assume "\<forall>n. a \<noteq> Took n"
        then show ?thesis using arr ne a True by (cases a) (auto simp: Ns_SockSendBufs_def fuel(1))
      qed
      ultimately show ?thesis using True by auto
    qed
  qed
qed



text \<open>
  With more buffers than slots the bytes are not all sent: what is left of a partial send is
  overwritten by the buffers that follow, and the count of buffers then exceeds the array.
\<close>

theorem send_bufs_overwrites:
  "Ns_SockSendBufs 2 9 (\<lambda>k d. Took (min 1 (length d))) (\<lambda>k. True) \<lparr>wire = [], calls = 0\<rparr>
     (map (\<lambda>c. \<lparr>iov_base = Some [c], iov_len = 1\<rparr>) ''abcd'') = (BadMemory, \<lparr>wire = ''a'', calls = 1\<rparr>)"
  by (simp add: Ns_SockSendBufs_def eval_nat_numeral Ns_SetVec_def arr_write_def window_def send_retry_def NsDriverSend_def
      iov_bytes_def Ns_ResetVec_def put_window_def move_down_def)

text \<open>With three slots and five buffers, they may go out in another order.\<close>

theorem send_bufs_reorders:
  "snd (Ns_SockSendBufs 3 9 (\<lambda>k d. Took (if k = 0 then min 2 (length d) else length d)) (\<lambda>k. True) \<lparr>wire = [], calls = 0\<rparr>
     (map (\<lambda>c. \<lparr>iov_base = Some [c], iov_len = 1\<rparr>) ''abcde'')) = \<lparr>wire = ''abdec'', calls = 2\<rparr>"
  by (simp add: Ns_SockSendBufs_def eval_nat_numeral Ns_SetVec_def arr_write_def window_def send_retry_def NsDriverSend_def
      iov_bytes_def Ns_ResetVec_def put_window_def move_down_def)

end
