(* ===== verification/FileVec.thy ===== *)
theory FileVec
  imports SockVec
begin

text \<open>
  Vectors of file ranges and memory buffers: \<open>nsd/sockfile.c\<close>, \<open>NsDriverSendFile\<close> of \<open>nsd/driver.c\<close>
  for drivers without a procedure of their own for files, and \<open>Ns_ConnSendFileVec\<close> of
  \<open>nsd/connio.c\<close>.  Memory is a map from addresses to bytes and an open file its content; \<open>pread\<close>
  reads as much of a regular file as is there.  Corking the socket has no effect on the bytes and
  is left out.
\<close>

section \<open>File vectors\<close>

record Ns_FileVec =
  fv_fd :: int
  fv_offset :: int
  fv_length :: nat

record memory =
  mem :: "int \<Rightarrow> char"
  files :: "int \<Rightarrow> string"

definition NS_INVALID_FD :: int where "NS_INVALID_FD = -1"

definition Ns_SetFileVec :: "Ns_FileVec list \<Rightarrow> nat \<Rightarrow> int \<Rightarrow> int \<Rightarrow> int \<Rightarrow> nat \<Rightarrow> (nat \<times> Ns_FileVec list) option" where
  "Ns_SetFileVec bufs i fd data offset len =
     map_option (\<lambda>a. (len, a))
       (arr_write bufs i \<lparr>fv_fd = fd, fv_offset = (if fd \<noteq> NS_INVALID_FD then offset else data + offset), fv_length = len\<rparr>)"

fun reset_file_loop :: "Ns_FileVec list \<Rightarrow> nat \<Rightarrow> nat \<Rightarrow> nat \<times> Ns_FileVec list" where
  "reset_file_loop [] sent i = (i, [])"
| "reset_file_loop (b # bs) sent i =
     (if sent = 0 then (i, b # bs)
      else if fv_length b > 0 then
        if fv_length b \<le> sent
        then (case reset_file_loop bs (sent - fv_length b) (i + 1) of
                (j, r) \<Rightarrow> (j, \<lparr>fv_fd = fv_fd b, fv_offset = 0, fv_length = 0\<rparr> # r))
        else (i, \<lparr>fv_fd = fv_fd b, fv_offset = fv_offset b + int sent, fv_length = fv_length b - sent\<rparr> # bs)
      else (case reset_file_loop bs sent (i + 1) of (j, r) \<Rightarrow> (j, b # r)))"

definition Ns_ResetFileVec :: "Ns_FileVec list \<Rightarrow> nat \<Rightarrow> nat \<times> Ns_FileVec list" where
  "Ns_ResetFileVec bufs sent = reset_file_loop bufs sent 0"

section \<open>Sending through the driver\<close>

text \<open>A send procedure called with one buffer: the number of bytes it took, or -1.\<close>

definition send_one :: "send_proc \<Rightarrow> string \<Rightarrow> Sock \<Rightarrow> int \<times> Sock" where
  "send_one p d s =
     (case NsDriverSend p [\<lparr>iov_base = Some d, iov_len = length d\<rparr>] s of
        (Took n, s1) \<Rightarrow> (int n, s1)
      | (_, s1) \<Rightarrow> (-1, s1))"

definition pread :: "string \<Rightarrow> nat \<Rightarrow> int \<Rightarrow> string" where
  "pread cont n offset = (if offset < 0 then [] else take n (drop (nat offset) cont))"

function send_fd_loop :: "send_proc \<Rightarrow> string \<Rightarrow> int \<Rightarrow> nat \<Rightarrow> nat \<Rightarrow> Sock \<Rightarrow> nat \<times> Sock" where
  "send_fd_loop p cont offset toRead nwrote s =
     (if toRead = 0 then (nwrote, s)
      else let buf = pread cont (min toRead 16384) offset in
        if buf = [] then (nwrote, s)
        else case send_one p buf s of
               (sent, s1) \<Rightarrow>
                 let nwrote1 = (if sent > 0 then nwrote + nat sent else nwrote) in
                 if sent \<noteq> int (length buf) then (nwrote1, s1)
                 else send_fd_loop p cont (offset + int (length buf)) (toRead - length buf) nwrote1 s1)"
  by auto
termination by (relation "measure (\<lambda>(p, cont, offset, toRead, nwrote, s). toRead)") auto

declare send_fd_loop.simps [simp del]

definition SendFd :: "send_proc \<Rightarrow> string \<Rightarrow> int \<Rightarrow> nat \<Rightarrow> Sock \<Rightarrow> int \<times> Sock" where
  "SendFd p cont offset len s =
     (case send_fd_loop p cont offset len 0 s of (nwrote, s1) \<Rightarrow> (if nwrote > 0 then int nwrote else -1, s1))"

definition mem_bytes :: "memory \<Rightarrow> int \<Rightarrow> nat \<Rightarrow> string" where
  "mem_bytes m a n = map (\<lambda>i. mem m (a + int i)) [0..<n]"

fun send_indirect_loop :: "send_proc \<Rightarrow> memory \<Rightarrow> Ns_FileVec list \<Rightarrow> nat \<Rightarrow> int \<Rightarrow> Sock \<Rightarrow> int \<times> Sock" where
  "send_indirect_loop p m [] nwrote sent s = (if nwrote > 0 then int nwrote else sent, s)"
| "send_indirect_loop p m (b # bs) nwrote sent s =
     (if fv_length b > 0 then
        case (if fv_fd b < 0 then send_one p (mem_bytes m (fv_offset b) (fv_length b)) s
              else SendFd p (files m (fv_fd b)) (fv_offset b) (fv_length b) s) of
          (sent1, s1) \<Rightarrow>
            let nwrote1 = (if sent1 > 0 then nwrote + nat sent1 else nwrote) in
            if sent1 \<noteq> int (fv_length b) then (if nwrote1 > 0 then int nwrote1 else sent1, s1)
            else send_indirect_loop p m bs nwrote1 sent1 s1
      else send_indirect_loop p m bs nwrote sent s)"

definition NsSockSendFileBufsIndirect :: "send_proc \<Rightarrow> memory \<Rightarrow> Ns_FileVec list \<Rightarrow> Sock \<Rightarrow> int \<times> Sock" where
  "NsSockSendFileBufsIndirect p m bufs s = send_indirect_loop p m bufs 0 (-1) s"

text \<open>A driver may supply a procedure of its own to send file vectors.\<close>

definition NsDriverSendFile :: "(Ns_FileVec list \<Rightarrow> Sock \<Rightarrow> int \<times> Sock) option \<Rightarrow> send_proc \<Rightarrow> memory \<Rightarrow> Ns_FileVec list \<Rightarrow> Sock \<Rightarrow> int \<times> Sock" where
  "NsDriverSendFile sendFileProc p m bufs s =
     (case sendFileProc of Some f \<Rightarrow> f bufs s | None \<Rightarrow> NsSockSendFileBufsIndirect p m bufs s)"

section \<open>Sending all of a file vector\<close>

datatype status = NS_OK | NS_ERROR

function conn_send_loop :: "(Ns_FileVec list \<Rightarrow> Sock \<Rightarrow> int \<times> Sock) \<Rightarrow> Ns_FileVec list \<Rightarrow> nat \<Rightarrow> nat \<Rightarrow> Sock \<Rightarrow> nat \<times> nat \<times> Sock" where
  "conn_send_loop f bufs toWrite nwrote s =
     (if toWrite = 0 then (toWrite, nwrote, s)
      else case f bufs s of
             (sent, s1) \<Rightarrow>
               if sent < 1 then (toWrite, nwrote, s1)
               else let bufs1 = (if nat sent < toWrite then snd (Ns_ResetFileVec bufs (nat sent)) else bufs) in
                 conn_send_loop f bufs1 (toWrite - nat sent) (nwrote + nat sent) s1)"
  by auto
termination by (relation "measure (\<lambda>(f, bufs, toWrite, nwrote, s). toWrite)") auto

declare conn_send_loop.simps [simp del]

text \<open>The status, the number of content bytes counted for the connection, and the socket.\<close>

definition Ns_ConnSendFileVec :: "(Ns_FileVec list \<Rightarrow> Sock \<Rightarrow> int \<times> Sock) option \<Rightarrow> send_proc \<Rightarrow> memory \<Rightarrow> Ns_FileVec list \<Rightarrow> nat \<Rightarrow> Sock \<Rightarrow>
    status \<times> nat \<times> Sock" where
  "Ns_ConnSendFileVec sendFileProc p m bufs nContentSent s =
     (case conn_send_loop (NsDriverSendFile sendFileProc p m) bufs (sum_list (map fv_length bufs)) 0 s of
        (toWrite, nwrote, s1) \<Rightarrow>
          (if nwrote < toWrite then NS_ERROR else NS_OK, if nwrote > 0 then nContentSent + nwrote else nContentSent, s1))"

section \<open>The bytes of a file vector\<close>

definition fv_ok :: "memory \<Rightarrow> Ns_FileVec \<Rightarrow> bool" where
  "fv_ok m b \<longleftrightarrow>
     (0 \<le> fv_fd b \<longrightarrow> 0 \<le> fv_offset b \<and> (0 < fv_length b \<longrightarrow> nat (fv_offset b) + fv_length b \<le> length (files m (fv_fd b))))"

definition fv_bytes :: "memory \<Rightarrow> Ns_FileVec \<Rightarrow> string" where
  "fv_bytes m b =
     (if fv_fd b < 0 then mem_bytes m (fv_offset b) (fv_length b)
      else take (fv_length b) (drop (nat (fv_offset b)) (files m (fv_fd b))))"

lemma drop_mem_bytes: "drop k (mem_bytes m a n) = mem_bytes m (a + int k) (n - k)"
  by (rule nth_equalityI) (auto simp: mem_bytes_def algebra_simps)

lemma length_mem_bytes [simp]: "length (mem_bytes m a n) = n"
  by (simp add: mem_bytes_def)

interpretation fv: buffer_vector fv_length "fv_bytes m" "fv_ok m"
  "\<lambda>b. \<lparr>fv_fd = fv_fd b, fv_offset = 0, fv_length = 0\<rparr>"
  "\<lambda>k b. \<lparr>fv_fd = fv_fd b, fv_offset = fv_offset b + int k, fv_length = fv_length b - k\<rparr>" reset_file_loop
  for m
proof unfold_locales
  show "fv_ok m b \<Longrightarrow> length (fv_bytes m b) = fv_length b" for b
    by (cases "fv_length b = 0") (auto simp: fv_ok_def fv_bytes_def mem_bytes_def)
  show "fv_ok m \<lparr>fv_fd = fv_fd b, fv_offset = 0, fv_length = 0\<rparr>" for b
    by (simp add: fv_ok_def)
qed (auto simp: fv_ok_def fv_bytes_def mem_bytes_def [where n = 0] drop_mem_bytes drop_take nat_add_distrib add.commute)

section \<open>A prefix is sent\<close>

text \<open>
  The bytes \<open>d\<close> were offered: a prefix of them is on the wire, and its length was returned (-1 for
  none); it is not empty if the driver never fails.
\<close>

definition sent_prefix :: "send_proc \<Rightarrow> string \<Rightarrow> Sock \<Rightarrow> int \<times> Sock \<Rightarrow> bool" where
  "sent_prefix p d s r \<longleftrightarrow>
     (\<exists>n s1. n \<le> length d \<and> wire s1 = wire s @ take n d \<and> (never_fails p \<longrightarrow> 0 < n) \<and>
        r = (if n > 0 then int n else -1, s1))"

lemma send_one_prefix:
  assumes "drv_ok p" "d \<noteq> []"
  shows "sent_prefix p d s (send_one p d s)"
proof -
  let ?v = "[\<lparr>iov_base = Some d, iov_len = length d\<rparr>]"
  have v: "vec_bytes ?v = d" by (simp add: iov_bytes_def)
  obtain a s1 where a: "NsDriverSend p ?v s = (a, s1)" by fastforce
  from driver_send_cases [OF a] show ?thesis
  proof
    assume "\<exists>n. a = Took n \<and> p (calls s) (vec_bytes ?v) = Took n \<and> wire s1 = wire s @ take n (vec_bytes ?v)"
    then obtain n where n: "a = Took n" "p (calls s) d = Took n" "wire s1 = wire s @ take n d" unfolding v by blast
    moreover have "n \<le> length d" "0 < n" using assms n(2) by (auto simp: drv_ok_def)
    ultimately show ?thesis using a unfolding sent_prefix_def
      by (intro exI [of _ n] exI [of _ s1]) (simp add: send_one_def)
  next
    assume "(\<forall>n. a \<noteq> Took n) \<and> wire s1 = wire s \<and> \<not> never_fails p"
    then show ?thesis using a unfolding sent_prefix_def
      by (intro exI [of _ 0] exI [of _ s1]) (cases a; simp add: send_one_def)
  qed
qed

lemma send_fd_loop_prefix:
  assumes "drv_ok p"
  shows "\<lbrakk>send_fd_loop p cont off toRead nw s = (nw1, s1); 0 \<le> off; nat off + toRead \<le> length cont\<rbrakk> \<Longrightarrow>
    \<exists>n \<le> toRead. nw1 = nw + n \<and> wire s1 = wire s @ take n (drop (nat off) cont) \<and> (never_fails p \<and> 0 < toRead \<longrightarrow> 0 < n)"
  using assms
proof (induction p cont off toRead nw s rule: send_fd_loop.induct)
  case (1 p cont off toRead nw s)
  show ?case
  proof (cases "toRead = 0")
    case True
    then show ?thesis using "1.prems"(1) by (simp add: send_fd_loop.simps)
  next
    case False
    define buf where "buf = pread cont (min toRead 16384) off"
    have buf: "buf = take (min toRead 16384) (drop (nat off) cont)" using "1.prems"(2) by (simp add: buf_def pread_def)
    have lb: "length buf = min toRead 16384" using "1.prems"(3) by (simp add: buf)
    then have ne: "buf \<noteq> []" using False by auto
    obtain sent s2 where so: "send_one p buf s = (sent, s2)" by fastforce
    from send_one_prefix [OF "1.prems"(4) ne, of s] so obtain k where
      k: "k \<le> length buf" "wire s2 = wire s @ take k buf" "never_fails p \<longrightarrow> 0 < k" "sent = (if k > 0 then int k else -1)"
      by (auto simp: sent_prefix_def)
    have tk: "take k buf = take k (drop (nat off) cont)" using k(1) lb by (simp add: buf)
    note unf = "1.prems"(1) [unfolded send_fd_loop.simps [of p cont off toRead nw s] Let_def, folded buf_def]
    show ?thesis
    proof (cases "sent = int (length buf)")
      case True
      then have kl: "k = length buf" using k(4) by (auto split: if_splits)
      have rec: "send_fd_loop p cont (off + int (length buf)) (toRead - length buf) (nw + k) s2 = (nw1, s1)"
        using unf False ne so True k kl by auto
      have nw: "(if 0 < sent then nw + nat sent else nw) = nw + k" using k(4) by simp
      have off: "0 \<le> off + int (length buf)" "nat (off + int (length buf)) + (toRead - length buf) \<le> length cont"
        using "1.prems"(2,3) lb by (simp_all add: nat_add_distrib)
      have "\<exists>n \<le> toRead - length buf. nw1 = nw + k + n \<and> wire s1 = wire s2 @ take n (drop (nat (off + int (length buf))) cont)"
        using "1.IH" [OF False buf_def ne so [symmetric] refl, unfolded nw, OF _ rec off "1.prems"(4)] True by blast
      then obtain n where n: "n \<le> toRead - length buf" "nw1 = nw + k + n"
        "wire s1 = wire s2 @ take n (drop (length buf) (drop (nat off) cont))"
        using "1.prems"(2) by (auto simp: nat_add_distrib add.commute)
      have "take k buf @ take n (drop (length buf) (drop (nat off) cont)) = take (k + n) (drop (nat off) cont)"
        unfolding take_add using tk kl by simp
      then show ?thesis using n k kl lb ne by (intro exI [of _ "k + n"]) auto
    next
      case part: False
      then have "nw1 = nw + k" "s1 = s2" using unf False ne so k(4) by (auto split: if_splits)
      then show ?thesis using k lb tk by (intro exI [of _ k]) auto
    qed
  qed
qed

lemma send_fd_prefix:
  assumes "drv_ok p" "0 \<le> off" "nat off + len \<le> length cont" "0 < len"
  shows "sent_prefix p (take len (drop (nat off) cont)) s (SendFd p cont off len s)"
proof -
  obtain nw s1 where l: "send_fd_loop p cont off len 0 s = (nw, s1)" by fastforce
  from send_fd_loop_prefix [OF assms(1) l assms(2,3)] assms(4) have
    "nw \<le> len" "wire s1 = wire s @ take nw (drop (nat off) cont)" "never_fails p \<longrightarrow> 0 < nw" by auto
  then show ?thesis using assms(3) l unfolding sent_prefix_def
    by (intro exI [of _ nw] exI [of _ s1]) (auto simp: SendFd_def min_def)
qed

lemma send_indirect_prefix:
  assumes "drv_ok p"
  shows "\<forall>b \<in> set bs. fv_ok m b \<Longrightarrow>
    \<exists>n s1. n \<le> length (concat (map (fv_bytes m) bs)) \<and> wire s1 = wire s @ take n (concat (map (fv_bytes m) bs)) \<and>
      (never_fails p \<and> concat (map (fv_bytes m) bs) \<noteq> [] \<longrightarrow> 0 < n) \<and>
      send_indirect_loop p m bs nw sent s =
        (if nw + n > 0 then int (nw + n) else if concat (map (fv_bytes m) bs) = [] then sent else -1, s1)"
proof (induction bs arbitrary: nw sent s)
  case (Cons b bs)
  let ?d = "fv_bytes m b" and ?r = "concat (map (fv_bytes m) bs)"
  have ok: "fv_ok m b" "\<forall>b \<in> set bs. fv_ok m b" "length ?d = fv_length b" using Cons.prems by (simp_all add: fv.length_bytes)
  show ?case
  proof (cases "fv_length b = 0")
    case True
    then have "?d = []" using ok(3) by simp
    then have "concat (map (fv_bytes m) (b # bs)) = ?r" by simp
    moreover have "send_indirect_loop p m (b # bs) nw sent s = send_indirect_loop p m bs nw sent s" using True by simp
    ultimately show ?thesis using Cons.IH [OF ok(2), of s nw sent] by (simp only:)
  next
    case False
    then have ne: "?d \<noteq> []" using ok(3) by auto
    define R where "R = (if fv_fd b < 0 then send_one p (mem_bytes m (fv_offset b) (fv_length b)) s
        else SendFd p (files m (fv_fd b)) (fv_offset b) (fv_length b) s)"
    have "sent_prefix p ?d s R"
    proof (cases "fv_fd b < 0")
      case True
      then show ?thesis using send_one_prefix [OF assms ne, of s] by (simp add: R_def fv_bytes_def)
    next
      case fd: False
      then show ?thesis using send_fd_prefix [OF assms, of "fv_offset b" "fv_length b"] ok(1) False
        by (simp add: R_def fv_bytes_def fv_ok_def)
    qed
    then obtain k s2 where k: "k \<le> length ?d" "wire s2 = wire s @ take k ?d" "never_fails p \<longrightarrow> 0 < k"
      "R = (if k > 0 then int k else -1, s2)" by (auto simp: sent_prefix_def)
    have step: "send_indirect_loop p m (b # bs) nw sent s =
        (if k < fv_length b then (if nw + k > 0 then int (nw + k) else -1, s2)
         else send_indirect_loop p m bs (nw + k) (int k) s2)"
      using False k(1,4) ok(3) by (auto simp: R_def [symmetric] Let_def)
    show ?thesis
    proof (cases "k < fv_length b")
      case True
      then show ?thesis using step k ok(3) ne by (intro exI [of _ k] exI [of _ s2]) (simp del: concat_eq_Nil_conv)
    next
      case full: False
      then have kl: "k = length ?d" "0 < k" using k(1) ok(3) False by simp_all
      from Cons.IH [OF ok(2), of s2 "nw + k" "int k"] obtain n s1 where n: "n \<le> length ?r" "wire s1 = wire s2 @ take n ?r"
        "send_indirect_loop p m bs (nw + k) (int k) s2 = (int (nw + k + n), s1)" using kl(2) by auto
      show ?thesis using step full k kl n ne
        by (intro exI [of _ "k + n"] exI [of _ s1]) (simp add: add.assoc del: concat_eq_Nil_conv)
    qed
  qed
qed simp

text \<open>
  What is expected of a driver's own procedure for file vectors: like the send procedure, it sends
  a prefix of the bytes and returns its length.
\<close>

definition file_sender :: "send_proc \<Rightarrow> memory \<Rightarrow> (Ns_FileVec list \<Rightarrow> Sock \<Rightarrow> int \<times> Sock) \<Rightarrow> bool" where
  "file_sender p m f \<longleftrightarrow> (\<forall>bufs s. (\<forall>b \<in> set bufs. fv_ok m b) \<and> concat (map (fv_bytes m) bufs) \<noteq> [] \<longrightarrow>
     sent_prefix p (concat (map (fv_bytes m) bufs)) s (f bufs s))"

lemma indirect_file_sender:
  assumes "drv_ok p"
  shows "file_sender p m (NsSockSendFileBufsIndirect p m)"
  unfolding file_sender_def
proof (intro allI impI)
  fix bufs s
  let ?d = "concat (map (fv_bytes m) bufs)"
  assume b: "(\<forall>b \<in> set bufs. fv_ok m b) \<and> ?d \<noteq> []"
  then obtain n s1 where "n \<le> length ?d" "wire s1 = wire s @ take n ?d" "never_fails p \<longrightarrow> 0 < n"
    "send_indirect_loop p m bufs 0 (-1) s = (if 0 + n > 0 then int (0 + n) else if ?d = [] then -1 else -1, s1)"
    using send_indirect_prefix [OF assms, of bufs m s 0 "-1"] by blast
  then show "sent_prefix p ?d s (NsSockSendFileBufsIndirect p m bufs s)"
    unfolding sent_prefix_def NsSockSendFileBufsIndirect_def by (intro exI [of _ n] exI [of _ s1]) simp
qed

lemma conn_send_loop_prefix:
  assumes "file_sender p m f"
  shows "\<lbrakk>\<forall>b \<in> set bufs. fv_ok m b; tw = length (concat (map (fv_bytes m) bufs))\<rbrakk> \<Longrightarrow>
    \<exists>n s1. n \<le> tw \<and> wire s1 = wire s @ take n (concat (map (fv_bytes m) bufs)) \<and> (never_fails p \<longrightarrow> n = tw) \<and>
      conn_send_loop f bufs tw nw s = (tw - n, nw + n, s1)"
proof (induction tw arbitrary: bufs nw s rule: less_induct)
  case (less tw)
  let ?d = "concat (map (fv_bytes m) bufs)"
  show ?case
  proof (cases "tw = 0")
    case True
    then show ?thesis by (intro exI [of _ 0] exI [of _ s]) (simp add: conn_send_loop.simps)
  next
    case False
    then have "?d \<noteq> []" using less.prems(2) by auto
    with assms less.prems(1) obtain k s2 where k: "k \<le> length ?d" "wire s2 = wire s @ take k ?d" "never_fails p \<longrightarrow> 0 < k"
      "f bufs s = (if k > 0 then int k else -1, s2)"
      unfolding file_sender_def sent_prefix_def by meson
    show ?thesis
    proof (cases "k = 0")
      case True
      then have "conn_send_loop f bufs tw nw s = (tw, nw, s2)" using False k(4) by (subst conn_send_loop.simps) simp
      then show ?thesis using True k by (intro exI [of _ 0] exI [of _ s2]) simp
    next
      case pos: False
      define bufs1 where "bufs1 = (if k < tw then snd (Ns_ResetFileVec bufs k) else bufs)"
      have step: "conn_send_loop f bufs tw nw s = conn_send_loop f bufs1 (tw - k) (nw + k) s2"
        using False pos k(4) by (subst conn_send_loop.simps) (simp add: bufs1_def)
      show ?thesis
      proof (cases "k < tw")
        case True
        obtain j r where r: "reset_file_loop bufs k 0 = (j, r)" by fastforce
        then have b1: "bufs1 = r" using True by (simp add: bufs1_def Ns_ResetFileVec_def)
        note R = fv.reset_rest [OF r less.prems(1)]
        have "\<exists>n s1. n \<le> tw - k \<and> wire s1 = wire s2 @ take n (concat (map (fv_bytes m) r)) \<and> (never_fails p \<longrightarrow> n = tw - k) \<and>
            conn_send_loop f r (tw - k) (nw + k) s2 = (tw - k - n, nw + k + n, s1)"
          using R(3,4) pos False less.prems(2) by (intro less.IH) simp_all
        then obtain n s1 where n: "n \<le> tw - k" "wire s1 = wire s2 @ take n (drop k ?d)" "never_fails p \<longrightarrow> n = tw - k"
          "conn_send_loop f r (tw - k) (nw + k) s2 = (tw - k - n, nw + k + n, s1)" unfolding R(4) by blast
        then show ?thesis using step b1 True k(2) by (intro exI [of _ "k + n"] exI [of _ s1]) (simp add: take_add)
      next
        case full: False
        then have "k = tw" using k(1) less.prems(2) by simp
        then show ?thesis using step k(2) by (intro exI [of _ k] exI [of _ s2]) (simp add: conn_send_loop.simps)
      qed
    qed
  qed
qed

lemma send_file_vec_all:
  assumes "drv_ok p" "\<forall>b \<in> set bufs. fv_ok m b"
    and "case sendFileProc of None \<Rightarrow> True | Some f \<Rightarrow> file_sender p m f"
  shows "\<exists>n s1. n \<le> length (concat (map (fv_bytes m) bufs)) \<and> wire s1 = wire s @ take n (concat (map (fv_bytes m) bufs)) \<and>
    (never_fails p \<longrightarrow> n = length (concat (map (fv_bytes m) bufs))) \<and>
    Ns_ConnSendFileVec sendFileProc p m bufs c s =
      (if n < length (concat (map (fv_bytes m) bufs)) - n then NS_ERROR else NS_OK, c + n, s1)"
proof -
  have "file_sender p m (NsDriverSendFile sendFileProc p m)"
  proof (cases sendFileProc)
    case None
    then have "NsDriverSendFile sendFileProc p m = NsSockSendFileBufsIndirect p m"
      by (simp add: NsDriverSendFile_def fun_eq_iff)
    then show ?thesis using indirect_file_sender [OF assms(1)] by simp
  next
    case (Some f)
    then have "NsDriverSendFile sendFileProc p m = f" by (simp add: NsDriverSendFile_def fun_eq_iff)
    then show ?thesis using assms(3) Some by simp
  qed
  from conn_send_loop_prefix [OF this assms(2) refl, of s 0] fv.length_concat_bytes [OF assms(2)] show ?thesis
    by (auto simp: Ns_ConnSendFileVec_def simp del: concat_eq_Nil_conv)
qed


definition demo_memory :: memory where
  "demo_memory = \<lparr>mem = (\<lambda>a. if a = 7 then CHR ''x'' else CHR ''y''), files = (\<lambda>fd. ''abcdefgh'')\<rparr>"


text \<open>A file that is shorter than announced, or a connection that breaks, is reported as success.\<close>

theorem send_file_vec_truncated:
  "Ns_ConnSendFileVec None (\<lambda>k d. if k = 0 then Took 6 else Failed) demo_memory
     [\<lparr>fv_fd = 3, fv_offset = 0, fv_length = 8\<rparr>] 0 \<lparr>wire = [], calls = 0\<rparr> = (NS_OK, 6, \<lparr>wire = ''abcdef'', calls = 2\<rparr>)"
  by (simp add: Ns_ConnSendFileVec_def conn_send_loop.simps NsDriverSendFile_def NsSockSendFileBufsIndirect_def SendFd_def
      send_fd_loop.simps pread_def send_one_def NsDriverSend_def iov_bytes_def demo_memory_def Ns_ResetFileVec_def)

end
