(* ===== verification/HttpTime.thy ===== *)
theory HttpTime
  imports NsStr
begin

text \<open>
  HTTP dates, \<open>nsd/httptime.c\<close>.  \<open>gmtime\<close> and \<open>timegm\<close> of the C library are modelled on the
  proleptic Gregorian calendar; the parser reads the string through checked accesses (an access
  behind the terminating NUL is \<open>None\<close>) and returns the string with the month put into camel
  case, as the code overwrites its argument.  The printer and the parser are inverse for the
  years the parser admits, which end with 2020.
\<close>

section \<open>The calendar of the C library\<close>

record tm =
  tm_sec :: int
  tm_min :: int
  tm_hour :: int
  tm_mday :: int
  tm_mon :: int
  tm_year :: int
  tm_wday :: int

definition leap_year :: "int \<Rightarrow> bool" where
  "leap_year y \<longleftrightarrow> y mod 4 = 0 \<and> (y mod 100 \<noteq> 0 \<or> y mod 400 = 0)"

definition year_days :: "int \<Rightarrow> int" where
  "year_days y = (if leap_year y then 366 else 365)"

definition month_days :: "int \<Rightarrow> int list" where
  "month_days y = [31, if leap_year y then 29 else 28, 31, 30, 31, 30, 31, 31, 30, 31, 30, 31]"

text \<open>The number of days from 1 January 1970 to 1 January of the year \<open>y\<close>.\<close>

definition days_to :: "int \<Rightarrow> int" where
  "days_to y = 365 * (y - 1970) + (y - 1) div 4 - (y - 1) div 100 + (y - 1) div 400 - 477"

definition timegm :: "tm \<Rightarrow> int" where
  "timegm t = (days_to (tm_year t + 1900) + sum_list (take (nat (tm_mon t)) (month_days (tm_year t + 1900)))
               + tm_mday t - 1) * 86400 + tm_hour t * 3600 + tm_min t * 60 + tm_sec t"

function gm_year :: "int \<Rightarrow> int \<Rightarrow> int \<times> int" where
  "gm_year d y =
     (if d < 0 then gm_year (d + year_days (y - 1)) (y - 1)
      else if year_days y \<le> d then gm_year (d - year_days y) (y + 1) else (y, d))"
  by auto
termination
  by (relation "measure (\<lambda>(d, y). nat (if d < 0 then 1000 - d else d))")
     (auto simp: year_days_def split: if_splits)

declare gm_year.simps [simp del]

fun gm_month :: "int list \<Rightarrow> int \<Rightarrow> int \<Rightarrow> int \<times> int" where
  "gm_month [] d m = (m, d)"
| "gm_month (l # ls) d m = (if d < l then (m, d) else gm_month ls (d - l) (m + 1))"

definition gmtime :: "int \<Rightarrow> tm option" where
  "gmtime t =
     (let days = t div 86400; rest = t mod 86400;
          (y, d) = gm_year days 1970;
          (m, md) = gm_month (month_days y) d 0
      in if y - 1900 > INT_MAX \<or> y - 1900 < INT_MIN then None
         else Some \<lparr>tm_sec = rest mod 60, tm_min = rest div 60 mod 60, tm_hour = rest div 3600, tm_mday = md + 1,
                    tm_mon = m, tm_year = y - 1900, tm_wday = (4 + days) mod 7\<rparr>)"

section \<open>The code\<close>

definition month_names :: "string list" where
  "month_names = [''Jan'', ''Feb'', ''Mar'', ''Apr'', ''May'', ''Jun'', ''Jul'', ''Aug'', ''Sep'', ''Oct'', ''Nov'', ''Dec'']"

definition week_names :: "string list" where
  "week_names = [''Sun'', ''Mon'', ''Tue'', ''Wed'', ''Thu'', ''Fri'', ''Sat'']"

text \<open>The conversion \<open>%02d\<close>.\<close>

definition pad2 :: "int \<Rightarrow> string" where
  "pad2 v = (let s = show_int v in if length s < 2 then CHR ''0'' # s else s)"

definition Ns_HttpTime :: "string \<Rightarrow> int \<Rightarrow> int option \<Rightarrow> string option" where
  "Ns_HttpTime ds now when =
     (case gmtime (case when of None \<Rightarrow> now | Some t \<Rightarrow> t) of
        None \<Rightarrow> None
      | Some t \<Rightarrow> Some (ds @ week_names ! nat (tm_wday t) @ '', '' @ pad2 (tm_mday t) @ '' '' @
          month_names ! nat (tm_mon t) @ '' '' @ show_int (tm_year t + 1900) @ '' '' @ pad2 (tm_hour t) @ '':'' @
          pad2 (tm_min t) @ '':'' @ pad2 (tm_sec t) @ '' GMT''))"

text \<open>Reading \<open>s[i]\<close> of a C string: its NUL may be read, nothing behind it.\<close>

definition c_at :: "string \<Rightarrow> nat \<Rightarrow> char option" where
  "c_at s i = arr_read (s @ [CHR 0x00]) i"

definition MakeNum :: "string \<Rightarrow> nat \<Rightarrow> int option" where
  "MakeNum s i =
     (do { a \<leftarrow> c_at s i; b \<leftarrow> c_at s (i + 1);
           Some (if isdigit a then 10 * (of_char a - 48) + (of_char b - 48) else of_char b - 48) })"

fun month_index :: "string list \<Rightarrow> string \<Rightarrow> int \<Rightarrow> int" where
  "month_index [] s i = 0"
| "month_index (m # ms) s i = (if s = m then i else month_index ms s (i + 1))"

definition MakeMonth :: "string \<Rightarrow> nat \<Rightarrow> (int \<times> string) option" where
  "MakeMonth s i =
     (do { a \<leftarrow> c_at s i; s1 \<leftarrow> arr_write s i (toupper a);
           b \<leftarrow> c_at s (i + 1); s2 \<leftarrow> arr_write s1 (i + 1) (tolower b);
           c \<leftarrow> c_at s (i + 2); s3 \<leftarrow> arr_write s2 (i + 2) (tolower c);
           Some (month_index month_names (take 3 (drop i s3)) 0, s3) })"

text \<open>The six fields, at the given positions; the string comes back with the month rewritten.\<close>

definition read_fields :: "string \<Rightarrow> nat \<Rightarrow> nat \<Rightarrow> (string \<Rightarrow> int option) \<Rightarrow> nat \<Rightarrow> nat \<Rightarrow> nat \<Rightarrow> (tm \<times> string) option" where
  "read_fields s dp mp year hp np sp =
     (do { d \<leftarrow> MakeNum s dp; (m, s1) \<leftarrow> MakeMonth s mp; y \<leftarrow> year s1;
           h \<leftarrow> MakeNum s1 hp; n \<leftarrow> MakeNum s1 np; c \<leftarrow> MakeNum s1 sp;
           Some (\<lparr>tm_sec = c, tm_min = n, tm_hour = h, tm_mday = d, tm_mon = m, tm_year = y, tm_wday = 0\<rparr>, s1) })"

definition impossible :: "tm \<Rightarrow> bool" where
  "impossible t \<longleftrightarrow>
     tm_sec t < 0 \<or> tm_sec t > 59 \<or> tm_min t < 0 \<or> tm_min t > 59 \<or> tm_hour t < 0 \<or> tm_hour t > 23 \<or>
     tm_mday t < 1 \<or> tm_mday t > 31 \<or> tm_mon t < 0 \<or> tm_mon t > 11 \<or> tm_year t < 70 \<or> tm_year t > 120"

definition finish_time :: "string \<Rightarrow> (tm \<times> string) option \<Rightarrow> (int \<times> string) option" where
  "finish_time pre r = map_option (\<lambda>(t, s). (if impossible t then 0 else timegm t, pre @ s)) r"

definition Ns_ParseHttpTime :: "string \<Rightarrow> (int \<times> string) option" where
  "Ns_ParseHttpTime chars =
     (if CHR '','' \<in> set chars then
        let p = takeWhile (\<lambda>c. c \<noteq> CHR '','') chars;
            q = drop (Suc (length p)) chars;
            s = dropWhile (\<lambda>c. c = CHR '' '') q;
            pre = take (length chars - length s) chars
        in if CHR ''-'' \<in> set s then
             if length s < 18 then Some (0, chars)
             else finish_time pre (read_fields s 0 3 (\<lambda>s1. MakeNum s1 7) 10 13 16)
           else
             if length s < 20 then Some (0, chars)
             else finish_time pre (read_fields s 0 3
                    (\<lambda>s1. do { c \<leftarrow> MakeNum s1 7; y \<leftarrow> MakeNum s1 9; Some (100 * c - 1900 + y) }) 12 15 18)
      else
        let s = dropWhile (\<lambda>c. c = CHR '' '') chars;
            pre = take (length chars - length s) chars
        in if length s < 24 then Some (0, chars)
           else finish_time pre (read_fields s 8 4 (\<lambda>s1. MakeNum s1 22) 11 14 17))"

datatype tcl_result = TclOk string | TclError string

text \<open>\<open>Tcl_WrongNumArgs\<close> with the command's name kept.\<close>

definition wrong_num_args :: "string list \<Rightarrow> string \<Rightarrow> tcl_result" where
  "wrong_num_args objv msg = TclError (''wrong # args: should be '' @ [CHR 0x22] @ hd objv @ '' '' @ msg @ [CHR 0x22])"

definition NsTclParseHttpTimeObjCmd :: "string list \<Rightarrow> tcl_result option" where
  "NsTclParseHttpTimeObjCmd objv =
     (case objv of
        [_, s] \<Rightarrow> map_option (\<lambda>(t, s'). if t = 0 then TclError (''invalid time: '' @ s') else TclOk (show_int t)) (Ns_ParseHttpTime s)
      | _ \<Rightarrow> Some (wrong_num_args objv ''httptime''))"

definition NsTclHttpTimeObjCmd :: "(string \<Rightarrow> string + int) \<Rightarrow> int \<Rightarrow> string list \<Rightarrow> tcl_result" where
  "NsTclHttpTimeObjCmd get_int now objv =
     (case objv of
        [_, a] \<Rightarrow> (case get_int a of
                     Inl msg \<Rightarrow> TclError msg
                   | Inr t \<Rightarrow> TclOk (case Ns_HttpTime [] now (Some t) of None \<Rightarrow> [] | Some s \<Rightarrow> s))
      | _ \<Rightarrow> wrong_num_args objv ''time'')"

section \<open>The calendar\<close>

lemma div_step: "0 < n \<Longrightarrow> y div n = (y - 1) div n + (if y mod n = 0 then 1 else 0)" for y n :: int
proof -
  assume n: "0 < n"
  let ?q = "y div n" and ?r = "y mod n"
  have y: "y = n * ?q + ?r" by simp
  have r: "0 \<le> ?r" "?r < n" using n by simp_all
  show ?thesis
  proof (cases "?r = 0")
    case True
    then have "y - 1 = n * (?q - 1) + (n - 1)" using y by (simp add: algebra_simps)
    then have "(y - 1) div n = ?q - 1" using n by (intro int_div_pos_eq [of _ n _ "n - 1"]) auto
    with True show ?thesis by simp
  next
    case False
    then have "y - 1 = n * ?q + (?r - 1)" using y by linarith
    then have "(y - 1) div n = ?q" using r False by (intro int_div_pos_eq [of _ n _ "?r - 1"]) auto
    with False show ?thesis by simp
  qed
qed

lemma div_diff: "0 < n \<Longrightarrow> y div n - (y - 1) div n = (if y mod n = 0 then 1 else 0)" for y n :: int
  by (subst div_step) simp_all

lemma diff8: "365 * (y + 1 - 1970) + A - B + C - 477 - (365 * (y - 1970) + a - b + c - 477)
    = 365 + (A - a) - (B - b) + (C - c)" for y A B C a b c :: int
  by simp

lemma leap_cases:
  "\<lbrakk>h \<longrightarrow> f; g \<longrightarrow> h\<rbrakk> \<Longrightarrow> 365 + (if f then 1 else 0) - (if h then 1 else 0) + (if g then 1 else 0)
     = (if f \<and> (\<not> h \<or> g) then 366 else 365 :: int)"
  by (cases h; cases f; cases g) simp_all

lemma m100: "(4 * 25 :: int) = 100" and m400: "(100 * 4 :: int) = 400"
  by simp_all

lemma days_to_step: "days_to (y + 1) = days_to y + year_days y"
proof -
  have m: "y mod 100 = 0 \<Longrightarrow> y mod 4 = 0" "y mod 400 = 0 \<Longrightarrow> y mod 100 = 0"
    unfolding mod_eq_0_iff_dvd using dvd_mult_left [of 4 25 y] dvd_mult_left [of 100 4 y] by (simp_all only: m100 m400)
  have d: "days_to (y + 1) - days_to y = 365 + (y div 4 - (y - 1) div 4) - (y div 100 - (y - 1) div 100)
      + (y div 400 - (y - 1) div 400)"
    unfolding days_to_def add_diff_cancel_right' by (rule diff8)
  have q: "y div 4 - (y - 1) div 4 = (if y mod 4 = 0 then 1 else 0)"
    "y div 100 - (y - 1) div 100 = (if y mod 100 = 0 then 1 else 0)"
    "y div 400 - (y - 1) div 400 = (if y mod 400 = 0 then 1 else 0)"
    by (rule div_diff, simp)+
  have "days_to (y + 1) - days_to y = year_days y"
    unfolding d q year_days_def leap_year_def by (rule leap_cases) (use m in blast)+
  then show ?thesis by (simp add: diff_eq_eq add.commute)
qed

lemma year_days_pos: "365 \<le> year_days y" "year_days y \<le> 366"
  by (auto simp: year_days_def)

lemma days_to_mono: "a \<le> b \<Longrightarrow> days_to a \<le> days_to b"
proof (induction b rule: int_ge_induct)
  case (step b)
  then show ?case using days_to_step [of b] year_days_pos(1) [of b] by linarith
qed simp

lemma gm_year_split:
  "gm_year d y = (y', d') \<Longrightarrow> days_to y' + d' = days_to y + d \<and> 0 \<le> d' \<and> d' < year_days y'"
proof (induction d y rule: gm_year.induct)
  case (1 d y)
  from days_to_step [of "y - 1"] have "days_to y = days_to (y - 1) + year_days (y - 1)" by simp
  with 1 days_to_step [of y] show ?case
    by (subst (asm) (3) gm_year.simps) (auto split: if_splits)
qed

lemma gm_month_split:
  "\<lbrakk>gm_month ls d m0 = (m, md); 0 \<le> d; d < sum_list ls\<rbrakk> \<Longrightarrow>
   \<exists>k < length ls. m = m0 + int k \<and> d = sum_list (take k ls) + md \<and> 0 \<le> md \<and> md < ls ! k"
proof (induction ls d m0 rule: gm_month.induct)
  case (2 l ls d m0)
  show ?case
  proof (cases "d < l")
    case True
    with 2 show ?thesis by (intro exI [of _ 0]) auto
  next
    case False
    with 2 obtain k where "k < length ls" "m = m0 + 1 + int k" "d - l = sum_list (take k ls) + md" "0 \<le> md" "md < ls ! k"
      by fastforce
    then show ?thesis by (intro exI [of _ "Suc k"]) auto
  qed
qed simp

lemma sum_month_days: "sum_list (month_days y) = year_days y"
  by (simp add: month_days_def year_days_def)

lemma month_days_le: "k < 12 \<Longrightarrow> month_days y ! k \<le> 31"
proof -
  assume "k < 12"
  moreover have "\<forall>v \<in> set (month_days y). v \<le> 31" by (simp add: month_days_def)
  moreover have "length (month_days y) = 12" by (simp add: month_days_def)
  ultimately show ?thesis by simp
qed

lemma clock_split: "r div 3600 * 3600 + r div 60 mod 60 * 60 + r mod 60 = r" for r :: int
proof -
  have "r div 3600 = r div 60 div 60" using zdiv_zmult2_eq [of 60 r 60] by simp
  then have "r div 3600 * 60 + r div 60 mod 60 = r div 60" by (simp only: div_mult_mod_eq)
  then have "(r div 3600 * 60 + r div 60 mod 60) * 60 + r mod 60 = r" by (simp only: div_mult_mod_eq)
  then show ?thesis by (simp add: distrib_right)
qed

text \<open>The broken-down time is in range and \<open>timegm\<close> inverts \<open>gmtime\<close>.\<close>

lemma gmtime_fields:
  assumes "gmtime t = Some b"
  shows "0 \<le> tm_sec b \<and> tm_sec b < 60" "0 \<le> tm_min b \<and> tm_min b < 60" "0 \<le> tm_hour b \<and> tm_hour b < 24"
    "1 \<le> tm_mday b \<and> tm_mday b \<le> 31" "0 \<le> tm_mon b \<and> tm_mon b < 12" "0 \<le> tm_wday b \<and> tm_wday b < 7"
    "timegm b = t" "days_to (tm_year b + 1900) \<le> t div 86400" "t div 86400 < days_to (tm_year b + 1901)"
proof -
  obtain y d where yd: "gm_year (t div 86400) 1970 = (y, d)" by fastforce
  obtain m md where mm: "gm_month (month_days y) d 0 = (m, md)" by fastforce
  have Y: "days_to y + d = t div 86400" "0 \<le> d" "d < year_days y"
    using gm_year_split [OF yd] by (simp_all add: days_to_def)
  obtain k where k: "k < 12" "m = int k" "d = sum_list (take k (month_days y)) + md" "0 \<le> md" "md < month_days y ! k"
    using gm_month_split [OF mm Y(2)] Y(3) by (auto simp: sum_month_days) (auto simp: month_days_def)
  have b: "b = \<lparr>tm_sec = t mod 86400 mod 60, tm_min = t mod 86400 div 60 mod 60, tm_hour = t mod 86400 div 3600,
      tm_mday = md + 1, tm_mon = m, tm_year = y - 1900, tm_wday = (4 + t div 86400) mod 7\<rparr>"
    using assms yd mm by (auto simp: gmtime_def Let_def split: if_splits)
  let ?r = "t mod 86400"
  have r: "0 \<le> ?r" "?r < 86400" by simp_all
  show "0 \<le> tm_sec b \<and> tm_sec b < 60" "0 \<le> tm_min b \<and> tm_min b < 60" "0 \<le> tm_wday b \<and> tm_wday b < 7"
    by (simp_all add: b)
  have "?r div 3600 < 24" using r(2) by (simp add: div_less_iff_less_mult)
  moreover have "0 \<le> ?r div 3600" using r(1) by (simp add: pos_imp_zdiv_nonneg_iff)
  ultimately show "0 \<le> tm_hour b \<and> tm_hour b < 24" by (simp add: b)
  show "1 \<le> tm_mday b \<and> tm_mday b \<le> 31" using k(4,5) month_days_le [OF k(1), of y] by (simp add: b)
  show "0 \<le> tm_mon b \<and> tm_mon b < 12" using k(1,2) by (simp add: b)
  have "(days_to y + sum_list (take (nat m) (month_days y)) + (md + 1) - 1) = t div 86400" using Y(1) k(2,3) by simp
  then have "timegm b = t div 86400 * 86400 + (?r div 3600 * 3600 + ?r div 60 mod 60 * 60 + ?r mod 60)"
    unfolding timegm_def b by simp
  then show "timegm b = t" by (simp only: clock_split div_mult_mod_eq)
  show "days_to (tm_year b + 1900) \<le> t div 86400" using Y by (simp add: b)
  show "t div 86400 < days_to (tm_year b + 1901)" using Y days_to_step [of y] by (simp add: b add.commute)
qed

section \<open>Printing and parsing\<close>

definition dig :: "nat \<Rightarrow> char" where
  "dig d = char_of (48 + d)"

lemma of_char_dig: "d < 10 \<Longrightarrow> of_char (dig d) = (48 + of_nat d :: 'a :: linordered_euclidean_semiring_bit_operations)"
proof -
  assume d: "d < 10"
  then have "of_char (dig d) = (48 + d :: nat)" by (simp add: dig_def)
  then show ?thesis by (metis of_nat_of_char of_nat_add of_nat_numeral)
qed

lemma dig_class:
  assumes "d < 10"
  shows "isdigit (dig d)" "dig d \<noteq> CHR ''-''" "dig d \<noteq> CHR '',''" "dig d \<noteq> CHR '' ''"
  using of_char_dig [OF assms, where 'a = nat] assms by (auto simp: isdigit_def)

lemma zero_dig: "char_of (48 :: nat) = CHR ''0''"
  by (simp add: char_of_eq_iff)

lemma pad2_dig: "v < 100 \<Longrightarrow> pad2 (int v) = [dig (v div 10), dig (v mod 10)]"
proof -
  assume v: "v < 100"
  show ?thesis
  proof (cases "v < 10")
    case True
    then show ?thesis by (simp add: pad2_def show_int_def show_nat.simps dig_def zero_dig)
  next
    case False
    then have "show_nat v = show_nat (v div 10) @ [char_of (48 + v mod 10)]" by (subst show_nat.simps) simp
    moreover have "show_nat (v div 10) = [char_of (48 + v div 10)]" using v by (subst show_nat.simps) auto
    ultimately show ?thesis by (simp add: pad2_def show_int_def dig_def)
  qed
qed

lemma show_year_dig:
  assumes "1000 \<le> y" "y < 10000"
  shows "show_int (int y) = [dig (y div 100 div 10), dig (y div 100 mod 10), dig (y mod 100 div 10), dig (y mod 100 mod 10)]"
proof -
  have step: "10 \<le> n \<Longrightarrow> show_nat n = show_nat (n div 10) @ [dig (n mod 10)]" for n
    by (subst show_nat.simps) (simp add: dig_def)
  have "show_nat y = show_nat (y div 10 div 10 div 10) @ [dig (y div 10 div 10 mod 10), dig (y div 10 mod 10), dig (y mod 10)]"
    using assms step [of y] step [of "y div 10"] step [of "y div 10 div 10"] by simp
  moreover have "y div 10 div 10 div 10 < 10" using assms by (simp add: div_mult2_eq [symmetric] div_less_iff_less_mult)
  then have "show_nat (y div 10 div 10 div 10) = [dig (y div 10 div 10 div 10)]"
    by (subst show_nat.simps) (simp add: dig_def)
  moreover have "y div 10 div 10 = y div 100" by (simp add: div_mult2_eq [symmetric])
  moreover have "y div 10 mod 10 = y mod 100 div 10" "y mod 10 = y mod 100 mod 10"
    using mod_mult2_eq [of y 10 10] by (simp_all add: mod_mod_cancel)
  ultimately show ?thesis by (simp add: show_int_def)
qed

lemma MakeNum_dig:
  assumes "v < 100" "c_at s i = Some (dig (v div 10))" "c_at s (i + 1) = Some (dig (v mod 10))"
  shows "MakeNum s i = Some (int v)"
proof -
  have "v div 10 < 10" "v mod 10 < 10" using assms(1) by auto
  moreover have "10 * int (v div 10) + int (v mod 10) = int v"
    by (metis mult_div_mod_eq of_nat_add of_nat_mult of_nat_numeral)
  ultimately show ?thesis using assms(2,3) by (simp add: MakeNum_def dig_class of_char_dig)
qed

lemma month_name_letters:
  assumes "k < 12"
  shows "\<exists>x y z. month_names ! k = [x, y, z] \<and> toupper x = x \<and> tolower y = y \<and> tolower z = z \<and>
     CHR '','' \<notin> {x, y, z} \<and> CHR ''-'' \<notin> {x, y, z} \<and> month_index month_names [x, y, z] 0 = int k"
proof -
  have "k = 0 \<or> k = 1 \<or> k = 2 \<or> k = 3 \<or> k = 4 \<or> k = 5 \<or> k = 6 \<or> k = 7 \<or> k = 8 \<or> k = 9 \<or> k = 10 \<or> k = 11"
    using assms by presburger
  then show ?thesis by (elim disjE) (simp_all add: month_names_def toupper_def tolower_def)
qed

lemma week_name_comma:
  assumes "k < 7"
  shows "length (week_names ! k) = 3 \<and> CHR '','' \<notin> set (week_names ! k)"
proof -
  have "k = 0 \<or> k = 1 \<or> k = 2 \<or> k = 3 \<or> k = 4 \<or> k = 5 \<or> k = 6" using assms by linarith
  then show ?thesis by (elim disjE) (simp_all add: week_names_def)
qed

definition date_tm :: "nat \<Rightarrow> nat \<Rightarrow> nat \<Rightarrow> nat \<Rightarrow> nat \<Rightarrow> nat \<Rightarrow> tm" where
  "date_tm d k y h n c = \<lparr>tm_sec = int c, tm_min = int n, tm_hour = int h, tm_mday = int d, tm_mon = int k,
     tm_year = int y - 1900, tm_wday = 0\<rparr>"

lemma read_date:
  assumes "d < 100" "k < 12" "y < 10000" "h < 100" "n < 100" "c < 100" "month_names ! k = [m1, m2, m3]"
    and "toupper m1 = m1" "tolower m2 = m2" "tolower m3 = m3" "month_index month_names [m1, m2, m3] 0 = int k"
    and "s = [dig (d div 10), dig (d mod 10), CHR '' '', m1, m2, m3, CHR '' '',
      dig (y div 100 div 10), dig (y div 100 mod 10), dig (y mod 100 div 10), dig (y mod 100 mod 10), CHR '' '',
      dig (h div 10), dig (h mod 10), CHR '':'', dig (n div 10), dig (n mod 10), CHR '':'', dig (c div 10), dig (c mod 10)] @ gmt"
  shows "read_fields s 0 3 (\<lambda>s1. do { c \<leftarrow> MakeNum s1 7; y \<leftarrow> MakeNum s1 9; Some (100 * c - 1900 + y) }) 12 15 18
     = Some (date_tm d k y h n c, s)"
proof -
  have "MakeNum s 0 = Some (int d)" "MakeNum s 12 = Some (int h)" "MakeNum s 15 = Some (int n)" "MakeNum s 18 = Some (int c)"
    by (rule MakeNum_dig; simp add: assms c_at_def arr_read_def)+
  moreover have "y div 100 < 100" using assms(3) by (simp add: div_less_iff_less_mult)
  then have "MakeNum s 7 = Some (int (y div 100))" by (rule MakeNum_dig; simp add: assms c_at_def arr_read_def)
  moreover have "MakeNum s 9 = Some (int (y mod 100))" by (rule MakeNum_dig; simp add: assms c_at_def arr_read_def)
  moreover have "MakeMonth s 3 = Some (int k, s)"
    by (simp add: assms MakeMonth_def c_at_def arr_read_def arr_write_def)
  moreover have "100 * int (y div 100) - 1900 + int (y mod 100) = int y - 1900"
  proof -
    have "100 * int (y div 100) + int (y mod 100) = int y" by (metis mult_div_mod_eq of_nat_add of_nat_mult of_nat_numeral)
    then show ?thesis by (simp add: algebra_simps)
  qed
  ultimately show ?thesis by (simp add: read_fields_def date_tm_def)
qed

lemma parse_date:
  assumes "CHR '','' \<notin> set w" "d < 100" "k < 12" "1000 \<le> y" "y < 10000" "h < 100" "n < 100" "c < 100"
    and s: "s = w @ '', '' @ pad2 (int d) @ '' '' @ month_names ! k @ '' '' @ show_int (int y) @ '' '' @ pad2 (int h) @ '':'' @
      pad2 (int n) @ '':'' @ pad2 (int c) @ '' GMT''"
  shows "Ns_ParseHttpTime s = Some (if impossible (date_tm d k y h n c) then 0 else timegm (date_tm d k y h n c), s)"
proof -
  obtain m1 m2 m3 where m: "month_names ! k = [m1, m2, m3]" "toupper m1 = m1" "tolower m2 = m2" "tolower m3 = m3"
    "CHR ''-'' \<notin> {m1, m2, m3}" "month_index month_names [m1, m2, m3] 0 = int k"
    using month_name_letters [OF assms(3)] by blast
  let ?t = "[dig (d div 10), dig (d mod 10), CHR '' '', m1, m2, m3, CHR '' '',
      dig (y div 100 div 10), dig (y div 100 mod 10), dig (y mod 100 div 10), dig (y mod 100 mod 10), CHR '' '',
      dig (h div 10), dig (h mod 10), CHR '':'', dig (n div 10), dig (n mod 10), CHR '':'', dig (c div 10), dig (c mod 10)]
      @ '' GMT''"
  have st: "s = w @ CHR '','' # CHR '' '' # ?t"
    using assms(2,4-8) m(1) by (simp add: s pad2_dig show_year_dig)
  have dd: "d div 10 < 10" "d mod 10 < 10" "h div 10 < 10" "h mod 10 < 10" "n div 10 < 10" "n mod 10 < 10"
    "c div 10 < 10" "c mod 10 < 10" "y div 100 div 10 < 10" "y div 100 mod 10 < 10" "y mod 100 div 10 < 10" "y mod 100 mod 10 < 10"
    using assms by (auto simp: div_less_iff_less_mult div_mult2_eq [symmetric])
  have dash: "CHR ''-'' \<notin> set ?t" using m(5) dig_class(2) dd by (auto dest: sym)
  have "dropWhile (\<lambda>c. c = CHR '' '') (CHR '' '' # ?t) = ?t" using dig_class(4) [OF dd(1)] by simp
  moreover have "takeWhile (\<lambda>c. c \<noteq> CHR '','') s = w" using assms(1) by (auto simp: st takeWhile_append)
  moreover have "drop (Suc (length w)) s = CHR '' '' # ?t" by (simp add: st)
  moreover have "take (length s - length ?t) s @ ?t = s" by (simp add: st)
  moreover note read_date [OF assms(2,3,5,6,7,8) m(1,2,3,4,6) refl, of "'' GMT''"]
  moreover have "CHR '','' \<in> set s" by (simp add: st)
  ultimately show ?thesis using dash by (simp add: Ns_ParseHttpTime_def Let_def finish_time_def)
qed

lemma year_lower: "y \<le> 1969 \<Longrightarrow> days_to (y + 1) \<le> 0"
  using days_to_mono [of "y + 1" 1970] by (simp add: days_to_def)

lemma year_upper: "10000 \<le> y \<Longrightarrow> 2932897 \<le> days_to y"
  using days_to_mono [of 10000 y] by (simp add: days_to_def)

lemma gmtime_some: "0 \<le> t \<Longrightarrow> t < 253402300800 \<Longrightarrow> \<exists>b. gmtime t = Some b \<and> 70 \<le> tm_year b \<and> tm_year b < 8100"
proof -
  assume t: "0 \<le> t" "t < 253402300800"
  obtain y d where yd: "gm_year (t div 86400) 1970 = (y, d)" by fastforce
  obtain m md where mm: "gm_month (month_days y) d 0 = (m, md)" by fastforce
  have Y: "days_to y + d = t div 86400" "0 \<le> d" "d < year_days y"
    using gm_year_split [OF yd] by (simp_all add: days_to_def)
  have T: "0 \<le> t div 86400" "t div 86400 < 2932897"
    using t by (simp_all add: pos_imp_zdiv_nonneg_iff div_less_iff_less_mult)
  have "days_to (y + 1) > 0" "days_to y < 2932897" using Y T days_to_step [of y] by linarith+
  then have "1970 \<le> y" "y < 10000" using year_lower [of y] year_upper [of y] by force+
  then show ?thesis using yd mm by (simp add: gmtime_def Let_def)
qed

lemma year_2021: "y \<le> 2020 \<longleftrightarrow> days_to (y + 1) \<le> 18628"
proof
  assume "y \<le> 2020"
  then show "days_to (y + 1) \<le> 18628" using days_to_mono [of "y + 1" 2021] by (simp add: days_to_def)
next
  assume y: "days_to (y + 1) \<le> 18628"
  show "y \<le> 2020"
  proof (rule ccontr)
    assume "\<not> y \<le> 2020"
    then show False using y days_to_mono [of 2022 "y + 1"] by (simp add: days_to_def)
  qed
qed

text \<open>
  C21: A time printed by \<open>Ns_HttpTime\<close> is read back by \<open>Ns_ParseHttpTime\<close>, which leaves the string as
  it is, for every second from the epoch to the end of the year 2020; every later time up to the
  year 9999 is printed as well but rejected, that is read as 0.
\<close>

theorem http_time_round_trip:
  "0 \<le> t \<and> t < 253402300800 \<longrightarrow>
     (\<exists>s. Ns_HttpTime [] now (Some t) = Some s \<and> Ns_ParseHttpTime s = Some (if t < 1609459200 then t else 0, s))"
proof
  assume t: "0 \<le> t \<and> t < 253402300800"
  then obtain b where b: "gmtime t = Some b" "70 \<le> tm_year b" "tm_year b < 8100" using gmtime_some by blast
  note f = gmtime_fields [OF b(1)]
  let ?d = "nat (tm_mday b)" and ?k = "nat (tm_mon b)" and ?y = "nat (tm_year b + 1900)" and ?h = "nat (tm_hour b)"
    and ?n = "nat (tm_min b)" and ?c = "nat (tm_sec b)" and ?w = "week_names ! nat (tm_wday b)"
  let ?D = "date_tm ?d ?k ?y ?h ?n ?c"
  have D: "?D = b\<lparr>tm_wday := 0\<rparr>" using f(1-5) b(2) by (simp add: date_tm_def)
  have "nat (tm_wday b) < 7" using f(6) by linarith
  then have "CHR '','' \<notin> set ?w" using week_name_comma by blast
  then have p: "Ns_ParseHttpTime (the (Ns_HttpTime [] now (Some t))) =
      Some (if impossible ?D then 0 else timegm ?D, the (Ns_HttpTime [] now (Some t)))"
    using f(1-5) b by (intro parse_date [of ?w ?d ?k ?y ?h ?n ?c]) (auto simp: Ns_HttpTime_def)
  have "timegm ?D = t" using f(7) by (simp add: D timegm_def)
  moreover have "impossible ?D \<longleftrightarrow> tm_year b > 120" using f(1-5) b(2) by (auto simp: D impossible_def)
  moreover have "tm_year b > 120 \<longleftrightarrow> \<not> t < 1609459200"
  proof -
    have "tm_year b \<le> 120 \<longleftrightarrow> days_to (tm_year b + 1901) \<le> 18628"
      using year_2021 [of "tm_year b + 1900"] by (simp add: add.commute)
    moreover have "120 < tm_year b \<Longrightarrow> 18628 \<le> days_to (tm_year b + 1900)"
      using days_to_mono [of 2021 "tm_year b + 1900"] by (simp add: days_to_def)
    ultimately have "tm_year b \<le> 120 \<longleftrightarrow> t div 86400 < 18628" using f(8,9) by linarith
    moreover have "t div 86400 < 18628 \<longleftrightarrow> t < 1609459200" by (rule iffI; linarith)
    ultimately show ?thesis by linarith
  qed
  ultimately show "\<exists>s. Ns_HttpTime [] now (Some t) = Some s \<and> Ns_ParseHttpTime s = Some (if t < 1609459200 then t else 0, s)"
    using p b(1) by (auto simp: Ns_HttpTime_def)
qed

theorem http_time_round_trip_witness:
  "\<exists>s. Ns_HttpTime [] 0 (Some 784111777) = Some s \<and> Ns_ParseHttpTime s = Some (784111777, s)"
  using http_time_round_trip [of 784111777 0] by simp

lemma MakeNum_some: "i < length s \<Longrightarrow> \<exists>v. MakeNum s i = Some v"
  by (simp add: MakeNum_def c_at_def arr_read_def)

lemma month_index_range: "0 \<le> i \<Longrightarrow> 0 \<le> month_index ms s i \<and> month_index ms s i \<le> max 0 (i + int (length ms) - 1)"
proof (induction ms s i rule: month_index.induct)
  case (2 m ms s i)
  then show ?case by force
qed simp

lemma MakeMonth_some:
  "i + 2 < length s \<Longrightarrow> \<exists>m s'. MakeMonth s i = Some (m, s') \<and> length s' = length s"
  by (simp add: MakeMonth_def c_at_def arr_read_def arr_write_def)

lemma read_fields_some:
  assumes "dp < length s" "mp + 2 < length s" "hp < length s" "np < length s" "sp < length s"
    and "\<And>s1. length s1 = length s \<Longrightarrow> \<exists>y. year s1 = Some y"
  shows "\<exists>t s1. read_fields s dp mp year hp np sp = Some (t, s1) \<and> length s1 = length s"
proof -
  obtain m s1 where "MakeMonth s mp = Some (m, s1)" "length s1 = length s" using MakeMonth_some assms(2) by blast
  moreover obtain d where "MakeNum s dp = Some d" using MakeNum_some assms(1) by blast
  moreover obtain y where "year s1 = Some y" using assms(6) calculation(2) by blast
  moreover obtain h n c where "MakeNum s1 hp = Some h" "MakeNum s1 np = Some n" "MakeNum s1 sp = Some c"
    using MakeNum_some [of _ s1] assms(3-5) calculation(2) by metis
  ultimately show ?thesis by (simp add: read_fields_def)
qed

lemma sum_take_months: "0 \<le> sum_list (take k (month_days y)) \<and> (k < 12 \<longrightarrow> sum_list (take k (month_days y)) \<le> year_days y - 31)"
proof
  have n: "\<forall>v \<in> set ls. 0 \<le> v \<Longrightarrow> sum_list (take i ls) \<le> sum_list ls \<and> 0 \<le> sum_list (take i ls)" for ls :: "int list" and i
    by (induction ls arbitrary: i) (auto simp: take_Cons sum_list_nonneg split: nat.split)
  have p: "\<forall>v \<in> set (month_days y). 0 \<le> v" by (simp add: month_days_def)
  then show "0 \<le> sum_list (take k (month_days y))" using n by blast
  show "k < 12 \<longrightarrow> sum_list (take k (month_days y)) \<le> year_days y - 31"
  proof
    assume "k < 12"
    then have "take k (month_days y) = take k (take 11 (month_days y))" by (simp add: min_def)
    also have "sum_list \<dots> \<le> sum_list (take 11 (month_days y))" using n [of "take 11 (month_days y)" k] p in_set_takeD by metis
    also have "\<dots> = year_days y - 31" by (simp add: month_days_def year_days_def)
    finally show "sum_list (take k (month_days y)) \<le> year_days y - 31" .
  qed
qed

lemma timegm_range: "\<not> impossible t \<Longrightarrow> 0 \<le> timegm t \<and> timegm t < 1609459200"
proof -
  assume t: "\<not> impossible t"
  let ?y = "tm_year t + 1900"
  let ?D = "days_to ?y + sum_list (take (nat (tm_mon t)) (month_days ?y)) + tm_mday t - 1"
  have r: "0 \<le> tm_sec t" "tm_sec t \<le> 59" "0 \<le> tm_min t" "tm_min t \<le> 59" "0 \<le> tm_hour t" "tm_hour t \<le> 23"
    "1 \<le> tm_mday t" "tm_mday t \<le> 31" "nat (tm_mon t) < 12" "1970 \<le> ?y" "?y \<le> 2020"
    using t by (auto simp: impossible_def)
  have "0 \<le> days_to ?y" using days_to_mono [OF r(10)] by (simp add: days_to_def)
  moreover have "days_to ?y + year_days ?y \<le> 18628" using year_2021 [of ?y] days_to_step [of ?y] r(11) by simp
  ultimately have "0 \<le> ?D" "?D \<le> 18627" using sum_take_months [of "nat (tm_mon t)" ?y] r(7,8,9) by linarith+
  then have "0 \<le> ?D * 86400" "?D * 86400 \<le> 1609372800" by simp_all
  then show ?thesis unfolding timegm_def using r(1-6) by linarith
qed

text \<open>
  C22: On every string the parser stays inside the string (the result is not \<open>None\<close>), keeps its length
  and returns a time between the epoch and the end of 2020.
\<close>

theorem parse_http_time_total:
  "\<exists>t s'. Ns_ParseHttpTime s = Some (t, s') \<and> 0 \<le> t \<and> t < 1609459200 \<and> length s' = length s"
proof -
  have fin: "\<exists>t s'. finish_time pre r = Some (t, s') \<and> 0 \<le> t \<and> t < 1609459200 \<and> length s' = length s"
    if "\<exists>t s1. r = Some (t, s1) \<and> length s1 = length s2" "length pre + length s2 = length s" for pre r s2
  proof -
    from that(1) obtain t s1 where "r = Some (t, s1)" "length s1 = length s2" by blast
    with that(2) timegm_range [of t] show ?thesis by (cases "impossible t") (simp_all add: finish_time_def)
  qed
  have two: "\<exists>y. (do { c \<leftarrow> MakeNum s1 7; y \<leftarrow> MakeNum s1 9; Some (100 * c - 1900 + y) }) = Some y"
    if "20 \<le> length s1" for s1
    using MakeNum_some [of 7 s1] MakeNum_some [of 9 s1] that by force
  have pre: "length (take (length s - length (dropWhile Q q)) s) + length (dropWhile Q q) = length s"
    if "length q \<le> length s" for Q q
    using that length_dropWhile_le [of Q q] by simp
  show ?thesis
    unfolding Ns_ParseHttpTime_def Let_def
    by (auto intro!: fin [OF read_fields_some] pre MakeNum_some two)
qed

end
