(* ===== verification/Conn.thy ===== *)
theory Conn
  imports FileVec Request HttpTime "HOL-Library.Word"
begin

unbundle bit_operations_syntax

text \<open>
  Connections and the headers of their responses: the part of \<open>Conn\<close> (\<open>nsd/nsd.h\<close>) that the
  response code reads and writes, and the header functions of \<open>nsd/return.c\<close>.  A connection is a
  record; the socket is \<open>None\<close> after the connection was closed.  What the headers take from the
  server (its name and version, the clock) comes in an environment.  The double behind the HTTP
  version is an exact number, as in \<open>Request\<close>.
\<close>

section \<open>Flags\<close>

definition NS_CONN_CLOSED :: "32 word" where "NS_CONN_CLOSED = 0x001"
definition NS_CONN_SKIPHDRS :: "32 word" where "NS_CONN_SKIPHDRS = 0x002"
definition NS_CONN_SKIPBODY :: "32 word" where "NS_CONN_SKIPBODY = 0x004"
definition NS_CONN_SENTHDRS :: "32 word" where "NS_CONN_SENTHDRS = 0x010"
definition NS_CONN_STREAM :: "32 word" where "NS_CONN_STREAM = 0x040"
definition NS_CONN_STREAM_CLOSE :: "32 word" where "NS_CONN_STREAM_CLOSE = 0x080"
definition NS_CONN_CHUNK :: "32 word" where "NS_CONN_CHUNK = 0x100"
definition NS_CONN_SENT_LAST_CHUNK :: "32 word" where "NS_CONN_SENT_LAST_CHUNK = 0x200"
definition NS_CONN_SENT_VIA_WRITER :: "32 word" where "NS_CONN_SENT_VIA_WRITER = 0x400"
definition NS_CONN_ZIPACCEPTED :: "32 word" where "NS_CONN_ZIPACCEPTED = 0x1000"

lemmas conn_flag_defs = NS_CONN_CLOSED_def NS_CONN_SKIPHDRS_def NS_CONN_SKIPBODY_def NS_CONN_SENTHDRS_def NS_CONN_STREAM_def
  NS_CONN_STREAM_CLOSE_def NS_CONN_CHUNK_def NS_CONN_SENT_LAST_CHUNK_def NS_CONN_SENT_VIA_WRITER_def NS_CONN_ZIPACCEPTED_def

definition has :: "32 word \<Rightarrow> 32 word \<Rightarrow> bool" where
  "has flags f \<longleftrightarrow> flags AND f \<noteq> 0"

text \<open>Every flag is one bit, so that testing, setting and clearing a flag are operations on that bit.\<close>

named_theorems flag_simps \<open>flags as bits\<close>

lemma flag_powers:
  "NS_CONN_CLOSED = 2 ^ 0" "NS_CONN_SKIPHDRS = 2 ^ 1" "NS_CONN_SKIPBODY = 2 ^ 2" "NS_CONN_SENTHDRS = 2 ^ 4"
  "NS_CONN_STREAM = 2 ^ 6" "NS_CONN_STREAM_CLOSE = 2 ^ 7" "NS_CONN_CHUNK = 2 ^ 8" "NS_CONN_SENT_LAST_CHUNK = 2 ^ 9"
  "NS_CONN_SENT_VIA_WRITER = 2 ^ 10" "NS_CONN_ZIPACCEPTED = 2 ^ 12"
  by (simp_all add: conn_flag_defs)

lemma has_power: "has w (2 ^ n) \<longleftrightarrow> bit w n"
  by (simp add: has_def and_exp_eq_0_iff_not_bit)

lemma has_flag [flag_simps]:
  "has w NS_CONN_CLOSED \<longleftrightarrow> bit w 0" "has w NS_CONN_SKIPHDRS \<longleftrightarrow> bit w 1" "has w NS_CONN_SKIPBODY \<longleftrightarrow> bit w 2"
  "has w NS_CONN_SENTHDRS \<longleftrightarrow> bit w 4" "has w NS_CONN_STREAM \<longleftrightarrow> bit w 6" "has w NS_CONN_STREAM_CLOSE \<longleftrightarrow> bit w 7"
  "has w NS_CONN_CHUNK \<longleftrightarrow> bit w 8" "has w NS_CONN_SENT_LAST_CHUNK \<longleftrightarrow> bit w 9"
  "has w NS_CONN_SENT_VIA_WRITER \<longleftrightarrow> bit w 10" "has w NS_CONN_ZIPACCEPTED \<longleftrightarrow> bit w 12"
  unfolding flag_powers by (rule has_power)+

lemma bit_power: "m < 32 \<Longrightarrow> bit (2 ^ m :: 32 word) n \<longleftrightarrow> n = m"
  by (auto simp: bit_exp_iff)

lemma bit_flag [flag_simps]:
  "bit NS_CONN_CLOSED n \<longleftrightarrow> n = 0" "bit NS_CONN_SKIPHDRS n \<longleftrightarrow> n = 1" "bit NS_CONN_SKIPBODY n \<longleftrightarrow> n = 2"
  "bit NS_CONN_SENTHDRS n \<longleftrightarrow> n = 4" "bit NS_CONN_STREAM n \<longleftrightarrow> n = 6" "bit NS_CONN_STREAM_CLOSE n \<longleftrightarrow> n = 7"
  "bit NS_CONN_CHUNK n \<longleftrightarrow> n = 8" "bit NS_CONN_SENT_LAST_CHUNK n \<longleftrightarrow> n = 9" "bit NS_CONN_SENT_VIA_WRITER n \<longleftrightarrow> n = 10"
  "bit NS_CONN_ZIPACCEPTED n \<longleftrightarrow> n = 12"
  unfolding flag_powers by (rule bit_power, simp)+

declare bit_or_iff [flag_simps] bit_and_iff [flag_simps] bit_not_iff [flag_simps]

section \<open>Connections\<close>

record Driver =
  keepwait :: int
  keepmaxuploadsize :: nat
  keepmaxdownloadsize :: nat
  extraHeaders :: "string option"
  wr_threads :: int
  wr_maxsize :: nat
  wr_doStream :: bool

record Conn =
  c_request :: "Ns_Request option"
  c_headers :: Ns_Set
  c_outputheaders :: Ns_Set
  c_contentLength :: nat
  c_flags :: "32 word"
  c_sock :: "Sock option"
  c_drv :: Driver
  c_mtime :: int
  c_nContentSent :: nat
  c_responseLength :: int
  c_responseStatus :: int
  c_keep :: int
  c_fd :: int
  c_requestCompress :: int
  c_compress :: int
  c_recursionCount :: int

record server_env =
  env_name :: string
  env_version :: string
  env_now :: int
  env_minsize :: int

definition Ns_ConnSetResponseStatus :: "Conn \<Rightarrow> int \<Rightarrow> Conn" where
  "Ns_ConnSetResponseStatus c st = (if st \<noteq> 200 then c\<lparr>c_responseStatus := st\<rparr> else c)"

definition Ns_ConnResponseStatus :: "Conn \<Rightarrow> int" where
  "Ns_ConnResponseStatus c = c_responseStatus c"

section \<open>Output headers\<close>

definition Ns_ConnSetHeaders :: "Conn \<Rightarrow> string \<Rightarrow> string \<Rightarrow> Conn" where
  "Ns_ConnSetHeaders c field value = c\<lparr>c_outputheaders := Ns_SetPut (c_outputheaders c) (Some field) (Some value)\<rparr>"

definition Ns_ConnUpdateHeaders :: "Conn \<Rightarrow> string \<Rightarrow> string \<Rightarrow> Conn option" where
  "Ns_ConnUpdateHeaders c field value =
     map_option (\<lambda>s. c\<lparr>c_outputheaders := s\<rparr>) (Ns_SetUpdate (c_outputheaders c) field value)"

text \<open>The text that \<open>printf\<close> makes of the format and its arguments is passed.\<close>

definition Ns_ConnPrintfHeaders :: "Conn \<Rightarrow> string \<Rightarrow> string \<Rightarrow> Conn" where
  "Ns_ConnPrintfHeaders c field printed =
     c\<lparr>c_outputheaders := Ns_SetPut (c_outputheaders c) (Some field) (Some printed)\<rparr>"

definition Ns_ConnCondSetHeaders :: "Conn \<Rightarrow> string \<Rightarrow> string \<Rightarrow> Conn" where
  "Ns_ConnCondSetHeaders c field value =
     (if Ns_SetIGet (c_outputheaders c) (Some field) = None
      then c\<lparr>c_outputheaders := Ns_SetPut (c_outputheaders c) (Some field) (Some value)\<rparr> else c)"

definition Ns_ConnReplaceHeaders :: "Conn \<Rightarrow> Ns_Set \<Rightarrow> Conn" where
  "Ns_ConnReplaceHeaders c newheaders = c\<lparr>c_outputheaders := Ns_SetCopy newheaders\<rparr>"

definition Ns_ConnSetTypeHeader :: "Conn \<Rightarrow> string \<Rightarrow> Conn option" where
  "Ns_ConnSetTypeHeader c type = Ns_ConnUpdateHeaders c ''Content-Type'' type"

definition Ns_ConnSetLengthHeader :: "Conn \<Rightarrow> nat \<Rightarrow> bool \<Rightarrow> Conn option" where
  "Ns_ConnSetLengthHeader c len doStream =
     (if \<not> doStream
      then map_option (\<lambda>c1. c1\<lparr>c_responseLength := int len\<rparr>) (Ns_ConnUpdateHeaders c ''Content-Length'' (show_nat len))
      else map_option (\<lambda>s. c\<lparr>c_outputheaders := s, c_responseLength := -1\<rparr>)
             (Ns_SetIDeleteKey (c_outputheaders c) (Some ''Content-Length'')))"

text \<open>\<open>Ns_HttpTime\<close> may return NULL; it is then stored as the value.\<close>

definition Ns_ConnSetLastModifiedHeader :: "server_env \<Rightarrow> Conn \<Rightarrow> int \<Rightarrow> Conn" where
  "Ns_ConnSetLastModifiedHeader e c mtime =
     (if Ns_SetIGet (c_outputheaders c) (Some ''Last-Modified'') = None
      then c\<lparr>c_outputheaders := Ns_SetPut (c_outputheaders c) (Some ''Last-Modified'') (Ns_HttpTime [] (env_now e) (Some mtime))\<rparr>
      else c)"

definition Ns_ConnSetExpiresHeader :: "Conn \<Rightarrow> string \<Rightarrow> Conn" where
  "Ns_ConnSetExpiresHeader c expires = Ns_ConnSetHeaders c ''Expires'' expires"

definition Ns_ConnQueueHeaders :: "Conn \<Rightarrow> int \<Rightarrow> Conn" where
  "Ns_ConnQueueHeaders c st = Ns_ConnSetResponseStatus c st"

definition Ns_ConnSetRequiredHeaders :: "Conn \<Rightarrow> string \<Rightarrow> nat \<Rightarrow> Conn option" where
  "Ns_ConnSetRequiredHeaders c type len =
     (case Ns_ConnSetTypeHeader c type of None \<Rightarrow> None | Some c1 \<Rightarrow> Ns_ConnSetLengthHeader c1 len False)"

section \<open>The header block\<close>

definition reasons :: "(int \<times> string) list" where
  "reasons = [
     (100, ''Continue''), (101, ''Switching Protocols''), (102, ''Processing''), (200, ''OK''), (201, ''Created''),
     (202, ''Accepted''), (203, ''Non-Authoritative Information''), (204, ''No Content''), (205, ''Reset Content''),
     (206, ''Partial Content''), (207, ''Multi-Status''), (300, ''Multiple Choices''), (301, ''Moved''), (302, ''Found''),
     (303, ''See Other''), (304, ''Not Modified''), (305, ''Use Proxy''), (307, ''Temporary Redirect''), (400, ''Bad Request''),
     (401, ''Unauthorized''), (402, ''Payment Required''), (403, ''Forbidden''), (404, ''Not Found''),
     (405, ''Method Not Allowed''), (406, ''Not Acceptable''), (407, ''Proxy Authentication Required''),
     (408, ''Request Timeout''), (409, ''Conflict''), (410, ''Gone''), (411, ''Length Required''),
     (412, ''Precondition Failed''), (413, ''Request Entity Too Large''), (414, ''Request-URI Too Long''),
     (415, ''Unsupported Media Type''), (416, ''Requested Range Not Satisfiable''), (417, ''Expectation Failed''),
     (422, ''Unprocessable Entity''), (423, ''Locked''), (424, ''Method Failure''), (425, ''Insufficient Space On Resource''),
     (500, ''Internal Server Error''), (501, ''Not Implemented''), (502, ''Bad Gateway''), (503, ''Service Unavailable''),
     (504, ''Gateway Timeout''), (505, ''HTTP Version Not Supported''), (507, ''Insufficient Storage'')]"

definition reason_of :: "int \<Rightarrow> string" where
  "reason_of st = (case find (\<lambda>r. fst r = st) reasons of Some r \<Rightarrow> snd r | None \<Rightarrow> ''Unknown Reason'')"

definition CRLF :: string where
  "CRLF = [CHR 0x0D, CHR 0x0A]"

text \<open>The conversion \<open>%.1f\<close>: to the nearest tenth, ties to the even one.\<close>

definition show_fixed1 :: "rat \<Rightarrow> string" where
  "show_fixed1 v =
     (let t = \<lfloor>10 * v + 1 / 2\<rfloor>; n = (if of_int t = 10 * v + 1 / 2 \<and> odd t then t - 1 else t)
      in show_int (n div 10) @ ''.'' @ show_int (n mod 10))"

text \<open>A tab behind every newline makes the rest of the value a continuation of the line.\<close>

function sanitize :: "string \<Rightarrow> string" where
  "sanitize value =
     (if CHR 0x0A \<in> set value
      then takeWhile (\<lambda>c. c \<noteq> CHR 0x0A) value @ [CHR 0x0A, CHR 0x09] @ sanitize (tl (dropWhile (\<lambda>c. c \<noteq> CHR 0x0A) value))
      else value)"
  by auto
termination
proof (relation "measure length", goal_cases)
  case (2 v)
  then have "dropWhile (\<lambda>c. c \<noteq> CHR 0x0A) v \<noteq> []" by (auto simp: dropWhile_eq_Nil_conv)
  then show ?case using length_dropWhile_le [of "\<lambda>c. c \<noteq> CHR 0x0A" v] by (simp add: less_le_trans [OF diff_less])
qed simp

declare sanitize.simps [simp del]

definition header_line :: "Ns_SetField \<Rightarrow> string" where
  "header_line f =
     (case (fld_name f, fld_value f) of
        (Some key, Some value) \<Rightarrow>
          key @ '': '' @ (if CHR 0x0A \<in> set value then sanitize value else value) @ CRLF
      | _ \<Rightarrow> [])"

definition Ns_ConnConstructHeaders :: "server_env \<Rightarrow> Conn \<Rightarrow> string \<Rightarrow> string option" where
  "Ns_ConnConstructHeaders e c ds =
     (case c_request c of
        None \<Rightarrow> None
      | Some r \<Rightarrow>
          Some (ds @ ''HTTP/'' @ show_fixed1 (min (req_version r) (11 / 10)) @ '' '' @ show_int (c_responseStatus c) @ '' '' @
            reason_of (c_responseStatus c) @ CRLF @
            ''Server: '' @ env_name e @ ''/'' @ env_version e @ CRLF @
            ''Date: '' @ (case Ns_HttpTime [] (env_now e) None of Some t \<Rightarrow> t | None \<Rightarrow> []) @ CRLF @
            (if c_sock c \<noteq> None then (case extraHeaders (c_drv c) of Some x \<Rightarrow> x | None \<Rightarrow> []) else []) @
            concat (map header_line (set_fields (c_outputheaders c))) @ CRLF))"

section \<open>No response splitting\<close>

text \<open>
  The logical lines of a header block as a client reads them: a newline ends the line unless a
  space or tab follows (RFC 2616, section 4.2).
\<close>

fun logical_lines :: "string \<Rightarrow> string \<Rightarrow> string list" where
  "logical_lines acc [] = (if acc = [] then [] else [acc])"
| "logical_lines acc (c # s) =
     (if c = CHR 0x0A \<and> (s = [] \<or> hd s \<notin> {CHR '' '', CHR 0x09}) then (acc @ [c]) # logical_lines [] s
      else logical_lines (acc @ [c]) s)"

lemma logical_lines_no_newline:
  "CHR 0x0A \<notin> set u \<Longrightarrow> logical_lines acc (u @ s) = logical_lines (acc @ u) s"
  by (induction u arbitrary: acc) auto

text \<open>A text in which a tab follows every newline adds no line.\<close>

lemma logical_lines_sanitized: "logical_lines acc (sanitize v @ s) = logical_lines (acc @ sanitize v) s"
proof (induction v arbitrary: acc rule: sanitize.induct)
  case (1 v)
  show ?case
  proof (cases "CHR 0x0A \<in> set v")
    case True
    let ?u = "takeWhile (\<lambda>c. c \<noteq> CHR 0x0A) v" and ?w = "tl (dropWhile (\<lambda>c. c \<noteq> CHR 0x0A) v)"
    have u: "CHR 0x0A \<notin> set ?u" by (auto dest: set_takeWhileD)
    have "logical_lines acc (sanitize v @ s) = logical_lines (acc @ ?u) ([CHR 0x0A, CHR 0x09] @ sanitize ?w @ s)"
      using True logical_lines_no_newline [OF u, of acc] by (simp add: sanitize.simps [of v])
    also have "\<dots> = logical_lines (acc @ ?u @ [CHR 0x0A, CHR 0x09]) (sanitize ?w @ s)" by simp
    also have "\<dots> = logical_lines (acc @ sanitize v) s" using 1 [OF True] True by (simp add: sanitize.simps [of v])
    finally show ?thesis .
  next
    case False
    then show ?thesis using logical_lines_no_newline by (simp add: sanitize.simps [of v])
  qed
qed

definition key_ok_header :: "Ns_SetField \<Rightarrow> bool" where
  "key_ok_header f \<longleftrightarrow>
     (case fld_name f of None \<Rightarrow> True | Some k \<Rightarrow> k \<noteq> [] \<and> CHR 0x0A \<notin> set k \<and> hd k \<notin> {CHR '' '', CHR 0x09})"

definition present :: "Ns_SetField \<Rightarrow> bool" where
  "present f \<longleftrightarrow> fld_name f \<noteq> None \<and> fld_value f \<noteq> None"

lemma header_line_absent: "\<not> present f \<Longrightarrow> header_line f = []"
  by (auto simp: present_def header_line_def split: option.splits)

lemma header_line_start:
  assumes "present f" "key_ok_header f"
  shows "header_line f \<noteq> []" "hd (header_line f) \<notin> {CHR '' '', CHR 0x09}"
  using assms by (auto simp: present_def key_ok_header_def header_line_def)

lemma logical_lines_header:
  assumes "present f" "key_ok_header f" "s = [] \<or> hd s \<notin> {CHR '' '', CHR 0x09}"
  shows "logical_lines [] (header_line f @ s) = header_line f # logical_lines [] s"
proof -
  obtain k v where f: "fld_name f = Some k" "fld_value f = Some v" using assms(1) by (auto simp: present_def)
  let ?v = "if CHR 0x0A \<in> set v then sanitize v else v"
  have k: "CHR 0x0A \<notin> set (k @ '': '')" using assms(2) f by (simp add: key_ok_header_def)
  have sv: "?v = sanitize v" by (simp add: sanitize.simps [of v])
  have "logical_lines [] (header_line f @ s) = logical_lines (k @ '': '' @ sanitize v) (CRLF @ s)"
    using logical_lines_no_newline [OF k, of "[]"] logical_lines_sanitized [of "k @ '': ''" v "CRLF @ s"]
    by (simp add: header_line_def f sv)
  also have "\<dots> = (k @ '': '' @ sanitize v @ CRLF) # logical_lines [] s"
    using assms(3) by (simp add: CRLF_def)
  finally show ?thesis by (simp add: header_line_def f sv)
qed

lemma logical_lines_fields:
  "\<forall>f \<in> set fs. key_ok_header f \<Longrightarrow> logical_lines [] (concat (map header_line fs)) = map header_line (filter present fs)"
proof (induction fs)
  case (Cons f fs)
  have next_ok: "concat (map header_line fs) = [] \<or> hd (concat (map header_line fs)) \<notin> {CHR '' '', CHR 0x09}"
    if "\<forall>f \<in> set fs. key_ok_header f" for fs
    using that
  proof (induction fs)
    case (Cons g gs)
    then show ?case using header_line_start [of g] header_line_absent [of g] by (cases "present g") (auto simp: hd_append)
  qed simp
  show ?case
  proof (cases "present f")
    case True
    then show ?thesis using logical_lines_header [OF True _ next_ok] Cons by simp
  next
    case False
    then show ?thesis using Cons header_line_absent by simp
  qed
qed simp

text \<open>
  C12: Whatever the values of the output headers contain, the header block has exactly one logical line
  for each header with a name and a value, in order, provided the names are header names; the
  block ends with an empty line.
\<close>

theorem construct_headers_no_splitting:
  assumes "c_request c = Some r" "\<forall>f \<in> set (set_fields (c_outputheaders c)). key_ok_header f"
  shows "\<exists>pre body. Ns_ConnConstructHeaders e c ds = Some (ds @ pre @ body @ CRLF) \<and>
    logical_lines [] body = map header_line (filter present (set_fields (c_outputheaders c))) \<and>
    (\<forall>hs. Ns_ConnConstructHeaders e (c\<lparr>c_outputheaders := hs\<rparr>) ds = Some (ds @ pre @ concat (map header_line (set_fields hs)) @ CRLF))"
  using logical_lines_fields [OF assms(2)] assms(1)
  by (intro exI [of _ "''HTTP/'' @ show_fixed1 (min (req_version r) (11 / 10)) @ '' '' @ show_int (c_responseStatus c) @ '' '' @
            reason_of (c_responseStatus c) @ CRLF @
            ''Server: '' @ env_name e @ ''/'' @ env_version e @ CRLF @
            ''Date: '' @ (case Ns_HttpTime [] (env_now e) None of Some t \<Rightarrow> t | None \<Rightarrow> []) @ CRLF @
            (if c_sock c \<noteq> None then (case extraHeaders (c_drv c) of Some x \<Rightarrow> x | None \<Rightarrow> []) else [])"]
      exI [of _ "concat (map header_line (set_fields (c_outputheaders c)))"])
     (simp add: Ns_ConnConstructHeaders_def)

definition demo_conn :: Conn where
  "demo_conn = \<lparr>c_request = Some (Ns_ResetRequest\<lparr>req_version := 11 / 10\<rparr>), c_headers = Ns_SetCreate None,
     c_outputheaders = Ns_SetCreate None, c_contentLength = 0, c_flags = 0, c_sock = Some \<lparr>wire = [], calls = 0\<rparr>,
     c_drv = \<lparr>keepwait = 5, keepmaxuploadsize = 0, keepmaxdownloadsize = 0, extraHeaders = None, wr_threads = 0, wr_maxsize = 0,
              wr_doStream = False\<rparr>,
     c_mtime = 0, c_nContentSent = 0, c_responseLength = -1, c_responseStatus = 200, c_keep = -1, c_fd = 0,
     c_requestCompress = 0, c_compress = -1, c_recursionCount = 0\<rparr>"

definition demo_env :: server_env where
  "demo_env = \<lparr>env_name = ''NaviServer'', env_version = ''4.99'', env_now = 0, env_minsize = 512\<rparr>"

theorem construct_headers_no_splitting_witness:
  "\<exists>pre body. Ns_ConnConstructHeaders demo_env (Ns_ConnSetHeaders demo_conn ''X-User'' (''joe'' @ CRLF @ ''Set-Cookie: a=b'')) [] =
      Some (pre @ body @ CRLF) \<and> logical_lines [] body = [''X-User: joe'' @ CRLF @ [CHR 0x09] @ ''Set-Cookie: a=b'' @ CRLF]"
proof -
  let ?c = "Ns_ConnSetHeaders demo_conn ''X-User'' (''joe'' @ CRLF @ ''Set-Cookie: a=b'')"
  have f: "set_fields (c_outputheaders ?c) = [\<lparr>fld_name = Some ''X-User'', fld_value = Some (''joe'' @ CRLF @ ''Set-Cookie: a=b'')\<rparr>]"
    by (simp add: Ns_ConnSetHeaders_def demo_conn_def)
  have r: "c_request ?c = Some (Ns_ResetRequest\<lparr>req_version := 11 / 10\<rparr>)"
    by (simp add: Ns_ConnSetHeaders_def demo_conn_def)
  have k: "\<forall>f \<in> set (set_fields (c_outputheaders ?c)). key_ok_header f" unfolding f by (simp add: key_ok_header_def)
  have l: "map header_line (filter present (set_fields (c_outputheaders ?c))) = [''X-User: joe'' @ CRLF @ [CHR 0x09] @ ''Set-Cookie: a=b'' @ CRLF]"
    unfolding f by (simp add: present_def header_line_def CRLF_def sanitize.simps)
  show ?thesis using construct_headers_no_splitting [OF r k, of demo_env "[]"] unfolding l append_Nil by blast
qed

end
