(* ===== verification/ConnIO.thy ===== *)
theory ConnIO
  imports Conn
begin

text \<open>
  Writing responses and reading request content: \<open>nsd/connio.c\<close>.  The send path ends in
  \<open>Ns_SockSendBufs\<close>; output that \<open>NsWriterQueue\<close> (\<open>nsd/driver.c\<close>) accepts for a writer thread leaves
  the model with the result \<open>ToWriter\<close>, and \<open>writer_refuses\<close> states when it does not accept.  The
  vector that \<open>Ns_ConnWriteVData\<close> assembles has the capacity the code allocates; a write behind it
  is \<open>IoFault\<close>.  The Tcl encoding and zlib are parameters.
\<close>

section \<open>Keep-alive and headers\<close>

definition HdrEq :: "Ns_Set \<Rightarrow> string \<Rightarrow> string \<Rightarrow> bool" where
  "HdrEq hset name value =
     (case Ns_SetIGet hset (Some name) of
        None \<Rightarrow> False
      | Some hdrvalue \<Rightarrow> map tolower (take (length value) hdrvalue) = map tolower value)"

definition CheckKeep :: "Conn \<Rightarrow> bool" where
  "CheckKeep c =
     (if keepwait (c_drv c) > 0 then
        if c_keep c > 0 then True
        else if c_keep c = -1 then
          (case c_request c of
             None \<Rightarrow> False
           | Some r \<Rightarrow>
               if req_version r = 1 \<and> HdrEq (c_headers c) ''connection'' ''keep-alive'' \<or>
                  req_version r > 1 \<and> \<not> HdrEq (c_headers c) ''connection'' ''close'' then
                 if c_contentLength c > 0 \<and> Ns_SetIGet (c_headers c) (Some ''Content-Length'') = None then False
                 else if keepmaxuploadsize (c_drv c) > 0 \<and> c_contentLength c > keepmaxuploadsize (c_drv c) then False
                 else if keepmaxdownloadsize (c_drv c) > 0 \<and> c_responseLength c > 0 \<and>
                         nat (c_responseLength c) > keepmaxdownloadsize (c_drv c) then False
                 else if has (c_flags c) NS_CONN_CHUNK \<or>
                         Ns_SetIGet (c_outputheaders c) (Some ''Content-Length'') \<noteq> None \<or>
                         HdrEq (c_outputheaders c) ''Content-Type'' ''multipart/byteranges'' then True
                 else False
               else False)
        else False
      else False)"

definition Ns_CompleteHeaders :: "server_env \<Rightarrow> Conn \<Rightarrow> nat \<Rightarrow> 32 word \<Rightarrow> string \<Rightarrow> (bool \<times> Conn \<times> string) option" where
  "Ns_CompleteHeaders e c dataLength flags ds =
     (if has (c_flags c) NS_CONN_SKIPHDRS then Some (False, c, ds)
      else do {
        c1 \<leftarrow> (if has flags NS_CONN_STREAM then
                 let c1 = c\<lparr>c_flags := c_flags c OR NS_CONN_STREAM\<rparr> in
                 if c_responseLength c1 < 0 then
                   (case c_request c1 of
                      None \<Rightarrow> None
                    | Some r \<Rightarrow>
                        if req_version r > 1 \<and> c_keep c1 \<noteq> 0 \<and>
                           \<not> HdrEq (c_outputheaders c1) ''Content-Type'' ''multipart/byteranges''
                        then Some (c1\<lparr>c_flags := c_flags c1 OR NS_CONN_CHUNK\<rparr>) else Some c1)
                 else Some c1
               else if c_responseLength c < 0 then Ns_ConnSetLengthHeader c dataLength False else Some c);
        let c2 = c1\<lparr>c_keep := (if CheckKeep c1 then 1 else 0)\<rparr>;
        let c3 = Ns_ConnSetHeaders c2 ''Connection'' (if c_keep c2 \<noteq> 0 then ''keep-alive'' else ''close'');
        let c4 = (if has (c_flags c3) NS_CONN_CHUNK then Ns_ConnSetHeaders c3 ''Transfer-Encoding'' ''chunked'' else c3);
        out \<leftarrow> Ns_ConnConstructHeaders e c4 ds;
        Some (True, c4, out) })"

section \<open>Sending\<close>

record io_env =
  io_maxiov :: nat
  io_send :: send_proc
  io_wait :: "nat \<Rightarrow> bool"

datatype 'r io_end = IoDone 'r | ToWriter | IoFault

text \<open>The first tests of \<open>NsWriterQueue\<close> for memory buffers (\<open>everysize\<close> is 0): it leaves them to the caller.\<close>

definition writer_refuses :: "Conn \<Rightarrow> nat \<Rightarrow> bool" where
  "writer_refuses c nsend \<longleftrightarrow>
     c_sock c = None \<or> wr_threads (c_drv c) = 0 \<or> nsend < wr_maxsize (c_drv c) \<and> c_fd c = 0 \<or>
     (has (c_flags c) NS_CONN_STREAM \<or> c_fd c > 0) \<and> \<not> wr_doStream (c_drv c)"

text \<open>The fuel of the send loop covers one turn per byte and two more (\<open>send_bufs_all\<close>).\<close>

definition Ns_ConnSend :: "io_env \<Rightarrow> Conn \<Rightarrow> iovec list \<Rightarrow> (int \<times> Conn) io_end" where
  "Ns_ConnSend io c bufs =
     (case c_sock c of
        None \<Rightarrow> IoDone (-1, c)
      | Some s \<Rightarrow>
          let toWrite = sum_list (map iov_len bufs) in
          if toWrite = 0 then IoDone (0, c)
          else if \<not> writer_refuses c toWrite then ToWriter
          else
            (case Ns_SockSendBufs (io_maxiov io) (length (vec_bytes bufs) + 2) (io_send io) (io_wait io) s bufs of
               (SendDone sent, s1) \<Rightarrow>
                 IoDone (sent, c\<lparr>c_sock := Some s1,
                   c_nContentSent := (if sent > 0 then c_nContentSent c + nat sent else c_nContentSent c)\<rparr>)
             | _ \<Rightarrow> IoFault))"

definition mk_iov :: "string \<Rightarrow> iovec" where
  "mk_iov s = \<lparr>iov_base = Some s, iov_len = length s\<rparr>"

text \<open>Storing buffers behind those already in an array of \<open>cap\<close> elements.\<close>

definition push_vec :: "nat \<Rightarrow> iovec list \<Rightarrow> iovec list \<Rightarrow> iovec list option" where
  "push_vec cap sb vs = (if length sb + length vs \<le> cap then Some (sb @ vs) else None)"

text \<open>The conversion \<open>%lx\<close>.\<close>

definition hex_digit :: "nat \<Rightarrow> char" where
  "hex_digit d = (if d < 10 then char_of (48 + d) else char_of (87 + d))"

function show_hex :: "nat \<Rightarrow> string" where
  "show_hex n = (if n < 16 then [hex_digit n] else show_hex (n div 16) @ [hex_digit (n mod 16)])"
  by auto
termination by (relation "measure id") auto

declare show_hex.simps [simp del]

definition last_chunk :: string where
  "last_chunk = ''0'' @ CRLF @ CRLF"

definition chunk_bufs :: "nat \<Rightarrow> iovec list \<Rightarrow> iovec list \<Rightarrow> nat \<Rightarrow> bool \<Rightarrow> iovec list option" where
  "chunk_bufs cap sb bufs bodyLength close =
     do {
       sb1 \<leftarrow> (if bodyLength > 0
              then do { a \<leftarrow> push_vec cap sb [mk_iov (show_hex bodyLength @ CRLF)];
                        b \<leftarrow> push_vec cap a bufs;
                        push_vec cap b [mk_iov CRLF] }
              else Some sb);
       if close then push_vec cap sb1 [mk_iov last_chunk] else Some sb1 }"

definition Ns_ConnWriteVData :: "io_env \<Rightarrow> server_env \<Rightarrow> Conn \<Rightarrow> iovec list \<Rightarrow> 32 word \<Rightarrow> (status \<times> Conn) io_end" where
  "Ns_ConnWriteVData io e c bufs flags =
     (let neededBufs = length bufs + 2 + 1;
          cap = (if neededBufs > 32 then neededBufs else 32);
          bodyLength = Ns_SumVec bufs;
          c1 = (if has flags NS_CONN_STREAM then c\<lparr>c_flags := c_flags c OR NS_CONN_STREAM\<rparr> else c)
      in case (if \<not> has (c_flags c1) NS_CONN_SENTHDRS
               then (case Ns_CompleteHeaders e (c1\<lparr>c_flags := c_flags c1 OR NS_CONN_SENTHDRS\<rparr>) bodyLength flags [] of
                       None \<Rightarrow> None
                     | Some (True, c2, ds) \<Rightarrow> Some (c2, [mk_iov ds])
                     | Some (False, c2, ds) \<Rightarrow> Some (c2, []))
               else Some (c1, [])) of
           None \<Rightarrow> IoFault
         | Some (c2, sb) \<Rightarrow>
             (let chunked = has (c_flags c2) NS_CONN_CHUNK;
                  skip = has (c_flags c2) NS_CONN_SKIPBODY;
                  close = has flags NS_CONN_STREAM_CLOSE
              in case (if skip then Some sb
                       else if \<not> chunked then (if sb = [] then Some bufs else push_vec cap sb bufs)
                       else chunk_bufs cap sb bufs bodyLength close) of
                   None \<Rightarrow> IoFault
                 | Some sb1 \<Rightarrow>
                     (let c3 = (if \<not> skip \<and> chunked \<and> close
                                then c2\<lparr>c_flags := (c_flags c2 AND NOT NS_CONN_STREAM) OR NS_CONN_SENT_LAST_CHUNK\<rparr> else c2);
                          toWrite = Ns_SumVec sb1
                      in case Ns_ConnSend io c3 sb1 of
                           IoDone (nwrote, c4) \<Rightarrow> IoDone (if nwrote < int toWrite then NS_ERROR else NS_OK, c4)
                         | ToWriter \<Rightarrow> ToWriter
                         | IoFault \<Rightarrow> IoFault)))"

definition Ns_ConnWriteData :: "io_env \<Rightarrow> server_env \<Rightarrow> Conn \<Rightarrow> string \<Rightarrow> 32 word \<Rightarrow> (status \<times> Conn) io_end" where
  "Ns_ConnWriteData io e c buf flags = Ns_ConnWriteVData io e c [mk_iov buf] flags"

definition Ns_ConnPuts :: "io_env \<Rightarrow> server_env \<Rightarrow> Conn \<Rightarrow> string \<Rightarrow> (status \<times> Conn) io_end" where
  "Ns_ConnPuts io e c s = Ns_ConnWriteVData io e c [mk_iov (cstr s)] NS_CONN_STREAM"

definition Ns_ConnSendDString :: "io_env \<Rightarrow> server_env \<Rightarrow> Conn \<Rightarrow> string \<Rightarrow> (status \<times> Conn) io_end" where
  "Ns_ConnSendDString io e c ds = Ns_ConnWriteVData io e c [mk_iov ds] NS_CONN_STREAM"

definition Ns_WriteConn :: "io_env \<Rightarrow> server_env \<Rightarrow> Conn \<Rightarrow> string \<Rightarrow> (status \<times> Conn) io_end" where
  "Ns_WriteConn io e c buf = Ns_ConnWriteVData io e c [mk_iov buf] NS_CONN_STREAM"

section \<open>Character data and compression\<close>

definition Ns_ConnGetCompression :: "Conn \<Rightarrow> int" where
  "Ns_ConnGetCompression c = c_requestCompress c"

definition CheckCompress :: "server_env \<Rightarrow> Conn \<Rightarrow> iovec list \<Rightarrow> 32 word \<Rightarrow> int \<times> Conn" where
  "CheckCompress e c bufs ioflags =
     (let level = Ns_ConnGetCompression c in
      if level > 0 \<and> (has ioflags NS_CONN_STREAM \<or> bufs \<noteq> [] \<and> int (Ns_SumVec bufs) \<ge> env_minsize e \<or>
                      c_responseLength c \<ge> env_minsize e) \<and>
         \<not> has (c_flags c) NS_CONN_SENTHDRS \<and> \<not> has (c_flags c) NS_CONN_SKIPBODY
      then let c1 = Ns_ConnSetHeaders c ''Vary'' ''Accept-Encoding'' in
           if has (c_flags c1) NS_CONN_ZIPACCEPTED
           then (level, Ns_ConnSetHeaders c1 ''Content-Encoding'' ''gzip'') else (0, c1)
      else (0, c))"

text \<open>
  The output encoding is \<open>None\<close> if there is none or if it is UTF-8.  \<open>Tcl_UtfToExternalDString\<close>
  initialises the string it stores to, so that every buffer replaces the conversion of the one before.
\<close>

definition transcode :: "(string \<Rightarrow> string) option \<Rightarrow> iovec list \<Rightarrow> iovec list" where
  "transcode enc bufs =
     (case enc of
        Some f \<Rightarrow>
          if bufs \<noteq> [] \<and> iov_len (hd bufs) > 0
          then [mk_iov (foldl (\<lambda>ds b. if iov_len b > 0 then f (iov_bytes b) else ds) [] bufs)] else bufs
      | None \<Rightarrow> bufs)"

definition Ns_ConnWriteVChars :: "(string \<Rightarrow> string) option \<Rightarrow> ('z \<Rightarrow> string \<Rightarrow> int \<Rightarrow> bool \<Rightarrow> string \<times> 'z) \<Rightarrow> 'z \<Rightarrow>
    io_env \<Rightarrow> server_env \<Rightarrow> Conn \<Rightarrow> iovec list \<Rightarrow> 32 word \<Rightarrow> 'z \<times> (status \<times> Conn) io_end" where
  "Ns_ConnWriteVChars enc gzip z io e c bufs flags =
     (let bufs1 = transcode enc bufs;
          c1 = (if c_compress c < 0
                then (case CheckCompress e c bufs1 flags of (level, c1) \<Rightarrow> c1\<lparr>c_compress := level\<rparr>) else c)
      in if c_compress c1 > 0 \<and> bufs1 \<noteq> []
         then (case gzip z (vec_bytes bufs1) (c_compress c1) (\<not> has flags NS_CONN_STREAM) of
                 (gz, z1) \<Rightarrow> (z1, Ns_ConnWriteVData io e c1 [mk_iov gz] flags))
         else (z, Ns_ConnWriteVData io e c1 bufs1 flags))"

definition Ns_ConnWriteChars :: "(string \<Rightarrow> string) option \<Rightarrow> ('z \<Rightarrow> string \<Rightarrow> int \<Rightarrow> bool \<Rightarrow> string \<times> 'z) \<Rightarrow> 'z \<Rightarrow>
    io_env \<Rightarrow> server_env \<Rightarrow> Conn \<Rightarrow> string \<Rightarrow> 32 word \<Rightarrow> 'z \<times> (status \<times> Conn) io_end" where
  "Ns_ConnWriteChars enc gzip z io e c buf flags = Ns_ConnWriteVChars enc gzip z io e c [mk_iov buf] flags"

definition Ns_WriteCharConn :: "(string \<Rightarrow> string) option \<Rightarrow> ('z \<Rightarrow> string \<Rightarrow> int \<Rightarrow> bool \<Rightarrow> string \<times> 'z) \<Rightarrow> 'z \<Rightarrow>
    io_env \<Rightarrow> server_env \<Rightarrow> Conn \<Rightarrow> string \<Rightarrow> 'z \<times> (status \<times> Conn) io_end" where
  "Ns_WriteCharConn enc gzip z io e c buf = Ns_ConnWriteVChars enc gzip z io e c [mk_iov buf] NS_CONN_STREAM"

section \<open>Closing\<close>

text \<open>
  The connection and what is handed to \<open>NsSockClose\<close>: the socket and whether to keep it alive
  (nothing if a writer thread has it).  The callbacks of the interpreter are left out.
\<close>

definition Ns_ConnClose :: "(string \<Rightarrow> string) option \<Rightarrow> ('z \<Rightarrow> string \<Rightarrow> int \<Rightarrow> bool \<Rightarrow> string \<times> 'z) \<Rightarrow> 'z \<Rightarrow>
    io_env \<Rightarrow> server_env \<Rightarrow> Conn \<Rightarrow> (Conn \<times> (Sock \<times> bool) option) io_end" where
  "Ns_ConnClose enc gzip z io e c =
     (if c_sock c = None then IoDone (c, None)
      else
        case (if has (c_flags c) NS_CONN_STREAM \<and> (has (c_flags c) NS_CONN_CHUNK \<or> c_compress c > 0)
              then (case snd (Ns_ConnWriteVChars enc gzip z io e c [] NS_CONN_STREAM_CLOSE) of
                      IoDone (st, c1) \<Rightarrow> IoDone c1 | ToWriter \<Rightarrow> ToWriter | IoFault \<Rightarrow> IoFault)
              else IoDone c) of
          IoDone c1 \<Rightarrow>
            IoDone (c1\<lparr>c_sock := None, c_flags := c_flags c1 OR NS_CONN_CLOSED\<rparr>,
              if has (c_flags c1) NS_CONN_SENT_VIA_WRITER then None
              else map_option (\<lambda>s. (s, c_keep c1 > 0)) (c_sock c1))
        | ToWriter \<Rightarrow> ToWriter
        | IoFault \<Rightarrow> IoFault)"

section \<open>Reading request content\<close>

text \<open>
  The content of a request in memory: the bytes from the read position to the terminating NUL, and
  the number of bytes the request counts as available.
\<close>

record ReqBuf =
  rb_next :: string
  rb_avail :: nat

definition Ns_ConnRead :: "Conn \<Rightarrow> ReqBuf \<Rightarrow> nat \<Rightarrow> string \<times> ReqBuf" where
  "Ns_ConnRead c rb toRead =
     (if c_sock c = None then ([], rb)
      else let n = (if toRead > rb_avail rb then rb_avail rb else toRead)
           in (take n (rb_next rb), rb\<lparr>rb_next := drop n (rb_next rb), rb_avail := rb_avail rb - n\<rparr>))"

text \<open>
  \<open>Ns_ConnGets\<close> stores to a buffer whose old content is \<open>buf\<close>, from position \<open>i\<close> on; \<open>None\<close> is NULL.
  It takes the number of bytes \<open>Ns_ConnRead\<close> returns for an error code.
\<close>

function conn_gets_loop :: "Conn \<Rightarrow> ReqBuf \<Rightarrow> string \<Rightarrow> nat \<Rightarrow> nat \<Rightarrow> string option \<times> ReqBuf" where
  "conn_gets_loop c rb buf i bufsize =
     (if bufsize > 1 then
        (case Ns_ConnRead c rb 1 of
           (got, rb1) \<Rightarrow>
             if length got \<noteq> 0 then (None, rb1)
             else if buf ! i = CHR 0x0A then (Some (take (i + 1) buf), rb1)
             else conn_gets_loop c rb1 buf (i + 1) (bufsize - 1))
      else (Some (take i buf), rb))"
  by auto
termination by (relation "measure (\<lambda>(c, rb, buf, i, bufsize). bufsize)") auto

declare conn_gets_loop.simps [simp del]

definition Ns_ConnGets :: "string \<Rightarrow> Conn \<Rightarrow> ReqBuf \<Rightarrow> string option \<times> ReqBuf" where
  "Ns_ConnGets buf c rb = conn_gets_loop c rb buf 0 (length buf)"

text \<open>The dstring with the line appended, the number of bytes consumed, and what is left to read.\<close>

definition Ns_ConnReadLine :: "nat \<Rightarrow> Conn \<Rightarrow> ReqBuf \<Rightarrow> string \<Rightarrow> (string \<times> nat \<times> ReqBuf) option" where
  "Ns_ConnReadLine maxline c rb ds =
     (let nread = length (takeWhile (\<lambda>ch. ch \<noteq> CHR 0x0A) (rb_next rb))
      in if c_sock c = None \<or> CHR 0x0A \<notin> set (rb_next rb) \<or> nread > maxline then None
         else let ncopy = (if nread > 0 \<and> rb_next rb ! (nread - 1) = CHR 0x0D then nread - 1 else nread)
              in Some (ds @ take ncopy (rb_next rb), nread + 1,
                       rb\<lparr>rb_next := drop (nread + 1) (rb_next rb), rb_avail := rb_avail rb - (nread + 1)\<rparr>))"

function read_headers_loop :: "nat \<Rightarrow> nat \<Rightarrow> Ns_HeaderCaseDisposition \<Rightarrow> Conn \<Rightarrow> ReqBuf \<Rightarrow> Ns_Set \<Rightarrow> nat \<Rightarrow> status \<times> nat \<times> Ns_Set \<times> ReqBuf" where
  "read_headers_loop maxline maxhdr disp c rb hset nread =
     (if nread < maxhdr then
        (case Ns_ConnReadLine maxline c rb [] of
           None \<Rightarrow> (NS_ERROR, nread, hset, rb)
         | Some (line, nline, rb1) \<Rightarrow>
             let nread1 = nread + nline in
             if nread1 > maxhdr then (NS_ERROR, nread1, hset, rb1)
             else if line = [] then (NS_OK, nread1, hset, rb1)
             else (case Ns_ParseHeader hset line disp of
                     None \<Rightarrow> (NS_ERROR, nread1, hset, rb1)
                   | Some hset1 \<Rightarrow> read_headers_loop maxline maxhdr disp c rb1 hset1 nread1))
      else (NS_OK, nread, hset, rb))"
  by auto
termination
  by (relation "measure (\<lambda>(maxline, maxhdr, disp, c, rb, hset, nread). maxhdr - nread)")
     (auto simp: Ns_ConnReadLine_def Let_def split: if_splits)

declare read_headers_loop.simps [simp del]

definition Ns_ConnReadHeaders :: "nat \<Rightarrow> nat \<Rightarrow> Ns_HeaderCaseDisposition \<Rightarrow> Conn \<Rightarrow> ReqBuf \<Rightarrow> Ns_Set \<Rightarrow> status \<times> nat \<times> Ns_Set \<times> ReqBuf" where
  "Ns_ConnReadHeaders maxline maxhdr disp c rb hset = read_headers_loop maxline maxhdr disp c rb hset 0"

definition Ns_ConnCopyToDString :: "Conn \<Rightarrow> ReqBuf \<Rightarrow> nat \<Rightarrow> string \<Rightarrow> status \<times> string \<times> ReqBuf" where
  "Ns_ConnCopyToDString c rb toCopy ds =
     (if c_sock c = None \<or> rb_avail rb < toCopy then (NS_ERROR, ds, rb)
      else (NS_OK, ds @ take toCopy (rb_next rb),
            rb\<lparr>rb_next := drop toCopy (rb_next rb), rb_avail := rb_avail rb - toCopy\<rparr>))"

definition Ns_ConnFlushContent :: "Conn \<Rightarrow> ReqBuf \<Rightarrow> status \<times> ReqBuf" where
  "Ns_ConnFlushContent c rb =
     (if c_sock c = None then (NS_ERROR, rb)
      else (NS_OK, rb\<lparr>rb_next := drop (rb_avail rb) (rb_next rb), rb_avail := 0\<rparr>))"


section \<open>The chunked encoding\<close>

text \<open>
  A client's decoder (RFC 2616, section 3.6.1, without extensions and trailers): the content and
  what follows the last chunk.
\<close>

function dechunk :: "string \<Rightarrow> (string \<times> string) option" where
  "dechunk s =
     (let ds = takeWhile (is_base_digit 16) s; r = drop (length ds) s; n = digits_val 16 ds; r2 = drop 2 r
      in if ds = [] \<or> take 2 r \<noteq> CRLF then None
         else if n = 0 then (if take 2 r2 = CRLF then Some ([], drop 2 r2) else None)
         else if n \<le> length r2 \<and> take 2 (drop n r2) = CRLF
         then map_option (\<lambda>(b, t). (take n r2 @ b, t)) (dechunk (drop (n + 2) r2))
         else None)"
  by auto
termination by (relation "measure length") auto

declare dechunk.simps [simp del]

definition chunk_text :: "string \<Rightarrow> string" where
  "chunk_text b = (if b = [] then [] else show_hex (length b) @ CRLF @ b @ CRLF)"

lemma hex_digit_val: "d < 16 \<Longrightarrow> digit_val (hex_digit d) = Some d"
  by (auto simp: hex_digit_def digit_val_def)

lemma show_hex_ne [simp]: "show_hex n \<noteq> []"
  by (subst show_hex.simps) simp

lemma show_hex_digits: "\<forall>c \<in> set (show_hex n). is_base_digit 16 c"
proof (induction n rule: show_hex.induct)
  case (1 n)
  then show ?case by (subst show_hex.simps) (auto simp: is_base_digit_def hex_digit_val)
qed

lemma digits_val_show_hex: "digits_val 16 (show_hex n) = n"
proof (induction n rule: show_hex.induct)
  case (1 n)
  show ?case
  proof (cases "n < 16")
    case True
    then show ?thesis by (subst show_hex.simps) (simp add: digits_val_def hex_digit_val)
  next
    case False
    then have "digits_val 16 (show_hex n) = digits_val 16 (show_hex (n div 16)) * 16 + n mod 16"
      by (subst show_hex.simps) (simp add: digits_val_def hex_digit_val)
    with 1 [OF False] show ?thesis by simp
  qed
qed

lemma CRLF_facts: "length CRLF = 2" "\<not> is_base_digit 16 (hd CRLF)" "CRLF \<noteq> []"
  by (simp_all add: CRLF_def is_base_digit_def digit_val_def)

lemma takeWhile_hex: "takeWhile (is_base_digit 16) (show_hex n @ CRLF @ r) = show_hex n"
  using show_hex_digits [of n] by (simp add: takeWhile_append CRLF_def is_base_digit_def digit_val_def)

lemma dechunk_chunk:
  assumes "b \<noteq> []"
  shows "dechunk (chunk_text b @ r) = map_option (\<lambda>(x, t). (b @ x, t)) (dechunk r)"
proof -
  have s: "chunk_text b @ r = show_hex (length b) @ CRLF @ b @ CRLF @ r" using assms by (simp add: chunk_text_def)
  show ?thesis
    unfolding s using assms CRLF_facts(1)
    by (subst dechunk.simps) (simp only: takeWhile_hex digits_val_show_hex Let_def append_eq_conv_conj drop_append, simp)
qed

lemma dechunk_last: "dechunk (last_chunk @ t) = Some ([], t)"
proof -
  have "show_hex 0 = ''0''" by (simp add: show_hex.simps hex_digit_def char_of_eq_iff)
  then have s: "last_chunk @ t = show_hex 0 @ CRLF @ CRLF @ t" by (simp add: last_chunk_def)
  show ?thesis
    unfolding s using CRLF_facts(1)
    by (subst dechunk.simps) (simp only: takeWhile_hex digits_val_show_hex Let_def append_eq_conv_conj drop_append, simp)
qed

lemma dechunk_stream: "dechunk (concat (map chunk_text bs) @ last_chunk @ t) = Some (concat bs, t)"
proof (induction bs)
  case (Cons b bs)
  have "chunk_text [] = []" by (simp add: chunk_text_def)
  with Cons show ?case by (cases "b = []") (simp_all add: dechunk_chunk)
qed (simp add: dechunk_last)

section \<open>Everything is sent\<close>

text \<open>A driver that keeps to its contract and never fails, and no writer threads.\<close>

definition good_io :: "io_env \<Rightarrow> Conn \<Rightarrow> bool" where
  "good_io io c \<longleftrightarrow> drv_ok (io_send io) \<and> never_fails (io_send io) \<and> wr_threads (c_drv c) = 0"

lemma conn_send_all:
  assumes "good_io io c" "c_sock c = Some s" "\<forall>b \<in> set bufs. iov_ok b" "length bufs \<le> io_maxiov io"
  shows "\<exists>s1. wire s1 = wire s @ vec_bytes bufs \<and>
    Ns_ConnSend io c bufs = IoDone (int (length (vec_bytes bufs)),
      c\<lparr>c_sock := Some s1, c_nContentSent := c_nContentSent c + length (vec_bytes bufs)\<rparr>)"
proof -
  have len: "sum_list (map iov_len bufs) = length (vec_bytes bufs)" using length_vec_bytes [OF assms(3)] by simp
  show ?thesis
  proof (cases "vec_bytes bufs = []")
    case True
    have "c = c\<lparr>c_sock := Some s, c_nContentSent := c_nContentSent c + 0\<rparr>" using assms(2) by (cases c) simp
    then show ?thesis using True assms(2) len
      by (intro exI [of _ s]) (simp add: Ns_ConnSend_def del: concat_eq_Nil_conv)
  next
    case False
    have g: "drv_ok (io_send io)" "never_fails (io_send io)" "writer_refuses c n" for n
      using assms(1) by (auto simp: good_io_def writer_refuses_def)
    from send_bufs_all [OF g(1) assms(3,4), of "length (vec_bytes bufs) + 2" "io_wait io" s] g(2) False
    obtain s1 where "Ns_SockSendBufs (io_maxiov io) (length (vec_bytes bufs) + 2) (io_send io) (io_wait io) s bufs =
        (SendDone (int (length (vec_bytes bufs))), s1)" "wire s1 = wire s @ vec_bytes bufs" by fastforce
    then show ?thesis using False assms(2) g(3) len
      by (intro exI [of _ s1]) (simp add: Ns_ConnSend_def Let_def del: concat_eq_Nil_conv)
  qed
qed

lemma mk_iov_ok [simp]: "iov_ok (mk_iov s)" "iov_bytes (mk_iov s) = s" "iov_len (mk_iov s) = length s"
  by (simp_all add: mk_iov_def iov_ok_def iov_bytes_def)

lemma chunk_bufs_fit:
  assumes "\<forall>b \<in> set bufs. iov_ok b" "length sb + length bufs + (if close then 3 else 2) \<le> cap"
  shows "\<exists>vs. chunk_bufs cap sb bufs (Ns_SumVec bufs) close = Some (sb @ vs) \<and> (\<forall>b \<in> set vs. iov_ok b) \<and>
     length vs \<le> length bufs + (if close then 3 else 2) \<and>
     vec_bytes vs = chunk_text (vec_bytes bufs) @ (if close then last_chunk else [])"
proof -
  have n: "Ns_SumVec bufs = length (vec_bytes bufs)" using sum_vec_bytes [OF assms(1)] .
  let ?vs = "(if vec_bytes bufs = [] then [] else mk_iov (show_hex (Ns_SumVec bufs) @ CRLF) # bufs @ [mk_iov CRLF]) @
    (if close then [mk_iov last_chunk] else [])"
  have "chunk_bufs cap sb bufs (Ns_SumVec bufs) close = Some (sb @ ?vs)"
    using assms(2) n by (cases close) (auto simp: chunk_bufs_def push_vec_def simp del: concat_eq_Nil_conv)
  moreover have "\<forall>b \<in> set ?vs. iov_ok b" using assms(1) by auto
  moreover have "length ?vs \<le> length bufs + (if close then 3 else 2)" by auto
  moreover have "vec_bytes ?vs = chunk_text (vec_bytes bufs) @ (if close then last_chunk else [])"
    using n by (auto simp: chunk_text_def simp del: concat_eq_Nil_conv)
  ultimately show ?thesis by blast
qed

section \<open>A streamed response\<close>

definition streaming :: "Conn \<Rightarrow> bool" where
  "streaming c \<longleftrightarrow> has (c_flags c) NS_CONN_SENTHDRS \<and> has (c_flags c) NS_CONN_CHUNK \<and> \<not> has (c_flags c) NS_CONN_SKIPBODY \<and>
     \<not> has (c_flags c) NS_CONN_SENT_VIA_WRITER"

lemma good_io_cong: "good_io io c \<Longrightarrow> c_drv c1 = c_drv c \<Longrightarrow> good_io io c1"
  by (simp add: good_io_def)

lemma write_chunk:
  assumes "streaming c" "good_io io c" "c_sock c = Some s" "\<forall>b \<in> set bufs. iov_ok b" "length bufs + 3 \<le> io_maxiov io"
  shows "\<exists>c1 s1. Ns_ConnWriteVData io e c bufs flags = IoDone (NS_OK, c1) \<and> c_sock c1 = Some s1 \<and> streaming c1 \<and>
    c_drv c1 = c_drv c \<and> c_keep c1 = c_keep c \<and> c_compress c1 = c_compress c \<and>
    (\<not> has flags NS_CONN_STREAM_CLOSE \<and> (has flags NS_CONN_STREAM \<or> has (c_flags c) NS_CONN_STREAM) \<longrightarrow> has (c_flags c1) NS_CONN_STREAM) \<and>
    wire s1 = wire s @ chunk_text (vec_bytes bufs) @ (if has flags NS_CONN_STREAM_CLOSE then last_chunk else [])"
proof -
  let ?cap = "if length bufs + 2 + 1 > 32 then length bufs + 2 + 1 else 32"
  let ?close = "has flags NS_CONN_STREAM_CLOSE"
  define c2 where "c2 = (if has flags NS_CONN_STREAM then c\<lparr>c_flags := c_flags c OR NS_CONN_STREAM\<rparr> else c)"
  define c3 where "c3 = (if ?close then c2\<lparr>c_flags := (c_flags c2 AND NOT NS_CONN_STREAM) OR NS_CONN_SENT_LAST_CHUNK\<rparr> else c2)"
  have f: "has (c_flags c2) NS_CONN_SENTHDRS" "has (c_flags c2) NS_CONN_CHUNK" "\<not> has (c_flags c2) NS_CONN_SKIPBODY"
    using assms(1) by (auto simp: c2_def streaming_def flag_simps)
  have c3: "streaming c3" "c_drv c3 = c_drv c" "c_sock c3 = Some s" "c_keep c3 = c_keep c" "c_compress c3 = c_compress c"
    "\<not> ?close \<and> (has flags NS_CONN_STREAM \<or> has (c_flags c) NS_CONN_STREAM) \<longrightarrow> has (c_flags c3) NS_CONN_STREAM"
    using assms(1,3) by (auto simp: c3_def c2_def streaming_def flag_simps)
  have cap: "length ([] :: iovec list) + length bufs + (if ?close then 3 else 2) \<le> ?cap" by simp
  from chunk_bufs_fit [OF assms(4) cap] obtain vs where
    vs: "chunk_bufs ?cap [] bufs (Ns_SumVec bufs) ?close = Some vs" "\<forall>b \<in> set vs. iov_ok b"
      "length vs \<le> length bufs + (if ?close then 3 else 2)"
      "vec_bytes vs = chunk_text (vec_bytes bufs) @ (if ?close then last_chunk else [])"
    unfolding append_Nil by blast
  have "length vs \<le> io_maxiov io" using vs(3) assms(5) by (auto split: if_splits)
  from conn_send_all [OF good_io_cong [OF assms(2) c3(2)] c3(3) vs(2) this] obtain s1 where
    s1: "wire s1 = wire s @ vec_bytes vs" "Ns_ConnSend io c3 vs = IoDone (int (length (vec_bytes vs)),
      c3\<lparr>c_sock := Some s1, c_nContentSent := c_nContentSent c3 + length (vec_bytes vs)\<rparr>)" by blast
  have "Ns_ConnWriteVData io e c bufs flags =
      IoDone (NS_OK, c3\<lparr>c_sock := Some s1, c_nContentSent := c_nContentSent c3 + length (vec_bytes vs)\<rparr>)"
    unfolding Ns_ConnWriteVData_def Let_def c2_def [symmetric]
    using f vs(1) s1(2) sum_vec_bytes [OF vs(2)] by (simp add: c3_def [symmetric])
  then show ?thesis using c3 s1(1) vs(4) by (simp add: streaming_def)
qed

text \<open>A connection whose response has not begun and will be chunked if it is streamed.\<close>

definition will_chunk :: "Conn \<Rightarrow> bool" where
  "will_chunk c \<longleftrightarrow>
     \<not> has (c_flags c) NS_CONN_SENTHDRS \<and> \<not> has (c_flags c) NS_CONN_SKIPHDRS \<and> \<not> has (c_flags c) NS_CONN_SKIPBODY \<and>
     \<not> has (c_flags c) NS_CONN_SENT_VIA_WRITER \<and>
     (case c_request c of None \<Rightarrow> False | Some r \<Rightarrow> req_version r > 1) \<and> c_responseLength c < 0 \<and> c_keep c \<noteq> 0 \<and>
     \<not> HdrEq (c_outputheaders c) ''Content-Type'' ''multipart/byteranges''"

definition chunk_headers :: "Conn \<Rightarrow> Ns_SetField list" where
  "chunk_headers c = set_fields (c_outputheaders c) @
     [\<lparr>fld_name = Some ''Connection'', fld_value = Some (if CheckKeep (c\<lparr>c_flags := c_flags c OR NS_CONN_CHUNK\<rparr>) then ''keep-alive'' else ''close'')\<rparr>,
      \<lparr>fld_name = Some ''Transfer-Encoding'', fld_value = Some ''chunked''\<rparr>]"

lemma CheckKeep_flags: "has f NS_CONN_CHUNK = has g NS_CONN_CHUNK \<Longrightarrow> CheckKeep (c\<lparr>c_flags := f\<rparr>) = CheckKeep (c\<lparr>c_flags := g\<rparr>)"
  by (simp add: CheckKeep_def cong: if_cong option.case_cong)

lemma complete_headers_chunk:
  assumes "\<not> has (c_flags c) NS_CONN_SKIPHDRS" "c_request c = Some r" "req_version r > 1" "c_responseLength c < 0" "c_keep c \<noteq> 0"
    "\<not> HdrEq (c_outputheaders c) ''Content-Type'' ''multipart/byteranges''" "has flags NS_CONN_STREAM"
  shows "\<exists>c1 hdr. Ns_CompleteHeaders e c n flags ds = Some (True, c1, hdr) \<and> Ns_ConnConstructHeaders e c1 ds = Some hdr \<and>
    c_flags c1 = c_flags c OR NS_CONN_STREAM OR NS_CONN_CHUNK \<and> c_sock c1 = c_sock c \<and> c_drv c1 = c_drv c \<and>
    c_keep c1 \<in> {0, 1} \<and> c_compress c1 = c_compress c \<and> set_fields (c_outputheaders c1) = chunk_headers c"
proof -
  let ?f = "c_flags c OR NS_CONN_STREAM OR NS_CONN_CHUNK"
  have "has ?f NS_CONN_CHUNK = has (c_flags c OR NS_CONN_CHUNK) NS_CONN_CHUNK" by (simp add: flag_simps)
  from CheckKeep_flags [OF this, of c] have k: "CheckKeep (c\<lparr>c_flags := ?f\<rparr>) = CheckKeep (c\<lparr>c_flags := c_flags c OR NS_CONN_CHUNK\<rparr>)" .
  have ch: "has ?f NS_CONN_CHUNK" by (simp add: flag_simps)
  show ?thesis
    using assms ch unfolding Ns_CompleteHeaders_def
    by (simp add: Let_def Ns_ConnConstructHeaders_def Ns_ConnSetHeaders_def chunk_headers_def k or.assoc)
qed

lemma write_first_chunk:
  assumes "will_chunk c" "good_io io c" "c_sock c = Some s" "\<forall>b \<in> set bufs. iov_ok b" "length bufs + 3 \<le> io_maxiov io"
  shows "\<exists>c0 hdr c1 s1. Ns_ConnWriteVData io e c bufs NS_CONN_STREAM = IoDone (NS_OK, c1) \<and> c_sock c1 = Some s1 \<and>
    streaming c1 \<and> has (c_flags c1) NS_CONN_STREAM \<and> c_drv c1 = c_drv c \<and> c_compress c1 = c_compress c \<and>
    Ns_ConnConstructHeaders e c0 [] = Some hdr \<and> set_fields (c_outputheaders c0) = chunk_headers c \<and>
    c_keep c1 \<in> {0, 1} \<and> wire s1 = wire s @ hdr @ chunk_text (vec_bytes bufs)"
proof -
  let ?cap = "if length bufs + 2 + 1 > 32 then length bufs + 2 + 1 else 32"
  define c2 where "c2 = c\<lparr>c_flags := c_flags c OR NS_CONN_STREAM OR NS_CONN_SENTHDRS\<rparr>"
  obtain r where r: "c_request c = Some r" "req_version r > 1" using assms(1) by (auto simp: will_chunk_def split: option.splits)
  have st: "has NS_CONN_STREAM NS_CONN_STREAM" "\<not> has NS_CONN_STREAM NS_CONN_STREAM_CLOSE" by (simp_all add: flag_simps)
  have ck: "chunk_headers c2 = chunk_headers c"
  proof -
    have "has (c_flags c2 OR NS_CONN_CHUNK) NS_CONN_CHUNK = has (c_flags c OR NS_CONN_CHUNK) NS_CONN_CHUNK"
      by (simp add: flag_simps)
    from CheckKeep_flags [OF this, of c] show ?thesis by (simp add: chunk_headers_def c2_def)
  qed
  obtain c4 hdr where c4: "Ns_CompleteHeaders e c2 (Ns_SumVec bufs) NS_CONN_STREAM [] = Some (True, c4, hdr)"
    "Ns_ConnConstructHeaders e c4 [] = Some hdr" "c_flags c4 = c_flags c2 OR NS_CONN_STREAM OR NS_CONN_CHUNK"
    "c_sock c4 = Some s" "c_drv c4 = c_drv c" "c_keep c4 \<in> {0, 1}" "c_compress c4 = c_compress c"
    "set_fields (c_outputheaders c4) = chunk_headers c"
    using complete_headers_chunk [of c2 r NS_CONN_STREAM e "Ns_SumVec bufs" "[]"] assms(1,3) r st(1) ck
    by (auto simp: c2_def will_chunk_def flag_simps)
  have f: "has (c_flags c4) NS_CONN_CHUNK" "\<not> has (c_flags c4) NS_CONN_SKIPBODY" "has (c_flags c4) NS_CONN_SENTHDRS"
    "has (c_flags c4) NS_CONN_STREAM" "\<not> has (c_flags c4) NS_CONN_SENT_VIA_WRITER"
    using assms(1) by (auto simp: c4(3) c2_def will_chunk_def flag_simps)
  have cap: "length [mk_iov hdr] + length bufs + (if False then 3 else 2) \<le> ?cap" by simp
  from chunk_bufs_fit [OF assms(4) cap] obtain vs where
    vs: "chunk_bufs ?cap [mk_iov hdr] bufs (Ns_SumVec bufs) False = Some (mk_iov hdr # vs)" "\<forall>b \<in> set vs. iov_ok b"
      "length vs \<le> length bufs + 2" "vec_bytes vs = chunk_text (vec_bytes bufs)"
    by auto
  have ok: "\<forall>b \<in> set (mk_iov hdr # vs). iov_ok b" "length (mk_iov hdr # vs) \<le> io_maxiov io" using vs(2,3) assms(5) by auto
  from conn_send_all [OF good_io_cong [OF assms(2) c4(5)] c4(4) ok] obtain s1 where
    s1: "wire s1 = wire s @ hdr @ vec_bytes vs" "Ns_ConnSend io c4 (mk_iov hdr # vs) = IoDone (int (length (vec_bytes (mk_iov hdr # vs))),
      c4\<lparr>c_sock := Some s1, c_nContentSent := c_nContentSent c4 + length (vec_bytes (mk_iov hdr # vs))\<rparr>)" by auto
  have nh: "\<not> has (c_flags c OR NS_CONN_STREAM) NS_CONN_SENTHDRS" using assms(1) by (simp add: will_chunk_def flag_simps)
  have "Ns_ConnWriteVData io e c bufs NS_CONN_STREAM =
      IoDone (NS_OK, c4\<lparr>c_sock := Some s1, c_nContentSent := c_nContentSent c4 + length (vec_bytes (mk_iov hdr # vs))\<rparr>)"
    unfolding Ns_ConnWriteVData_def Let_def
    using f st nh vs(1) s1(2) sum_vec_bytes [OF ok(1)] c4(1) by (simp add: c2_def or.assoc)
  then show ?thesis using c4 f s1(1) vs(4)
    by (intro exI [of _ c4] exI [of _ hdr] exI [of _ "c4\<lparr>c_sock := Some s1, c_nContentSent := c_nContentSent c4 + length (vec_bytes (mk_iov hdr # vs))\<rparr>"] exI [of _ s1])
       (simp add: streaming_def)
qed

text \<open>A script's sequence of streamed writes, as long as they succeed.\<close>

fun write_stream :: "io_env \<Rightarrow> server_env \<Rightarrow> Conn \<Rightarrow> iovec list list \<Rightarrow> (status \<times> Conn) io_end" where
  "write_stream io e c [] = IoDone (NS_OK, c)"
| "write_stream io e c (bufs # rest) =
     (case Ns_ConnWriteVData io e c bufs NS_CONN_STREAM of
        IoDone (NS_OK, c1) \<Rightarrow> write_stream io e c1 rest
      | r \<Rightarrow> r)"

lemma write_stream_chunks:
  "\<lbrakk>streaming c; has (c_flags c) NS_CONN_STREAM; good_io io c; c_sock c = Some s;
    \<forall>bufs \<in> set bss. (\<forall>b \<in> set bufs. iov_ok b) \<and> length bufs + 3 \<le> io_maxiov io\<rbrakk> \<Longrightarrow>
   \<exists>c1 s1. write_stream io e c bss = IoDone (NS_OK, c1) \<and> c_sock c1 = Some s1 \<and> streaming c1 \<and> has (c_flags c1) NS_CONN_STREAM \<and>
     c_drv c1 = c_drv c \<and> c_keep c1 = c_keep c \<and> c_compress c1 = c_compress c \<and>
     wire s1 = wire s @ concat (map (\<lambda>bufs. chunk_text (vec_bytes bufs)) bss)"
proof (induction bss arbitrary: c s)
  case (Cons bufs bss)
  have st: "has NS_CONN_STREAM NS_CONN_STREAM" "\<not> has NS_CONN_STREAM NS_CONN_STREAM_CLOSE" by (simp_all add: flag_simps)
  from write_chunk [OF Cons.prems(1,3,4), of bufs e NS_CONN_STREAM] Cons.prems(5) st obtain c1 s1 where
    w: "Ns_ConnWriteVData io e c bufs NS_CONN_STREAM = IoDone (NS_OK, c1)" "c_sock c1 = Some s1" "streaming c1"
      "has (c_flags c1) NS_CONN_STREAM" "c_drv c1 = c_drv c" "c_keep c1 = c_keep c" "c_compress c1 = c_compress c"
      "wire s1 = wire s @ chunk_text (vec_bytes bufs)" by auto
  from Cons.IH [OF w(3,4) good_io_cong [OF Cons.prems(3) w(5)] w(2)] Cons.prems(5) w show ?case by auto
qed simp

lemma close_stream:
  assumes "streaming c" "has (c_flags c) NS_CONN_STREAM" "good_io io c" "c_sock c = Some s" "c_compress c \<le> 0" "3 \<le> io_maxiov io"
  shows "\<exists>c1 s1. Ns_ConnClose enc gzip z io e c = IoDone (c1, Some (s1, c_keep c > 0)) \<and> c_sock c1 = None \<and>
    wire s1 = wire s @ last_chunk"
proof -
  define c0 where "c0 = (if c_compress c < 0 then c\<lparr>c_compress := 0\<rparr> else c)"
  have sc: "has NS_CONN_STREAM_CLOSE NS_CONN_STREAM_CLOSE" "\<not> has NS_CONN_STREAM_CLOSE NS_CONN_STREAM" by (simp_all add: flag_simps)
  have c0: "streaming c0" "good_io io c0" "c_sock c0 = Some s" "c_keep c0 = c_keep c" "\<not> c_compress c0 > 0" "c_flags c0 = c_flags c"
    using assms(1,3,4,5) by (auto simp: c0_def streaming_def good_io_def)
  have tr: "transcode enc [] = []" by (simp add: transcode_def split: option.splits)
  have cc: "CheckCompress e c [] NS_CONN_STREAM_CLOSE = (0, c)" using assms(1) by (simp add: CheckCompress_def streaming_def Let_def)
  from write_chunk [OF c0(1,2,3), of "[]" e NS_CONN_STREAM_CLOSE] assms(6) sc obtain c1 s1 where
    w: "Ns_ConnWriteVData io e c0 [] NS_CONN_STREAM_CLOSE = IoDone (NS_OK, c1)" "c_sock c1 = Some s1" "c_keep c1 = c_keep c"
      "wire s1 = wire s @ last_chunk" "streaming c1" by (auto simp: c0(4) chunk_text_def)
  have "snd (Ns_ConnWriteVChars enc gzip z io e c [] NS_CONN_STREAM_CLOSE) = IoDone (NS_OK, c1)"
    using w(1) c0(5) cc unfolding c0_def by (auto simp: Ns_ConnWriteVChars_def tr Let_def)
  then show ?thesis using assms(1,2,4) w by (simp add: Ns_ConnClose_def streaming_def)
qed

text \<open>
  C6: A response streamed in any number of writes over a connection that has not sent its headers:
  with a driver that never fails the wire receives one header block, which announces the chunked
  encoding, and then a text that a client decodes to exactly the bytes written, in order; closing
  the connection ends it, and the socket is kept if keep-alive was decided.
\<close>

theorem streamed_response_round_trip:
  assumes "will_chunk c" "good_io io c" "c_sock c = Some s" "c_compress c \<le> 0" "3 \<le> io_maxiov io" "bss \<noteq> []"
    and "\<forall>bufs \<in> set bss. (\<forall>b \<in> set bufs. iov_ok b) \<and> length bufs + 3 \<le> io_maxiov io"
  shows "\<exists>c0 c1 c2 hdr body s2. write_stream io e c bss = IoDone (NS_OK, c1) \<and>
    Ns_ConnClose enc gzip z io e c1 = IoDone (c2, Some (s2, c_keep c1 > 0)) \<and> c_sock c2 = None \<and>
    Ns_ConnConstructHeaders e c0 [] = Some hdr \<and> set_fields (c_outputheaders c0) = chunk_headers c \<and>
    wire s2 = wire s @ hdr @ body \<and> (\<forall>t. dechunk (body @ t) = Some (concat (map vec_bytes bss), t))"
proof -
  obtain bufs rest where b: "bss = bufs # rest" using assms(6) by (cases bss) auto
  from write_first_chunk [OF assms(1-3), of bufs e] assms(7) b obtain c0 hdr c3 s3 where
    w: "Ns_ConnWriteVData io e c bufs NS_CONN_STREAM = IoDone (NS_OK, c3)" "c_sock c3 = Some s3" "streaming c3"
      "has (c_flags c3) NS_CONN_STREAM" "c_drv c3 = c_drv c" "c_compress c3 = c_compress c"
      "Ns_ConnConstructHeaders e c0 [] = Some hdr" "set_fields (c_outputheaders c0) = chunk_headers c"
      "wire s3 = wire s @ hdr @ chunk_text (vec_bytes bufs)" by auto
  from write_stream_chunks [OF w(3,4) good_io_cong [OF assms(2) w(5)] w(2), of rest e] assms(7) b obtain c1 s1 where
    r: "write_stream io e c3 rest = IoDone (NS_OK, c1)" "c_sock c1 = Some s1" "streaming c1" "has (c_flags c1) NS_CONN_STREAM"
      "c_drv c1 = c_drv c3" "c_compress c1 = c_compress c3"
      "wire s1 = wire s3 @ concat (map (\<lambda>bufs. chunk_text (vec_bytes bufs)) rest)" by auto
  have "good_io io c1" "c_compress c1 \<le> 0" using assms(2,4) r(5,6) w(5,6) by (simp_all add: good_io_def)
  from close_stream [OF r(3,4) this(1) r(2) this(2) assms(5), of enc gzip z e] obtain c2 s2 where
    k: "Ns_ConnClose enc gzip z io e c1 = IoDone (c2, Some (s2, c_keep c1 > 0))" "c_sock c2 = None" "wire s2 = wire s1 @ last_chunk"
    by blast
  let ?body = "concat (map chunk_text (map vec_bytes bss)) @ last_chunk"
  have "wire s2 = wire s @ hdr @ ?body" using k(3) r(7) w(9) by (simp add: b comp_def)
  moreover have "\<forall>t. dechunk (?body @ t) = Some (concat (map vec_bytes bss), t)"
    unfolding append.assoc by (intro allI dechunk_stream)
  moreover have "write_stream io e c bss = IoDone (NS_OK, c1)" using w(1) r(1) b by simp
  ultimately show ?thesis using k(1,2) w(7,8) by blast
qed

definition demo_io :: io_env where
  "demo_io = \<lparr>io_maxiov = 16, io_send = (\<lambda>k d. Took (min 3 (length d))), io_wait = (\<lambda>k. True)\<rparr>"

lemma demo_facts: "will_chunk demo_conn" "good_io demo_io demo_conn" "c_sock demo_conn = Some \<lparr>wire = [], calls = 0\<rparr>"
  "c_compress demo_conn \<le> 0" "3 \<le> io_maxiov demo_io"
  by (auto simp: will_chunk_def demo_conn_def flag_simps HdrEq_def Ns_SetIGet_def Ns_SetGetCmp_def Ns_SetFindCmp_def Ns_SetCreate_def
      Ns_ResetRequest_def good_io_def demo_io_def drv_ok_def never_fails_def)

theorem streamed_response_round_trip_witness:
  "\<exists>c0 c1 c2 hdr body s2. write_stream demo_io demo_env demo_conn [[mk_iov ''Hello''], [], [mk_iov '' '', mk_iov ''world'']] = IoDone (NS_OK, c1) \<and>
    Ns_ConnClose None (\<lambda>z t l f. (t, z)) () demo_io demo_env c1 = IoDone (c2, Some (s2, c_keep c1 > 0)) \<and> c_sock c2 = None \<and>
    Ns_ConnConstructHeaders demo_env c0 [] = Some hdr \<and> set_fields (c_outputheaders c0) = chunk_headers demo_conn \<and>
    wire s2 = hdr @ body \<and> (\<forall>t. dechunk (body @ t) = Some (''Hello world'', t))"
  using streamed_response_round_trip [OF demo_facts, of "[[mk_iov ''Hello''], [], [mk_iov '' '', mk_iov ''world'']]" demo_env None "\<lambda>z t l f. (t, z)" "()"]
  by (simp add: demo_io_def)

section \<open>Framing of the response\<close>

definition framed :: "Conn \<Rightarrow> bool" where
  "framed c \<longleftrightarrow> has (c_flags c) NS_CONN_CHUNK \<or> Ns_SetIGet (c_outputheaders c) (Some ''Content-Length'') \<noteq> None \<or>
     HdrEq (c_outputheaders c) ''Content-Type'' ''multipart/byteranges''"

lemma check_keep_framed: "CheckKeep c \<Longrightarrow> c_keep c = -1 \<Longrightarrow> framed c"
  by (auto simp: CheckKeep_def framed_def split: if_splits option.splits)

lemma iget_put_other: "strcasecmp l k \<noteq> 0 \<Longrightarrow> Ns_SetIGet (Ns_SetPut s (Some k) v) (Some l) = Ns_SetIGet s (Some l)"
  by (simp add: Ns_SetIGet_def GetCmp_spec find_append fld_matches_def split: option.split)

lemma header_names_differ:
  "strcasecmp ''Content-Length'' ''Connection'' \<noteq> 0" "strcasecmp ''Content-Length'' ''Transfer-Encoding'' \<noteq> 0"
  "strcasecmp ''Content-Type'' ''Connection'' \<noteq> 0" "strcasecmp ''Content-Type'' ''Transfer-Encoding'' \<noteq> 0"
  by (simp_all add: strcasecmp_def tolower_def)

lemma framed_put:
  "k \<in> {''Connection'', ''Transfer-Encoding''} \<Longrightarrow> framed (Ns_ConnSetHeaders c k v) = framed c"
  using header_names_differ by (auto simp: framed_def Ns_ConnSetHeaders_def HdrEq_def iget_put_other)

lemma set_delete_first: "set (takeWhile P xs @ tl (dropWhile P xs)) \<subseteq> set xs"
  by (induction xs) auto

lemma set_length_header:
  "\<exists>s. Ns_ConnSetLengthHeader c n False = Some (c\<lparr>c_outputheaders := s, c_responseLength := int n\<rparr>) \<and>
     (Ns_SetIGet (c_outputheaders c) (Some ''Content-Length'') = None \<and>
        (\<forall>f \<in> set (set_fields (c_outputheaders c)). \<not> fld_matches strcasecmp (Some ''Content-Length'') f) \<longrightarrow>
      Ns_SetIGet s (Some ''Content-Length'') = Some (show_nat n))"
proof -
  let ?h = "c_outputheaders c"
  obtain s1 where s1: "Ns_SetDeleteKey ?h (Some ''Content-Length'') = Some s1"
    "set_fields s1 = takeWhile (\<lambda>f. \<not> fld_matches strcmp (Some ''Content-Length'') f) (set_fields ?h) @
      tl (dropWhile (\<lambda>f. \<not> fld_matches strcmp (Some ''Content-Length'') f) (set_fields ?h))"
    by (simp add: Ns_SetDeleteKey_def Ns_SetFind_def DeleteKey_spec)
  let ?s = "Ns_SetPut s1 (Some ''Content-Length'') (Some (show_nat n))"
  have "Ns_ConnSetLengthHeader c n False = Some (c\<lparr>c_outputheaders := ?s, c_responseLength := int n\<rparr>)"
    by (simp add: Ns_ConnSetLengthHeader_def Ns_ConnUpdateHeaders_def Ns_SetUpdate_def s1(1))
  moreover have "Ns_SetIGet ?s (Some ''Content-Length'') = Some (show_nat n)"
    if "\<forall>f \<in> set (set_fields ?h). \<not> fld_matches strcasecmp (Some ''Content-Length'') f"
  proof -
    have "set (set_fields s1) \<subseteq> set (set_fields ?h)"
      unfolding s1(2) by (rule set_delete_first)
    with that have "find (fld_matches strcasecmp (Some ''Content-Length'')) (set_fields s1) = None"
      by (auto simp: find_None_iff)
    then show ?thesis by (simp add: Ns_SetIGet_def GetCmp_spec find_append fld_matches_def strcasecmp_def)
  qed
  ultimately show ?thesis by blast
qed

text \<open>
  C14: What \<open>Ns_CompleteHeaders\<close> decides: the connection is kept alive by default only if the response
  is chunked, has a length or is a multipart message, so that the client finds its end; the
  \<open>Connection\<close> header says what was decided; and a response that is not streamed and has no length
  yet gets the length of its data.
\<close>

theorem complete_headers_framing:
  assumes "Ns_CompleteHeaders e c n flags ds = Some (True, c1, out)" "c_keep c = -1"
  shows "c_keep c1 \<in> {0, 1} \<and> (c_keep c1 = 1 \<longrightarrow> framed c1) \<and>
    \<lparr>fld_name = Some ''Connection'', fld_value = Some (if c_keep c1 = 1 then ''keep-alive'' else ''close'')\<rparr> \<in> set (set_fields (c_outputheaders c1)) \<and>
    (\<not> has flags NS_CONN_STREAM \<and> c_responseLength c < 0 \<longrightarrow>
       c_responseLength c1 = int n \<and>
       ((\<forall>f \<in> set (set_fields (c_outputheaders c)). \<not> fld_matches strcasecmp (Some ''Content-Length'') f) \<longrightarrow>
        Ns_SetIGet (c_outputheaders c1) (Some ''Content-Length'') = Some (show_nat n)))"
proof -
  from assms(1) obtain m where m:
    "(if has flags NS_CONN_STREAM then
        let c1 = c\<lparr>c_flags := c_flags c OR NS_CONN_STREAM\<rparr> in
        if c_responseLength c1 < 0 then
          (case c_request c1 of
             None \<Rightarrow> None
           | Some r \<Rightarrow>
               if req_version r > 1 \<and> c_keep c1 \<noteq> 0 \<and> \<not> HdrEq (c_outputheaders c1) ''Content-Type'' ''multipart/byteranges''
               then Some (c1\<lparr>c_flags := c_flags c1 OR NS_CONN_CHUNK\<rparr>) else Some c1)
        else Some c1
      else if c_responseLength c < 0 then Ns_ConnSetLengthHeader c n False else Some c) = Some m"
    unfolding Ns_CompleteHeaders_def by (auto simp: Option.bind_eq_Some_conv split: if_splits)
  define k where "k = m\<lparr>c_keep := (if CheckKeep m then 1 else 0)\<rparr>"
  define h where "h = Ns_ConnSetHeaders k ''Connection'' (if c_keep k \<noteq> 0 then ''keep-alive'' else ''close'')"
  have c1: "c1 = (if has (c_flags h) NS_CONN_CHUNK then Ns_ConnSetHeaders h ''Transfer-Encoding'' ''chunked'' else h)"
    using assms(1) m unfolding Ns_CompleteHeaders_def h_def k_def
    by (auto simp: Option.bind_eq_Some_conv Let_def split: if_splits)
  have mk: "c_keep m = -1" using m assms(2) set_length_header [of c n] by (auto simp: Let_def split: if_splits option.splits)
  have sel: "c_keep c1 = c_keep k" "c_responseLength c1 = c_responseLength m" "framed c1 = framed m"
    by (simp_all add: c1 h_def framed_put k_def) (simp_all add: Ns_ConnSetHeaders_def framed_def)
  have "c_keep c1 = 1 \<longrightarrow> framed c1" using check_keep_framed [OF _ mk] by (simp add: sel k_def)
  moreover have "\<lparr>fld_name = Some ''Connection'', fld_value = Some (if c_keep c1 = 1 then ''keep-alive'' else ''close'')\<rparr> \<in> set (set_fields (c_outputheaders c1))"
    by (simp add: c1 h_def k_def Ns_ConnSetHeaders_def)
  moreover have "c_responseLength c1 = int n \<and>
       ((\<forall>f \<in> set (set_fields (c_outputheaders c)). \<not> fld_matches strcasecmp (Some ''Content-Length'') f) \<longrightarrow>
        Ns_SetIGet (c_outputheaders c1) (Some ''Content-Length'') = Some (show_nat n))"
    if st: "\<not> has flags NS_CONN_STREAM" "c_responseLength c < 0"
  proof -
    obtain s where s: "m = c\<lparr>c_outputheaders := s, c_responseLength := int n\<rparr>"
      "(\<forall>f \<in> set (set_fields (c_outputheaders c)). \<not> fld_matches strcasecmp (Some ''Content-Length'') f) \<longrightarrow>
        Ns_SetIGet s (Some ''Content-Length'') = Some (show_nat n)"
    proof -
      have "Ns_SetIGet (c_outputheaders c) (Some ''Content-Length'') = None"
        if "\<forall>f \<in> set (set_fields (c_outputheaders c)). \<not> fld_matches strcasecmp (Some ''Content-Length'') f"
        using that by (simp add: Ns_SetIGet_def GetCmp_spec find_None_iff [THEN iffD2])
      then show ?thesis using set_length_header [of c n] m st that by auto
    qed
    have "Ns_SetIGet (c_outputheaders c1) (Some ''Content-Length'') = Ns_SetIGet s (Some ''Content-Length'')"
      using header_names_differ by (simp add: c1 h_def k_def Ns_ConnSetHeaders_def iget_put_other s(1))
    then show ?thesis using s sel(2) by simp
  qed
  ultimately show ?thesis using sel(1) by (auto simp: k_def)
qed

theorem complete_headers_framing_witness:
  "\<exists>c1 out. Ns_CompleteHeaders demo_env demo_conn 5 0 [] = Some (True, c1, out) \<and> c_keep c1 \<in> {0, 1} \<and>
     c_responseLength c1 = 5 \<and> Ns_SetIGet (c_outputheaders c1) (Some ''Content-Length'') = Some ''5''"
proof -
  have z: "\<not> has 0 NS_CONN_STREAM" "\<not> has (c_flags demo_conn) NS_CONN_SKIPHDRS"
    "\<not> has (c_flags demo_conn) NS_CONN_CHUNK" by (simp_all add: has_def demo_conn_def)
  have r: "c_request demo_conn = Some (Ns_ResetRequest\<lparr>req_version := 11 / 10\<rparr>)" "c_responseLength demo_conn < 0" "c_keep demo_conn = -1"
    "set_fields (c_outputheaders demo_conn) = []" by (simp_all add: demo_conn_def)
  obtain s where "Ns_ConnSetLengthHeader demo_conn 5 False = Some (demo_conn\<lparr>c_outputheaders := s, c_responseLength := 5\<rparr>)"
    using set_length_header [of demo_conn 5] by auto
  then obtain c1 out where c: "Ns_CompleteHeaders demo_env demo_conn 5 0 [] = Some (True, c1, out)"
    using z r by (simp add: Ns_CompleteHeaders_def Let_def Ns_ConnConstructHeaders_def Ns_ConnSetHeaders_def)
  have "show_nat 5 = ''5''" by (simp add: show_nat.simps char_of_eq_iff)
  then show ?thesis using complete_headers_framing [OF c r(3)] c z(1) r(2,4) by auto
qed

section \<open>Divergences\<close>

text \<open>
  The vector of \<open>Ns_ConnWriteVData\<close> has room for one element less than it may store: if the first
  write of a chunked response has 29 or more buffers and also closes the stream, the last chunk is
  written behind the array.
\<close>

theorem write_vdata_overflow:
  assumes "will_chunk c" "\<forall>b \<in> set bufs. iov_ok b" "vec_bytes bufs \<noteq> []" "29 \<le> length bufs"
  shows "Ns_ConnWriteVData io e c bufs (NS_CONN_STREAM OR NS_CONN_STREAM_CLOSE) = IoFault"
proof -
  let ?fl = "NS_CONN_STREAM OR NS_CONN_STREAM_CLOSE"
  define c2 where "c2 = c\<lparr>c_flags := c_flags c OR NS_CONN_STREAM OR NS_CONN_SENTHDRS\<rparr>"
  obtain r where r: "c_request c = Some r" "req_version r > 1" using assms(1) by (auto simp: will_chunk_def split: option.splits)
  have st: "has ?fl NS_CONN_STREAM" "has ?fl NS_CONN_STREAM_CLOSE" by (simp_all add: flag_simps)
  obtain c4 hdr where c4: "Ns_CompleteHeaders e c2 (Ns_SumVec bufs) ?fl [] = Some (True, c4, hdr)"
    "c_flags c4 = c_flags c2 OR NS_CONN_STREAM OR NS_CONN_CHUNK"
    using complete_headers_chunk [of c2 r ?fl e "Ns_SumVec bufs" "[]"] assms(1) r st(1)
    by (auto simp: c2_def will_chunk_def flag_simps)
  have f: "has (c_flags c4) NS_CONN_CHUNK" "\<not> has (c_flags c4) NS_CONN_SKIPBODY"
    using assms(1) by (auto simp: c4(2) c2_def will_chunk_def flag_simps)
  have nh: "\<not> has (c_flags c OR NS_CONN_STREAM) NS_CONN_SENTHDRS" using assms(1) by (simp add: will_chunk_def flag_simps)
  have "0 < Ns_SumVec bufs" using sum_vec_bytes [OF assms(2)] assms(3) by (simp del: concat_eq_Nil_conv)
  then have "chunk_bufs (if length bufs + 2 + 1 > 32 then length bufs + 2 + 1 else 32) [mk_iov hdr] bufs (Ns_SumVec bufs) True = None"
    using assms(4) by (auto simp: chunk_bufs_def push_vec_def)
  then show ?thesis
    unfolding Ns_ConnWriteVData_def Let_def using f st nh c4(1) by (simp add: c2_def or.assoc)
qed

theorem write_vdata_overflow_witness:
  "Ns_ConnWriteVData demo_io demo_env demo_conn (replicate 29 (mk_iov ''x'')) (NS_CONN_STREAM OR NS_CONN_STREAM_CLOSE) = IoFault"
  by (rule write_vdata_overflow [OF demo_facts(1)]) simp_all

text \<open>
  Closing a compressed stream does not call zlib, so the end of the compressed data is never
  written, although the comment says that the gzip footer is.
\<close>

theorem conn_close_without_footer:
  "Ns_ConnClose enc gzip z io e c = Ns_ConnClose enc gzip1 z1 io e c"
proof -
  have "transcode enc [] = []" by (simp add: transcode_def split: option.splits)
  then have "snd (Ns_ConnWriteVChars enc gzip z io e c [] f) = snd (Ns_ConnWriteVChars enc gzip1 z1 io e c [] f)" for f
    by (simp add: Ns_ConnWriteVChars_def Let_def)
  then show ?thesis unfolding Ns_ConnClose_def by (simp only:)
qed

text \<open>With an output encoding other than UTF-8, only the last of several buffers is sent.\<close>

theorem transcode_keeps_last:
  assumes "iov_len a > 0" "iov_len b > 0"
  shows "transcode (Some f) (a # bufs @ [b]) = [mk_iov (f (iov_bytes b))]"
  using assms by (simp add: transcode_def)

text \<open>\<open>Ns_ConnGets\<close> returns NULL whenever there is content to read, and never a line of it.\<close>

theorem conn_gets_wrong:
  "2 \<le> length buf \<and> c_sock c \<noteq> None \<and> 0 < rb_avail rb \<and> rb_next rb \<noteq> [] \<longrightarrow>
     fst (Ns_ConnGets buf c rb) = None"
  by (auto simp: Ns_ConnGets_def conn_gets_loop.simps [of _ _ _ 0] Ns_ConnRead_def Let_def)

section \<open>Headers in the content\<close>

definition plain_line :: "nat \<Rightarrow> string \<Rightarrow> bool" where
  "plain_line maxline l \<longleftrightarrow> CHR 0x0A \<notin> set l \<and> length l < maxline"

lemma read_line_crlf:
  assumes "c_sock c \<noteq> None" "plain_line maxline l" "rb_next rb = l @ CRLF @ r"
  shows "Ns_ConnReadLine maxline c rb ds =
    Some (ds @ l, length l + 2, rb\<lparr>rb_next := r, rb_avail := rb_avail rb - (length l + 2)\<rparr>)"
proof -
  have "takeWhile (\<lambda>ch. ch \<noteq> CHR 0x0A) (rb_next rb) = l @ [CHR 0x0D]"
    using assms(2) by (simp add: assms(3) plain_line_def CRLF_def takeWhile_append)
  moreover have "(l @ CRLF @ r) ! length l = CHR 0x0D" by (simp add: nth_append CRLF_def)
  moreover have "drop (length l + 2) (l @ CRLF @ r) = r" by (simp add: CRLF_def)
  moreover have "CHR 0x0A \<in> set (rb_next rb)" by (simp add: assms(3) CRLF_def)
  ultimately show ?thesis using assms by (simp add: Ns_ConnReadLine_def plain_line_def Let_def)
qed

fun parse_headers :: "Ns_Set \<Rightarrow> string list \<Rightarrow> Ns_HeaderCaseDisposition \<Rightarrow> Ns_Set option" where
  "parse_headers hset [] disp = Some hset"
| "parse_headers hset (l # ls) disp =
     (case Ns_ParseHeader hset l disp of None \<Rightarrow> None | Some h \<Rightarrow> parse_headers h ls disp)"

lemma read_headers_lines:
  assumes "c_sock c \<noteq> None" "0 < maxline"
  shows "\<lbrakk>\<forall>l \<in> set ls. plain_line maxline l \<and> l \<noteq> []; parse_headers hset ls disp = Some h;
    rb_next rb = concat (map (\<lambda>l. l @ CRLF) ls) @ CRLF @ body;
    nread + length (concat (map (\<lambda>l. l @ CRLF) ls)) + 2 \<le> maxhdr\<rbrakk> \<Longrightarrow>
   read_headers_loop maxline maxhdr disp c rb hset nread =
     (NS_OK, nread + length (concat (map (\<lambda>l. l @ CRLF) ls)) + 2, h,
      rb\<lparr>rb_next := body, rb_avail := rb_avail rb - (length (concat (map (\<lambda>l. l @ CRLF) ls)) + 2)\<rparr>)"
proof (induction ls arbitrary: hset rb nread)
  case Nil
  have "plain_line maxline []" using assms(2) by (simp add: plain_line_def)
  from read_line_crlf [OF assms(1) this, of rb body "[]"] Nil show ?case
    by (subst read_headers_loop.simps) simp
next
  case (Cons l ls)
  let ?rb = "rb\<lparr>rb_next := concat (map (\<lambda>l. l @ CRLF) ls) @ CRLF @ body, rb_avail := rb_avail rb - (length l + 2)\<rparr>"
  obtain h1 where h1: "Ns_ParseHeader hset l disp = Some h1" "parse_headers h1 ls disp = Some h"
    using Cons.prems(2) by (auto split: option.splits)
  have rl: "Ns_ConnReadLine maxline c rb [] = Some (l, length l + 2, ?rb)"
    using read_line_crlf [OF assms(1), of maxline l rb _ "[]"] Cons.prems(1,3) by simp
  have crlf: "length CRLF = 2" by (simp add: CRLF_def)
  have "read_headers_loop maxline maxhdr disp c ?rb h1 (nread + (length l + 2)) =
      (NS_OK, nread + (length l + 2) + length (concat (map (\<lambda>l. l @ CRLF) ls)) + 2, h,
       ?rb\<lparr>rb_next := body, rb_avail := rb_avail ?rb - (length (concat (map (\<lambda>l. l @ CRLF) ls)) + 2)\<rparr>)"
    using Cons.prems(1,4) h1(2) crlf by (intro Cons.IH) simp_all
  then show ?case
    using Cons.prems(1,4) rl h1(1) crlf by (subst read_headers_loop.simps) (simp add: algebra_simps)
qed

text \<open>
  \<open>Ns_ConnReadHeaders\<close> on header lines ended by CRLF and followed by an empty line, within the
  limits of the driver: every line goes through \<open>Ns_ParseHeader\<close> in order, and exactly the
  header block is consumed.
\<close>

theorem conn_read_headers:
  assumes "c_sock c \<noteq> None" "0 < maxline" "\<forall>l \<in> set ls. plain_line maxline l \<and> l \<noteq> []"
    and "parse_headers hset ls disp = Some h"
    and "length (concat (map (\<lambda>l. l @ CRLF) ls)) + 2 \<le> maxhdr"
  shows "Ns_ConnReadHeaders maxline maxhdr disp c
      \<lparr>rb_next = concat (map (\<lambda>l. l @ CRLF) ls) @ CRLF @ body, rb_avail = length (concat (map (\<lambda>l. l @ CRLF) ls)) + 2 + length body\<rparr> hset =
    (NS_OK, length (concat (map (\<lambda>l. l @ CRLF) ls)) + 2, h, \<lparr>rb_next = body, rb_avail = length body\<rparr>)"
  using read_headers_lines [OF assms(1-4), of _ body 0 maxhdr] assms(5) by (simp add: Ns_ConnReadHeaders_def)

theorem conn_read_headers_witness:
  "\<exists>h. parse_headers (Ns_SetCreate None) [''Host: a'', ''Accept: b''] Preserve = Some h \<and>
    Ns_ConnReadHeaders 80 1000 Preserve demo_conn
      \<lparr>rb_next = ''Host: a'' @ CRLF @ ''Accept: b'' @ CRLF @ CRLF @ ''body'', rb_avail = 26\<rparr> (Ns_SetCreate None) =
    (NS_OK, 22, h, \<lparr>rb_next = ''body'', rb_avail = 4\<rparr>)"
proof -
  let ?ls = "[''Host: a'', ''Accept: b'']"
  have l: "\<forall>l \<in> set ?ls. plain_line 80 l \<and> l \<noteq> []" by (simp add: plain_line_def)
  obtain h where h: "parse_headers (Ns_SetCreate None) ?ls Preserve = Some h"
    by (simp add: Ns_ParseHeader_def isspace_def Let_def)
  have s: "c_sock demo_conn \<noteq> None" by (simp add: demo_conn_def)
  have c: "concat (map (\<lambda>l. l @ CRLF) ?ls) = ''Host: a'' @ CRLF @ ''Accept: b'' @ CRLF"
    "length (''Host: a'' @ CRLF @ ''Accept: b'' @ CRLF) = 20" "length ''body'' = 4" by (simp_all add: CRLF_def)
  have "Ns_ConnReadHeaders 80 1000 Preserve demo_conn
      \<lparr>rb_next = (''Host: a'' @ CRLF @ ''Accept: b'' @ CRLF) @ CRLF @ ''body'', rb_avail = 20 + 2 + 4\<rparr> (Ns_SetCreate None) =
    (NS_OK, 20 + 2, h, \<lparr>rb_next = ''body'', rb_avail = 4\<rparr>)"
    using conn_read_headers [OF s _ l h, of 1000 "''body''", unfolded c] by linarith
  then show ?thesis unfolding append_assoc using h by (intro exI [of _ h] conjI) (assumption, simp only: arith_simps semiring_norm)
qed

end
