(* ===== verification/Range.thy ===== *)
theory Range
  imports ConnIO
begin

text \<open>
  Byte ranges: \<open>nsd/range.c\<close>, and of \<open>nsd/return.c\<close> the functions \<open>ReturnRange\<close> and
  \<open>Ns_ConnReturnData\<close> that answer with them.  \<open>Ns_ConnReturnStatus\<close> and \<open>ReturnRedirect\<close> of
  \<open>nsd/returnresp.c\<close> come first, because an unsatisfiable range is answered on the spot.  The table
  of internal redirects and the request processing behind \<open>Ns_ConnRedirect\<close> are parameters.
\<close>

section \<open>Status responses\<close>

record redirects =
  rd_table :: "int \<Rightarrow> string option"
  rd_run :: "Conn \<Rightarrow> string \<Rightarrow> (status \<times> Conn) io_end"

definition MAX_RECURSION :: int where "MAX_RECURSION = 3"

text \<open>\<open>Inl\<close> is the result of the redirect; \<open>Inr\<close> the connection if there is none.\<close>

definition ReturnRedirect :: "redirects \<Rightarrow> Conn \<Rightarrow> int \<Rightarrow> (status \<times> Conn) io_end + Conn" where
  "ReturnRedirect rd c st =
     (case rd_table rd st of
        None \<Rightarrow> Inr c
      | Some url \<Rightarrow>
          let c1 = c\<lparr>c_recursionCount := c_recursionCount c + 1\<rparr> in
          if c_recursionCount c1 > MAX_RECURSION then Inr c1
          else Inl (rd_run rd (c1\<lparr>c_responseStatus := st\<rparr>) url))"

definition Ns_ConnReturnStatus :: "redirects \<Rightarrow> io_env \<Rightarrow> server_env \<Rightarrow> Conn \<Rightarrow> int \<Rightarrow> (status \<times> Conn) io_end" where
  "Ns_ConnReturnStatus rd io e c st =
     (case ReturnRedirect rd c st of
        Inl r \<Rightarrow> r
      | Inr c1 \<Rightarrow> Ns_ConnWriteVData io e (Ns_ConnSetResponseStatus c1 st) [] 0)"

section \<open>Parsing ranges\<close>

record Range =
  r_start :: int
  r_end :: int

text \<open>\<open>Ns_ParseHttpTime\<close> may change the case of the month in the header value, which is not read again.\<close>

definition NsMatchRange :: "Conn \<Rightarrow> int \<Rightarrow> bool option" where
  "NsMatchRange c mtime =
     (if Ns_SetIGet (c_headers c) (Some ''Range'') \<noteq> None then
        (case Ns_SetIGet (c_headers c) (Some ''If-Range'') of
           None \<Rightarrow> Some True
         | Some hdr \<Rightarrow> map_option (\<lambda>(t, _). \<not> mtime > t) (Ns_ParseHttpTime hdr))
      else Some True)"

text \<open>\<open>atoll\<close> of the C library is \<open>strtoll\<close> to the base ten, which stops at the largest value.\<close>

definition atoll :: "string \<Rightarrow> int" where
  "atoll s = fst (strtol s 10)"

text \<open>One range: its first and last byte and the text behind it, or \<open>None\<close> for invalid syntax.\<close>

definition range_spec :: "nat \<Rightarrow> string \<Rightarrow> (int \<times> int \<times> string) option" where
  "range_spec objLength s =
     (if s \<noteq> [] \<and> isdigit (hd s) then
        let start = atoll s; s1 = dropWhile isdigit s in
        if s1 = [] \<or> hd s1 \<noteq> CHR ''-'' then None
        else let s2 = tl s1 in
          if s2 \<noteq> [] \<and> isdigit (hd s2)
          then Some (start, if atoll s2 \<ge> int objLength then int objLength - 1 else atoll s2, dropWhile isdigit s2)
          else Some (start, int objLength - 1, s2)
      else if s \<noteq> [] \<and> hd s = CHR ''-'' then
        let s1 = tl s in
        if s1 = [] \<or> \<not> isdigit (hd s1) then None
        else let n = (if atoll s1 \<ge> int objLength then int objLength else atoll s1);
                 start = int objLength - n
             in Some (start, start + n - 1, dropWhile isdigit s1)
      else None)"

text \<open>A range that overlaps the last one or touches it is merged with it.\<close>

definition add_range :: "Range list \<Rightarrow> Range \<Rightarrow> Range list" where
  "add_range rs r =
     (if rs = [] \<or> r_start r > r_end (last rs) + 1 \<or> r_start (last rs) \<noteq> 0 \<and> r_end r < r_start (last rs) - 1
      then rs @ [r]
      else butlast rs @ [\<lparr>r_start = min (r_start (last rs)) (r_start r), r_end = max (r_end (last rs)) (r_end r)\<rparr>])"

datatype range_result = Ranges "Range list" | BadSyntax | Unsatisfiable

lemma range_spec_shorter:
  assumes "range_spec n s = Some (a, b, s1)"
  shows "length s1 < length s"
proof -
  have d: "length (dropWhile isdigit x) \<le> length x" for x by (rule length_dropWhile_le)
  have "s1 \<in> {tl (dropWhile isdigit s), dropWhile isdigit (tl (dropWhile isdigit s)), dropWhile isdigit (tl s)}" "s \<noteq> []"
    using assms by (auto simp: range_spec_def Let_def split: if_splits)
  moreover have "length (dropWhile isdigit (tl (dropWhile isdigit s))) \<le> length s - 1" "length (tl (dropWhile isdigit s)) \<le> length s - 1"
    "length (dropWhile isdigit (tl s)) \<le> length s - 1"
    using d [of s] d [of "tl s"] d [of "tl (dropWhile isdigit s)"] by simp_all
  ultimately have "length s1 \<le> length s - 1" by blast
  then show ?thesis using \<open>s \<noteq> []\<close> by (cases s) simp_all
qed

function range_loop :: "nat \<Rightarrow> nat \<Rightarrow> string \<Rightarrow> Range list \<Rightarrow> range_result" where
  "range_loop objLength maxRanges s rs =
     (if s = [] \<or> \<not> length rs < maxRanges then Ranges rs
      else case range_spec objLength s of
             None \<Rightarrow> BadSyntax
           | Some (start, stop, s1) \<Rightarrow>
               if s1 \<noteq> [] \<and> hd s1 \<noteq> CHR '','' then BadSyntax
               else if start \<ge> int objLength then Unsatisfiable
               else if stop < start then BadSyntax
               else range_loop objLength maxRanges (tl s1) (add_range rs \<lparr>r_start = start, r_end = stop\<rparr>))"
  by auto
termination
  by (relation "measure (\<lambda>(n, m, s, rs). length s)") (auto dest: range_spec_shorter)

declare range_loop.simps [simp del]

text \<open>The count that is returned, the ranges, and the connection.\<close>

definition ParseRangeOffsets :: "redirects \<Rightarrow> io_env \<Rightarrow> server_env \<Rightarrow> Conn \<Rightarrow> nat \<Rightarrow> nat \<Rightarrow> (int \<times> Range list \<times> Conn) io_end" where
  "ParseRangeOffsets rd io e c objLength maxRanges =
     (case Ns_SetIGet (c_headers c) (Some ''Range'') of
        None \<Rightarrow> IoDone (0, [], c)
      | Some rangestr \<Rightarrow>
          (case strstr rangestr ''bytes='' of
             None \<Rightarrow> IoDone (0, [], c)
           | Some s \<Rightarrow>
               (case range_loop objLength maxRanges (drop 6 s) [] of
                  Ranges rs \<Rightarrow> IoDone (int (length rs), rs, c)
                | BadSyntax \<Rightarrow> IoDone (0, [], c)
                | Unsatisfiable \<Rightarrow>
                    (case Ns_ConnReturnStatus rd io e (Ns_ConnPrintfHeaders c ''Content-Range'' (''bytes */'' @ show_nat objLength)) 416 of
                       IoDone (_, c1) \<Rightarrow> IoDone (-1, [], c1) | ToWriter \<Rightarrow> ToWriter | IoFault \<Rightarrow> IoFault))))"

section \<open>The vectors of a range response\<close>

definition SetRangeHeader :: "Conn \<Rightarrow> int \<Rightarrow> int \<Rightarrow> nat \<Rightarrow> Conn" where
  "SetRangeHeader c start stop objLength =
     Ns_ConnPrintfHeaders c ''Content-range'' (''bytes '' @ show_int start @ ''-'' @ show_int stop @ ''/'' @ show_nat objLength)"

definition SetMultipartRangeHeader :: "Conn \<Rightarrow> Conn option" where
  "SetMultipartRangeHeader c = Ns_ConnSetTypeHeader c ''multipart/byteranges; boundary=NaviServerNaviServerNaviServer''"

definition AppendMultipartRangeHeader :: "string \<Rightarrow> string \<Rightarrow> int \<Rightarrow> int \<Rightarrow> nat \<Rightarrow> nat \<times> string" where
  "AppendMultipartRangeHeader ds type start stop objLength =
     (let ds1 = ds @ ''--NaviServerNaviServerNaviServer'' @ CRLF @ ''Content-type: '' @ type @ CRLF @
            ''Content-range: bytes '' @ show_int start @ ''-'' @ show_int stop @ ''/'' @ show_nat objLength @ CRLF @ CRLF
      in (length ds1 - length ds, ds1))"

definition AppendMultipartRangeTrailer :: "string \<Rightarrow> nat \<times> string" where
  "AppendMultipartRangeTrailer ds =
     (let ds1 = ds @ ''--NaviServerNaviServerNaviServer--'' @ CRLF in (length ds1 - length ds, ds1))"

text \<open>The headers of the parts against base 0, each with the line end of the part before, and the trailer.\<close>

fun multi_headers :: "string \<Rightarrow> nat \<Rightarrow> Range list \<Rightarrow> nat \<Rightarrow> string \<Rightarrow> nat \<Rightarrow> nat \<Rightarrow> Ns_FileVec list \<Rightarrow> (string \<times> Ns_FileVec list) option" where
  "multi_headers type n [] v ds dsbase len bufs =
     (case AppendMultipartRangeTrailer ds of
        (k, ds1) \<Rightarrow> map_option (\<lambda>(_, bufs1). (ds1, bufs1)) (Ns_SetFileVec bufs v NS_INVALID_FD 0 (int dsbase) (len + k)))"
| "multi_headers type n (r # rs) v ds dsbase len bufs =
     (case AppendMultipartRangeHeader ds type (r_start r) (r_end r) n of
        (k, ds1) \<Rightarrow>
          (case Ns_SetFileVec bufs v NS_INVALID_FD 0 (int dsbase) (len + k) of
             None \<Rightarrow> None
           | Some (j, bufs1) \<Rightarrow> multi_headers type n rs (v + 2) (ds1 @ CRLF) (dsbase + j) 2 bufs1))"

text \<open>Rebasing: the text is at address \<open>a\<close>; the parts of the data come between the headers.\<close>

fun multi_rebase :: "int \<Rightarrow> int \<Rightarrow> int \<Rightarrow> Range list \<Rightarrow> nat \<Rightarrow> nat \<Rightarrow> Ns_FileVec list \<Rightarrow> (nat \<times> Ns_FileVec list) option" where
  "multi_rebase a fd data [] v responseLength bufs =
     do { h \<leftarrow> arr_read bufs v;
          (k, bufs1) \<leftarrow> Ns_SetFileVec bufs v NS_INVALID_FD a (fv_offset h) (fv_length h);
          Some (responseLength + k, bufs1) }"
| "multi_rebase a fd data (r # rs) v responseLength bufs =
     do { h \<leftarrow> arr_read bufs v;
          (k, bufs1) \<leftarrow> Ns_SetFileVec bufs v NS_INVALID_FD a (fv_offset h) (fv_length h);
          (j, bufs2) \<leftarrow> Ns_SetFileVec bufs1 (v + 1) fd data (r_start r) (nat (r_end r - r_start r + 1));
          multi_rebase a fd data rs (v + 2) (responseLength + k + j) bufs2 }"

record range_vec =
  rv_count :: int
  rv_nbufs :: nat
  rv_bufs :: "Ns_FileVec list"
  rv_ds :: string

definition range_vectors :: "string \<Rightarrow> int \<Rightarrow> int \<Rightarrow> nat \<Rightarrow> int \<Rightarrow> Range list \<Rightarrow> Ns_FileVec list \<Rightarrow> Conn \<Rightarrow> (range_vec \<times> Conn) option" where
  "range_vectors type fd data objLength a rs bufs c =
     (let c1 = Ns_ConnSetResponseStatus c 206 in
      case rs of
        [r] \<Rightarrow>
          do { (responseLength, bufs1) \<leftarrow> Ns_SetFileVec bufs 0 fd data (r_start r) (nat (r_end r - r_start r + 1));
               c2 \<leftarrow> Ns_ConnSetLengthHeader (SetRangeHeader c1 (r_start r) (r_end r) objLength) responseLength False;
               Some (\<lparr>rv_count = 1, rv_nbufs = 1, rv_bufs = bufs1, rv_ds = []\<rparr>, c2) }
      | _ \<Rightarrow>
          do { (ds, bufs1) \<leftarrow> multi_headers type objLength rs 0 [] 0 0 bufs;
               (responseLength, bufs2) \<leftarrow> multi_rebase a fd data rs 0 0 bufs1;
               c2 \<leftarrow> SetMultipartRangeHeader c1;
               c3 \<leftarrow> Ns_ConnSetLengthHeader c2 responseLength False;
               Some (\<lparr>rv_count = int (length rs), rv_nbufs = length rs * 2 + 1, rv_bufs = bufs2, rv_ds = ds\<rparr>, c3) })"

text \<open>
  \<open>bufs\<close> is the array of the caller with its uninitialised content and \<open>a\<close> the address of the
  string that the caller passes for the headers of the parts, which is empty.
\<close>

definition NsConnParseRange :: "redirects \<Rightarrow> io_env \<Rightarrow> server_env \<Rightarrow> int \<Rightarrow> Conn \<Rightarrow> string \<Rightarrow> int \<Rightarrow> int \<Rightarrow> nat \<Rightarrow> Ns_FileVec list \<Rightarrow>
    (range_vec \<times> Conn) io_end" where
  "NsConnParseRange rd io e a c type fd data objLength bufs =
     (let c1 = Ns_ConnCondSetHeaders c ''Accept-Ranges'' ''bytes''
      in case NsMatchRange c1 (c_mtime c1) of
           None \<Rightarrow> IoFault
         | Some False \<Rightarrow> IoDone (\<lparr>rv_count = 0, rv_nbufs = 0, rv_bufs = bufs, rv_ds = []\<rparr>, c1)
         | Some True \<Rightarrow>
             if length bufs < 2 then IoFault
             else
               (case ParseRangeOffsets rd io e c1 objLength (length bufs div 2 - 1) of
                  IoDone (rangeCount, rs, c2) \<Rightarrow>
                    if rangeCount < 1 then IoDone (\<lparr>rv_count = rangeCount, rv_nbufs = 0, rv_bufs = bufs, rv_ds = []\<rparr>, c2)
                    else (case range_vectors type fd data objLength a rs bufs c2 of None \<Rightarrow> IoFault | Some r \<Rightarrow> IoDone r)
                | ToWriter \<Rightarrow> ToWriter
                | IoFault \<Rightarrow> IoFault))"

section \<open>Returning data\<close>

definition put_bytes :: "memory \<Rightarrow> int \<Rightarrow> string \<Rightarrow> memory" where
  "put_bytes m a s = m\<lparr>mem := (\<lambda>x. if a \<le> x \<and> x < a + int (length s) then s ! nat (x - a) else mem m x)\<rparr>"

text \<open>The tests of \<open>NsWriterQueue\<close> for an open file.\<close>

definition writer_refuses_fd :: "Conn \<Rightarrow> nat \<Rightarrow> bool" where
  "writer_refuses_fd c nsend \<longleftrightarrow>
     c_sock c = None \<or> wr_threads (c_drv c) = 0 \<or> nsend < wr_maxsize (c_drv c) \<and> c_fd c = 0 \<or>
     has (c_flags c) NS_CONN_STREAM \<or> c_fd c > 0"

text \<open>
  \<open>stack\<close> is the array of 32 vectors on the stack, \<open>sfp\<close> the driver's own procedure for files if
  it has one, and \<open>m\<close> the memory and the open files, in which the part headers are at \<open>a\<close>.
\<close>

definition ReturnRange :: "redirects \<Rightarrow> io_env \<Rightarrow> server_env \<Rightarrow> (Ns_FileVec list \<Rightarrow> Sock \<Rightarrow> int \<times> Sock) option \<Rightarrow> memory \<Rightarrow> int \<Rightarrow>
    Ns_FileVec list \<Rightarrow> Conn \<Rightarrow> string \<Rightarrow> int \<Rightarrow> int \<Rightarrow> nat \<Rightarrow> (status \<times> Conn) io_end" where
  "ReturnRange rd io e sfp m a stack c type fd data len =
     (case NsConnParseRange rd io e a c type fd data len stack of
        ToWriter \<Rightarrow> ToWriter
      | IoFault \<Rightarrow> IoFault
      | IoDone (rv, c1) \<Rightarrow>
          if \<not> has (c_flags c1) NS_CONN_SKIPBODY \<and>
             (if fd = NS_INVALID_FD
              then \<not> writer_refuses c1 (if rv_count rv = 0 then len else sum_list (map fv_length (take (nat (rv_count rv)) (rv_bufs rv))))
              else rv_count rv < 2 \<and>
                   \<not> writer_refuses_fd c1 (if rv_count rv = 1 then fv_length (rv_bufs rv ! 0) else len))
          then ToWriter
          else if rv_count rv \<ge> 0 then
            (case (if rv_count rv = 0
                   then do { c2 \<leftarrow> Ns_ConnSetLengthHeader c1 len False;
                             (_, bufs) \<leftarrow> Ns_SetFileVec (rv_bufs rv) 0 fd data 0 (if has (c_flags c2) NS_CONN_SKIPBODY then 0 else len);
                             Some (c2, bufs, 1) }
                   else Some (c1, rv_bufs rv, rv_nbufs rv)) of
               None \<Rightarrow> IoFault
             | Some (c2, bufs, nbufs) \<Rightarrow>
                 (case Ns_ConnWriteVData io e c2 [] NS_CONN_STREAM of
                    ToWriter \<Rightarrow> ToWriter
                  | IoFault \<Rightarrow> IoFault
                  | IoDone (NS_ERROR, c3) \<Rightarrow> IoDone (NS_ERROR, c3)
                  | IoDone (NS_OK, c3) \<Rightarrow>
                      (case c_sock c3 of
                         None \<Rightarrow> IoFault
                       | Some s \<Rightarrow>
                           (case Ns_ConnSendFileVec sfp (io_send io) (put_bytes m a (rv_ds rv)) (take nbufs bufs) (c_nContentSent c3) s of
                              (st, nc, s1) \<Rightarrow> IoDone (st, c3\<lparr>c_sock := Some s1, c_nContentSent := nc\<rparr>)))))
          else IoDone (NS_ERROR, c1))"

definition Ns_ConnReturnData :: "(string \<Rightarrow> string) option \<Rightarrow> ('z \<Rightarrow> string \<Rightarrow> int \<Rightarrow> bool \<Rightarrow> string \<times> 'z) \<Rightarrow> 'z \<Rightarrow>
    redirects \<Rightarrow> io_env \<Rightarrow> server_env \<Rightarrow> (Ns_FileVec list \<Rightarrow> Sock \<Rightarrow> int \<times> Sock) option \<Rightarrow> memory \<Rightarrow> int \<Rightarrow> Ns_FileVec list \<Rightarrow>
    Conn \<Rightarrow> int \<Rightarrow> int \<Rightarrow> nat \<Rightarrow> string \<Rightarrow> (status \<times> Conn \<times> (Sock \<times> bool) option) io_end" where
  "Ns_ConnReturnData enc gzip z rd io e sfp m a stack c st data len type =
     (case Ns_ConnSetTypeHeader c type of
        None \<Rightarrow> IoFault
      | Some c1 \<Rightarrow>
          (case ReturnRange rd io e sfp m a stack (Ns_ConnSetResponseStatus c1 st) type NS_INVALID_FD data len of
             ToWriter \<Rightarrow> ToWriter
           | IoFault \<Rightarrow> IoFault
           | IoDone (result, c2) \<Rightarrow>
               (case Ns_ConnClose enc gzip z io e c2 of
                  IoDone (c3, sk) \<Rightarrow> IoDone (result, c3, sk)
                | ToWriter \<Rightarrow> ToWriter
                | IoFault \<Rightarrow> IoFault)))"

text \<open>For an open file descriptor; channels and \<open>FILE\<close> pointers are sent by other functions.\<close>

definition Ns_ConnReturnOpenFd :: "(string \<Rightarrow> string) option \<Rightarrow> ('z \<Rightarrow> string \<Rightarrow> int \<Rightarrow> bool \<Rightarrow> string \<times> 'z) \<Rightarrow> 'z \<Rightarrow>
    redirects \<Rightarrow> io_env \<Rightarrow> server_env \<Rightarrow> (Ns_FileVec list \<Rightarrow> Sock \<Rightarrow> int \<times> Sock) option \<Rightarrow> memory \<Rightarrow> int \<Rightarrow> Ns_FileVec list \<Rightarrow>
    Conn \<Rightarrow> int \<Rightarrow> string \<Rightarrow> int \<Rightarrow> nat \<Rightarrow> (status \<times> Conn \<times> (Sock \<times> bool) option) io_end" where
  "Ns_ConnReturnOpenFd enc gzip z rd io e sfp m a stack c st type fd len =
     (case Ns_ConnSetTypeHeader c type of
        None \<Rightarrow> IoFault
      | Some c1 \<Rightarrow>
          (case ReturnRange rd io e sfp m a stack (Ns_ConnSetResponseStatus c1 st) type fd 0 len of
             ToWriter \<Rightarrow> ToWriter
           | IoFault \<Rightarrow> IoFault
           | IoDone (result, c2) \<Rightarrow>
               (case Ns_ConnClose enc gzip z io e c2 of
                  IoDone (c3, sk) \<Rightarrow> IoDone (result, c3, sk)
                | ToWriter \<Rightarrow> ToWriter
                | IoFault \<Rightarrow> IoFault)))"

section \<open>Ranges stay inside the object\<close>

definition range_ok :: "nat \<Rightarrow> Range \<Rightarrow> bool" where
  "range_ok n r \<longleftrightarrow> 0 \<le> r_start r \<and> r_start r \<le> r_end r \<and> r_end r < int n"

definition bytes_of :: "Range list \<Rightarrow> int set" where
  "bytes_of rs = (\<Union>r \<in> set rs. {r_start r..r_end r})"

lemma bytes_of_simps [simp]: "bytes_of [] = {}" "bytes_of (rs @ qs) = bytes_of rs \<union> bytes_of qs"
  "bytes_of (r # rs) = {r_start r..r_end r} \<union> bytes_of rs"
  by (auto simp: bytes_of_def)

lemma isdigit_not: "isdigit c \<Longrightarrow> \<not> isspace c \<and> c \<noteq> CHR ''-'' \<and> c \<noteq> CHR ''+''"
  by (auto simp: isdigit_def isspace_def Let_def)

lemma atoll_nonneg:
  assumes "s \<noteq> []" "isdigit (hd s)"
  shows "0 \<le> atoll s"
proof -
  have "dropWhile isspace s = s" using assms isdigit_not by (cases s) auto
  then show ?thesis using isdigit_not [OF assms(2)] by (simp add: atoll_def strtol_def Let_def)
qed

lemma range_spec_bounds:
  assumes "range_spec n s = Some (a, b, s1)" "a < int n" "a \<le> b"
  shows "range_ok n \<lparr>r_start = a, r_end = b\<rparr>"
  using assms atoll_nonneg [of s] by (auto simp: range_spec_def range_ok_def Let_def split: if_splits)

lemma add_range_snoc:
  "add_range (qs @ [p]) r =
     (if r_start r > r_end p + 1 \<or> r_start p \<noteq> 0 \<and> r_end r < r_start p - 1 then qs @ [p, r]
      else qs @ [\<lparr>r_start = min (r_start p) (r_start r), r_end = max (r_end p) (r_end r)\<rparr>])"
  by (simp add: add_range_def)

lemma add_range_ok:
  assumes "\<forall>r \<in> set rs. range_ok n r" "range_ok n r"
  shows "(\<forall>q \<in> set (add_range rs r). range_ok n q) \<and> length (add_range rs r) \<le> length rs + 1 \<and>
    bytes_of (add_range rs r) = bytes_of rs \<union> {r_start r..r_end r}"
proof (cases rs rule: rev_cases)
  case Nil
  then show ?thesis using assms(2) by (simp add: add_range_def)
next
  case (snoc qs p)
  let ?m = "\<lparr>r_start = min (r_start p) (r_start r), r_end = max (r_end p) (r_end r)\<rparr>"
  have p: "range_ok n p" using assms(1) snoc by simp
  show ?thesis
  proof (cases "r_start r > r_end p + 1 \<or> r_start p \<noteq> 0 \<and> r_end r < r_start p - 1")
    case True
    then show ?thesis using assms snoc by (auto simp: add_range_snoc)
  next
    case False
    then have j: "r_start r \<le> r_end p + 1" "r_start p \<le> r_end r + 1"
      using assms(2) by (auto simp: range_ok_def)
    have "range_ok n ?m" using p assms(2) by (auto simp: range_ok_def)
    moreover have "{r_start ?m..r_end ?m} = {r_start p..r_end p} \<union> {r_start r..r_end r}"
      using j p assms(2) by (auto simp: range_ok_def)
    ultimately show ?thesis using False assms snoc by (simp add: add_range_snoc Un_assoc)
  qed
qed

lemma range_loop_ok:
  "\<lbrakk>range_loop n mx s qs = Ranges rs; \<forall>q \<in> set qs. range_ok n q; length qs \<le> mx\<rbrakk> \<Longrightarrow>
   (\<forall>r \<in> set rs. range_ok n r) \<and> length rs \<le> mx \<and> bytes_of qs \<subseteq> bytes_of rs"
proof (induction n mx s qs rule: range_loop.induct)
  case (1 n mx s qs)
  show ?case
  proof (cases "s = [] \<or> \<not> length qs < mx")
    case True
    then show ?thesis using "1.prems" by (simp add: range_loop.simps [of n mx s])
  next
    case False
    then obtain a b s1 where sp: "range_spec n s = Some (a, b, s1)" "\<not> (s1 \<noteq> [] \<and> hd s1 \<noteq> CHR '','')" "\<not> int n \<le> a" "\<not> b < a"
      using "1.prems"(1) by (subst (asm) range_loop.simps) (auto split: option.splits if_splits)
    let ?r = "\<lparr>r_start = a, r_end = b\<rparr>"
    have r: "range_ok n ?r" using range_spec_bounds [OF sp(1)] sp(3,4) by simp
    note A = add_range_ok [OF "1.prems"(2) r]
    have "range_loop n mx (tl s1) (add_range qs ?r) = Ranges rs"
      using "1.prems"(1) False sp by (subst (asm) range_loop.simps) simp
    then show ?thesis using "1.IH" [OF False sp(1) refl refl sp(2-4)] A False by auto
  qed
qed

text \<open>A list of ranges as the standard writes it.\<close>

definition show_range :: "Range \<Rightarrow> string" where
  "show_range r = show_int (r_start r) @ ''-'' @ show_int (r_end r)"

fun show_ranges :: "Range list \<Rightarrow> string" where
  "show_ranges [] = []"
| "show_ranges [r] = show_range r"
| "show_ranges (r # rs) = show_range r @ '','' @ show_ranges rs"

lemma show_nat_isdigit: "c \<in> set (show_nat n) \<Longrightarrow> isdigit c \<and> is_base_digit 10 c"
proof -
  assume "c \<in> set (show_nat n)"
  then obtain d :: nat where "d < 10" "c = char_of (48 + d)" using show_nat_digits by blast
  then show ?thesis using digit_char_props [of d] by (simp add: isdigit_def Let_def)
qed

lemma atoll_show:
  assumes "int n \<le> LONG_MAX" "s = [] \<or> \<not> is_base_digit 10 (hd s)"
  shows "atoll (show_nat n @ s) = int n"
proof -
  obtain c cs where c: "show_nat n = c # cs" using show_nat_ne by (cases "show_nat n") auto
  then have "\<not> isspace c \<and> c \<noteq> CHR ''-'' \<and> c \<noteq> CHR ''+''" using show_nat_isdigit [of c n] isdigit_not by simp
  then have "dropWhile isspace (show_nat n @ s) = show_nat n @ s" "hd (show_nat n @ s) \<notin> {CHR ''-'', CHR ''+''}"
    using c by simp_all
  moreover have "takeWhile (is_base_digit 10) (show_nat n @ s) = show_nat n"
    using assms(2) show_nat_isdigit by (cases s) (auto simp: takeWhile_append)
  ultimately show ?thesis using assms(1) by (simp add: atoll_def strtol_def Let_def digits_val_show)
qed

lemma drop_show_nat: "s = [] \<or> \<not> isdigit (hd s) \<Longrightarrow> dropWhile isdigit (show_nat n @ s) = s"
  using show_nat_isdigit by (cases s) (auto simp: dropWhile_append)

lemma hd_show_nat: "isdigit (hd (show_nat n @ s))"
  using show_nat_isdigit [of "hd (show_nat n)" n] by (simp add: hd_append)

lemma range_spec_show:
  assumes "range_ok n r" "int n \<le> LONG_MAX" "s = [] \<or> hd s = CHR '',''"
  shows "range_spec n (show_range r @ s) = Some (r_start r, r_end r, s)"
proof -
  define a b where "a = nat (r_start r)" "b = nat (r_end r)"
  then have ab: "r_start r = int a" "r_end r = int b" "b < n" "a \<le> b"
    using assms(1) by (simp_all add: range_ok_def nat_less_iff nat_mono)
  let ?t = "CHR ''-'' # show_nat b @ s"
  have sh: "show_range r @ s = show_nat a @ ?t" by (simp add: show_range_def ab show_int_def)
  have nd: "\<not> is_base_digit 10 CHR ''-''" "\<not> isdigit CHR ''-''" "\<not> is_base_digit 10 CHR '',''" "\<not> isdigit CHR '',''"
    by (simp_all add: is_base_digit_def digit_val_def isdigit_def Let_def)
  have s: "s = [] \<or> \<not> is_base_digit 10 (hd s)" "s = [] \<or> \<not> isdigit (hd s)" using assms(3) nd by auto
  have at: "atoll (show_nat a @ ?t) = int a" "atoll (show_nat b @ s) = int b"
    using atoll_show [of a ?t] atoll_show [of b s] assms(2) ab(3,4) nd s by simp_all
  have dr: "dropWhile isdigit (show_nat a @ ?t) = ?t" "dropWhile isdigit (show_nat b @ s) = s"
    using drop_show_nat [of ?t a] drop_show_nat [of s b] nd s by simp_all
  show ?thesis unfolding sh range_spec_def using hd_show_nat [of a ?t] hd_show_nat [of b s] ab(3)
    by (simp add: Let_def at dr ab(1,2))
qed

lemma show_ranges_Cons: "show_ranges (r # rs) = show_range r @ (if rs = [] then [] else CHR '','' # show_ranges rs)"
  by (cases rs) simp_all

lemma range_loop_show:
  assumes "int n \<le> LONG_MAX"
  shows "\<lbrakk>\<forall>r \<in> set rs. range_ok n r; \<forall>r \<in> set qs. range_ok n r; length qs + length rs \<le> mx\<rbrakk> \<Longrightarrow>
    \<exists>ps. range_loop n mx (show_ranges rs) qs = Ranges ps \<and> (\<forall>r \<in> set ps. range_ok n r) \<and>
      bytes_of ps = bytes_of qs \<union> bytes_of rs \<and> length ps \<le> length qs + length rs"
proof (induction rs arbitrary: qs)
  case Nil
  then show ?case by (subst range_loop.simps) simp
next
  case (Cons r rs)
  let ?s = "if rs = [] then [] else CHR '','' # show_ranges rs"
  have ne: "show_ranges (r # rs) \<noteq> []" by (simp add: show_ranges_Cons show_range_def)
  have r: "range_ok n r" using Cons.prems(1) by simp
  have sp: "range_spec n (show_ranges (r # rs)) = Some (r_start r, r_end r, ?s)"
    unfolding show_ranges_Cons using range_spec_show [OF r assms, of ?s] by simp
  note A = add_range_ok [OF Cons.prems(2) r]
  have "tl ?s = show_ranges rs" by simp
  then have "range_loop n mx (show_ranges (r # rs)) qs = range_loop n mx (show_ranges rs) (add_range qs r)"
    using ne sp r Cons.prems(3) by (cases r, subst range_loop.simps) (auto simp: range_ok_def)
  with Cons.IH [of "add_range qs r"] A Cons.prems(1,3) show ?case by (auto simp: Un_assoc)
qed

lemma parse_offsets_ok:
  assumes "ParseRangeOffsets rd io e c n mx = IoDone (k, rs, c1)"
  shows "(\<forall>r \<in> set rs. range_ok n r) \<and> length rs \<le> mx \<and> (k = int (length rs) \<and> c1 = c \<or> k = -1 \<and> rs = [])"
  using assms range_loop_ok [of n mx _ "[]"]
  by (auto simp: ParseRangeOffsets_def split: option.splits range_result.splits io_end.splits)

lemma range_header_read:
  assumes "Ns_SetIGet (c_headers c) (Some ''Range'') = Some (''bytes='' @ show_ranges qs)"
    and "\<forall>q \<in> set qs. range_ok n q" "int n \<le> LONG_MAX" "length qs \<le> mx"
  shows "\<exists>rs. ParseRangeOffsets rd io e c n mx = IoDone (int (length rs), rs, c) \<and> bytes_of rs = bytes_of qs \<and> length rs \<le> length qs"
proof -
  have "strstr (''bytes='' @ show_ranges qs) ''bytes='' = Some (''bytes='' @ show_ranges qs)" by simp
  moreover obtain rs where "range_loop n mx (show_ranges qs) [] = Ranges rs" "bytes_of rs = bytes_of qs" "length rs \<le> length qs"
    using range_loop_show [OF assms(3,2), of "[]" mx] assms(4) by auto
  ultimately show ?thesis using assms(1) by (auto simp: ParseRangeOffsets_def)
qed

section \<open>The body of a range response\<close>

definition part_header :: "string \<Rightarrow> nat \<Rightarrow> Range \<Rightarrow> string" where
  "part_header type n r = ''--NaviServerNaviServerNaviServer'' @ CRLF @ ''Content-type: '' @ type @ CRLF @
     ''Content-range: bytes '' @ show_int (r_start r) @ ''-'' @ show_int (r_end r) @ ''/'' @ show_nat n @ CRLF @ CRLF"

definition part_trailer :: string where
  "part_trailer = ''--NaviServerNaviServerNaviServer--'' @ CRLF"

definition slice :: "string \<Rightarrow> Range \<Rightarrow> string" where
  "slice content r = take (nat (r_end r - r_start r + 1)) (drop (nat (r_start r)) content)"

text \<open>The body as the standard has it: the bytes of a single range, or a multipart message.\<close>

definition range_body :: "string \<Rightarrow> string \<Rightarrow> Range list \<Rightarrow> string" where
  "range_body type content rs =
     (case rs of
        [r] \<Rightarrow> slice content r
      | _ \<Rightarrow> concat (map (\<lambda>r. part_header type (length content) r @ slice content r @ CRLF) rs) @ part_trailer)"

lemma append_header: "AppendMultipartRangeHeader ds type (r_start r) (r_end r) n = (length (part_header type n r), ds @ part_header type n r)"
  by (simp add: AppendMultipartRangeHeader_def part_header_def Let_def)

lemma append_trailer: "AppendMultipartRangeTrailer ds = (length part_trailer, ds @ part_trailer)"
  by (simp add: AppendMultipartRangeTrailer_def part_trailer_def Let_def)

text \<open>The vectors of a multipart message with its text at \<open>a\<close>: \<open>b\<close> bytes of it are covered, \<open>l\<close> are pending.\<close>

fun multi_vecs :: "string \<Rightarrow> nat \<Rightarrow> int \<Rightarrow> int \<Rightarrow> int \<Rightarrow> nat \<Rightarrow> nat \<Rightarrow> Range list \<Rightarrow> Ns_FileVec list" where
  "multi_vecs type n a fd data b l [] = [\<lparr>fv_fd = NS_INVALID_FD, fv_offset = a + int b, fv_length = l + length part_trailer\<rparr>]"
| "multi_vecs type n a fd data b l (r # rs) =
     \<lparr>fv_fd = NS_INVALID_FD, fv_offset = a + int b, fv_length = l + length (part_header type n r)\<rparr> #
     \<lparr>fv_fd = fd, fv_offset = (if fd \<noteq> NS_INVALID_FD then r_start r else data + r_start r), fv_length = nat (r_end r - r_start r + 1)\<rparr> #
     multi_vecs type n a fd data (b + l + length (part_header type n r)) 2 rs"

lemma length_multi_vecs [simp]: "length (multi_vecs type n a fd data b l rs) = 2 * length rs + 1"
  by (induction rs arbitrary: b l) simp_all

lemma set_file_vec_in:
  "i < length bufs \<Longrightarrow> Ns_SetFileVec bufs i fd data off len =
     Some (len, bufs[i := \<lparr>fv_fd = fd, fv_offset = (if fd \<noteq> NS_INVALID_FD then off else data + off), fv_length = len\<rparr>])"
  by (simp add: Ns_SetFileVec_def arr_simps)

lemma multi_headers_vecs:
  "v + 2 * length rs < length bufs \<Longrightarrow>
   \<exists>bufs1. multi_headers type n rs v ds b l bufs =
       Some (ds @ concat (map (\<lambda>r. part_header type n r @ CRLF) rs) @ part_trailer, bufs1) \<and> length bufs1 = length bufs \<and>
     (\<forall>i \<le> length rs. bufs1 ! (v + 2 * i) = multi_vecs type n 0 fd data b l rs ! (2 * i)) \<and>
     (\<forall>i < v. bufs1 ! i = bufs ! i)"
proof (induction rs arbitrary: v ds b l bufs)
  case Nil
  then show ?case by (simp add: append_trailer set_file_vec_in)
next
  case (Cons r rs)
  let ?k = "length (part_header type n r)"
  let ?b = "bufs[v := \<lparr>fv_fd = NS_INVALID_FD, fv_offset = int b, fv_length = l + ?k\<rparr>]"
  have "v + 2 + 2 * length rs < length ?b" using Cons.prems by simp
  from Cons.IH [OF this, of "ds @ part_header type n r @ CRLF" "b + (l + ?k)" 2] obtain bufs1 where
    b1: "multi_headers type n rs (v + 2) (ds @ part_header type n r @ CRLF) (b + (l + ?k)) 2 ?b =
      Some ((ds @ part_header type n r @ CRLF) @ concat (map (\<lambda>r. part_header type n r @ CRLF) rs) @ part_trailer, bufs1)"
    "length bufs1 = length ?b"
    "\<forall>i \<le> length rs. bufs1 ! (v + 2 + 2 * i) = multi_vecs type n 0 fd data (b + (l + ?k)) 2 rs ! (2 * i)"
    "\<forall>i < v + 2. bufs1 ! i = ?b ! i" by blast
  have "\<forall>i \<le> length (r # rs). bufs1 ! (v + 2 * i) = multi_vecs type n 0 fd data b l (r # rs) ! (2 * i)"
  proof (intro allI impI)
    fix i assume "i \<le> length (r # rs)"
    then show "bufs1 ! (v + 2 * i) = multi_vecs type n 0 fd data b l (r # rs) ! (2 * i)"
      using b1(3,4) Cons.prems by (cases i) (auto simp: add.assoc)
  qed
  then show ?case using b1 Cons.prems by (intro exI [of _ bufs1]) (simp add: append_header set_file_vec_in)
qed

lemma multi_rebase_vecs:
  "\<lbrakk>v + 2 * length rs < length bufs; \<forall>i \<le> length rs. bufs ! (v + 2 * i) = multi_vecs type n 0 fd data b l rs ! (2 * i)\<rbrakk> \<Longrightarrow>
   \<exists>bufs1. multi_rebase a fd data rs v resp bufs =
       Some (resp + sum_list (map fv_length (multi_vecs type n a fd data b l rs)), bufs1) \<and> length bufs1 = length bufs \<and>
     take v bufs1 = take v bufs \<and> take (2 * length rs + 1) (drop v bufs1) = multi_vecs type n a fd data b l rs"
proof (induction rs arbitrary: v b l bufs resp)
  case Nil
  then show ?case by (simp add: arr_simps set_file_vec_in take_Suc_conv_app_nth drop_update_swap nth_via_drop)
next
  case (Cons r rs)
  let ?k = "length (part_header type n r)"
  let ?h = "\<lparr>fv_fd = NS_INVALID_FD, fv_offset = a + int b, fv_length = l + ?k\<rparr>"
  let ?d = "\<lparr>fv_fd = fd, fv_offset = (if fd \<noteq> NS_INVALID_FD then r_start r else data + r_start r), fv_length = nat (r_end r - r_start r + 1)\<rparr>"
  let ?b = "bufs[v := ?h, v + 1 := ?d]"
  have hv: "bufs ! v = \<lparr>fv_fd = NS_INVALID_FD, fv_offset = int b, fv_length = l + ?k\<rparr>"
    using Cons.prems(2) [rule_format, of 0] by simp
  have len: "v + 2 + 2 * length rs < length ?b" using Cons.prems(1) by simp
  moreover have "\<forall>i \<le> length rs. ?b ! (v + 2 + 2 * i) = multi_vecs type n 0 fd data (b + l + ?k) 2 rs ! (2 * i)"
  proof (intro allI impI)
    fix i assume "i \<le> length rs"
    then show "?b ! (v + 2 + 2 * i) = multi_vecs type n 0 fd data (b + l + ?k) 2 rs ! (2 * i)"
      using Cons.prems(2) [rule_format, of "Suc i"] by (simp add: add.assoc)
  qed
  ultimately obtain bufs1 where b1:
    "multi_rebase a fd data rs (v + 2) (resp + fv_length ?h + fv_length ?d) ?b =
      Some (resp + fv_length ?h + fv_length ?d + sum_list (map fv_length (multi_vecs type n a fd data (b + l + ?k) 2 rs)), bufs1)"
    "length bufs1 = length ?b" "take (v + 2) bufs1 = take (v + 2) ?b"
    "take (2 * length rs + 1) (drop (v + 2) bufs1) = multi_vecs type n a fd data (b + l + ?k) 2 rs"
    using Cons.IH by blast
  have eq: "bufs1 ! i = ?b ! i" if "i < v + 2" for i using b1(3) that by (metis nth_take)
  have "bufs1 ! v = ?h" "bufs1 ! Suc v = ?d" using eq [of v] eq [of "v + 1"] Cons.prems(1) by simp_all
  then have "drop v bufs1 = ?h # ?d # drop (v + 2) bufs1"
    using Cons_nth_drop_Suc [of v bufs1] Cons_nth_drop_Suc [of "Suc v" bufs1] b1(2) Cons.prems(1) by simp
  moreover have "take v bufs1 = take v bufs"
    using arg_cong [OF b1(3), of "take v"] by simp
  moreover have "multi_rebase a fd data (r # rs) v resp bufs = multi_rebase a fd data rs (v + 2) (resp + fv_length ?h + fv_length ?d) ?b"
    using Cons.prems(1) by (simp add: arr_simps set_file_vec_in hv)
  ultimately show ?case using b1 by (intro exI [of _ bufs1]) simp
qed

lemma take_mem_bytes: "k \<le> n \<Longrightarrow> take k (mem_bytes m a n) = mem_bytes m a k"
  by (simp add: mem_bytes_def take_map)

lemma mem_bytes_part:
  assumes "mem_bytes m a (length D) = D" "p + k \<le> length D"
  shows "mem_bytes m (a + int p) k = take k (drop p D)"
proof -
  have "take k (drop p (mem_bytes m a (length D))) = mem_bytes m (a + int p) k"
    unfolding drop_mem_bytes using assms(2) by (intro take_mem_bytes) simp
  then show ?thesis using assms(1) by simp
qed

text \<open>Where the data of the response is: in memory at \<open>data\<close>, or in the file \<open>fd\<close>.\<close>

definition content_at :: "memory \<Rightarrow> int \<Rightarrow> int \<Rightarrow> string \<Rightarrow> bool" where
  "content_at m fd data content \<longleftrightarrow>
     (if fd = NS_INVALID_FD then mem_bytes m data (length content) = content else 0 \<le> fd \<and> files m fd = content)"

definition data_vec :: "int \<Rightarrow> int \<Rightarrow> Range \<Rightarrow> Ns_FileVec" where
  "data_vec fd data r = \<lparr>fv_fd = fd, fv_offset = (if fd \<noteq> NS_INVALID_FD then r_start r else data + r_start r), fv_length = nat (r_end r - r_start r + 1)\<rparr>"

lemma data_vec_bytes:
  assumes "content_at m fd data content" "range_ok (length content) r"
  shows "fv_ok m (data_vec fd data r)" "fv_bytes m (data_vec fd data r) = slice content r"
proof -
  have r: "0 \<le> r_start r" "nat (r_start r) + nat (r_end r - r_start r + 1) \<le> length content" "int (nat (r_start r)) = r_start r"
    using assms(2) by (auto simp: range_ok_def)
  show "fv_ok m (data_vec fd data r)"
    using assms(1) r by (auto simp: content_at_def fv_ok_def data_vec_def NS_INVALID_FD_def split: if_splits)
  show "fv_bytes m (data_vec fd data r) = slice content r"
  proof (cases "fd = NS_INVALID_FD")
    case True
    then have "mem_bytes m (data + int (nat (r_start r))) (nat (r_end r - r_start r + 1)) = slice content r"
      unfolding slice_def using assms(1) r(2) by (intro mem_bytes_part) (simp_all add: content_at_def)
    then show ?thesis using True r(3) by (simp add: fv_bytes_def data_vec_def NS_INVALID_FD_def)
  next
    case False
    then show ?thesis using assms(1) by (simp add: fv_bytes_def data_vec_def content_at_def slice_def)
  qed
qed

lemma put_bytes_mem: "mem_bytes (put_bytes m a s) a (length s) = s"
  by (rule nth_equalityI) (auto simp: mem_bytes_def put_bytes_def)

lemma put_bytes_content:
  assumes "content_at m fd data content" "a + int (length s) \<le> data \<or> data + int (length content) \<le> a"
  shows "content_at (put_bytes m a s) fd data content"
proof -
  have "mem_bytes (put_bytes m a s) data (length content) = mem_bytes m data (length content)"
    using assms(2) by (auto simp: mem_bytes_def put_bytes_def)
  then show ?thesis using assms(1) by (simp add: content_at_def) (simp add: put_bytes_def)
qed

lemma multi_vecs_bytes:
  assumes "content_at m fd data content"
  shows "\<lbrakk>\<forall>r \<in> set rs. range_ok (length content) r; length P = b + l;
    D = P @ concat (map (\<lambda>r. part_header type (length content) r @ CRLF) rs) @ part_trailer; mem_bytes m a (length D) = D\<rbrakk> \<Longrightarrow>
   (\<forall>v \<in> set (multi_vecs type (length content) a fd data b l rs). fv_ok m v) \<and>
   concat (map (fv_bytes m) (multi_vecs type (length content) a fd data b l rs)) =
     drop b P @ concat (map (\<lambda>r. part_header type (length content) r @ slice content r @ CRLF) rs) @ part_trailer"
proof (induction rs arbitrary: P b l)
  case Nil
  then have "mem_bytes m (a + int b) (l + length part_trailer) = drop b P @ part_trailer"
    using mem_bytes_part [of m a D b] by simp
  then show ?case by (simp add: fv_ok_def fv_bytes_def NS_INVALID_FD_def)
next
  case (Cons r rs)
  let ?n = "length content" let ?h = "part_header type ?n r"
  let ?P = "P @ ?h @ CRLF"
  have "length ?P = (b + l + length ?h) + 2" using Cons.prems(2) by (simp add: CRLF_def)
  moreover have "D = ?P @ concat (map (\<lambda>r. part_header type ?n r @ CRLF) rs) @ part_trailer" using Cons.prems(3) by simp
  ultimately have IH: "(\<forall>v \<in> set (multi_vecs type ?n a fd data (b + l + length ?h) 2 rs). fv_ok m v)"
   "concat (map (fv_bytes m) (multi_vecs type ?n a fd data (b + l + length ?h) 2 rs)) =
     CRLF @ concat (map (\<lambda>r. part_header type ?n r @ slice content r @ CRLF) rs) @ part_trailer"
    using Cons.IH [of ?P "b + l + length ?h" 2] Cons.prems by simp_all
  have "mem_bytes m (a + int b) (l + length ?h) = drop b P @ ?h"
    using mem_bytes_part [OF Cons.prems(4), of b "l + length ?h"] Cons.prems(2,3) by simp
  moreover have "range_ok ?n r" using Cons.prems(1) by simp
  note data_vec_bytes [OF assms this]
  ultimately show ?case using IH by (simp add: data_vec_def) (simp add: fv_ok_def fv_bytes_def NS_INVALID_FD_def)
qed

section \<open>The range response\<close>

lemma update_headers:
  "\<exists>s. Ns_ConnUpdateHeaders c k v = Some (c\<lparr>c_outputheaders := s\<rparr>) \<and> \<lparr>fld_name = Some k, fld_value = Some v\<rparr> \<in> set (set_fields s)"
  by (auto simp: Ns_ConnUpdateHeaders_def Ns_SetUpdate_def Ns_SetDeleteKey_def Ns_SetFind_def DeleteKey_spec)

abbreviation length_field :: "nat \<Rightarrow> Ns_SetField" where
  "length_field n \<equiv> \<lparr>fld_name = Some ''Content-Length'', fld_value = Some (show_nat n)\<rparr>"

lemma length_header_field:
  "\<exists>s. Ns_ConnSetLengthHeader c n False = Some (c\<lparr>c_outputheaders := s, c_responseLength := int n\<rparr>) \<and> length_field n \<in> set (set_fields s)"
proof -
  obtain s where "Ns_ConnUpdateHeaders c ''Content-Length'' (show_nat n) = Some (c\<lparr>c_outputheaders := s\<rparr>)" "length_field n \<in> set (set_fields s)"
    using update_headers by blast
  then show ?thesis by (intro exI [of _ s]) (simp add: Ns_ConnSetLengthHeader_def)
qed

text \<open>The first write of a response with a known length and no data sends the header block alone.\<close>

lemma write_headers_only:
  assumes "good_io io c" "c_sock c = Some s" "c_request c = Some r" "c_responseLength c \<ge> 0" "1 \<le> io_maxiov io"
    and "\<not> has (c_flags c) NS_CONN_SENTHDRS" "\<not> has (c_flags c) NS_CONN_SKIPHDRS" "\<not> has (c_flags c) NS_CONN_CHUNK"
  shows "\<exists>c0 hdr c1 s1. Ns_ConnWriteVData io e c [] NS_CONN_STREAM = IoDone (NS_OK, c1) \<and> c_sock c1 = Some s1 \<and>
    Ns_ConnConstructHeaders e c0 [] = Some hdr \<and> c_responseStatus c0 = c_responseStatus c \<and>
    set (set_fields (c_outputheaders c)) \<subseteq> set (set_fields (c_outputheaders c0)) \<and> wire s1 = wire s @ hdr"
proof -
  define c2 where "c2 = c\<lparr>c_flags := c_flags c OR NS_CONN_STREAM OR NS_CONN_SENTHDRS\<rparr>"
  define c4 where "c4 = (let k = (c2\<lparr>c_flags := c_flags c2 OR NS_CONN_STREAM\<rparr>)\<lparr>c_keep := (if CheckKeep (c2\<lparr>c_flags := c_flags c2 OR NS_CONN_STREAM\<rparr>) then 1 else 0)\<rparr>
    in Ns_ConnSetHeaders k ''Connection'' (if c_keep k \<noteq> 0 then ''keep-alive'' else ''close''))"
  have st: "has NS_CONN_STREAM NS_CONN_STREAM" "\<not> has NS_CONN_STREAM NS_CONN_STREAM_CLOSE" by (simp_all add: flag_simps)
  obtain hdr where hdr: "Ns_ConnConstructHeaders e c4 [] = Some hdr"
    using assms(3) by (simp add: c4_def c2_def Let_def Ns_ConnSetHeaders_def Ns_ConnConstructHeaders_def)
  have fl: "c_flags c4 = c_flags c OR NS_CONN_STREAM OR NS_CONN_SENTHDRS OR NS_CONN_STREAM"
    by (simp add: c4_def c2_def Let_def Ns_ConnSetHeaders_def or.assoc)
  have nc: "\<not> has (c_flags c4) NS_CONN_CHUNK" using assms(8) by (simp add: fl flag_simps)
  have sk: "\<not> has (c_flags c2) NS_CONN_SKIPHDRS" "0 \<le> c_responseLength c2" using assms(4,7) by (simp_all add: c2_def flag_simps)
  have comp: "Ns_CompleteHeaders e c2 0 NS_CONN_STREAM [] = Some (True, c4, hdr)"
    using sk st(1) hdr nc unfolding Ns_CompleteHeaders_def c4_def Let_def by simp
  have sel: "c_sock c4 = Some s" "c_drv c4 = c_drv c" "c_responseStatus c4 = c_responseStatus c"
    "set (set_fields (c_outputheaders c)) \<subseteq> set (set_fields (c_outputheaders c4))"
    using assms(2) by (auto simp: c4_def c2_def Let_def Ns_ConnSetHeaders_def)
  obtain s1 where s1: "wire s1 = wire s @ hdr" "Ns_ConnSend io c4 [mk_iov hdr] = IoDone (int (length hdr),
      c4\<lparr>c_sock := Some s1, c_nContentSent := c_nContentSent c4 + length hdr\<rparr>)"
    using conn_send_all [OF good_io_cong [OF assms(1) sel(2)] sel(1), of "[mk_iov hdr]"] assms(5) by auto
  have nh: "\<not> has (c_flags c OR NS_CONN_STREAM) NS_CONN_SENTHDRS" using assms(6) by (simp add: flag_simps)
  have "Ns_ConnWriteVData io e c [] NS_CONN_STREAM = IoDone (NS_OK, c4\<lparr>c_sock := Some s1, c_nContentSent := c_nContentSent c4 + length hdr\<rparr>)"
    unfolding Ns_ConnWriteVData_def Let_def
    using st nh s1(2) comp nc by (simp add: c2_def or.assoc Ns_SumVec_def push_vec_def)
  then show ?thesis using hdr sel(3,4) s1(1) by (intro exI [of _ c4] exI [of _ hdr] exI conjI) auto
qed

text \<open>The text of the part headers, and that it is apart from data in memory.\<close>

definition part_text :: "string \<Rightarrow> nat \<Rightarrow> Range list \<Rightarrow> string" where
  "part_text type n rs = (case rs of [r] \<Rightarrow> [] | _ \<Rightarrow> concat (map (\<lambda>r. part_header type n r @ CRLF) rs) @ part_trailer)"

definition apart :: "string \<Rightarrow> nat \<Rightarrow> int \<Rightarrow> int \<Rightarrow> bool" where
  "apart type n a data \<longleftrightarrow>
     data + int n \<le> a \<or> (\<forall>rs. length rs \<le> 15 \<and> (\<forall>r \<in> set rs. range_ok n r) \<longrightarrow> a + int (length (part_text type n rs)) \<le> data)"

lemma multi_list_cases: "rs \<noteq> [] \<Longrightarrow> (\<exists>r. rs = [r]) \<or> (\<exists>r q qs. rs = r # q # qs)"
  by (cases rs; cases "tl rs") auto

lemma range_vectors_body:
  assumes "rs \<noteq> []" "\<forall>r \<in> set rs. range_ok (length content) r" "length rs \<le> 15" "length bufs = 32"
    and "content_at m fd data content" "apart type (length content) a data"
  shows "\<exists>rv c1 hs. range_vectors type fd data (length content) a rs bufs c = Some (rv, c1) \<and> rv_count rv = int (length rs) \<and>
    c1 = c\<lparr>c_responseStatus := 206, c_outputheaders := hs, c_responseLength := int (length (range_body type content rs))\<rparr> \<and>
    length_field (length (range_body type content rs)) \<in> set (set_fields hs) \<and>
    (\<forall>v \<in> set (take (rv_nbufs rv) (rv_bufs rv)). fv_ok (put_bytes m a (rv_ds rv)) v) \<and>
    concat (map (fv_bytes (put_bytes m a (rv_ds rv))) (take (rv_nbufs rv) (rv_bufs rv))) = range_body type content rs"
proof -
  let ?n = "length content" and ?c = "Ns_ConnSetResponseStatus c 206" and ?m = "put_bytes m a (part_text type (length content) rs)"
  have c206: "?c = c\<lparr>c_responseStatus := 206\<rparr>" by (simp add: Ns_ConnSetResponseStatus_def)
  have apart_rs: "a + int (length (part_text type ?n rs)) \<le> data \<or> data + int ?n \<le> a"
    using assms(2,3,6) by (auto simp: apart_def)
  have cm: "content_at ?m fd data content" using put_bytes_content [OF assms(5)] apart_rs by blast
  consider (single) r where "rs = [r]" | (multi) r q qs where "rs = r # q # qs" using multi_list_cases [OF assms(1)] by blast
  then show ?thesis
  proof cases
    case single
    have len: "length (slice content r) = nat (r_end r - r_start r + 1)"
      using assms(2) single by (auto simp: slice_def range_ok_def)
    note D = data_vec_bytes [OF cm, of r]
    have "?m = put_bytes m a []" using single by (simp add: part_text_def)
    then have D': "fv_ok (put_bytes m a []) (data_vec fd data r)" "fv_bytes (put_bytes m a []) (data_vec fd data r) = slice content r"
      using D assms(2) single by simp_all
    obtain hs where hs: "Ns_ConnSetLengthHeader (SetRangeHeader ?c (r_start r) (r_end r) ?n) (nat (r_end r - r_start r + 1)) False =
        Some ((SetRangeHeader ?c (r_start r) (r_end r) ?n)\<lparr>c_outputheaders := hs, c_responseLength := int (nat (r_end r - r_start r + 1))\<rparr>)"
      "length_field (nat (r_end r - r_start r + 1)) \<in> set (set_fields hs)" using length_header_field by blast
    have "range_vectors type fd data ?n a rs bufs c =
        Some (\<lparr>rv_count = 1, rv_nbufs = 1, rv_bufs = bufs[0 := data_vec fd data r], rv_ds = []\<rparr>,
          c\<lparr>c_responseStatus := 206, c_outputheaders := hs, c_responseLength := int (nat (r_end r - r_start r + 1))\<rparr>)"
      using single assms(4) hs(1) by (simp add: range_vectors_def set_file_vec_in data_vec_def c206 SetRangeHeader_def Ns_ConnPrintfHeaders_def)
    then show ?thesis using single D' hs(2) assms(4) len
      by (cases bufs) (auto simp: range_body_def)
  next
    case multi
    let ?ds = "part_text type ?n rs" and ?vs = "multi_vecs type ?n a fd data 0 0 rs"
    have ds: "?ds = [] @ concat (map (\<lambda>r. part_header type ?n r @ CRLF) rs) @ part_trailer" using multi by (simp add: part_text_def)
    obtain b1 where b1: "multi_headers type ?n rs 0 [] 0 0 bufs = Some (?ds, b1)" "length b1 = 32"
      "\<forall>i \<le> length rs. b1 ! (0 + 2 * i) = multi_vecs type ?n 0 fd data 0 0 rs ! (2 * i)"
      using multi_headers_vecs [of 0 rs bufs type ?n "[]" 0 0 fd data] assms(3,4) unfolding ds by auto
    obtain b2 where b2: "multi_rebase a fd data rs 0 0 b1 = Some (sum_list (map fv_length ?vs), b2)" "take (2 * length rs + 1) b2 = ?vs"
      using multi_rebase_vecs [OF _ b1(3), of a 0] b1(2) assms(3) by auto
    have V: "(\<forall>v \<in> set ?vs. fv_ok ?m v)" "concat (map (fv_bytes ?m) ?vs) = range_body type content rs"
      using multi_vecs_bytes [OF cm assms(2) _ ds put_bytes_mem, of 0 0] multi by (simp_all add: range_body_def)
    then have len: "sum_list (map fv_length ?vs) = length (range_body type content rs)"
      using fv.length_concat_bytes [OF V(1)] by simp
    obtain h1 where h1: "SetMultipartRangeHeader ?c = Some (?c\<lparr>c_outputheaders := h1\<rparr>)"
      using update_headers unfolding SetMultipartRangeHeader_def Ns_ConnSetTypeHeader_def by blast
    obtain hs where hs: "Ns_ConnSetLengthHeader (?c\<lparr>c_outputheaders := h1\<rparr>) (length (range_body type content rs)) False =
        Some ((?c\<lparr>c_outputheaders := h1\<rparr>)\<lparr>c_outputheaders := hs, c_responseLength := int (length (range_body type content rs))\<rparr>)"
      "length_field (length (range_body type content rs)) \<in> set (set_fields hs)" using length_header_field by blast
    have "range_vectors type fd data ?n a rs bufs c =
        Some (\<lparr>rv_count = int (length rs), rv_nbufs = length rs * 2 + 1, rv_bufs = b2, rv_ds = ?ds\<rparr>,
          c\<lparr>c_responseStatus := 206, c_outputheaders := hs, c_responseLength := int (length (range_body type content rs))\<rparr>)"
      using multi b1(1) b2(1) h1 hs(1) len unfolding range_vectors_def
      by (simp add: Let_def c206 del: multi_headers.simps multi_rebase.simps multi_vecs.simps)
    then show ?thesis using V hs(2) b2(2) by (simp add: mult.commute) blast
  qed
qed

lemma parse_range_ranges:
  assumes "Ns_SetIGet (c_headers c) (Some ''Range'') = Some (''bytes='' @ show_ranges qs)" "qs \<noteq> []"
    and "\<forall>q \<in> set qs. range_ok n q" "int n \<le> LONG_MAX" "length qs \<le> 15" "NsMatchRange c (c_mtime c) = Some True" "length bufs = 32"
  shows "\<exists>rs hs. rs \<noteq> [] \<and> length rs \<le> 15 \<and> length rs \<le> length qs \<and> (\<forall>r \<in> set rs. range_ok n r) \<and> bytes_of rs = bytes_of qs \<and>
    NsConnParseRange rd io e a c type fd data n bufs =
      (case range_vectors type fd data n a rs bufs (c\<lparr>c_outputheaders := hs\<rparr>) of None \<Rightarrow> IoFault | Some r \<Rightarrow> IoDone r)"
proof -
  obtain hs where c1: "Ns_ConnCondSetHeaders c ''Accept-Ranges'' ''bytes'' = c\<lparr>c_outputheaders := hs\<rparr>"
  proof (cases "Ns_SetIGet (c_outputheaders c) (Some ''Accept-Ranges'') = None")
    case True
    then show ?thesis using that by (simp add: Ns_ConnCondSetHeaders_def)
  next
    case False
    then show ?thesis by (intro that [of "c_outputheaders c"]) (auto simp: Ns_ConnCondSetHeaders_def)
  qed
  let ?c = "c\<lparr>c_outputheaders := hs\<rparr>"
  have m: "NsMatchRange ?c (c_mtime ?c) = Some True" using assms(6) by (auto simp: NsMatchRange_def)
  have h: "Ns_SetIGet (c_headers ?c) (Some ''Range'') = Some (''bytes='' @ show_ranges qs)" using assms(1) by simp
  obtain rs where rs: "ParseRangeOffsets rd io e ?c n 15 = IoDone (int (length rs), rs, ?c)" "bytes_of rs = bytes_of qs" "length rs \<le> length qs"
    using range_header_read [OF h assms(3-5), of rd io e] by blast
  have ok: "\<forall>r \<in> set rs. range_ok n r" using parse_offsets_ok [OF rs(1)] by simp
  have ne: "rs \<noteq> []"
  proof
    assume "rs = []"
    then have "bytes_of qs = {}" using rs(2) by simp
    then show False using assms(2,3) by (cases qs) (auto simp: range_ok_def)
  qed
  then have "\<not> int (length rs) < 1" by (cases rs) simp_all
  then have "NsConnParseRange rd io e a c type fd data n bufs =
      (case range_vectors type fd data n a rs bufs ?c of None \<Rightarrow> IoFault | Some r \<Rightarrow> IoDone r)"
    using m rs(1) assms(7) by (simp add: NsConnParseRange_def c1 Let_def)
  then show ?thesis using ne ok rs(2,3) assms(5) by (intro exI [of _ rs] exI [of _ hs]) simp
qed

lemma range_response_sent:
  assumes "good_io io c" "c_sock c = Some s" "c_request c = Some r0" "1 \<le> io_maxiov io"
    and "\<not> has (c_flags c) NS_CONN_SENTHDRS" "\<not> has (c_flags c) NS_CONN_SKIPHDRS" "\<not> has (c_flags c) NS_CONN_CHUNK"
    and "Ns_SetIGet (c_headers c) (Some ''Range'') = Some (''bytes='' @ show_ranges qs)" "NsMatchRange c (c_mtime c) = Some True"
    and "qs \<noteq> []" "length qs \<le> 15" "\<forall>q \<in> set qs. range_ok (length content) q" "int (length content) \<le> LONG_MAX"
    and "content_at m fd data content" "apart type (length content) a data" "length stack = 32"
    and "case sfp of None \<Rightarrow> True | Some f \<Rightarrow> \<forall>m. file_sender (io_send io) m f"
  shows "\<exists>rs c0 hdr c1 s1. ReturnRange rd io e sfp m a stack c type fd data (length content) = IoDone (NS_OK, c1) \<and>
    bytes_of rs = bytes_of qs \<and> length rs \<le> length qs \<and> c_sock c1 = Some s1 \<and> wire s1 = wire s @ hdr @ range_body type content rs \<and>
    Ns_ConnConstructHeaders e c0 [] = Some hdr \<and> c_responseStatus c0 = 206 \<and>
    length_field (length (range_body type content rs)) \<in> set (set_fields (c_outputheaders c0))"
proof -
  obtain rs h0 where rs: "rs \<noteq> []" "length rs \<le> 15" "\<forall>r \<in> set rs. range_ok (length content) r" "bytes_of rs = bytes_of qs \<and> length rs \<le> length qs"
    "NsConnParseRange rd io e a c type fd data (length content) stack =
      (case range_vectors type fd data (length content) a rs stack (c\<lparr>c_outputheaders := h0\<rparr>) of None \<Rightarrow> IoFault | Some r \<Rightarrow> IoDone r)"
    using parse_range_ranges [OF assms(8,10,12,13,11,9,16)] by blast
  let ?b = "range_body type content rs"
  obtain rv c1 hs where rv: "range_vectors type fd data (length content) a rs stack (c\<lparr>c_outputheaders := h0\<rparr>) = Some (rv, c1)"
    "rv_count rv = int (length rs)"
    "c1 = c\<lparr>c_outputheaders := h0, c_responseStatus := 206, c_outputheaders := hs, c_responseLength := int (length ?b)\<rparr>"
    "length_field (length ?b) \<in> set (set_fields hs)"
    "\<forall>v \<in> set (take (rv_nbufs rv) (rv_bufs rv)). fv_ok (put_bytes m a (rv_ds rv)) v"
    "concat (map (fv_bytes (put_bytes m a (rv_ds rv))) (take (rv_nbufs rv) (rv_bufs rv))) = ?b"
    using range_vectors_body [OF rs(1,3,2) assms(16,14,15)] by blast
  have g: "good_io io c1" using assms(1) by (simp add: good_io_def rv(3))
  then have w: "writer_refuses c1 k" "writer_refuses_fd c1 k" for k by (simp_all add: good_io_def writer_refuses_def writer_refuses_fd_def)
  obtain c0 hdr c2 s2 where W: "Ns_ConnWriteVData io e c1 [] NS_CONN_STREAM = IoDone (NS_OK, c2)" "c_sock c2 = Some s2"
    "Ns_ConnConstructHeaders e c0 [] = Some hdr" "c_responseStatus c0 = c_responseStatus c1"
    "set (set_fields (c_outputheaders c1)) \<subseteq> set (set_fields (c_outputheaders c0))" "wire s2 = wire s @ hdr"
    using write_headers_only [OF g, of s r0 e] assms(2-7) by (auto simp: rv(3))
  have d: "drv_ok (io_send io)" "never_fails (io_send io)" using assms(1) by (simp_all add: good_io_def)
  have f: "case sfp of None \<Rightarrow> True | Some f \<Rightarrow> file_sender (io_send io) (put_bytes m a (rv_ds rv)) f"
    using assms(17) by (simp split: option.splits)
  obtain s3 where S: "wire s3 = wire s2 @ ?b" "Ns_ConnSendFileVec sfp (io_send io) (put_bytes m a (rv_ds rv)) (take (rv_nbufs rv) (rv_bufs rv))
      (c_nContentSent c2) s2 = (NS_OK, c_nContentSent c2 + length ?b, s3)"
    using send_file_vec_all [OF d(1) rv(5) f, of s2 "c_nContentSent c2"] d(2) unfolding rv(6) by auto
  have "ReturnRange rd io e sfp m a stack c type fd data (length content) =
      IoDone (NS_OK, c2\<lparr>c_sock := Some s3, c_nContentSent := c_nContentSent c2 + length ?b\<rparr>)"
    using rs(1,5) rv(1,2) w W(1,2) S(2) by (simp add: ReturnRange_def)
  then show ?thesis using rs(4) S(1) W(3-6) rv(3,4)
    by (intro exI [of _ rs] exI [of _ c0] exI [of _ hdr] exI conjI) auto
qed

text \<open>
  C19: Whatever the \<open>Range\<close> header contains, the ranges that are accepted lie inside the object and are no
  more than the array holds; the result counts them, or is -1 after an error response.
\<close>

theorem parse_range_bounds:
  assumes "ParseRangeOffsets rd io e c n mx = IoDone (k, rs, c1)"
  shows "(\<forall>r \<in> set rs. 0 \<le> r_start r \<and> r_start r \<le> r_end r \<and> r_end r < int n) \<and> length rs \<le> mx \<and>
    (k = int (length rs) \<and> c1 = c \<or> k = -1 \<and> rs = [])"
  using parse_offsets_ok [OF assms] by (simp add: range_ok_def)


definition demo_rd :: redirects where
  "demo_rd = \<lparr>rd_table = (\<lambda>_. None), rd_run = (\<lambda>c u. IoFault)\<rparr>"

definition range_conn :: "string \<Rightarrow> Conn" where
  "range_conn hdr = demo_conn\<lparr>c_headers := Ns_SetPut (Ns_SetCreate None) (Some ''Range'') (Some hdr)\<rparr>"

definition letters :: memory where
  "letters = put_bytes demo_memory 0 ''abcdefgh''"

lemma show_nat_digit: "n < 10 \<Longrightarrow> show_nat n = [char_of (48 + n)]"
  by (simp add: show_nat.simps)

lemma demo_ranges:
  "show_ranges [\<lparr>r_start = 0, r_end = 1\<rparr>, \<lparr>r_start = 4, r_end = 5\<rparr>] = ''0-1,4-5''" "show_ranges [\<lparr>r_start = 0, r_end = 3\<rparr>] = ''0-3''"
  by (simp_all add: show_range_def show_int_def show_nat_digit char_of_eq_iff)

lemma range_conn_facts:
  "good_io demo_io (range_conn h)" "c_sock (range_conn h) = Some \<lparr>wire = [], calls = 0\<rparr>" "c_flags (range_conn h) = 0"
  "Ns_SetIGet (c_headers (range_conn h)) (Some ''Range'') = Some h" "NsMatchRange (range_conn h) (c_mtime (range_conn h)) = Some True"
  "c_request (range_conn h) = Some (Ns_ResetRequest\<lparr>req_version := 11 / 10\<rparr>)"
  by (simp_all add: range_conn_def demo_conn_def good_io_def demo_io_def drv_ok_def never_fails_def NsMatchRange_def Ns_SetIGet_def
      GetCmp_spec find_append fld_matches_def strcasecmp_def tolower_def)

lemma letters_at: "content_at letters NS_INVALID_FD 0 ''abcdefgh''"
  using put_bytes_mem [of demo_memory 0 "''abcdefgh''"] unfolding letters_def content_at_def by simp


theorem parse_range_bounds_witness:
  "\<exists>k rs c1. ParseRangeOffsets demo_rd demo_io demo_env (range_conn ''bytes=-3,0-99'') 8 15 = IoDone (k, rs, c1) \<and>
    (\<forall>r. r \<in> set rs = (r = \<lparr>r_start = 0, r_end = 7\<rparr>)) \<and> length rs \<le> 15 \<and> k = 1"
proof -
  let ?c = "range_conn ''bytes=-3,0-99''" and ?r = "\<lparr>r_start = 0, r_end = 7\<rparr>"
  have e: "range_loop 8 15 ''-3,0-99'' [] = Ranges [?r]"
    by (simp add: range_loop.simps range_spec_def add_range_def atoll_def strtol_def isdigit_def isspace_def digits_val_def
        is_base_digit_def digit_val_def Let_def)
  have "ParseRangeOffsets demo_rd demo_io demo_env ?c 8 15 = IoDone (1, [?r], ?c)"
    by (simp add: ParseRangeOffsets_def range_conn_facts(4) e)
  with parse_range_bounds [OF this] show ?thesis by (intro exI [of _ 1] exI [of _ "[?r]"] exI [of _ ?c]) simp
qed

section \<open>Divergences\<close>

text \<open>
  A \<open>HEAD\<close> request (the connection skips the body) with a \<open>Range\<close> header is answered with a body
  nevertheless: only the case without ranges looks at the flag.
\<close>

theorem head_range_sends_body:
  "\<exists>c0 hdr c1 s1. ReturnRange demo_rd demo_io demo_env None letters 100 (replicate 32 \<lparr>fv_fd = 7, fv_offset = 7, fv_length = 7\<rparr>)
      ((range_conn ''bytes=0-3'')\<lparr>c_flags := NS_CONN_SKIPBODY\<rparr>) ''text/plain'' NS_INVALID_FD 0 8 = IoDone (NS_OK, c1) \<and>
    c_sock c1 = Some s1 \<and> wire s1 = hdr @ ''abcd'' \<and> Ns_ConnConstructHeaders demo_env c0 [] = Some hdr"
proof -
  let ?h = "''bytes=0-3''" and ?q = "\<lparr>r_start = 0, r_end = 3\<rparr>"
  let ?c = "(range_conn ?h)\<lparr>c_flags := NS_CONN_SKIPBODY\<rparr>" and ?st = "replicate 32 \<lparr>fv_fd = 7, fv_offset = 7, fv_length = 7\<rparr>"
  have h: "Ns_SetIGet (c_headers ?c) (Some ''Range'') = Some (''bytes='' @ show_ranges [?q])"
    unfolding demo_ranges using range_conn_facts(4) by simp
  have c: "good_io demo_io ?c" "c_sock ?c = Some \<lparr>wire = [], calls = 0\<rparr>" "c_request ?c = Some (Ns_ResetRequest\<lparr>req_version := 11 / 10\<rparr>)"
    "NsMatchRange ?c (c_mtime ?c) = Some True"
    using range_conn_facts(1,2,5,6) [of ?h] by (auto simp: good_io_def NsMatchRange_def)
  have f: "\<not> has (c_flags ?c) NS_CONN_SENTHDRS" "\<not> has (c_flags ?c) NS_CONN_SKIPHDRS" "\<not> has (c_flags ?c) NS_CONN_CHUNK"
    by (simp_all add: flag_simps)
  have q: "\<forall>q \<in> set [?q]. range_ok (length ''abcdefgh'') q" by (simp add: range_ok_def)
  have n: "length ''abcdefgh'' = 8" by simp
  have p: "apart ''text/plain'' (length ''abcdefgh'') 100 0" unfolding apart_def n by simp
  have m: "1 \<le> io_maxiov demo_io" by (simp add: demo_io_def)
  obtain rs c0 hdr c1 s1 where R: "ReturnRange demo_rd demo_io demo_env None letters 100 ?st ?c ''text/plain'' NS_INVALID_FD 0 8 = IoDone (NS_OK, c1)"
    "bytes_of rs = {0..3}" "length rs \<le> 1" "c_sock c1 = Some s1" "wire s1 = hdr @ range_body ''text/plain'' ''abcdefgh'' rs"
    "Ns_ConnConstructHeaders demo_env c0 [] = Some hdr"
    using range_response_sent [OF c(1-3) m f h c(4) _ _ q _ letters_at p, of ?st None demo_rd demo_env] unfolding n by auto
  obtain r where r: "rs = [r]" using R(2,3) by (cases rs) auto
  then have "r = ?q" using R(2) by (cases r) simp
  then have "range_body ''text/plain'' ''abcdefgh'' rs = ''abcd''" using r by (simp add: range_body_def slice_def)
  then show ?thesis using R by auto
qed

end
