(* ===== verification/Cookies.thy ===== *)
theory Cookies
  imports Conn
begin

text \<open>
  Cookies: \<open>nsd/cookies.c\<close>.  Header sets are those of \<open>NsSet\<close>; a header without a name, or a cookie
  header without a value, would be passed to the C library as NULL and gives \<open>None\<close>.  The Tcl
  commands are modelled after the parsing of their options.
\<close>

section \<open>Searching\<close>

definition NS_COOKIE_SECURE :: "32 word" where "NS_COOKIE_SECURE = 0x01"
definition NS_COOKIE_SCRIPTABLE :: "32 word" where "NS_COOKIE_SCRIPTABLE = 0x02"
definition NS_COOKIE_DISCARD :: "32 word" where "NS_COOKIE_DISCARD = 0x04"
definition NS_COOKIE_REPLACE :: "32 word" where "NS_COOKIE_REPLACE = 0x08"
definition NS_COOKIE_EXPIRENOW :: "32 word" where "NS_COOKIE_EXPIRENOW = 0x10"

text \<open>The value behind the equals sign, decoded into the string \<open>dest\<close>.\<close>

definition cookie_value :: "string \<Rightarrow> string \<Rightarrow> string" where
  "cookie_value dest p =
     (let p1 = (if p \<noteq> [] \<and> hd p = CHR 0x22 then tl p else p)
      in Ns_UrlQueryDecode dest (takeWhile (\<lambda>c. c \<noteq> CHR 0x22 \<and> c \<noteq> CHR '';'') p1) None)"

text \<open>The index (-1 if there is none) and the string, if one was passed.\<close>

fun search_cookie :: "string option \<Rightarrow> Ns_SetField list \<Rightarrow> nat \<Rightarrow> string \<Rightarrow> string \<Rightarrow> (int \<times> string option) option" where
  "search_cookie dest [] i setName name = Some (-1, dest)"
| "search_cookie dest (f # fs) i setName name =
     (case fld_name f of
        None \<Rightarrow> None
      | Some n \<Rightarrow>
          if strcasecmp n setName = 0 then
            (case fld_value f of
               None \<Rightarrow> None
             | Some v \<Rightarrow>
                 (case strstr v name of
                    None \<Rightarrow> search_cookie dest fs (i + 1) setName name
                  | Some p \<Rightarrow>
                      let p1 = drop (length name) p in
                      if p1 \<noteq> [] \<and> hd p1 = CHR ''='' then Some (int i, map_option (\<lambda>d. cookie_value d (tl p1)) dest)
                      else search_cookie dest fs (i + 1) setName name))
          else search_cookie dest fs (i + 1) setName name)"

definition SearchFirstCookie :: "string option \<Rightarrow> Ns_Set \<Rightarrow> string \<Rightarrow> string \<Rightarrow> (int \<times> string option) option" where
  "SearchFirstCookie dest hdrs setName name = search_cookie dest (set_fields hdrs) 0 setName name"

lemma search_cookie_range:
  "search_cookie dest fs i setName name = Some (k, d) \<Longrightarrow> k = -1 \<or> int i \<le> k \<and> k < int (i + length fs)"
proof (induction fs arbitrary: i)
  case (Cons f fs)
  from Cons.prems have "search_cookie dest fs (i + 1) setName name = Some (k, d) \<or> k = int i"
    by (auto simp: Let_def split: option.splits if_splits)
  then show ?case using Cons.IH [of "i + 1"] by auto
qed simp

text \<open>Whether a cookie was deleted, and the set.\<close>

function DeleteNamedCookies :: "Ns_Set \<Rightarrow> string \<Rightarrow> string \<Rightarrow> (bool \<times> Ns_Set) option" where
  "DeleteNamedCookies hdrs setName name =
     (case SearchFirstCookie None hdrs setName name of
        None \<Rightarrow> None
      | Some (idx, _) \<Rightarrow>
          if idx \<noteq> -1
          then (case Ns_SetDelete hdrs idx of
                  None \<Rightarrow> None
                | Some hdrs1 \<Rightarrow> map_option (\<lambda>(_, h). (True, h)) (DeleteNamedCookies hdrs1 setName name))
          else Some (False, hdrs))"
  by auto
termination
proof (relation "measure (\<lambda>(h, _). set_size h)", goal_cases)
  case (2 hdrs setName name r idx d hdrs1)
  then have "search_cookie None (set_fields hdrs) 0 setName name = Some (idx, d)" "idx \<noteq> -1"
    by (simp_all add: SearchFirstCookie_def)
  from search_cookie_range [OF this(1)] this(2) 2(4) show ?case
    by (auto simp: Ns_SetDelete_def split: if_splits)
qed simp

declare DeleteNamedCookies.simps [simp del]

section \<open>Setting\<close>

definition TIME_T_MAX :: int where "TIME_T_MAX = LONG_MAX"

definition cookie_attrs :: "int \<Rightarrow> string option \<Rightarrow> string option \<Rightarrow> 32 word \<Rightarrow> string" where
  "cookie_attrs maxage domain path flags =
     (if has flags NS_COOKIE_EXPIRENOW then ''; Expires=Fri, 01-Jan-1980 01:00:00 GMT''
      else if maxage = TIME_T_MAX then ''; Expires=Fri, 01-Jan-2035 01:00:00 GMT''
      else if maxage > 0 then ''; Max-Age='' @ show_int maxage
      else []) @
     (case domain of None \<Rightarrow> [] | Some d \<Rightarrow> if d \<noteq> [] then ''; Domain='' @ d else []) @
     (case path of None \<Rightarrow> [] | Some p \<Rightarrow> ''; Path='' @ p) @
     (if has flags NS_COOKIE_SECURE then ''; Secure'' else []) @
     (if has flags NS_COOKIE_DISCARD then ''; Discard'' else []) @
     (if \<not> has flags NS_COOKIE_SCRIPTABLE then ''; HttpOnly'' else [])"

definition cookie_text :: "string \<Rightarrow> string option \<Rightarrow> int \<Rightarrow> string option \<Rightarrow> string option \<Rightarrow> 32 word \<Rightarrow> string" where
  "cookie_text name value maxage domain path flags =
     (let ck = name @ ''='' @ [CHR 0x22];
          ck = (case value of None \<Rightarrow> ck | Some v \<Rightarrow> Ns_UrlQueryEncode ck v None)
      in ck @ [CHR 0x22] @ cookie_attrs maxage domain path flags)"

definition Ns_ConnSetCookieEx :: "Conn \<Rightarrow> string \<Rightarrow> string option \<Rightarrow> int \<Rightarrow> string option \<Rightarrow> string option \<Rightarrow> 32 word \<Rightarrow> Conn option" where
  "Ns_ConnSetCookieEx c name value maxage domain path flags =
     do { c1 \<leftarrow> (if has flags NS_COOKIE_REPLACE
                then map_option (\<lambda>(_, h). c\<lparr>c_outputheaders := h\<rparr>) (DeleteNamedCookies (c_outputheaders c) ''set-cookie'' name)
                else Some c);
          Some (Ns_ConnSetHeaders c1 ''Set-Cookie'' (cookie_text name value maxage domain path flags)) }"

definition Ns_ConnSetCookie :: "Conn \<Rightarrow> string \<Rightarrow> string option \<Rightarrow> int \<Rightarrow> Conn option" where
  "Ns_ConnSetCookie c name value maxage = Ns_ConnSetCookieEx c name value maxage None None 0"

definition Ns_ConnSetSecureCookie :: "Conn \<Rightarrow> string \<Rightarrow> string option \<Rightarrow> int \<Rightarrow> Conn option" where
  "Ns_ConnSetSecureCookie c name value maxage = Ns_ConnSetCookieEx c name value maxage None None NS_COOKIE_SECURE"

definition Ns_ConnDeleteCookie :: "Conn \<Rightarrow> string \<Rightarrow> string option \<Rightarrow> string option \<Rightarrow> Conn option" where
  "Ns_ConnDeleteCookie c name domain path = Ns_ConnSetCookieEx c name None 0 domain path NS_COOKIE_EXPIRENOW"

definition Ns_ConnDeleteSecureCookie :: "Conn \<Rightarrow> string \<Rightarrow> string option \<Rightarrow> string option \<Rightarrow> Conn option" where
  "Ns_ConnDeleteSecureCookie c name domain path =
     Ns_ConnSetCookieEx c name None 0 domain path (NS_COOKIE_EXPIRENOW OR NS_COOKIE_SECURE)"

text \<open>The outer \<open>None\<close> is a fault, the inner one the result NULL.\<close>

definition Ns_ConnGetCookie :: "string \<Rightarrow> Conn \<Rightarrow> string \<Rightarrow> string option option" where
  "Ns_ConnGetCookie dest c name =
     map_option (\<lambda>(idx, d). if idx \<noteq> -1 then d else None) (SearchFirstCookie (Some dest) (c_headers c) ''cookie'' name)"

section \<open>The Tcl commands\<close>

definition cookie_maxage :: "int option \<Rightarrow> int \<Rightarrow> int" where
  "cookie_maxage expires now =
     (case expires of
        None \<Rightarrow> 0
      | Some t \<Rightarrow> if t < 0 then TIME_T_MAX else if t > now then t - now else t)"

definition NsTclSetCookieObjCmd :: "int \<Rightarrow> Conn \<Rightarrow> bool \<Rightarrow> bool \<Rightarrow> bool \<Rightarrow> bool \<Rightarrow> string option \<Rightarrow> string option \<Rightarrow> int option \<Rightarrow>
    string \<Rightarrow> string \<Rightarrow> Conn option" where
  "NsTclSetCookieObjCmd now c discard replace secure scriptable domain path expires name data =
     (let flags = 0;
          flags = (if secure then flags OR NS_COOKIE_SECURE else flags);
          flags = (if scriptable then flags OR NS_COOKIE_SCRIPTABLE else flags);
          flags = (if discard then flags OR NS_COOKIE_DISCARD else flags);
          flags = (if replace then flags OR NS_COOKIE_REPLACE else flags)
      in Ns_ConnSetCookieEx c name (Some data) (cookie_maxage expires now) domain path flags)"

definition NsTclGetCookieObjCmd :: "Conn \<Rightarrow> bool \<Rightarrow> string \<Rightarrow> string option \<Rightarrow> tcl_result option" where
  "NsTclGetCookieObjCmd c include_set_cookies name dflt =
     do { (idx, d) \<leftarrow> (if include_set_cookies then SearchFirstCookie (Some []) (c_outputheaders c) ''set-cookie'' name else Some (-1, Some []));
          (idx, d) \<leftarrow> (if idx = -1 then SearchFirstCookie d (c_headers c) ''cookie'' name else Some (idx, d));
          Some (if idx \<noteq> -1 then TclOk (the d)
                else case dflt of Some v \<Rightarrow> TclOk v | None \<Rightarrow> TclError ''no matching cookie'') }"

definition NsTclDeleteCookieObjCmd :: "Conn \<Rightarrow> bool \<Rightarrow> bool \<Rightarrow> string option \<Rightarrow> string option \<Rightarrow> string \<Rightarrow> Conn option" where
  "NsTclDeleteCookieObjCmd c replace secure domain path name =
     (let flags = NS_COOKIE_SCRIPTABLE;
          flags = (if replace then flags OR NS_COOKIE_REPLACE else flags);
          flags = (if secure then flags OR NS_COOKIE_SECURE else flags)
      in Ns_ConnSetCookieEx c name None 0 domain path (NS_COOKIE_EXPIRENOW OR flags))"

section \<open>Replacing cookies\<close>

definition names_cookie :: "string \<Rightarrow> string \<Rightarrow> Ns_SetField \<Rightarrow> bool" where
  "names_cookie setName name f \<longleftrightarrow>
     strcasecmp (the (fld_name f)) setName = 0 \<and>
     (case strstr (the (fld_value f)) name of
        None \<Rightarrow> False
      | Some p \<Rightarrow> drop (length name) p \<noteq> [] \<and> hd (drop (length name) p) = CHR ''='')"

lemma search_cookie_skip:
  assumes "present f" "\<not> names_cookie setName name f"
  shows "search_cookie dest (f # fs) i setName name = search_cookie dest fs (i + 1) setName name"
  using assms by (auto simp: present_def names_cookie_def Let_def split: option.splits)

lemma search_cookie_none:
  "\<forall>f \<in> set fs. present f \<and> \<not> names_cookie setName name f \<Longrightarrow> search_cookie dest fs i setName name = Some (-1, dest)"
  by (induction fs arbitrary: i) (simp_all add: search_cookie_skip del: search_cookie.simps(2))

lemma search_cookie_first:
  assumes "present f" "names_cookie setName name f"
  shows "\<forall>u \<in> set us. present u \<and> \<not> names_cookie setName name u \<Longrightarrow>
    search_cookie dest (us @ f # vs) i setName name =
      Some (int (i + length us), map_option (\<lambda>d. cookie_value d (tl (drop (length name) (the (strstr (the (fld_value f)) name))))) dest)"
proof (induction us arbitrary: i)
  case Nil
  then show ?case using assms by (auto simp: present_def names_cookie_def Let_def split: option.splits)
next
  case (Cons u us)
  then show ?case by (simp add: search_cookie_skip del: search_cookie.simps(2))
qed

text \<open>Deleting the named cookies leaves the other headers, in their order.\<close>

lemma delete_named_filter:
  "\<forall>f \<in> set (set_fields h). present f \<Longrightarrow>
   \<exists>b. DeleteNamedCookies h setName name = Some (b, h\<lparr>set_fields := filter (\<lambda>f. \<not> names_cookie setName name f) (set_fields h)\<rparr>)"
proof (induction "set_size h" arbitrary: h rule: less_induct)
  case less
  let ?P = "names_cookie setName name"
  show ?case
  proof (cases "\<exists>f \<in> set (set_fields h). ?P f")
    case False
    then have "SearchFirstCookie None h setName name = Some (-1, None)"
      using search_cookie_none [of "set_fields h"] less.prems by (simp add: SearchFirstCookie_def)
    moreover have "filter (\<lambda>f. \<not> ?P f) (set_fields h) = set_fields h" using False by (simp add: filter_id_conv)
    ultimately have "DeleteNamedCookies h setName name = Some (False, h\<lparr>set_fields := filter (\<lambda>f. \<not> ?P f) (set_fields h)\<rparr>)"
      by (subst DeleteNamedCookies.simps) simp
    then show ?thesis by blast
  next
    case True
    then obtain us f vs where fs: "set_fields h = us @ f # vs" "?P f" "\<forall>u \<in> set us. \<not> ?P u"
      using split_list_first_prop [OF True] by blast
    let ?h = "h\<lparr>set_fields := us @ vs\<rparr>"
    have "SearchFirstCookie None h setName name = Some (int (length us), None)"
      using search_cookie_first [of f setName name us None vs 0] fs less.prems by (simp add: SearchFirstCookie_def)
    moreover have "Ns_SetDelete h (int (length us)) = Some ?h" using fs(1) by (simp add: Ns_SetDelete_def)
    moreover obtain b where "DeleteNamedCookies ?h setName name = Some (b, ?h\<lparr>set_fields := filter (\<lambda>f. \<not> ?P f) (us @ vs)\<rparr>)"
      using less.hyps [of ?h] less.prems fs(1) by auto
    ultimately have "DeleteNamedCookies h setName name = Some (True, h\<lparr>set_fields := filter (\<lambda>f. \<not> ?P f) (set_fields h)\<rparr>)"
      using fs by (subst DeleteNamedCookies.simps) (simp add: filter_empty_conv)
    then show ?thesis by blast
  qed
qed

section \<open>What is set is read back\<close>

lemma strstr_first:
  assumes "\<forall>i < length pre. take (length nd) (drop i (pre @ nd @ post)) \<noteq> nd"
  shows "strstr (pre @ nd @ post) nd = Some (nd @ post)"
  using assms
proof (induction pre)
  case Nil
  have "take (length nd) (nd @ post) = nd" by simp
  then show ?case by (cases "nd @ post") (auto simp del: take_append)
next
  case (Cons c pre)
  have "take (length nd) (drop i (pre @ nd @ post)) \<noteq> nd" if "i < length pre" for i
    using Cons.prems [rule_format, of "Suc i"] that by simp
  then show ?case using Cons.IH Cons.prems [rule_format, of 0] by simp
qed

lemma query_enc_chars: "CHR 0x22 \<notin> set (concat (map (enc_char Query) v))" "CHR '';'' \<notin> set (concat (map (enc_char Query) v))"
  using enc_char_safe [of "CHR 0x22" Query] enc_char_safe [of "CHR '';''" Query]
  by (auto simp: safe_char_def isalnum_def isupper_def islower_def isdigit_def)

definition cookie_pair :: "string \<Rightarrow> string \<Rightarrow> string" where
  "cookie_pair name value = name @ ''='' @ [CHR 0x22] @ concat (map (enc_char Query) value) @ [CHR 0x22]"

definition attr_start :: "string \<Rightarrow> bool" where
  "attr_start r \<longleftrightarrow> r = [] \<or> hd r = CHR '';''"

lemma attr_start_append: "attr_start r \<Longrightarrow> attr_start q \<Longrightarrow> attr_start (r @ q)"
  by (auto simp: attr_start_def hd_append)

lemma attr_start_attrs: "attr_start (cookie_attrs maxage domain path flags)"
  unfolding cookie_attrs_def by (intro attr_start_append) (simp_all add: attr_start_def split: option.splits)

lemma takeWhile_tail:
  assumes "\<forall>c \<in> set u. P c" "v = [] \<or> \<not> P (hd v)"
  shows "takeWhile P (u @ v) = u"
  using assms by (cases v) (simp_all add: takeWhile_append)

lemma cookie_text_pair:
  assumes "CHR 0x00 \<notin> set value" "CHR '';'' \<notin> set name"
  shows "takeWhile (\<lambda>c. c \<noteq> CHR '';'') (cookie_text name (Some value) maxage domain path flags) = cookie_pair name value"
proof -
  have "cookie_text name (Some value) maxage domain path flags = cookie_pair name value @ cookie_attrs maxage domain path flags"
    using assms(1) by (simp add: cookie_text_def cookie_pair_def Ns_UrlQueryEncode_def UrlEncode_def cstr_id)
  moreover have "\<forall>c \<in> set (cookie_pair name value). c \<noteq> CHR '';''"
    using assms(2) query_enc_chars(2) [of "value"] by (auto simp: cookie_pair_def)
  moreover have "takeWhile (\<lambda>c. c \<noteq> CHR '';'') (u @ cookie_attrs maxage domain path flags) = u" if "\<forall>c \<in> set u. c \<noteq> CHR '';''" for u
    using that attr_start_attrs [of maxage domain path flags] by (intro takeWhile_tail) (auto simp: attr_start_def)
  ultimately show ?thesis by simp
qed

lemma cookie_value_pair:
  assumes "CHR 0x00 \<notin> set value"
  shows "cookie_value [] ([CHR 0x22] @ concat (map (enc_char Query) value) @ [CHR 0x22] @ post) = value"
proof -
  let ?e = "concat (map (enc_char Query) value)" and ?P = "\<lambda>c. c \<noteq> CHR 0x22 \<and> c \<noteq> CHR '';''"
  have "\<forall>c \<in> set ?e. ?P c" using query_enc_chars [of "value"] by blast
  then have "takeWhile ?P (?e @ CHR 0x22 # post) = ?e" by (rule takeWhile_tail) simp
  then show ?thesis by (simp add: cookie_value_def Ns_UrlQueryDecode_def UrlDecode_def dec_enc cstr_id [OF enc_no_nul])
qed



section \<open>Divergences\<close>

text \<open>
  The name is searched as a substring and only its first occurrence is examined: a cookie whose name
  ends in the sought name answers for it, and a value that contains the name hides the cookie.
\<close>

theorem get_cookie_substring:
  "Ns_ConnGetCookie [] (demo_conn\<lparr>c_headers := Ns_SetPut (Ns_SetCreate None) (Some ''Cookie'') (Some ''sid=evil; id=good'')\<rparr>) ''id'' = Some (Some ''evil'')"
  "Ns_ConnGetCookie [] (demo_conn\<lparr>c_headers := Ns_SetPut (Ns_SetCreate None) (Some ''Cookie'') (Some ''x=idle; id=good'')\<rparr>) ''id'' = Some None"
  by (simp_all add: Ns_ConnGetCookie_def SearchFirstCookie_def strcasecmp_def tolower_def cookie_value_def Ns_UrlQueryDecode_def
      UrlDecode_def cstr_def dec_plain_def char_of_eq_iff)

end
