(* ===== verification/ReadReq.thy ===== *)
theory ReadReq
  imports ConnIO NsTime
begin

unbundle bit_operations_syntax

text \<open>
  Reading a request (\<open>nsd/driver.c\<close>): \<open>SockRead\<close> takes the bytes a driver delivers, into the buffer
  of the request or into a spool file, and \<open>SockParse\<close> builds the request from the buffer, line by
  line, resuming where the last call stopped; \<open>ChunkedDecode\<close> undoes chunked encoding in place.
  \<open>ReqBuf\<close> is the structure \<open>Request\<close> of \<open>nsd/nsd.h\<close> without \<open>peer\<close>, \<open>port\<close> and \<open>auth\<close>, which
  reading does not touch, and \<open>DSock\<close> the part of \<open>Sock\<close> that reading uses.  The results of
  system calls come in a record for each call of \<open>SockRead\<close>; the bytes that a grown buffer holds
  before they are written are a parameter.  An access outside the memory it belongs to makes the
  result \<open>None\<close>.  \<open>NsUpdateProgress\<close> only writes the table of upload statistics.  The bytes the
  client sends are threaded through the reading functions: a read takes some of them.
\<close>

section \<open>State\<close>

datatype SockState = SOCK_READY | SOCK_MORE | SOCK_SPOOL | SOCK_ERROR | SOCK_CLOSE | SOCK_CLOSETIMEOUT
  | SOCK_READTIMEOUT | SOCK_WRITETIMEOUT | SOCK_SERVERREJECT | SOCK_READERROR | SOCK_WRITEERROR
  | SOCK_SHUTERROR | SOCK_BADREQUEST | SOCK_ENTITYTOOLARGE | SOCK_BADHEADER | SOCK_TOOMANYHEADERS

text \<open>The content is nowhere, in the buffer from an offset on, or in the mapped spool file.\<close>

datatype content_ptr = CNull | CBuffer nat | CMapped

record ReqBuf =
  rq_request :: Ns_Request
  rq_headers :: Ns_Set
  rq_next :: content_ptr
  rq_content :: content_ptr
  rq_length :: nat
  rq_contentLength :: nat
  rq_avail :: nat
  rq_leadblanks :: nat
  rq_expectedLength :: nat
  rq_chunkStartOff :: nat
  rq_chunkWriteOff :: nat
  rq_woff :: nat
  rq_roff :: nat
  rq_coff :: nat
  rq_buffer :: string

record DSock =
  sk_keep :: bool
  sk_flags :: "32 word"
  sk_acceptTime :: Ns_Time
  sk_tfd :: int
  sk_tfile :: "string option"
  sk_tdata :: string
  sk_taddr :: "string option"
  sk_tsize :: nat
  sk_req :: "ReqBuf option"

record DrvConf =
  dv_bufsize :: nat
  dv_maxinput :: nat
  dv_maxline :: nat
  dv_maxheaders :: nat
  dv_readahead :: nat
  dv_maxupload :: nat
  dv_spoolers :: nat
  dv_noparse :: bool
  dv_uploadpath :: string

text \<open>
  What the system answers during one call: how many bytes the driver's \<open>recvProc\<close> has at most
  (\<open>None\<close> for an error; it never returns more than the buffer takes), the descriptor and the name
  of a new temporary file, and the success of the writes and of \<open>mmap\<close>.
\<close>

record read_io =
  io_recv :: "nat option"
  io_tempfd :: int
  io_tempname :: string
  io_write_head :: bool
  io_write_data :: bool
  io_write_nul :: bool
  io_mmap :: bool
  io_now :: Ns_Time

definition NS_CONN_ENTITYTOOLARGE :: "32 word" where "NS_CONN_ENTITYTOOLARGE = 0x2000"
definition NS_CONN_REQUESTURITOOLONG :: "32 word" where "NS_CONN_REQUESTURITOOLONG = 0x4000"
definition NS_CONN_LINETOOLONG :: "32 word" where "NS_CONN_LINETOOLONG = 0x8000"

text \<open>A request structure fresh from \<open>ns_calloc\<close>, with its set of headers.\<close>

definition new_request :: ReqBuf where
  "new_request =
     \<lparr>rq_request = Ns_ResetRequest, rq_headers = Ns_SetCreate None, rq_next = CNull, rq_content = CNull,
      rq_length = 0, rq_contentLength = 0, rq_avail = 0, rq_leadblanks = 0, rq_expectedLength = 0,
      rq_chunkStartOff = 0, rq_chunkWriteOff = 0, rq_woff = 0, rq_roff = 0, rq_coff = 0, rq_buffer = []\<rparr>"

text \<open>The request comes from the list of free ones where that has any.\<close>

definition SockPrepare :: "ReqBuf list \<Rightarrow> DSock \<Rightarrow> ReqBuf list \<times> DSock" where
  "SockPrepare free sk =
     (if sk_req sk \<noteq> None then (free, sk)
      else case free of
             [] \<Rightarrow> ([], sk\<lparr>sk_req := Some new_request\<rparr>)
           | r # free \<Rightarrow> (free, sk\<lparr>sk_req := Some r\<rparr>))"

definition NsFreeRequest :: "ReqBuf list \<Rightarrow> ReqBuf option \<Rightarrow> ReqBuf list" where
  "NsFreeRequest free rq =
     (case rq of
        None \<Rightarrow> free
      | Some r \<Rightarrow>
          r\<lparr>rq_next := CNull, rq_content := CNull, rq_length := 0, rq_contentLength := 0, rq_avail := 0, rq_leadblanks := 0,
            rq_expectedLength := 0, rq_chunkStartOff := 0, rq_chunkWriteOff := 0, rq_woff := 0, rq_roff := 0, rq_coff := 0,
            rq_buffer := [], rq_headers := Ns_SetTrunc (rq_headers r) 0, rq_request := Ns_ResetRequest\<rparr> # free)"

section \<open>Chunked content\<close>

text \<open>
  The result of \<open>ChunkedDecode\<close> with \<open>update\<close> set, as in its only call.  Lengths and addresses wrap
  at 64 bits; \<open>base\<close> is the address of the buffer.  \<open>memmove\<close> outside the buffer gives \<open>None\<close>.
  An added length of zero cannot occur, since a chunk takes at least its line end.
\<close>

abbreviation SIZE_MOD :: int where "SIZE_MOD \<equiv> 18446744073709551616"

definition chunk_length :: "string \<Rightarrow> int" where
  "chunk_length line = fst (strtol line 16) mod SIZE_MOD"

definition past_end :: "nat \<Rightarrow> nat \<Rightarrow> int \<Rightarrow> nat \<Rightarrow> bool" where
  "past_end base p n end \<longleftrightarrow> (int base + int p + 2 + n) mod SIZE_MOD > int base + int end"

definition memmove :: "string \<Rightarrow> nat \<Rightarrow> nat \<Rightarrow> int \<Rightarrow> string option" where
  "memmove buf dst src n =
     (if int src + n \<le> int (length buf) \<and> int dst + n \<le> int (length buf)
      then Some (take dst buf @ take (nat n) (drop src buf) @ drop (dst + nat n) buf) else None)"

lemma chunk_length_nonneg [simp]: "0 \<le> chunk_length line"
  by (simp add: chunk_length_def)

lemma memmove_length: "memmove buf dst src n = Some b \<Longrightarrow> 0 \<le> n \<Longrightarrow> length b = length buf"
  by (auto simp: memmove_def split: if_splits)

function ChunkedDecode :: "nat \<Rightarrow> ReqBuf \<Rightarrow> (int \<times> ReqBuf) option" where
  "ChunkedDecode base rq =
     (if rq_chunkStartOff rq < length (rq_buffer rq) then
        (let chunkStart = cstr (drop (rq_chunkStartOff rq) (rq_buffer rq)) in
         case strstr chunkStart CRLF of
           None \<Rightarrow> Some (-1, rq)
         | Some r \<Rightarrow>
             (let d = length chunkStart - length r;
                  p = rq_chunkStartOff rq + d;
                  n = chunk_length (take d chunkStart)
              in if past_end base p n (length (rq_buffer rq)) then Some (-1, rq)
                 else
                   (case memmove (rq_buffer rq) (rq_chunkWriteOff rq) (p + 2) n of
                      None \<Rightarrow> None
                    | Some b \<Rightarrow>
                        ChunkedDecode base
                          (rq\<lparr>rq_buffer := b[rq_chunkWriteOff rq + nat n := CHR 0x00],
                              rq_chunkWriteOff := rq_chunkWriteOff rq + nat n,
                              rq_chunkStartOff := rq_chunkStartOff rq + d + 4 + nat n\<rparr>))))
      else Some (1, rq))"
  by auto
termination
  by (relation "measure (\<lambda>(base, rq). length (rq_buffer rq) - rq_chunkStartOff rq)")
    (auto dest!: memmove_length)

declare ChunkedDecode.simps [simp del]

section \<open>Header lines\<close>

text \<open>The index of the first \<open>c\<close> among the first \<open>n\<close> bytes.\<close>

fun strnchr :: "string \<Rightarrow> nat \<Rightarrow> char \<Rightarrow> nat option" where
  "strnchr [] n c = None"
| "strnchr (b # bs) n c = (if n = 0 then None else if b = c then Some 0 else map_option Suc (strnchr bs (n - 1) c))"

definition check_maxline :: "DrvConf \<Rightarrow> DSock \<Rightarrow> ReqBuf \<Rightarrow> nat \<Rightarrow> DSock" where
  "check_maxline d sk rq k =
     (if k > dv_maxline d
      then sk\<lparr>sk_keep := False,
              sk_flags := (if req_line (rq_request rq) = None then NS_CONN_REQUESTURITOOLONG else NS_CONN_LINETOOLONG)\<rparr>
      else sk)"

text \<open>The framing that the headers announce: the value that is read as a length, and the chunk offsets.\<close>

definition body_framing :: "ReqBuf \<Rightarrow> string option \<times> ReqBuf" where
  "body_framing rq =
     (case Ns_SetIGet (rq_headers rq) (Some ''content-length'') of
        Some v \<Rightarrow> (Some v, rq)
      | None \<Rightarrow>
          (case Ns_SetIGet (rq_headers rq) (Some ''Transfer-Encoding'') of
             None \<Rightarrow> (None, rq)
           | Some te \<Rightarrow>
               if te = ''chunked'' \<or> te = ''Chunked'' then
                 (let rq = rq\<lparr>rq_chunkStartOff := rq_coff rq, rq_chunkWriteOff := rq_coff rq, rq_contentLength := 0\<rparr>
                  in (None,
                      case Ns_SetIGet (rq_headers rq) (Some ''X-Expected-Entity-Length'') of
                        None \<Rightarrow> rq
                      | Some x \<Rightarrow>
                          (case Ns_StrToWideInt x of
                             None \<Rightarrow> rq
                           | Some expected \<Rightarrow> if expected > 0 then rq\<lparr>rq_expectedLength := nat expected\<rparr> else rq)))
               else (Some te, rq)))"

definition body_length :: "DrvConf \<Rightarrow> string option \<Rightarrow> DSock \<times> ReqBuf \<Rightarrow> DSock \<times> ReqBuf" where
  "body_length d s st =
     (case st of
        (sk, rq) \<Rightarrow>
          (case s of
             None \<Rightarrow> (sk, rq)
           | Some v \<Rightarrow>
               (case Ns_StrToWideInt v of
                  None \<Rightarrow> (sk, rq)
                | Some len \<Rightarrow>
                    if len > 0 then
                      (if nat len > dv_maxinput d then sk\<lparr>sk_flags := NS_CONN_ENTITYTOOLARGE, sk_keep := False\<rparr> else sk,
                       rq\<lparr>rq_length := nat len, rq_contentLength := nat len\<rparr>)
                    else (sk, rq))))"

definition zip_accepted :: "DSock \<Rightarrow> ReqBuf \<Rightarrow> DSock" where
  "zip_accepted sk rq =
     (let sk = sk\<lparr>sk_flags := sk_flags sk AND NOT NS_CONN_ZIPACCEPTED\<rparr>;
          gzip = (case Ns_SetIGet (rq_headers rq) (Some ''Accept-Encoding'') of
                    None \<Rightarrow> False
                  | Some s \<Rightarrow> NsParseAcceptEncoding (req_version (rq_request rq)) s)
      in if gzip \<and> Ns_SetIGet (rq_headers rq) (Some ''Range'') = None
         then sk\<lparr>sk_flags := sk_flags sk OR NS_CONN_ZIPACCEPTED\<rparr> else sk)"

definition end_of_headers :: "DrvConf \<Rightarrow> DSock \<Rightarrow> ReqBuf \<Rightarrow> DSock \<times> ReqBuf" where
  "end_of_headers d sk rq =
     (let rq = rq\<lparr>rq_coff := rq_roff rq, rq_chunkStartOff := 0\<rparr>;
          (s, rq) = body_framing rq;
          (sk, rq) = body_length d s (sk, rq)
      in (zip_accepted sk rq, rq))"

text \<open>
  A line that is not empty: the request line first, then the headers.  The NUL behind the line
  stays in the buffer where the line is refused; it is at offset \<open>e\<close>.
\<close>

definition request_or_header :: "Tcl_Encoding option \<Rightarrow> DrvConf \<Rightarrow> ReqBuf \<Rightarrow> string \<Rightarrow> nat \<Rightarrow> SockState option \<times> ReqBuf" where
  "request_or_header enc d rq line e =
     (let bad = rq\<lparr>rq_buffer := (rq_buffer rq)[e := CHR 0x00]\<rparr>;
          line = cstr line;
          (err, rq1) =
            (if req_line (rq_request rq) = None then
               (case Ns_ParseRequest enc line of
                  (False, r) \<Rightarrow> (Some SOCK_BADREQUEST, bad\<lparr>rq_request := r\<rparr>)
                | (True, r) \<Rightarrow> (None, rq\<lparr>rq_request := r\<rparr>))
             else
               (case Ns_ParseHeader (rq_headers rq) line Preserve of
                  None \<Rightarrow> (Some SOCK_BADHEADER, bad)
                | Some h \<Rightarrow> (None, rq\<lparr>rq_headers := h\<rparr>)))
      in if err \<noteq> None then (err, rq1)
         else if set_size (rq_headers rq1) > dv_maxheaders d
         then (Some SOCK_TOOMANYHEADERS, rq1\<lparr>rq_buffer := rq_buffer bad\<rparr>)
         else (None, if req_version (rq_request rq1) \<le> 0 then rq1\<lparr>rq_coff := rq_roff rq1\<rparr> else rq1))"

text \<open>The loop of \<open>SockParse\<close> over the lines; the state is \<open>None\<close> where it ends at the content.\<close>

lemma strnchr_less: "strnchr bs n c = Some k \<Longrightarrow> k < n \<and> k < length bs \<and> bs ! k = c"
  by (induction bs n c arbitrary: k rule: strnchr.induct) (auto split: if_splits)

lemma request_or_header_avail: "request_or_header enc d rq line e = (st, rq1) \<Longrightarrow> rq_avail rq1 = rq_avail rq"
  by (auto simp: request_or_header_def Let_def split: if_splits prod.splits bool.splits option.splits)

lemma body_framing_avail: "rq_avail (snd (body_framing rq)) = rq_avail rq"
  by (simp add: body_framing_def Let_def split: option.splits)

lemma body_length_avail: "rq_avail (snd (body_length d s st)) = rq_avail (snd st)"
  by (auto simp: body_length_def split: option.splits prod.splits)

lemma end_of_headers_avail: "end_of_headers d sk rq = (sk1, rq1) \<Longrightarrow> rq_avail rq1 = rq_avail rq"
  using body_framing_avail [of "rq\<lparr>rq_coff := rq_roff rq, rq_chunkStartOff := 0\<rparr>"]
  by (auto simp: end_of_headers_def Let_def split: prod.splits) (metis body_length_avail snd_conv)

definition line_at :: "ReqBuf \<Rightarrow> nat \<Rightarrow> string" where
  "line_at rq k =
     (let s = take k (drop (rq_roff rq) (rq_buffer rq))
      in if s \<noteq> [] \<and> last s = CHR 0x0D then butlast s else s)"

definition next_line :: "ReqBuf \<Rightarrow> nat \<Rightarrow> ReqBuf" where
  "next_line rq k = rq\<lparr>rq_roff := rq_roff rq + (k + 1), rq_avail := rq_avail rq - (k + 1)\<rparr>"

function parse_lines :: "Tcl_Encoding option \<Rightarrow> DrvConf \<Rightarrow> DSock \<Rightarrow> ReqBuf \<Rightarrow> SockState option \<times> DSock \<times> ReqBuf" where
  "parse_lines enc d sk rq =
     (if rq_coff rq \<noteq> 0 then (None, sk, rq)
      else
        (case strnchr (drop (rq_roff rq) (rq_buffer rq)) (rq_avail rq) CHR 0x0A of
           None \<Rightarrow> (Some SOCK_MORE, sk, rq)
         | Some k \<Rightarrow>
             (let sk1 = check_maxline d sk rq k;
                  line = line_at rq k;
                  rq1 = next_line rq k
              in if line = [] then
                   (if rq_buffer rq1 = [] then
                      (if rq_leadblanks rq1 + 1 > 2 then (Some SOCK_ERROR, sk1, rq1\<lparr>rq_leadblanks := rq_leadblanks rq1 + 1\<rparr>)
                       else (Some SOCK_MORE, sk1,
                             rq1\<lparr>rq_leadblanks := rq_leadblanks rq1 + 1, rq_woff := 0, rq_roff := 0, rq_buffer := []\<rparr>))
                    else (case end_of_headers d sk1 rq1 of (sk2, rq2) \<Rightarrow> parse_lines enc d sk2 rq2))
                 else
                   (case request_or_header enc d rq1 line (rq_roff rq + length line) of
                      (None, rq2) \<Rightarrow> parse_lines enc d sk1 rq2
                    | (Some err, rq2) \<Rightarrow> (Some err, sk1, rq2)))))"
  by auto
termination
proof (relation "measure (\<lambda>(enc, d, sk, rq). rq_avail rq)", goal_cases)
  case (2 enc d sk rq k sk1 line rq1 sk2 rq2)
  from 2(8) [symmetric] have "rq_avail rq2 = rq_avail rq1" using end_of_headers_avail by blast
  then show ?case using strnchr_less [OF 2(2)] unfolding 2(5) by (simp add: next_line_def)
next
  case (3 enc d sk rq k sk1 line rq1 st rq2)
  from 3(7) [symmetric] have "rq_avail rq2 = rq_avail rq1" using request_or_header_avail by blast
  then show ?case using strnchr_less [OF 3(2)] unfolding 3(5) by (simp add: next_line_def)
qed simp

declare parse_lines.simps [simp del]

section \<open>Requests that are complete\<close>

text \<open>
  The content in the mapped spool file: \<open>mmap\<close> with a private mapping gives the bytes of the file
  and zeros behind them.
\<close>

definition map_spool :: "read_io \<Rightarrow> DSock \<Rightarrow> ReqBuf \<Rightarrow> DSock option" where
  "map_spool io sk rq =
     (let sk = (if io_write_nul io then sk\<lparr>sk_tdata := sk_tdata sk @ [CHR 0x00]\<rparr> else sk);
          n = rq_length rq + 1
      in if io_mmap io then Some (sk\<lparr>sk_tsize := n, sk_taddr := Some (take n (sk_tdata sk @ replicate n CHR 0x00))\<rparr>)
         else None)"

definition poke :: "string \<Rightarrow> nat \<Rightarrow> string option" where
  "poke s i = (if i \<le> length s then Some (s[i := CHR 0x00]) else None)"

definition deliver :: "DSock \<Rightarrow> ReqBuf \<Rightarrow> (SockState \<times> DSock \<times> ReqBuf) option" where
  "deliver sk rq =
     (let rq = rq\<lparr>rq_next := rq_content rq, rq_avail := rq_length rq\<rparr>;
          st = (if req_line (rq_request rq) \<noteq> None then SOCK_READY else SOCK_ERROR)
      in if rq_length rq = 0 then Some (st, sk, rq)
         else
           (case rq_content rq of
              CNull \<Rightarrow> None
            | CBuffer off \<Rightarrow> map_option (\<lambda>b. (st, sk, rq\<lparr>rq_buffer := b\<rparr>)) (poke (rq_buffer rq) (off + rq_length rq))
            | CMapped \<Rightarrow>
                (case sk_taddr sk of
                   None \<Rightarrow> None
                 | Some m \<Rightarrow> if rq_length rq < length m
                     then Some (st, sk\<lparr>sk_taddr := Some (m[rq_length rq := CHR 0x00])\<rparr>, rq) else None)))"

definition content_ready :: "read_io \<Rightarrow> DSock \<Rightarrow> ReqBuf \<Rightarrow> (SockState \<times> DSock \<times> ReqBuf) option" where
  "content_ready io sk rq =
     (if sk_tfile sk \<noteq> None then
        (let rq = rq\<lparr>rq_content := CNull, rq_next := CNull, rq_avail := 0\<rparr>;
             rq = (case req_query (rq_request rq) of
                     None \<Rightarrow> rq
                   | Some q \<Rightarrow> rq\<lparr>rq_buffer := q, rq_request := (rq_request rq)\<lparr>req_method := Some ''GET''\<rparr>, rq_content := CBuffer 0\<rparr>)
         in Some (if req_line (rq_request rq) \<noteq> None then SOCK_READY else SOCK_ERROR, sk, rq))
      else if sk_tfd sk > 0 then
        (case map_spool io sk rq of
           None \<Rightarrow> Some (SOCK_ERROR, sk\<lparr>sk_tsize := rq_length rq + 1, sk_taddr := None\<rparr>, rq)
         | Some sk \<Rightarrow> deliver sk (rq\<lparr>rq_content := CMapped\<rparr>))
      else deliver sk (rq\<lparr>rq_content := CBuffer (rq_coff rq)\<rparr>))"

definition SockParse :: "Tcl_Encoding option \<Rightarrow> nat \<Rightarrow> DrvConf \<Rightarrow> read_io \<Rightarrow> DSock \<Rightarrow> ReqBuf \<Rightarrow> (SockState \<times> DSock \<times> ReqBuf) option" where
  "SockParse enc base d io sk rq =
     (case parse_lines enc d sk rq of
        (Some st, sk, rq) \<Rightarrow> Some (st, sk, rq)
      | (None, sk, rq) \<Rightarrow>
          (let rq = (if rq_contentLength rq \<noteq> 0 then rq\<lparr>rq_length := rq_contentLength rq\<rparr> else rq);
               ready = (\<lambda>rq. if rq_coff rq > 0 \<and> rq_length rq \<le> rq_avail rq then content_ready io sk rq
                             else Some (SOCK_MORE, sk, rq))
           in if rq_chunkStartOff rq \<noteq> 0 then
                (case ChunkedDecode base rq of
                   None \<Rightarrow> None
                 | Some (res, rq) \<Rightarrow>
                     (let current = rq_chunkWriteOff rq - rq_coff rq
                      in if res = 0 \<or> rq_expectedLength rq \<noteq> 0 \<and> current < rq_expectedLength rq
                         then Some (SOCK_MORE, sk, rq)
                         else ready (rq\<lparr>rq_length := current\<rparr>)))
              else ready rq))"

section \<open>Reading\<close>

text \<open>
  \<open>Tcl_DStringSetLength\<close>: bytes that it uncovers are whatever the memory holds (\<open>junk\<close>).
\<close>

definition Tcl_DStringSetLength :: "(nat \<Rightarrow> char) \<Rightarrow> string \<Rightarrow> nat \<Rightarrow> string" where
  "Tcl_DStringSetLength junk b n = take n b @ map junk [length b..<n]"

text \<open>How many bytes to read, \<open>None\<close> where the limit of the input is reached.\<close>

definition read_size :: "DrvConf \<Rightarrow> ReqBuf \<Rightarrow> nat option" where
  "read_size d rq =
     (let nread = (if rq_length rq = 0 then dv_bufsize d else rq_length rq - rq_avail rq);
          len = length (rq_buffer rq)
      in if len + nread > dv_maxinput d
         then (if dv_maxinput d - len = 0 then None else Some (dv_maxinput d - len))
         else Some nread)"

definition must_spool :: "DrvConf \<Rightarrow> DSock \<Rightarrow> ReqBuf \<Rightarrow> bool" where
  "must_spool d sk rq \<longleftrightarrow>
     rq_coff rq > 0 \<and> rq_chunkStartOff rq = 0 \<and> rq_length rq > dv_readahead d \<and> sk_tfd sk \<le> 0"

text \<open>
  The spool file: a named file for uploads over the limit, a temporary file of \<open>Ns_GetTemp\<close>
  otherwise; the content that is in the buffer goes there first.
\<close>

definition open_spool :: "DrvConf \<Rightarrow> read_io \<Rightarrow> DSock \<Rightarrow> ReqBuf \<Rightarrow> (SockState \<times> DSock \<times> ReqBuf) + (DSock \<times> ReqBuf)" where
  "open_spool d io sk rq =
     (let sk = (if dv_maxupload d > 0 \<and> rq_length rq > dv_maxupload d
                then sk\<lparr>sk_tfile := Some (dv_uploadpath d @ ''/'' @ io_tempname io)\<rparr> else sk);
          sk = sk\<lparr>sk_tfd := io_tempfd io, sk_tdata := []\<rparr>
      in if sk_tfd sk < 0 then Inl (SOCK_ERROR, sk, rq)
         else if \<not> io_write_head io then Inl (SOCK_WRITEERROR, sk, rq)
         else Inr (sk\<lparr>sk_tdata := drop (rq_coff rq) (rq_buffer rq)\<rparr>, rq\<lparr>rq_buffer := []\<rparr>))"

text \<open>The driver writes at \<open>woff\<close> into the buffer that was grown by the size of the read.\<close>

definition recv_into :: "ReqBuf \<Rightarrow> string \<Rightarrow> nat \<Rightarrow> ReqBuf option" where
  "recv_into rq bs n =
     (if rq_woff rq + n \<le> length (rq_buffer rq)
      then Some (rq\<lparr>rq_buffer := take (rq_woff rq) (rq_buffer rq) @ bs @ drop (rq_woff rq + length bs) (rq_buffer rq)\<rparr>)
      else None)"

text \<open>The read itself, once the target is settled; \<open>len\<close> is the length of the buffer on entry.\<close>

definition DriverRecv :: "read_io \<Rightarrow> nat \<Rightarrow> string \<Rightarrow> string option" where
  "DriverRecv io n inp = map_option (\<lambda>k. take (min k n) inp) (io_recv io)"

definition read_step :: "Tcl_Encoding option \<Rightarrow> nat \<Rightarrow> (nat \<Rightarrow> char) \<Rightarrow> DrvConf \<Rightarrow> read_io \<Rightarrow> nat \<Rightarrow> nat \<Rightarrow> string \<Rightarrow> DSock \<Rightarrow> ReqBuf
    \<Rightarrow> (SockState \<times> string \<times> DSock \<times> ReqBuf) option" where
  "read_step enc base junk d io len nread inp sk rq =
     (let setlen = (\<lambda>n rq. rq\<lparr>rq_buffer := Tcl_DStringSetLength junk (rq_buffer rq) n\<rparr>);
          spooled = sk_tfd sk > 0;
          iov_len = (if spooled then min nread 16384 else nread);
          rq = (if spooled then rq else setlen (len + nread) rq)
      in case DriverRecv io iov_len inp of
           None \<Rightarrow> Some (SOCK_READERROR, inp, sk, setlen len rq)
         | Some bs \<Rightarrow>
             if bs = [] then Some (SOCK_MORE, inp, sk, setlen len rq)
             else if spooled \<and> \<not> io_write_data io then Some (SOCK_WRITEERROR, drop (length bs) inp, sk, rq)
             else
               (case (if spooled then Some rq else map_option (setlen (len + length bs)) (recv_into rq bs iov_len)) of
                  None \<Rightarrow> None
                | Some rq \<Rightarrow>
                    (let sk = (if spooled then sk\<lparr>sk_tdata := sk_tdata sk @ bs\<rparr> else sk);
                         rq = rq\<lparr>rq_woff := rq_woff rq + length bs, rq_avail := rq_avail rq + length bs\<rparr>
                     in map_option (\<lambda>(st, sk, rq). (st, drop (length bs) inp, sk, rq))
                          (if dv_noparse d then Some (SOCK_READY, sk, rq) else SockParse enc base d io sk rq))))"

definition read_request :: "Tcl_Encoding option \<Rightarrow> nat \<Rightarrow> (nat \<Rightarrow> char) \<Rightarrow> DrvConf \<Rightarrow> read_io \<Rightarrow> bool \<Rightarrow> string \<Rightarrow> DSock \<Rightarrow> ReqBuf
    \<Rightarrow> (SockState \<times> string \<times> DSock \<times> ReqBuf) option" where
  "read_request enc base junk d io spooler inp sk rq =
     (case read_size d rq of
        None \<Rightarrow> Some (SOCK_ERROR, inp, sk, rq)
      | Some nread \<Rightarrow>
          if must_spool d sk rq then
            (if \<not> spooler \<and> dv_spoolers d > 0 then Some (SOCK_SPOOL, inp, sk, rq)
             else
               (case open_spool d io sk rq of
                  Inl (st, sk, rq) \<Rightarrow> Some (st, inp, sk, rq)
                | Inr (sk, rq1) \<Rightarrow> read_step enc base junk d io (length (rq_buffer rq)) nread inp sk rq1))
          else read_step enc base junk d io (length (rq_buffer rq)) nread inp sk rq)"

definition SockRead :: "Tcl_Encoding option \<Rightarrow> nat \<Rightarrow> (nat \<Rightarrow> char) \<Rightarrow> DrvConf \<Rightarrow> read_io \<Rightarrow> bool \<Rightarrow> string \<Rightarrow> ReqBuf list \<Rightarrow> DSock
    \<Rightarrow> (SockState \<times> string \<times> ReqBuf list \<times> DSock) option" where
  "SockRead enc base junk d io spooler inp free sk =
     (let sk = (if sec (sk_acceptTime sk) = 0 then sk\<lparr>sk_acceptTime := io_now io\<rparr> else sk)
      in case SockPrepare free sk of
           (free, sk) \<Rightarrow>
             map_option (\<lambda>(st, inp, sk, rq). (st, inp, free, sk\<lparr>sk_req := Some rq\<rparr>))
               (read_request enc base junk d io spooler inp (sk\<lparr>sk_req := None\<rparr>) (the (sk_req sk))))"

text \<open>
  \<open>NsGetRequest\<close> in a connection thread: one record of answers for each call of \<open>SockRead\<close>; the
  outer \<open>None\<close> where the answers end before the loop does, or where memory is left.
\<close>

fun get_request_loop :: "Tcl_Encoding option \<Rightarrow> nat \<Rightarrow> (nat \<Rightarrow> char) \<Rightarrow> DrvConf \<Rightarrow> read_io list \<Rightarrow> string \<Rightarrow> ReqBuf list \<Rightarrow> DSock
    \<Rightarrow> (SockState \<times> string \<times> ReqBuf list \<times> DSock) option" where
  "get_request_loop enc base junk d [] inp free sk = None"
| "get_request_loop enc base junk d (io # ios) inp free sk =
     (case SockRead enc base junk d io False inp free sk of
        None \<Rightarrow> None
      | Some (st, inp, free, sk) \<Rightarrow>
          if st = SOCK_MORE then get_request_loop enc base junk d ios inp free sk else Some (st, inp, free, sk))"

definition NsGetRequest :: "Tcl_Encoding option \<Rightarrow> nat \<Rightarrow> (nat \<Rightarrow> char) \<Rightarrow> DrvConf \<Rightarrow> read_io list \<Rightarrow> string \<Rightarrow> ReqBuf list \<Rightarrow> DSock
    \<Rightarrow> (ReqBuf option \<times> string \<times> ReqBuf list \<times> DSock) option" where
  "NsGetRequest enc base junk d ios inp free sk =
     map_option (\<lambda>(inp, free, sk). (sk_req sk, inp, free, sk\<lparr>sk_req := None\<rparr>))
       (if sk_req sk = None then
          map_option (\<lambda>(st, inp, free, sk).
              if st \<noteq> SOCK_READY then (inp, NsFreeRequest free (sk_req sk), sk\<lparr>sk_req := None\<rparr>) else (inp, free, sk))
            (get_request_loop enc base junk d ios inp free sk)
        else Some (inp, free, sk))"

text \<open>What \<open>SockClose\<close> does to the spool file, for a socket that is kept as well: it is removed, closed and unmapped.\<close>

definition close_spool :: "DSock \<Rightarrow> DSock" where
  "close_spool sk = sk\<lparr>sk_tfile := None, sk_tfd := 0, sk_taddr := None\<rparr>"

text \<open>
  The calls of \<open>SockRead\<close> that one request sees: the driver thread calls with \<open>spooler\<close> false
  and, on \<open>SOCK_SPOOL\<close>, hands the socket to a spooler thread, which calls with \<open>spooler\<close> true.
  The answers end with the last call, or before it with \<open>SOCK_MORE\<close>.
\<close>

fun sock_run :: "Tcl_Encoding option \<Rightarrow> nat \<Rightarrow> (nat \<Rightarrow> char) \<Rightarrow> DrvConf \<Rightarrow> (bool \<times> read_io) list \<Rightarrow> string \<Rightarrow> ReqBuf list \<Rightarrow> DSock
    \<Rightarrow> (SockState \<times> string \<times> ReqBuf list \<times> DSock) option" where
  "sock_run enc base junk d [] inp free sk = Some (SOCK_MORE, inp, free, sk)"
| "sock_run enc base junk d ((spooler, io) # ios) inp free sk =
     (case SockRead enc base junk d io spooler inp free sk of
        None \<Rightarrow> None
      | Some (st, inp, free, sk) \<Rightarrow>
          if st = SOCK_MORE \<or> st = SOCK_SPOOL then sock_run enc base junk d ios inp free sk else Some (st, inp, free, sk))"

section \<open>Parsing resumes where it stopped\<close>

text \<open>The request after more bytes have arrived in its buffer.\<close>

definition ext :: "string \<Rightarrow> ReqBuf \<Rightarrow> ReqBuf" where
  "ext x rq = rq\<lparr>rq_buffer := rq_buffer rq @ x, rq_woff := rq_woff rq + length x, rq_avail := rq_avail rq + length x\<rparr>"

text \<open>The lines read and the bytes not yet read make up the buffer.\<close>

definition framed :: "ReqBuf \<Rightarrow> bool" where
  "framed rq \<longleftrightarrow> rq_roff rq + rq_avail rq = length (rq_buffer rq)"

lemma ext_sel [simp]:
  "rq_request (ext x rq) = rq_request rq" "rq_headers (ext x rq) = rq_headers rq" "rq_roff (ext x rq) = rq_roff rq"
  "rq_coff (ext x rq) = rq_coff rq" "rq_buffer (ext x rq) = rq_buffer rq @ x" "rq_avail (ext x rq) = rq_avail rq + length x"
  "rq_leadblanks (ext x rq) = rq_leadblanks rq" "rq_length (ext x rq) = rq_length rq"
  "rq_contentLength (ext x rq) = rq_contentLength rq" "rq_chunkStartOff (ext x rq) = rq_chunkStartOff rq"
  "rq_woff (ext x rq) = rq_woff rq + length x" "rq_expectedLength (ext x rq) = rq_expectedLength rq"
  "rq_chunkWriteOff (ext x rq) = rq_chunkWriteOff rq"
  by (simp_all add: ext_def)

lemma framed_ext [simp]: "framed (ext x rq) \<longleftrightarrow> framed rq"
  by (auto simp: framed_def)

lemma strnchr_append: "strnchr b n c = Some k \<Longrightarrow> strnchr (b @ x) (n + m) c = Some k"
  by (induction b n c arbitrary: k rule: strnchr.induct) (auto split: if_splits)

lemma next_line_ext: "k < rq_avail rq \<Longrightarrow> next_line (ext x rq) k = ext x (next_line rq k)"
  by (cases rq) (simp add: next_line_def ext_def)

lemma line_at_ext: "framed rq \<Longrightarrow> k < rq_avail rq \<Longrightarrow> line_at (ext x rq) k = line_at rq k"
  by (simp add: line_at_def framed_def)

lemma check_maxline_ext: "check_maxline d sk (ext x rq) k = check_maxline d sk rq k"
  by (simp add: check_maxline_def)

lemma body_framing_ext: "body_framing (ext x rq) = apsnd (ext x) (body_framing rq)"
  by (cases rq) (simp add: body_framing_def ext_def Let_def split: option.splits)

lemma body_length_ext: "body_length d s (sk, ext x rq) = apsnd (ext x) (body_length d s (sk, rq))"
  by (cases rq) (simp add: body_length_def ext_def split: option.splits)

lemma zip_accepted_ext: "zip_accepted sk (ext x rq) = zip_accepted sk rq"
  by (simp only: zip_accepted_def ext_sel)

lemma end_of_headers_ext: "end_of_headers d sk (ext x rq) = apsnd (ext x) (end_of_headers d sk rq)"
proof -
  have "(ext x rq)\<lparr>rq_coff := rq_roff (ext x rq), rq_chunkStartOff := 0\<rparr> = ext x (rq\<lparr>rq_coff := rq_roff rq, rq_chunkStartOff := 0\<rparr>)"
    by (cases rq) (simp add: ext_def)
  then show ?thesis
    by (simp add: end_of_headers_def Let_def body_framing_ext body_length_ext zip_accepted_ext split: prod.splits)
qed

lemma request_or_header_ext:
  "e < length (rq_buffer rq) \<Longrightarrow> request_or_header enc d (ext x rq) line e = apsnd (ext x) (request_or_header enc d rq line e)"
proof (cases "req_line (rq_request rq) = None")
  case True
  obtain ok r where p: "Ns_ParseRequest enc (cstr line) = (ok, r)" by fastforce
  assume "e < length (rq_buffer rq)"
  with True p show ?thesis by (cases ok; cases rq) (simp_all add: request_or_header_def ext_def Let_def list_update_append)
next
  case False
  then obtain l where "req_line (rq_request rq) = Some l" by blast
  moreover assume "e < length (rq_buffer rq)"
  ultimately show ?thesis
    by (cases "Ns_ParseHeader (rq_headers rq) (cstr line) Preserve"; cases rq)
      (simp_all add: request_or_header_def ext_def Let_def list_update_append)
qed

lemma line_at_length: "framed rq \<Longrightarrow> k < rq_avail rq \<Longrightarrow> length (line_at rq k) \<le> k"
  by (auto simp: line_at_def Let_def)

lemma framed_next_line: "framed rq \<Longrightarrow> k < rq_avail rq \<Longrightarrow> framed (next_line rq k)"
  by (simp add: next_line_def framed_def)

lemma request_or_header_keeps:
  "request_or_header enc d rq line e = (st, rq1) \<Longrightarrow> rq_roff rq1 = rq_roff rq \<and> length (rq_buffer rq1) = length (rq_buffer rq)"
  by (auto simp: request_or_header_def Let_def split: if_splits prod.splits bool.splits option.splits)

lemma body_framing_keeps: "rq_roff (snd (body_framing rq)) = rq_roff rq \<and> rq_buffer (snd (body_framing rq)) = rq_buffer rq
    \<and> rq_coff (snd (body_framing rq)) = rq_coff rq"
  by (simp add: body_framing_def Let_def split: option.splits)

lemma body_length_keeps: "rq_roff (snd (body_length d s st)) = rq_roff (snd st) \<and> rq_buffer (snd (body_length d s st)) = rq_buffer (snd st)
    \<and> rq_coff (snd (body_length d s st)) = rq_coff (snd st)"
  by (auto simp: body_length_def split: option.splits prod.splits)

lemma end_of_headers_keeps:
  "end_of_headers d sk rq = (sk1, rq1) \<Longrightarrow> rq_roff rq1 = rq_roff rq \<and> rq_buffer rq1 = rq_buffer rq \<and> rq_coff rq1 = rq_roff rq"
  using body_framing_keeps [of "rq\<lparr>rq_coff := rq_roff rq, rq_chunkStartOff := 0\<rparr>"] body_length_keeps
  by (simp add: end_of_headers_def Let_def split: prod.splits) (metis snd_conv)

lemma framed_request_or_header: "framed rq \<Longrightarrow> request_or_header enc d rq line e = (st, rq1) \<Longrightarrow> framed rq1"
  using request_or_header_keeps [of enc d rq line e st rq1] request_or_header_avail [of enc d rq line e st rq1] by (simp add: framed_def)

lemma framed_end_of_headers: "framed rq \<Longrightarrow> end_of_headers d sk rq = (sk1, rq1) \<Longrightarrow> framed rq1"
  using end_of_headers_keeps [of d sk rq sk1 rq1] end_of_headers_avail [of d sk rq sk1 rq1] by (simp add: framed_def)

lemma framed_nonempty: "framed rq \<Longrightarrow> k < rq_avail rq \<Longrightarrow> rq_buffer rq \<noteq> []"
  by (auto simp: framed_def)

lemma line_end_inside: "framed rq \<Longrightarrow> k < rq_avail rq \<Longrightarrow> rq_roff rq + length (line_at rq k) < length (rq_buffer (next_line rq k))"
  using line_at_length [of rq k] by (simp add: framed_def next_line_def)

lemma buffer_next_line [simp]: "rq_buffer (next_line rq k) = rq_buffer rq"
  by (simp add: next_line_def)

text \<open>One line, with the outcome of the rest.\<close>

lemma parse_lines_line:
  assumes "rq_coff rq = 0" "framed rq" "strnchr (drop (rq_roff rq) (rq_buffer rq)) (rq_avail rq) CHR 0x0A = Some k"
  shows "parse_lines enc d sk rq =
    (if line_at rq k = [] then
       (case end_of_headers d (check_maxline d sk rq k) (next_line rq k) of (sk2, rq2) \<Rightarrow> (None, sk2, rq2))
     else (case request_or_header enc d (next_line rq k) (line_at rq k) (rq_roff rq + length (line_at rq k)) of
             (None, rq2) \<Rightarrow> parse_lines enc d (check_maxline d sk rq k) rq2
           | (Some err, rq2) \<Rightarrow> (Some err, check_maxline d sk rq k, rq2)))"
proof -
  have "rq_buffer rq \<noteq> []" using framed_nonempty [OF assms(2)] strnchr_less [OF assms(3)] by blast
  moreover have "parse_lines enc d sk2 rq2 = (None, sk2, rq2)"
    if "end_of_headers d (check_maxline d sk rq k) (next_line rq k) = (sk2, rq2)" for sk2 rq2
    using end_of_headers_keeps [OF that] by (subst parse_lines.simps) (simp add: next_line_def)
  ultimately show ?thesis
    using assms by (subst parse_lines.simps) (simp add: Let_def split: prod.splits)
qed

lemma parse_lines_wait:
  "rq_coff rq = 0 \<Longrightarrow> strnchr (drop (rq_roff rq) (rq_buffer rq)) (rq_avail rq) CHR 0x0A = None \<Longrightarrow>
   parse_lines enc d sk rq = (Some SOCK_MORE, sk, rq)"
  by (subst parse_lines.simps) simp

lemma parse_lines_done: "rq_coff rq \<noteq> 0 \<Longrightarrow> parse_lines enc d sk rq = (None, sk, rq)"
  by (subst parse_lines.simps) simp

text \<open>
  Bytes that arrive later do not change what was parsed: where the content was reached they are
  appended to it, where a line was refused it is refused as well, and where more input was wanted
  parsing goes on from the state it left.
\<close>

lemma parse_lines_ext:
  assumes "framed rq"
  shows "case parse_lines enc d sk rq of (st, sk1, rq1) \<Rightarrow>
     framed rq1 \<and>
     (st = None \<longrightarrow> rq_coff rq1 \<noteq> 0 \<and> parse_lines enc d sk (ext x rq) = (None, sk1, ext x rq1)) \<and>
     (st = Some SOCK_MORE \<longrightarrow> rq_coff rq1 = 0 \<and> parse_lines enc d sk (ext x rq) = parse_lines enc d sk1 (ext x rq1)) \<and>
     (st \<noteq> None \<and> st \<noteq> Some SOCK_MORE \<longrightarrow> fst (parse_lines enc d sk (ext x rq)) = st)"
  using assms
proof (induction enc d sk rq rule: parse_lines.induct)
  case (1 enc d sk rq)
  show ?case
  proof (cases "rq_coff rq = 0")
    case False
    then show ?thesis using 1(3) by (simp add: parse_lines_done)
  next
    case c: True
    show ?thesis
    proof (cases "strnchr (drop (rq_roff rq) (rq_buffer rq)) (rq_avail rq) CHR 0x0A")
      case None
      then show ?thesis using c 1(3) by (simp add: parse_lines_wait)
    next
      case (Some k)
      have k: "k < rq_avail rq" using strnchr_less [OF Some] by blast
      have s: "strnchr (drop (rq_roff (ext x rq)) (rq_buffer (ext x rq))) (rq_avail (ext x rq)) CHR 0x0A = Some k"
        using strnchr_append [OF Some, of x "length x"] 1(3) by (simp add: framed_def)
      have e: "parse_lines enc d sk (ext x rq) =
          (if line_at rq k = [] then
             (case end_of_headers d (check_maxline d sk rq k) (next_line rq k) of (sk2, rq2) \<Rightarrow> (None, sk2, ext x rq2))
           else (case request_or_header enc d (next_line rq k) (line_at rq k) (rq_roff rq + length (line_at rq k)) of
                   (None, rq2) \<Rightarrow> parse_lines enc d (check_maxline d sk rq k) (ext x rq2)
                 | (Some err, rq2) \<Rightarrow> (Some err, check_maxline d sk rq k, ext x rq2)))"
        using c 1(3) k s line_end_inside [OF 1(3) k]
        by (subst parse_lines_line [where k = k])
          (simp_all add: line_at_ext next_line_ext check_maxline_ext end_of_headers_ext request_or_header_ext
            split: prod.splits option.splits)
      note l = parse_lines_line [OF c 1(3) Some, of enc d sk]
      have fr: "framed (next_line rq k)" using 1(3) k by (rule framed_next_line)
      show ?thesis
      proof (cases "line_at rq k = []")
        case True
        obtain sk2 rq2 where h: "end_of_headers d (check_maxline d sk rq k) (next_line rq k) = (sk2, rq2)" by fastforce
        show ?thesis
          using end_of_headers_keeps [OF h] framed_end_of_headers [OF fr h] by (simp add: l e True h) (simp add: next_line_def)
      next
        case False
        obtain st rq2 where h: "request_or_header enc d (next_line rq k) (line_at rq k) (rq_roff rq + length (line_at rq k)) = (st, rq2)"
          by fastforce
        have fr2: "framed rq2" using framed_request_or_header [OF fr h] .
        show ?thesis
        proof (cases st)
          case None
          show ?thesis
            using "1.IH"(2) [OF _ Some refl refl refl False h [symmetric] None fr2] c by (simp add: l e False h None)
        next
          case (Some err)
          have "st \<noteq> Some SOCK_MORE" using h
            by (auto simp: request_or_header_def Let_def split: if_splits prod.splits bool.splits option.splits)
          then show ?thesis using fr2 Some by (simp add: l e False h)
        qed
      qed
    qed
  qed
qed

section \<open>What parsing leaves alone\<close>

text \<open>Parsing lines changes \<open>keep\<close> and \<open>flags\<close> of the socket only.\<close>

definition sk_same :: "DSock \<Rightarrow> DSock \<Rightarrow> bool" where
  "sk_same sk sk1 \<longleftrightarrow> sk1 = sk\<lparr>sk_keep := sk_keep sk1, sk_flags := sk_flags sk1\<rparr>"

lemma sk_same_refl [simp]: "sk_same sk sk"
  by (simp add: sk_same_def)

lemma sk_same_trans: "sk_same a b \<Longrightarrow> sk_same b c \<Longrightarrow> sk_same a c"
  unfolding sk_same_def by (cases a; cases b; cases c) simp

lemma sk_sameD:
  assumes "sk_same sk sk1"
  shows "sk_tfd sk1 = sk_tfd sk" "sk_tfile sk1 = sk_tfile sk" "sk_acceptTime sk1 = sk_acceptTime sk" "sk_req sk1 = sk_req sk"
    "sk_tdata sk1 = sk_tdata sk" "sk_taddr sk1 = sk_taddr sk"
  using assms unfolding sk_same_def by (metis DSock.select_convs DSock.surjective DSock.update_convs(1,2))+

lemma sk_same_check: "sk_same sk (check_maxline d sk rq k)"
  by (simp add: check_maxline_def sk_same_def)

lemma sk_same_length: "sk_same sk (fst (body_length d s (sk, rq)))"
  by (cases sk) (simp add: body_length_def sk_same_def split: option.splits)

lemma sk_same_zip: "sk_same sk (zip_accepted sk rq)"
  by (cases sk) (simp add: zip_accepted_def sk_same_def Let_def)

lemma sk_same_end: "end_of_headers d sk rq = (sk1, rq1) \<Longrightarrow> sk_same sk sk1"
  unfolding end_of_headers_def Let_def
  by (clarsimp split: prod.splits) (metis fst_conv sk_same_length sk_same_trans sk_same_zip)

text \<open>
  The length of the content is the announced one, and unknown before the content is reached.
\<close>

definition measured :: "ReqBuf \<Rightarrow> bool" where
  "measured rq \<longleftrightarrow> rq_length rq = rq_contentLength rq \<and> (rq_coff rq = 0 \<longrightarrow> rq_length rq = 0 \<and> rq_chunkStartOff rq = 0)"

lemma measured_ext [simp]: "measured (ext x rq) = measured rq"
  by (simp add: measured_def)

lemma body_framing_measured:
  "rq_length rq = 0 \<Longrightarrow> rq_contentLength rq = 0 \<Longrightarrow> rq_length (snd (body_framing rq)) = 0 \<and> rq_contentLength (snd (body_framing rq)) = 0"
  by (simp add: body_framing_def Let_def split: option.splits)

lemma body_length_measured:
  "rq_length (snd st) = rq_contentLength (snd st) \<Longrightarrow> rq_length (snd (body_length d s st)) = rq_contentLength (snd (body_length d s st))"
  by (auto simp: body_length_def split: option.splits prod.splits)

lemma end_of_headers_measured:
  assumes "measured rq" "rq_coff rq = 0" "rq_roff rq > 0" "end_of_headers d sk rq = (sk1, rq1)"
  shows "measured rq1"
proof -
  let ?rq = "rq\<lparr>rq_coff := rq_roff rq, rq_chunkStartOff := 0\<rparr>"
  obtain s rq2 where f: "body_framing ?rq = (s, rq2)" by fastforce
  have "rq_length rq2 = 0 \<and> rq_contentLength rq2 = 0" using body_framing_measured [of ?rq] assms(1,2) f by (simp add: measured_def)
  then have "rq_length rq1 = rq_contentLength rq1"
    using body_length_measured [of "(sk, rq2)" d s] assms(4) f by (auto simp: end_of_headers_def Let_def split: prod.splits)
  then show ?thesis using end_of_headers_keeps [OF assms(4)] assms(3) by (simp add: measured_def)
qed

lemma request_or_header_measured:
  assumes "measured rq" "rq_coff rq = 0" "request_or_header enc d rq line e = (st, rq1)"
  shows "measured rq1 \<and> rq_woff rq1 = rq_woff rq \<and> (st = None \<longrightarrow> rq_buffer rq1 = rq_buffer rq)"
  using assms by (auto simp: request_or_header_def measured_def Let_def split: if_splits prod.splits bool.splits option.splits)

lemma end_of_headers_woff: "end_of_headers d sk rq = (sk1, rq1) \<Longrightarrow> rq_woff rq1 = rq_woff rq"
proof -
  have "rq_woff (snd (body_framing rq)) = rq_woff rq" for rq by (simp add: body_framing_def Let_def split: option.splits)
  moreover have "rq_woff (snd (body_length d s st)) = rq_woff (snd st)" for d s st
    by (auto simp: body_length_def split: option.splits prod.splits)
  moreover assume "end_of_headers d sk rq = (sk1, rq1)"
  ultimately show ?thesis
    by (auto simp: end_of_headers_def Let_def split: prod.splits) (metis ReqBuf.select_convs(12) ReqBuf.surjective ReqBuf.update_convs(10,14) snd_conv)
qed

lemma parse_lines_keeps:
  assumes "framed rq" "measured rq" "parse_lines enc d sk rq = (st, sk1, rq1)"
  shows "sk_same sk sk1 \<and> measured rq1 \<and> rq_woff rq1 = rq_woff rq \<and>
    (st = None \<or> st = Some SOCK_MORE \<longrightarrow> rq_buffer rq1 = rq_buffer rq)"
  using assms
proof (induction enc d sk rq rule: parse_lines.induct)
  case (1 enc d sk rq)
  show ?case
  proof (cases "rq_coff rq = 0")
    case False
    then show ?thesis using 1(4,5) by (simp add: parse_lines_done)
  next
    case c: True
    show ?thesis
    proof (cases "strnchr (drop (rq_roff rq) (rq_buffer rq)) (rq_avail rq) CHR 0x0A")
      case None
      then show ?thesis using c 1(4,5) by (simp add: parse_lines_wait)
    next
      case (Some k)
      have k: "k < rq_avail rq" using strnchr_less [OF Some] by blast
      have fr: "framed (next_line rq k)" using 1(3) k by (rule framed_next_line)
      have me: "measured (next_line rq k)" "rq_coff (next_line rq k) = 0" "rq_woff (next_line rq k) = rq_woff rq"
        "rq_roff (next_line rq k) > 0"
        using 1(4) c by (simp_all add: next_line_def measured_def)
      note l = parse_lines_line [OF c 1(3) Some, of enc d sk] and sc = sk_same_check [of sk d rq k]
      show ?thesis
      proof (cases "line_at rq k = []")
        case True
        obtain sk2 rq2 where h: "end_of_headers d (check_maxline d sk rq k) (next_line rq k) = (sk2, rq2)" by fastforce
        then have "st = None" "sk1 = sk2" "rq1 = rq2" using 1(5) True by (simp_all add: l)
        then show ?thesis
          using end_of_headers_measured [OF me(1,2,4) h] end_of_headers_keeps [OF h] end_of_headers_woff [OF h] me(3)
            sk_same_trans [OF sc sk_same_end [OF h]] by simp
      next
        case False
        obtain st2 rq2 where h: "request_or_header enc d (next_line rq k) (line_at rq k) (rq_roff rq + length (line_at rq k)) = (st2, rq2)"
          by fastforce
        have fr2: "framed rq2" using framed_request_or_header [OF fr h] .
        note m2 = request_or_header_measured [OF me(1,2) h]
        show ?thesis
        proof (cases st2)
          case None
          then have "parse_lines enc d (check_maxline d sk rq k) rq2 = (st, sk1, rq1)" using 1(5) False by (simp add: l h)
          then show ?thesis
            using "1.IH"(2) [OF _ Some refl refl refl False h [symmetric] None fr2] c m2 me(3) None sk_same_trans [OF sc]
            by simp
        next
          case (Some err)
          have "st2 \<noteq> Some SOCK_MORE" using h
            by (auto simp: request_or_header_def Let_def split: if_splits prod.splits bool.splits option.splits)
          moreover have "st = st2" "sk1 = check_maxline d sk rq k" "rq1 = rq2" using 1(5) False Some by (simp_all add: l h)
          ultimately show ?thesis using m2 me(3) sc Some by simp
        qed
      qed
    qed
  qed
qed

section \<open>Reading in pieces\<close>

text \<open>A request as \<open>SockPrepare\<close> provides it: new, or reset by \<open>NsFreeRequest\<close>.\<close>

definition idle :: "ReqBuf \<Rightarrow> bool" where
  "idle rq \<longleftrightarrow> rq = new_request\<lparr>rq_headers := rq_headers rq\<rparr> \<and> set_fields (rq_headers rq) = []"

lemma idle_sel:
  assumes "idle rq"
  shows "rq_buffer rq = []" "rq_avail rq = 0" "rq_roff rq = 0" "rq_woff rq = 0" "rq_coff rq = 0" "rq_length rq = 0"
    "rq_contentLength rq = 0" "rq_chunkStartOff rq = 0"
  using assms unfolding idle_def new_request_def
  by (metis ReqBuf.select_convs ReqBuf.surjective ReqBuf.update_convs(2))+

lemma idle_framed: "idle rq \<Longrightarrow> framed (ext x rq) \<and> measured (ext x rq)"
  by (simp add: idle_sel framed_def measured_def)

lemma idle_new: "idle new_request"
  by (simp add: idle_def new_request_def)

lemma idle_freed: "\<forall>r \<in> set free. idle r \<Longrightarrow> r \<in> set (NsFreeRequest free rq) \<Longrightarrow> idle r"
  by (cases rq) (auto simp: NsFreeRequest_def idle_def new_request_def Ns_SetTrunc_def)

lemma ext_ext [simp]: "ext y (ext x rq) = ext (x @ y) rq"
  by (simp add: ext_def)

lemma ext_Nil [simp]: "ext [] rq = rq"
  by (simp add: ext_def)

lemma recv_grown:
  assumes "length bs \<le> n" "rq_woff rq = length (rq_buffer rq)"
  shows "recv_into (rq\<lparr>rq_buffer := Tcl_DStringSetLength junk (rq_buffer rq) (length (rq_buffer rq) + n)\<rparr>) bs n =
    Some (rq\<lparr>rq_buffer := rq_buffer rq @ bs @ map junk [length (rq_buffer rq) + length bs..<length (rq_buffer rq) + n]\<rparr>)"
  using assms by (simp add: recv_into_def Tcl_DStringSetLength_def drop_map)

lemma setlen_shrink: "n = length a + length b \<Longrightarrow> Tcl_DStringSetLength junk (a @ b @ c) n = a @ b"
  by (simp add: Tcl_DStringSetLength_def)

lemma setlen_id [simp]: "Tcl_DStringSetLength junk b (length b) = b"
  by (simp add: Tcl_DStringSetLength_def)

lemma setlen_back: "Tcl_DStringSetLength junk (Tcl_DStringSetLength junk b (length b + n)) (length b) = b"
  by (simp add: Tcl_DStringSetLength_def)

lemma DriverRecv_length: "DriverRecv io n inp = Some bs \<Longrightarrow> length bs \<le> n \<and> bs @ drop (length bs) inp = inp"
  by (auto simp: DriverRecv_def min_def)

text \<open>A read into memory appends what arrived and parses on; a read into the spool file appends it there.\<close>

lemma read_step_memory:
  assumes "sk_tfd sk \<le> 0" "rq_woff rq = length (rq_buffer rq)" "\<not> dv_noparse d"
  shows "read_step enc base junk d io (length (rq_buffer rq)) n inp sk rq =
    (case DriverRecv io n inp of
       None \<Rightarrow> Some (SOCK_READERROR, inp, sk, rq)
     | Some bs \<Rightarrow> if bs = [] then Some (SOCK_MORE, inp, sk, rq)
         else map_option (\<lambda>(st, sk, rq). (st, drop (length bs) inp, sk, rq)) (SockParse enc base d io sk (ext bs rq)))"
proof (cases "DriverRecv io n inp")
  case None
  then show ?thesis using assms by (simp add: read_step_def setlen_back)
next
  case (Some bs)
  have "(rq\<lparr>rq_buffer := rq_buffer rq @ bs\<rparr>)\<lparr>rq_woff := rq_woff rq + length bs, rq_avail := rq_avail rq + length bs\<rparr> = ext bs rq"
    by (simp add: ext_def)
  then show ?thesis
    using assms Some DriverRecv_length [OF Some]
    by (simp add: read_step_def setlen_back recv_grown setlen_shrink)
qed

lemma read_step_spool:
  assumes "sk_tfd sk > 0" "\<not> dv_noparse d"
  shows "read_step enc base junk d io len n inp sk rq =
    (case DriverRecv io (min n 16384) inp of
       None \<Rightarrow> Some (SOCK_READERROR, inp, sk, rq\<lparr>rq_buffer := Tcl_DStringSetLength junk (rq_buffer rq) len\<rparr>)
     | Some bs \<Rightarrow> if bs = [] then Some (SOCK_MORE, inp, sk, rq\<lparr>rq_buffer := Tcl_DStringSetLength junk (rq_buffer rq) len\<rparr>)
         else if \<not> io_write_data io then Some (SOCK_WRITEERROR, drop (length bs) inp, sk, rq)
         else map_option (\<lambda>(st, sk, rq). (st, drop (length bs) inp, sk, rq))
           (SockParse enc base d io (sk\<lparr>sk_tdata := sk_tdata sk @ bs\<rparr>)
              (rq\<lparr>rq_woff := rq_woff rq + length bs, rq_avail := rq_avail rq + length bs\<rparr>)))"
  using assms by (simp add: read_step_def split: option.splits)

text \<open>The content of a request that is ready.\<close>

definition content_bytes :: "DSock \<Rightarrow> ReqBuf \<Rightarrow> string" where
  "content_bytes sk rq =
     (case rq_content rq of
        CNull \<Rightarrow> []
      | CBuffer off \<Rightarrow> take (rq_length rq) (drop off (rq_buffer rq))
      | CMapped \<Rightarrow> (case sk_taddr sk of None \<Rightarrow> [] | Some m \<Rightarrow> take (rq_length rq) m))"

definition same_head :: "ReqBuf \<Rightarrow> ReqBuf \<Rightarrow> bool" where
  "same_head a b \<longleftrightarrow> rq_request a = rq_request b \<and> rq_headers a = rq_headers b \<and> rq_coff a = rq_coff b \<and> rq_length a = rq_length b
     \<and> rq_contentLength a = rq_contentLength b \<and> rq_chunkStartOff a = rq_chunkStartOff b"

text \<open>The spool file: what has arrived of the content is in it.\<close>

definition spooling :: "Tcl_Encoding option \<Rightarrow> DrvConf \<Rightarrow> DSock \<Rightarrow> ReqBuf \<Rightarrow> string \<Rightarrow> DSock \<Rightarrow> ReqBuf \<Rightarrow> bool" where
  "spooling enc d sk0 r0 got sk rq \<longleftrightarrow>
     (\<exists>sk1 rq1. parse_lines enc d sk0 (ext got r0) = (None, sk1, rq1) \<and> rq_chunkStartOff rq1 = 0 \<and> same_head rq1 rq \<and>
        sk_tfd sk > 0 \<and> sk_tdata sk = drop (rq_coff rq) got \<and> rq_avail rq = rq_avail rq1 \<and> rq_avail rq < rq_length rq)"

text \<open>The headers that arrived announce a chunked body.\<close>

definition chunked_at :: "Tcl_Encoding option \<Rightarrow> DrvConf \<Rightarrow> DSock \<Rightarrow> ReqBuf \<Rightarrow> string \<Rightarrow> bool" where
  "chunked_at enc d sk0 r0 got \<longleftrightarrow>
     fst (parse_lines enc d sk0 (ext got r0)) = None \<and> rq_chunkStartOff (snd (snd (parse_lines enc d sk0 (ext got r0)))) \<noteq> 0"

text \<open>
  A request that is being read, of which \<open>got\<close> has arrived: its lines are still incomplete; or its
  content is in memory and incomplete; or the content is in the spool file and incomplete; or it is
  chunked.
\<close>

definition reading :: "Tcl_Encoding option \<Rightarrow> DrvConf \<Rightarrow> DSock \<Rightarrow> ReqBuf \<Rightarrow> string \<Rightarrow> DSock \<Rightarrow> ReqBuf \<Rightarrow> bool" where
  "reading enc d sk0 r0 got sk rq \<longleftrightarrow>
     parse_lines enc d sk0 (ext got r0) = (Some SOCK_MORE, sk, rq) \<or>
     parse_lines enc d sk0 (ext got r0) = (None, sk, rq) \<and> rq_chunkStartOff rq = 0 \<and> rq_avail rq < rq_length rq \<or>
     spooling enc d sk0 r0 got sk rq \<or>
     chunked_at enc d sk0 r0 got \<and> rq_coff rq \<noteq> 0 \<and> rq_chunkStartOff rq \<noteq> 0"

text \<open>A request that is ready, of which \<open>got\<close> has arrived.\<close>

definition complete_as :: "Tcl_Encoding option \<Rightarrow> DrvConf \<Rightarrow> DSock \<Rightarrow> ReqBuf \<Rightarrow> string \<Rightarrow> DSock \<Rightarrow> ReqBuf \<Rightarrow> bool" where
  "complete_as enc d sk0 r0 got sk rq \<longleftrightarrow>
     (\<exists>sk1 rq1. parse_lines enc d sk0 (ext got r0) = (None, sk1, rq1) \<and>
        (if rq_chunkStartOff rq1 \<noteq> 0 then rq_chunkStartOff rq \<noteq> 0
         else rq_chunkStartOff rq = 0 \<and> rq_headers rq = rq_headers rq1 \<and> rq_length rq = rq_length rq1 \<and> rq_coff rq = rq_coff rq1 \<and>
           rq_coff rq + rq_length rq \<le> length got \<and> req_line (rq_request rq1) \<noteq> None \<and>
           (if sk_tfile sk = None
            then rq_request rq = rq_request rq1 \<and> content_bytes sk rq = take (rq_length rq) (drop (rq_coff rq) got)
            else sk_tdata sk = take (rq_length rq) (drop (rq_coff rq) got))))"

lemma SockParse_stop: "parse_lines enc d sk rq = (Some st, sk1, rq1) \<Longrightarrow> SockParse enc base d io sk rq = Some (st, sk1, rq1)"
  by (simp add: SockParse_def)

lemma SockParse_plain:
  assumes "parse_lines enc d sk rq = (None, sk1, rq1)" "rq_chunkStartOff rq1 = 0" "rq_length rq1 = rq_contentLength rq1" "rq_coff rq1 \<noteq> 0"
  shows "SockParse enc base d io sk rq =
    (if rq_length rq1 \<le> rq_avail rq1 then content_ready io sk1 rq1 else Some (SOCK_MORE, sk1, rq1))"
proof -
  have e: "rq1\<lparr>rq_length := rq_contentLength rq1\<rparr> = rq1" using assms(3) by (metis ReqBuf.surjective ReqBuf.update_convs(5))
  show ?thesis using assms(1,2,4) by (simp add: SockParse_def Let_def e)
qed

lemma ChunkedDecode_keeps:
  "ChunkedDecode base rq = Some (st, rq1) \<Longrightarrow> rq_coff rq1 = rq_coff rq \<and> rq_chunkStartOff rq \<le> rq_chunkStartOff rq1"
proof (induction base rq arbitrary: st rq1 rule: ChunkedDecode.induct)
  case (1 base rq)
  then show ?case
    by (subst (asm) (2) ChunkedDecode.simps) (fastforce simp: Let_def split: if_splits option.splits)
qed

lemma deliver_keeps: "deliver sk rq = Some (st, sk1, rq1) \<Longrightarrow> rq_chunkStartOff rq1 = rq_chunkStartOff rq \<and> rq_coff rq1 = rq_coff rq"
  by (auto simp: deliver_def Let_def split: if_splits content_ptr.splits option.splits)

lemma content_ready_keeps: "content_ready io sk rq = Some (st, sk1, rq1) \<Longrightarrow> rq_chunkStartOff rq1 = rq_chunkStartOff rq \<and> rq_coff rq1 = rq_coff rq"
  by (auto simp: content_ready_def Let_def dest: deliver_keeps split: if_splits option.splits)

lemma SockParse_chunked:
  assumes "parse_lines enc d sk rq = (None, sk1, rq1)" "rq_chunkStartOff rq1 \<noteq> 0" "SockParse enc base d io sk rq = Some (st, sk2, rq2)"
  shows "rq_chunkStartOff rq2 \<noteq> 0 \<and> rq_coff rq2 = rq_coff rq1"
  using assms by (auto simp: SockParse_def Let_def split: if_splits option.splits dest!: ChunkedDecode_keeps content_ready_keeps)

lemma deliver_buffer:
  assumes "rq_coff rq + rq_length rq \<le> length (rq_buffer rq)"
  shows "\<exists>rq1. deliver sk (rq\<lparr>rq_content := CBuffer (rq_coff rq)\<rparr>) =
      Some (if req_line (rq_request rq) \<noteq> None then SOCK_READY else SOCK_ERROR, sk, rq1) \<and> same_head rq rq1 \<and>
      content_bytes sk rq1 = take (rq_length rq) (drop (rq_coff rq) (rq_buffer rq))"
  using assms
  by (cases "rq_length rq = 0")
    (auto simp: deliver_def same_head_def content_bytes_def poke_def drop_update_swap)

lemma deliver_mapped:
  assumes "length (sk_tdata sk) = rq_length rq" "sk_tfile sk = None" "content_ready io sk rq = Some (SOCK_READY, sk1, rq1)" "sk_tfd sk > 0"
  shows "same_head rq rq1 \<and> content_bytes sk1 rq1 = sk_tdata sk \<and> sk_tfile sk1 = None"
  using assms
  by (auto simp: content_ready_def map_spool_def Let_def deliver_def same_head_def content_bytes_def split: if_splits)

text \<open>The memory case of a read: the parse of all that has arrived decides.\<close>

lemma parse_arrived:
  assumes "idle r0" "sk_tfd sk0 \<le> 0" "sk_tfile sk0 = None" "parse_lines enc d sk0 (ext got r0) = (st, sk1, rq1)"
  shows "framed rq1 \<and> measured rq1 \<and> sk_tfd sk1 \<le> 0 \<and> sk_tfile sk1 = None \<and> rq_woff rq1 = length got \<and>
    (st = None \<or> st = Some SOCK_MORE \<longrightarrow> rq_buffer rq1 = got) \<and> (st = None \<longrightarrow> rq_coff rq1 \<noteq> 0)"
  using parse_lines_keeps [OF _ _ assms(4)] idle_framed [OF assms(1), of got] idle_sel [OF assms(1)] assms
    parse_lines_ext [of "ext got r0" enc d sk0 "[]"] by (auto dest: sk_sameD)

lemma parse_more:
  assumes "idle r0" "parse_lines enc d sk0 (ext got r0) = (st, sk1, rq1)" "st = None \<or> st = Some SOCK_MORE"
  shows "parse_lines enc d sk0 (ext (got @ bs) r0) = parse_lines enc d sk1 (ext bs rq1)"
  using parse_lines_ext [of "ext got r0" enc d sk0 bs] idle_framed [OF assms(1), of got] assms(2,3)
  by (auto simp: parse_lines_done)

definition framed_content :: "ReqBuf \<Rightarrow> bool" where
  "framed_content rq \<longleftrightarrow> rq_coff rq = rq_roff rq"

lemma request_or_header_coff:
  "rq_coff rq = 0 \<Longrightarrow> request_or_header enc d rq line e = (st, rq1) \<Longrightarrow> rq_coff rq1 = 0 \<or> rq_coff rq1 = rq_roff rq1"
  by (auto simp: request_or_header_def Let_def split: if_splits prod.splits bool.splits option.splits)

lemma parse_lines_coff:
  assumes "framed rq" "rq_coff rq = 0 \<or> framed_content rq" "parse_lines enc d sk rq = (st, sk1, rq1)"
  shows "rq_coff rq1 = 0 \<or> framed_content rq1"
  using assms
proof (induction enc d sk rq rule: parse_lines.induct)
  case (1 enc d sk rq)
  show ?case
  proof (cases "rq_coff rq = 0")
    case False
    then show ?thesis using 1(4,5) by (simp add: parse_lines_done)
  next
    case c: True
    show ?thesis
    proof (cases "strnchr (drop (rq_roff rq) (rq_buffer rq)) (rq_avail rq) CHR 0x0A")
      case None
      then show ?thesis using c 1(5) by (simp add: parse_lines_wait)
    next
      case (Some k)
      have fr: "framed (next_line rq k)" using framed_next_line [OF 1(3)] strnchr_less [OF Some] by blast
      note l = parse_lines_line [OF c 1(3) Some, of enc d sk]
      show ?thesis
      proof (cases "line_at rq k = []")
        case True
        obtain sk2 rq2 where h: "end_of_headers d (check_maxline d sk rq k) (next_line rq k) = (sk2, rq2)" by fastforce
        then show ?thesis using end_of_headers_keeps [OF h] 1(5) True by (auto simp: l framed_content_def)
      next
        case False
        obtain st2 rq2 where h: "request_or_header enc d (next_line rq k) (line_at rq k) (rq_roff rq + length (line_at rq k)) = (st2, rq2)"
          by fastforce
        have c2: "rq_coff rq2 = 0 \<or> framed_content rq2"
          using request_or_header_coff [OF _ h] c by (simp add: next_line_def framed_content_def)
        show ?thesis
        proof (cases st2)
          case None
          then show ?thesis
            using "1.IH"(2) [OF _ Some refl refl refl False h [symmetric] None framed_request_or_header [OF fr h] c2] c 1(5) False
            by (simp add: l h)
        next
          case (Some err)
          then show ?thesis using c2 1(5) False by (simp add: l h)
        qed
      qed
    qed
  qed
qed

lemma parse_content:
  assumes "idle r0" "parse_lines enc d sk0 (ext got r0) = (None, sk1, rq1)"
  shows "rq_coff rq1 + rq_avail rq1 = length got"
  using parse_lines_coff [OF _ _ assms(2)] parse_lines_ext [of "ext got r0" enc d sk0 "[]"] idle_framed [OF assms(1), of got]
    parse_lines_keeps [OF _ _ assms(2)] idle_sel [OF assms(1)] assms(2)
  by (auto simp: framed_def framed_content_def)

lemma parse_lines_outcome: "parse_lines enc d sk rq = (Some st, sk1, rq1) \<Longrightarrow> st \<noteq> SOCK_READY \<and> st \<noteq> SOCK_SPOOL"
proof (induction enc d sk rq rule: parse_lines.induct)
  case (1 enc d sk rq)
  have "request_or_header enc d r l e \<noteq> (Some SOCK_READY, r1)" "request_or_header enc d r l e \<noteq> (Some SOCK_SPOOL, r1)" for r l e r1
    by (auto simp: request_or_header_def Let_def split: if_splits prod.splits bool.splits option.splits)
  then show ?case
    using 1 by (subst (asm) (3) parse_lines.simps) (fastforce simp: Let_def split: if_splits option.splits prod.splits)
qed

lemma memory_parse:
  assumes "idle r0" "sk_tfd sk0 \<le> 0" "sk_tfile sk0 = None" "parse_lines enc d sk0 (ext got r0) = parse_lines enc d sk rq"
  shows "case SockParse enc base d io sk rq of
      None \<Rightarrow> chunked_at enc d sk0 r0 got
    | Some (st, sk1, rq1) \<Rightarrow> (st = SOCK_MORE \<or> st = SOCK_SPOOL \<longrightarrow> reading enc d sk0 r0 got sk1 rq1) \<and>
        (st = SOCK_READY \<longrightarrow> complete_as enc d sk0 r0 got sk1 rq1)"
proof -
  obtain st1 sk1 rq1 where p: "parse_lines enc d sk rq = (st1, sk1, rq1)" by (cases "parse_lines enc d sk rq")
  then have p0: "parse_lines enc d sk0 (ext got r0) = (st1, sk1, rq1)" using assms(4) by simp
  note a = parse_arrived [OF assms(1-3) p0]
  show ?thesis
  proof (cases st1)
    case (Some st)
    have "st \<noteq> SOCK_READY \<and> st \<noteq> SOCK_SPOOL" using parse_lines_outcome [of enc d sk rq st sk1 rq1] p Some by simp
    then show ?thesis using SockParse_stop [of enc d sk rq st sk1 rq1] p p0 Some by (simp add: reading_def)
  next
    case None
    then have pn: "parse_lines enc d sk rq = (None, sk1, rq1)" "parse_lines enc d sk0 (ext got r0) = (None, sk1, rq1)" using p p0 by simp_all
    show ?thesis
    proof (cases "rq_chunkStartOff rq1 = 0")
      case True
      have len: "rq_coff rq1 + rq_avail rq1 = length got" using parse_content [OF assms(1) pn(2)] .
      show ?thesis
      proof (cases "rq_length rq1 \<le> rq_avail rq1")
        case le: True
        obtain rq2 where "deliver sk1 (rq1\<lparr>rq_content := CBuffer (rq_coff rq1)\<rparr>) =
            Some (if req_line (rq_request rq1) \<noteq> None then SOCK_READY else SOCK_ERROR, sk1, rq2)" "same_head rq1 rq2"
          "content_bytes sk1 rq2 = take (rq_length rq1) (drop (rq_coff rq1) (rq_buffer rq1))"
          using deliver_buffer [of rq1 sk1] le len a None by auto
        then show ?thesis
          using SockParse_plain [OF pn(1) True] a None le len True pn(2)
          by (auto simp: content_ready_def complete_as_def same_head_def measured_def)
      next
        case False
        then show ?thesis using SockParse_plain [OF pn(1) True] a None pn(2) True by (simp add: reading_def measured_def)
      qed
    next
      case False
      then show ?thesis
        using SockParse_chunked [OF pn(1) False, of base io] a None pn
        by (auto simp: reading_def complete_as_def chunked_at_def split: option.splits)
    qed
  qed
qed

lemma spooled_ready:
  assumes "sk_tfd sk > 0" "length (sk_tdata sk) = rq_length rq" "rq_chunkStartOff rq = 0"
  shows "case content_ready io sk rq of
      None \<Rightarrow> False
    | Some (st, sk1, rq1) \<Rightarrow> (st = SOCK_READY \<or> st = SOCK_ERROR) \<and> (st = SOCK_READY \<longrightarrow> sk_tfile sk1 = sk_tfile sk \<and>
        rq_headers rq1 = rq_headers rq \<and> rq_length rq1 = rq_length rq \<and> rq_coff rq1 = rq_coff rq \<and> rq_chunkStartOff rq1 = 0 \<and>
        req_line (rq_request rq) \<noteq> None \<and>
        (if sk_tfile sk = None then rq_request rq1 = rq_request rq \<and> content_bytes sk1 rq1 = sk_tdata sk else sk_tdata sk1 = sk_tdata sk))"
proof (cases "sk_tfile sk = None")
  case True
  show ?thesis
  proof (cases "io_mmap io")
    case False
    then show ?thesis using True assms by (simp add: content_ready_def map_spool_def Let_def)
  next
    case m: True
    have "content_ready io sk rq \<noteq> None \<and> (\<forall>st sk1 rq1. content_ready io sk rq = Some (st, sk1, rq1) \<longrightarrow>
        st = (if req_line (rq_request rq) \<noteq> None then SOCK_READY else SOCK_ERROR))"
      using True assms(1,2) m by (simp add: content_ready_def map_spool_def Let_def deliver_def)
    then show ?thesis
      using deliver_mapped [OF assms(2) True _ assms(1), of io] True assms(3) by (auto simp: same_head_def split: if_splits)
  qed
next
  case False
  then show ?thesis using assms by (auto simp: content_ready_def Let_def split: option.splits if_splits)
qed

lemma spooled_parse_eq:
  assumes i: "idle r0" "sk_tfd sk0 \<le> 0" "sk_tfile sk0 = None" and sp: "spooling enc d sk0 r0 got sk rq"
  shows "SockParse enc base d io (sk\<lparr>sk_tdata := sk_tdata sk @ bs\<rparr>)
      (rq\<lparr>rq_woff := rq_woff rq + length bs, rq_avail := rq_avail rq + length bs\<rparr>) =
    (if rq_length rq \<le> rq_avail rq + length bs
     then content_ready io (sk\<lparr>sk_tdata := sk_tdata sk @ bs\<rparr>)
       (rq\<lparr>rq_woff := rq_woff rq + length bs, rq_avail := rq_avail rq + length bs\<rparr>)
     else Some (SOCK_MORE, sk\<lparr>sk_tdata := sk_tdata sk @ bs\<rparr>,
       rq\<lparr>rq_woff := rq_woff rq + length bs, rq_avail := rq_avail rq + length bs\<rparr>))"
proof -
  let ?sk = "sk\<lparr>sk_tdata := sk_tdata sk @ bs\<rparr>" and ?rq = "rq\<lparr>rq_woff := rq_woff rq + length bs, rq_avail := rq_avail rq + length bs\<rparr>"
  obtain sk1 rq1 where p: "parse_lines enc d sk0 (ext got r0) = (None, sk1, rq1)" and c: "rq_chunkStartOff rq1 = 0"
    and h: "same_head rq1 rq" using sp by (auto simp: spooling_def)
  note m = parse_arrived [OF i p]
  have "parse_lines enc d ?sk ?rq = (None, ?sk, ?rq)"
    using m h by (simp add: parse_lines_done same_head_def)
  then show ?thesis
    using SockParse_plain [of enc d ?sk ?rq ?sk ?rq base io] m h c by (simp add: same_head_def measured_def)
qed

lemma spool_parse:
  assumes i: "idle r0" "sk_tfd sk0 \<le> 0" "sk_tfile sk0 = None" and sp: "spooling enc d sk0 r0 got sk rq"
    and n: "rq_avail rq + length bs \<le> rq_length rq"
  shows "case SockParse enc base d io (sk\<lparr>sk_tdata := sk_tdata sk @ bs\<rparr>)
        (rq\<lparr>rq_woff := rq_woff rq + length bs, rq_avail := rq_avail rq + length bs\<rparr>) of
      None \<Rightarrow> False
    | Some (st, sk1, rq1) \<Rightarrow> st \<noteq> SOCK_SPOOL \<and> (st = SOCK_MORE \<longrightarrow> spooling enc d sk0 r0 (got @ bs) sk1 rq1) \<and>
        (st = SOCK_READY \<longrightarrow> complete_as enc d sk0 r0 (got @ bs) sk1 rq1)"
proof -
  let ?sk = "sk\<lparr>sk_tdata := sk_tdata sk @ bs\<rparr>" and ?rq = "rq\<lparr>rq_woff := rq_woff rq + length bs, rq_avail := rq_avail rq + length bs\<rparr>"
  obtain sk1 rq1 where p: "parse_lines enc d sk0 (ext got r0) = (None, sk1, rq1)" and c: "rq_chunkStartOff rq1 = 0"
    and h: "same_head rq1 rq" and t: "sk_tfd sk > 0" "sk_tdata sk = drop (rq_coff rq) got"
    and a: "rq_avail rq = rq_avail rq1" using sp by (auto simp: spooling_def)
  note m = parse_arrived [OF i p] parse_content [OF i(1) p] parse_more [OF i(1) p, of bs]
  have p2: "parse_lines enc d sk0 (ext (got @ bs) r0) = (None, sk1, ext bs rq1)"
    using m(1,3) by (simp add: parse_lines_done)
  note s = spooled_parse_eq [OF i sp, of base io bs]
  have d: "sk_tdata ?sk = drop (rq_coff rq) (got @ bs)" "length (sk_tdata ?sk) = rq_avail rq + length bs"
    using t(2) m(2) a h by (simp_all add: same_head_def)
  show ?thesis
  proof (cases "rq_length rq \<le> rq_avail rq + length bs")
    case True
    then have e: "rq_length rq = rq_avail rq + length bs" using n by simp
    have "take (rq_length rq) (drop (rq_coff rq) (got @ bs)) = sk_tdata ?sk" using d e by (metis take_all_iff order_refl)
    moreover have "rq_coff rq + rq_length rq = length (got @ bs)" using m(2) a e h by (simp add: same_head_def)
    ultimately show ?thesis
      using spooled_ready [of ?sk ?rq io] t(1) d(2) e c h p2 s True
      by (auto simp: complete_as_def same_head_def split: option.splits if_splits)
  next
    case False
    have "spooling enc d sk0 r0 (got @ bs) ?sk ?rq"
      unfolding spooling_def by (rule exI [of _ sk1], rule exI [of _ "ext bs rq1"]) (use p2 c h t d a False in \<open>auto simp: same_head_def\<close>)
    then show ?thesis using s False by simp
  qed
qed

lemma chunked_more: "idle r0 \<Longrightarrow> chunked_at enc d sk0 r0 got \<Longrightarrow> chunked_at enc d sk0 r0 (got @ bs)"
  using parse_lines_ext [of "ext got r0" enc d sk0 bs] idle_framed [of r0 got]
  by (auto simp: chunked_at_def split: prod.splits)

lemma SockParse_chunk_keeps:
  assumes "rq_coff rq \<noteq> 0" "rq_chunkStartOff rq \<noteq> 0" "SockParse enc base d io sk rq = Some (st, sk1, rq1)"
  shows "rq_coff rq1 \<noteq> 0 \<and> rq_chunkStartOff rq1 \<noteq> 0"
  using SockParse_chunked [OF parse_lines_done, of rq] assms by auto

lemma read_step_consumes:
  assumes "read_step enc base junk d io len n inp sk rq = Some (st, inp1, sk1, rq1)"
  shows "(\<exists>bs. inp = bs @ inp1) \<and> (rq_coff rq \<noteq> 0 \<and> rq_chunkStartOff rq \<noteq> 0 \<longrightarrow> rq_coff rq1 \<noteq> 0 \<and> rq_chunkStartOff rq1 \<noteq> 0)"
proof -
  have r: "\<exists>bs. inp = bs @ drop k inp" for k by (metis append_take_drop_id)
  show ?thesis
    using assms unfolding read_step_def Let_def
    by (auto simp: recv_into_def split: option.splits if_splits intro: r dest!: SockParse_chunk_keeps [rotated 2])
qed

lemma read_size_left: "read_size d rq = Some n \<Longrightarrow> rq_length rq \<noteq> 0 \<Longrightarrow> rq_avail rq \<le> rq_length rq \<Longrightarrow> rq_avail rq + n \<le> rq_length rq"
  by (auto simp: read_size_def Let_def split: if_splits)

text \<open>What one call of \<open>SockRead\<close> makes of a request that is being read.\<close>

definition step_ok :: "Tcl_Encoding option \<Rightarrow> DrvConf \<Rightarrow> DSock \<Rightarrow> ReqBuf \<Rightarrow> string \<Rightarrow> string
    \<Rightarrow> (SockState \<times> string \<times> DSock \<times> ReqBuf) option \<Rightarrow> bool" where
  "step_ok enc d sk0 r0 got inp res \<longleftrightarrow>
     (case res of
        None \<Rightarrow> \<exists>bs rest. inp = bs @ rest \<and> chunked_at enc d sk0 r0 (got @ bs)
      | Some (st, inp1, sk1, rq1) \<Rightarrow>
          \<exists>bs. inp = bs @ inp1 \<and> (st = SOCK_MORE \<or> st = SOCK_SPOOL \<longrightarrow> reading enc d sk0 r0 (got @ bs) sk1 rq1) \<and>
            (st = SOCK_READY \<longrightarrow> complete_as enc d sk0 r0 (got @ bs) sk1 rq1))"

lemma step_ok_other: "st \<notin> {SOCK_MORE, SOCK_SPOOL, SOCK_READY} \<Longrightarrow> step_ok enc d sk0 r0 got (bs @ inp) (Some (st, inp, sk, rq))"
  by (auto simp: step_ok_def)

lemma step_ok_same: "reading enc d sk0 r0 got sk rq \<Longrightarrow> st \<noteq> SOCK_READY \<Longrightarrow> step_ok enc d sk0 r0 got inp (Some (st, inp, sk, rq))"
  by (auto simp: step_ok_def)

lemma memory_step:
  assumes i: "idle r0" "sk_tfd sk0 \<le> 0" "sk_tfile sk0 = None" "\<not> dv_noparse d"
    and p: "parse_lines enc d sk0 (ext got r0) = (st, sk, rq)" "st = None \<or> st = Some SOCK_MORE"
    and r: "reading enc d sk0 r0 got sk rq"
  shows "step_ok enc d sk0 r0 got inp (read_step enc base junk d io (length (rq_buffer rq)) n inp sk rq)"
proof -
  note a = parse_arrived [OF i(1-3) p(1)]
  have w: "sk_tfd sk \<le> 0" "rq_woff rq = length (rq_buffer rq)" using a p(2) by auto
  show ?thesis
  proof (cases "DriverRecv io n inp")
    case None
    then show ?thesis using r by (simp add: read_step_memory [OF w i(4)] step_ok_same)
  next
    case (Some bs)
    have inp: "inp = bs @ drop (length bs) inp" using DriverRecv_length [OF Some] by simp
    show ?thesis
    proof (cases "bs = []")
      case True
      then show ?thesis using Some r by (simp add: read_step_memory [OF w i(4)] step_ok_same)
    next
      case False
      have more: "parse_lines enc d sk0 (ext (got @ bs) r0) = parse_lines enc d sk (ext bs rq)" by (rule parse_more [OF i(1) p])
      have "step_ok enc d sk0 r0 got (bs @ drop (length bs) inp)
          (map_option (\<lambda>(st, sk, rq). (st, drop (length bs) inp, sk, rq)) (SockParse enc base d io sk (ext bs rq)))"
        using memory_parse [OF i(1-3) more, of base io]
        by (cases "SockParse enc base d io sk (ext bs rq)") (auto simp: step_ok_def)
      then show ?thesis using Some False by (simp add: read_step_memory [OF w i(4)] inp [symmetric])
    qed
  qed
qed

lemma spool_step:
  assumes i: "idle r0" "sk_tfd sk0 \<le> 0" "sk_tfile sk0 = None" "\<not> dv_noparse d"
    and sp: "spooling enc d sk0 r0 got sk rq" and n: "rq_avail rq + n \<le> rq_length rq"
  shows "step_ok enc d sk0 r0 got inp (read_step enc base junk d io len n inp sk rq)"
proof -
  have t: "sk_tfd sk > 0" using sp by (auto simp: spooling_def)
  have b: "reading enc d sk0 r0 got sk (rq\<lparr>rq_buffer := b\<rparr>)" for b
    using sp by (auto simp: reading_def spooling_def same_head_def)
  show ?thesis
  proof (cases "DriverRecv io (min n 16384) inp")
    case None
    then show ?thesis using b by (simp add: read_step_spool [OF t i(4)] step_ok_same)
  next
    case (Some bs)
    have inp: "inp = bs @ drop (length bs) inp" and le: "rq_avail rq + length bs \<le> rq_length rq"
      using DriverRecv_length [OF Some] n by simp_all
    show ?thesis
    proof (cases "bs = [] \<or> \<not> io_write_data io")
      case True
      then show ?thesis
        using Some b step_ok_other [of SOCK_WRITEERROR enc d sk0 r0 got bs "drop (length bs) inp" sk rq] inp
        by (auto simp: read_step_spool [OF t i(4)] step_ok_same)
    next
      case False
      have "step_ok enc d sk0 r0 got (bs @ drop (length bs) inp)
          (map_option (\<lambda>(st, sk, rq). (st, drop (length bs) inp, sk, rq))
            (SockParse enc base d io (sk\<lparr>sk_tdata := sk_tdata sk @ bs\<rparr>)
              (rq\<lparr>rq_woff := rq_woff rq + length bs, rq_avail := rq_avail rq + length bs\<rparr>)))"
        using spool_parse [OF i(1-3) sp le, of base io] by (auto simp: step_ok_def reading_def split: option.splits prod.splits)
      then show ?thesis using Some False by (simp add: read_step_spool [OF t i(4)] inp [symmetric])
    qed
  qed
qed

lemma open_spool_spooling:
  assumes "idle r0" "parse_lines enc d sk0 (ext got r0) = (None, sk, rq)" "rq_buffer rq = got" "rq_chunkStartOff rq = 0"
    "rq_avail rq < rq_length rq" "open_spool d io sk rq = Inr (sk1, rq1)" "io_tempfd io \<noteq> 0"
  shows "spooling enc d sk0 r0 got sk1 rq1 \<and> rq_length rq1 = rq_length rq \<and> rq_avail rq1 = rq_avail rq"
  using assms by (auto simp: open_spool_def Let_def spooling_def same_head_def split: if_splits)

lemma chunk_step:
  assumes "idle r0" "chunked_at enc d sk0 r0 got" "rq_coff rq \<noteq> 0" "rq_chunkStartOff rq \<noteq> 0"
  shows "step_ok enc d sk0 r0 got inp (read_step enc base junk d io len n inp sk rq)"
proof (cases "read_step enc base junk d io len n inp sk rq")
  case None
  then show ?thesis using assms(2) unfolding step_ok_def by (auto intro: exI [of _ "[]"])
next
  case (Some res)
  obtain st inp1 sk1 rq1 where res: "res = (st, inp1, sk1, rq1)" by (cases res) auto
  obtain bs where b: "inp = bs @ inp1" "rq_coff rq1 \<noteq> 0" "rq_chunkStartOff rq1 \<noteq> 0"
    using read_step_consumes Some assms(3,4) res by blast
  have c: "chunked_at enc d sk0 r0 (got @ bs)" using assms(1,2) by (rule chunked_more)
  then obtain sk2 rq2 where "parse_lines enc d sk0 (ext (got @ bs) r0) = (None, sk2, rq2)" "rq_chunkStartOff rq2 \<noteq> 0"
    by (auto simp: chunked_at_def) (metis prod.exhaust_sel)
  then have "complete_as enc d sk0 r0 (got @ bs) sk1 rq1" using b by (simp add: complete_as_def)
  then show ?thesis using Some res b c by (auto simp: step_ok_def reading_def)
qed

lemma read_request_step:
  assumes i: "idle r0" "sk_tfd sk0 \<le> 0" "sk_tfile sk0 = None" "\<not> dv_noparse d" "io_tempfd io \<noteq> 0"
    and r: "reading enc d sk0 r0 got sk rq"
  shows "step_ok enc d sk0 r0 got inp (read_request enc base junk d io spooler inp sk rq)"
proof (cases "read_size d rq")
  case None
  then show ?thesis using r by (simp add: read_request_def step_ok_same)
next
  case (Some n)
  consider (lines) "parse_lines enc d sk0 (ext got r0) = (Some SOCK_MORE, sk, rq)"
    | (mem) "parse_lines enc d sk0 (ext got r0) = (None, sk, rq)" "rq_chunkStartOff rq = 0" "rq_avail rq < rq_length rq"
    | (spool) "spooling enc d sk0 r0 got sk rq"
    | (chunk) "chunked_at enc d sk0 r0 got" "rq_coff rq \<noteq> 0" "rq_chunkStartOff rq \<noteq> 0"
    using r by (auto simp: reading_def)
  then show ?thesis
  proof cases
    case lines
    have "rq_coff rq = 0" using parse_lines_ext [of "ext got r0" enc d sk0 "[]"] idle_framed [OF i(1), of got] lines by simp
    then show ?thesis using memory_step [OF i(1-4) lines _ r] Some by (simp add: read_request_def must_spool_def)
  next
    case mem
    note a = parse_arrived [OF i(1-3) mem(1)]
    show ?thesis
    proof (cases "must_spool d sk rq")
      case True
      show ?thesis
      proof (cases "\<not> spooler \<and> dv_spoolers d > 0")
        case True
        then show ?thesis using \<open>must_spool d sk rq\<close> Some r by (simp add: read_request_def step_ok_same)
      next
        case sp: False
        show ?thesis
        proof (cases "open_spool d io sk rq")
          case (Inl e)
          then obtain st sk1 rq1 where e: "e = (st, sk1, rq1)" "st = SOCK_ERROR \<or> st = SOCK_WRITEERROR"
            by (auto simp: open_spool_def Let_def split: if_splits)
          then show ?thesis
            using Inl True sp Some step_ok_other [of st enc d sk0 r0 got "[]" inp sk1 rq1] by (auto simp: read_request_def)
        next
          case (Inr p)
          then obtain sk1 rq1 where p: "open_spool d io sk rq = Inr (sk1, rq1)" by (cases p) auto
          note o = open_spool_spooling [OF i(1) mem(1) _ mem(2,3) p i(5)]
          have "rq_avail rq1 + n \<le> rq_length rq1" using read_size_left [OF Some] o a mem by auto
          then show ?thesis using spool_step [OF i(1-4)] o a p True sp Some by (auto simp: read_request_def)
        qed
      qed
    next
      case False
      then show ?thesis using memory_step [OF i(1-4) mem(1) _ r] Some by (simp add: read_request_def)
    qed
  next
    case spool
    have "\<not> must_spool d sk rq" using spool by (auto simp: must_spool_def spooling_def)
    moreover have "rq_avail rq + n \<le> rq_length rq" using read_size_left [OF Some] spool by (auto simp: spooling_def)
    ultimately show ?thesis using spool_step [OF i(1-4) spool] Some by (simp add: read_request_def)
  next
    case chunk
    then have "\<not> must_spool d sk rq" by (simp add: must_spool_def)
    then show ?thesis using chunk_step [OF i(1) chunk] Some by (simp add: read_request_def)
  qed
qed

text \<open>Reading never exchanges the request of the socket, nor changes a time of acceptance that is set.\<close>

definition sk_kept :: "DSock \<Rightarrow> Ns_Time \<times> ReqBuf option" where
  "sk_kept sk = (sk_acceptTime sk, sk_req sk)"

lemma kept_same: "sk_same sk sk1 \<Longrightarrow> sk_kept sk1 = sk_kept sk"
  by (simp add: sk_kept_def sk_sameD)

lemma kept_parse_lines: "parse_lines enc d sk rq = (st, sk1, rq1) \<Longrightarrow> sk_kept sk1 = sk_kept sk"
proof (induction enc d sk rq rule: parse_lines.induct)
  case (1 enc d sk rq)
  have c: "sk_kept (check_maxline d sk rq k) = sk_kept sk" for k
    using kept_same [OF sk_same_check] .
  have h: "sk_kept sk2 = sk_kept (check_maxline d sk rq k)"
    if "end_of_headers d (check_maxline d sk rq k) r = (sk2, r2)" for k r sk2 r2
    using kept_same [OF sk_same_end [OF that]] .
  show ?case
    using 1 by (subst (asm) (3) parse_lines.simps) (fastforce simp: Let_def c dest: h split: if_splits option.splits prod.splits)
qed

lemma kept_content: "content_ready io sk rq = Some (st, sk1, rq1) \<Longrightarrow> sk_kept sk1 = sk_kept sk"
  by (auto simp: sk_kept_def content_ready_def deliver_def map_spool_def Let_def split: if_splits option.splits content_ptr.splits)

lemma kept_parse: "SockParse enc base d io sk rq = Some (st, sk1, rq1) \<Longrightarrow> sk_kept sk1 = sk_kept sk"
  by (auto simp: SockParse_def Let_def split: if_splits option.splits prod.splits dest!: kept_content kept_parse_lines)

lemma kept_read:
  assumes "read_request enc base junk d io spooler inp sk rq = Some (st, inp1, sk1, rq1)"
  shows "sk_kept sk1 = sk_kept sk"
proof -
  have o: "sk_kept sk2 = sk_kept sk" if "open_spool d io sk rq = Inl (st2, sk2, r2)" for sk rq st2 sk2 r2
    using that by (auto simp: sk_kept_def open_spool_def Let_def split: if_splits)
  have i: "sk_kept sk2 = sk_kept sk" if "open_spool d io sk rq = Inr (sk2, r2)" for sk rq sk2 r2
    using that by (auto simp: sk_kept_def open_spool_def Let_def split: if_splits)
  have t: "sk_kept (sk\<lparr>sk_tdata := x\<rparr>) = sk_kept sk" for sk x by (simp add: sk_kept_def)
  have r: "sk_kept sk2 = sk_kept sk" if "read_step enc base junk d io len n inp sk rq = Some (st2, inp2, sk2, r2)"
    for len n sk rq st2 inp2 sk2 r2
    using that by (auto simp: read_step_def Let_def t split: if_splits option.splits dest!: kept_parse)
  show ?thesis
    using assms by (auto simp: read_request_def split: if_splits option.splits sum.splits dest!: o i r)
qed

section \<open>Requests independent of their arrival\<close>

text \<open>
  The request that a byte sequence contains, read at once: the request line, the headers and the
  content.
\<close>

definition request_of :: "Tcl_Encoding option \<Rightarrow> DrvConf \<Rightarrow> ReqBuf \<Rightarrow> DSock \<Rightarrow> string \<Rightarrow> (Ns_Request \<times> Ns_Set \<times> string) option" where
  "request_of enc d r0 sk inp =
     (case parse_lines enc d sk (ext inp r0) of
        (None, sk1, rq) \<Rightarrow>
          if rq_chunkStartOff rq = 0 \<and> rq_coff rq + rq_length rq \<le> length inp \<and> req_line (rq_request rq) \<noteq> None
          then Some (rq_request rq, rq_headers rq, take (rq_length rq) (drop (rq_coff rq) inp)) else None
      | (Some st, sk1, rq) \<Rightarrow> None)"

text \<open>The request that \<open>SockPrepare\<close> takes.\<close>

definition next_request :: "ReqBuf list \<Rightarrow> ReqBuf" where
  "next_request free = (case free of [] \<Rightarrow> new_request | r # rs \<Rightarrow> r)"

text \<open>The socket is only written by the parser, so what it finds does not depend on it.\<close>

lemma end_of_headers_sock: "end_of_headers d sk rq = (sk1, rq1) \<Longrightarrow> \<exists>sk2. end_of_headers d sk' rq = (sk2, rq1)"
proof -
  have "snd (body_length d s (sk, rq)) = snd (body_length d s (sk', rq))" for s rq by (simp add: body_length_def split: option.splits)
  moreover assume "end_of_headers d sk rq = (sk1, rq1)"
  ultimately show ?thesis by (auto simp: end_of_headers_def Let_def split: prod.splits) (metis snd_conv)
qed

lemma parse_lines_sock: "\<exists>sk2. parse_lines enc d sk' rq = (fst (parse_lines enc d sk rq), sk2, snd (snd (parse_lines enc d sk rq)))"
proof (induction enc d sk rq arbitrary: sk' rule: parse_lines.induct)
  case (1 enc d sk rq)
  let ?c = "check_maxline d sk rq" and ?c' = "check_maxline d sk' rq"
  show ?case
  proof (cases "rq_coff rq = 0 \<and> (\<exists>k. strnchr (drop (rq_roff rq) (rq_buffer rq)) (rq_avail rq) CHR 0x0A = Some k \<and> \<not> (line_at rq k = [] \<and> rq_buffer rq = []))")
    case False
    then show ?thesis
      by (subst (1 2 3) parse_lines.simps) (auto simp: Let_def split: option.splits)
  next
    case True
    then obtain k where c: "rq_coff rq = 0" and k: "strnchr (drop (rq_roff rq) (rq_buffer rq)) (rq_avail rq) CHR 0x0A = Some k"
      and b: "\<not> (line_at rq k = [] \<and> rq_buffer rq = [])" by blast
    show ?thesis
    proof (cases "line_at rq k = []")
      case l: True
      obtain sk2 rq2 where h: "end_of_headers d (?c k) (next_line rq k) = (sk2, rq2)" by fastforce
      obtain sk3 where h': "end_of_headers d (?c' k) (next_line rq k) = (sk3, rq2)" using end_of_headers_sock [OF h] by blast
      have "\<exists>sk4. parse_lines enc d sk3 rq2 = (fst (parse_lines enc d sk2 rq2), sk4, snd (snd (parse_lines enc d sk2 rq2)))"
        using "1.IH"(1) [OF _ k refl refl refl l _ h [symmetric]] c b l by simp
      then show ?thesis using c k b l h h' by (subst (1 2 3) parse_lines.simps) (simp add: Let_def)
    next
      case l: False
      obtain st2 rq2 where h: "request_or_header enc d (next_line rq k) (line_at rq k) (rq_roff rq + length (line_at rq k)) = (st2, rq2)"
        by fastforce
      show ?thesis
      proof (cases st2)
        case None
        have "\<exists>sk4. parse_lines enc d (?c' k) rq2 = (fst (parse_lines enc d (?c k) rq2), sk4, snd (snd (parse_lines enc d (?c k) rq2)))"
          using "1.IH"(2) [OF _ k refl refl refl l h [symmetric] None] c by simp
        then show ?thesis using c k l h None by (subst (1 2 3) parse_lines.simps) (simp add: Let_def)
      next
        case (Some err)
        then show ?thesis using c k l h by (subst (1 2 3) parse_lines.simps) (simp add: Let_def)
      qed
    qed
  qed
qed

lemma request_of_sock: "request_of enc d r0 sk inp = request_of enc d r0 sk' inp"
  using parse_lines_sock [of enc d sk' "ext inp r0" sk]
  by (auto simp: request_of_def split: prod.splits option.splits)

lemma chunked_at_sock: "chunked_at enc d sk r0 inp = chunked_at enc d sk' r0 inp"
  using parse_lines_sock [of enc d sk' "ext inp r0" sk] by (auto simp: chunked_at_def)

lemma SockRead_on:
  assumes "sk_req sk = Some rq" "sec (sk_acceptTime sk) \<noteq> 0"
  shows "SockRead enc base junk d io spooler inp free sk =
    map_option (\<lambda>(st, inp, sk, rq). (st, inp, free, sk\<lparr>sk_req := Some rq\<rparr>))
      (read_request enc base junk d io spooler inp (sk\<lparr>sk_req := None\<rparr>) rq)"
  using assms by (simp add: SockRead_def SockPrepare_def Let_def)

lemma SockRead_first:
  assumes "sk_req sk = None"
  shows "SockRead enc base junk d io spooler inp free sk =
    SockRead enc base junk d io spooler inp (tl free)
      (sk\<lparr>sk_acceptTime := (if sec (sk_acceptTime sk) = 0 then io_now io else sk_acceptTime sk), sk_req := Some (next_request free)\<rparr>)"
  using assms by (cases free) (simp_all add: SockRead_def SockPrepare_def Let_def next_request_def)

text \<open>What any sequence of reads makes of a request that is being read.\<close>

lemma run_reading:
  assumes "idle r0" "sk_tfd sk0 \<le> 0" "sk_tfile sk0 = None" "\<not> dv_noparse d" "\<forall>p \<in> set ios. io_tempfd (snd p) \<noteq> 0"
    "sk_req sk = Some rq" "sec (sk_acceptTime sk) \<noteq> 0" "reading enc d sk0 r0 got (sk\<lparr>sk_req := None\<rparr>) rq"
  shows "case sock_run enc base junk d ios inp free sk of
      None \<Rightarrow> \<exists>bs rest. inp = bs @ rest \<and> chunked_at enc d sk0 r0 (got @ bs)
    | Some (st, inp1, free1, sk1) \<Rightarrow> \<exists>bs rq1. inp = bs @ inp1 \<and> sk_req sk1 = Some rq1 \<and>
        (st = SOCK_READY \<longrightarrow> complete_as enc d sk0 r0 (got @ bs) (sk1\<lparr>sk_req := None\<rparr>) rq1)"
  using assms(5-8)
proof (induction ios arbitrary: inp sk rq got)
  case Nil
  then show ?case by auto
next
  case (Cons p ios)
  obtain spooler io where p: "p = (spooler, io)" by (cases p)
  let ?sk = "sk\<lparr>sk_req := None\<rparr>"
  let ?r = "read_request enc base junk d io spooler inp ?sk rq"
  have ok: "step_ok enc d sk0 r0 got inp ?r"
    by (rule read_request_step [OF assms(1-4) _ Cons.prems(4)]) (use Cons.prems p in auto)
  show ?case
  proof (cases ?r)
    case None
    then show ?thesis using ok p Cons.prems(2,3) by (auto simp: SockRead_on step_ok_def)
  next
    case (Some res)
    obtain st inp1 sk1 rq1 where res: "res = (st, inp1, sk1, rq1)" by (cases res) auto
    obtain bs where b: "inp = bs @ inp1" "st = SOCK_MORE \<or> st = SOCK_SPOOL \<longrightarrow> reading enc d sk0 r0 (got @ bs) sk1 rq1"
      "st = SOCK_READY \<longrightarrow> complete_as enc d sk0 r0 (got @ bs) sk1 rq1"
      using ok Some res by (auto simp: step_ok_def)
    have t: "sk_acceptTime sk1 = sk_acceptTime sk" "sk_req sk1 = None" using kept_read [of enc base junk d io spooler inp ?sk] Some res
      by (auto simp: sk_kept_def)
    then have n: "sk1\<lparr>sk_req := None\<rparr> = sk1" by (metis DSock.surjective DSock.update_convs(9))
    show ?thesis
    proof (cases "st = SOCK_MORE \<or> st = SOCK_SPOOL")
      case True
      then have "case sock_run enc base junk d ios inp1 free (sk1\<lparr>sk_req := Some rq1\<rparr>) of
          None \<Rightarrow> \<exists>cs rest. inp1 = cs @ rest \<and> chunked_at enc d sk0 r0 ((got @ bs) @ cs)
        | Some (st, inp2, free1, sk2) \<Rightarrow> \<exists>cs rq2. inp1 = cs @ inp2 \<and> sk_req sk2 = Some rq2 \<and>
            (st = SOCK_READY \<longrightarrow> complete_as enc d sk0 r0 ((got @ bs) @ cs) (sk2\<lparr>sk_req := None\<rparr>) rq2)"
        using b t Cons.prems by (intro Cons.IH) (auto simp: n)
      then show ?thesis
        using True p Some res b(1) Cons.prems(2,3)
        by (auto simp: SockRead_on split: option.splits prod.splits) (metis append.assoc)+
    next
      case False
      then show ?thesis using p Some res b Cons.prems(2,3) by (auto simp: SockRead_on n)
    qed
  qed
qed

lemma reading_start: "idle r0 \<Longrightarrow> reading enc d sk r0 [] sk r0"
  using parse_lines_wait [of r0 enc d sk] by (simp add: reading_def idle_sel)

text \<open>
  A socket that begins a request: it has none, and no spool file; the free requests are reset, a
  descriptor 0 is never given out for a spool file and the clock does not stand at zero.
\<close>

definition begins :: "DrvConf \<Rightarrow> ReqBuf list \<Rightarrow> DSock \<Rightarrow> (bool \<times> read_io) list \<Rightarrow> bool" where
  "begins d free sk ios \<longleftrightarrow> \<not> dv_noparse d \<and> list_all idle free \<and> sk_req sk = None \<and> sk_tfd sk \<le> 0 \<and> sk_tfile sk = None \<and>
     list_all (\<lambda>p. io_tempfd (snd p) \<noteq> 0 \<and> sec (io_now (snd p)) \<noteq> 0) ios"

text \<open>A socket that is kept alive begins its next request like a new one.\<close>

lemma kept_alive_begins:
  "begins d free sk ios \<Longrightarrow> list_all idle free1 \<Longrightarrow> begins d free1 (close_spool (sk1\<lparr>sk_req := None\<rparr>)) ios"
  by (simp add: begins_def close_spool_def)

lemma idle_next: "list_all idle free \<Longrightarrow> idle (next_request free)"
  by (cases free) (simp_all add: next_request_def idle_new)

lemma run_from_start:
  assumes "begins d free sk ios" "ios \<noteq> []"
  shows "case sock_run enc base junk d ios inp free sk of
      None \<Rightarrow> \<exists>bs rest. inp = bs @ rest \<and> chunked_at enc d sk (next_request free) bs
    | Some (st, inp1, free1, sk1) \<Rightarrow> \<exists>bs rq1 sk0. inp = bs @ inp1 \<and> sk_req sk1 = Some rq1 \<and>
        (st = SOCK_READY \<longrightarrow> complete_as enc d sk0 (next_request free) bs (sk1\<lparr>sk_req := None\<rparr>) rq1)"
proof -
  obtain spooler io ios1 where ios: "ios = (spooler, io) # ios1" using assms(2) by (cases ios) auto
  let ?t = "if sec (sk_acceptTime sk) = 0 then io_now io else sk_acceptTime sk"
  let ?sk = "sk\<lparr>sk_acceptTime := ?t, sk_req := Some (next_request free)\<rparr>" and ?start = "sk\<lparr>sk_acceptTime := ?t, sk_req := None\<rparr>"
  have b: "idle (next_request free)" "sk_tfd ?start \<le> 0" "sk_tfile ?start = None" "\<not> dv_noparse d" "sk_req sk = None"
    "\<forall>p \<in> set ios. io_tempfd (snd p) \<noteq> 0" "sec ?t \<noteq> 0"
    using assms ios idle_next by (auto simp: begins_def list_all_iff)
  have e: "sock_run enc base junk d ios inp free sk = sock_run enc base junk d ios inp (tl free) ?sk"
    by (simp only: ios sock_run.simps SockRead_first [OF b(5)])
  have "reading enc d ?start (next_request free) [] (?sk\<lparr>sk_req := None\<rparr>) (next_request free)"
    using reading_start [OF b(1), of enc d ?start] by simp
  note r = run_reading [OF b(1-4,6) _ _ this, where base = base and junk = junk and inp = inp and free = "tl free"]
  show ?thesis
    using r b(7) unfolding e chunked_at_sock [of enc d sk "next_request free" _ ?start]
    by (auto split: option.splits)
qed

lemma complete_request_of:
  assumes "idle r0" "complete_as enc d sk0 r0 got sk rq" "\<not> chunked_at enc d sk0 r0 (got @ rest)" "sk_tfile sk = None"
  shows "request_of enc d r0 sk0 (got @ rest) = Some (rq_request rq, rq_headers rq, content_bytes sk rq)"
proof -
  obtain sk1 rq1 where p: "parse_lines enc d sk0 (ext got r0) = (None, sk1, rq1)" using assms(2) by (auto simp: complete_as_def)
  have p2: "parse_lines enc d sk0 (ext (got @ rest) r0) = (None, sk1, ext rest rq1)"
    using parse_lines_ext [of "ext got r0" enc d sk0 rest] idle_framed [OF assms(1), of got] p by simp
  then show ?thesis using assms(2-4) p by (auto simp: request_of_def complete_as_def chunked_at_def)
qed

lemma content_bytes_req [simp]: "content_bytes (sk\<lparr>sk_req := r\<rparr>) rq = content_bytes sk rq"
  by (simp add: content_bytes_def split: content_ptr.splits)

lemma run_ready:
  assumes "begins d free sk ios" "sock_run enc base junk d ios inp free sk = Some (SOCK_READY, rest, free1, sk1)"
    "\<not> chunked_at enc d sk (next_request free) inp" "sk_tfile sk1 = None"
  shows "\<exists>rq. sk_req sk1 = Some rq \<and>
    request_of enc d (next_request free) sk inp = Some (rq_request rq, rq_headers rq, content_bytes sk1 rq)"
proof -
  have "ios \<noteq> []" using assms(2) by auto
  then obtain bs rq sk0 where b: "inp = bs @ rest" "sk_req sk1 = Some rq"
    "complete_as enc d sk0 (next_request free) bs (sk1\<lparr>sk_req := None\<rparr>) rq"
    using run_from_start [OF assms(1), where enc = enc and base = base and junk = junk and inp = inp] assms(2) by auto
  have "idle (next_request free)" using assms(1) idle_next by (simp add: begins_def)
  from complete_request_of [OF this b(3), of rest] show ?thesis
    using b assms(3,4) chunked_at_sock request_of_sock by (metis content_bytes_req DSock.select_convs(5) DSock.surjective DSock.update_convs(9))
qed

lemma run_fault:
  assumes "begins d free sk ios" "sock_run enc base junk d ios inp free sk = None"
  shows "chunked_at enc d sk (next_request free) inp"
proof -
  have "ios \<noteq> []" using assms(2) by auto
  then obtain bs rest where "inp = bs @ rest" "chunked_at enc d sk (next_request free) bs"
    using run_from_start [OF assms(1), where enc = enc and base = base and junk = junk and inp = inp] assms(2) by auto
  moreover have "idle (next_request free)" using assms(1) idle_next by (simp add: begins_def)
  ultimately show ?thesis using chunked_more by blast
qed

section \<open>Reading comes to an end\<close>

text \<open>
  A system that goes on: bytes are there at every call, files can be made, written and mapped, and
  the socket is with the spooler where there is one.
\<close>

definition prompt :: "DrvConf \<Rightarrow> bool \<times> read_io \<Rightarrow> bool" where
  "prompt d p \<longleftrightarrow>
     (case p of
        (spooler, io) \<Rightarrow> (\<exists>k. io_recv io = Some (Suc k)) \<and> io_tempfd io > 0 \<and> io_write_head io \<and> io_write_data io \<and> io_mmap io \<and>
          (spooler \<or> dv_spoolers d = 0))"

lemma prompt_recv: "prompt d (spooler, io) \<Longrightarrow> n > 0 \<Longrightarrow> inp \<noteq> [] \<Longrightarrow> \<exists>bs. DriverRecv io n inp = Some bs \<and> bs \<noteq> []"
  by (cases n) (auto simp: prompt_def DriverRecv_def)

lemma read_size_some:
  "length (rq_buffer rq) < dv_maxinput d \<Longrightarrow> 0 < dv_bufsize d \<Longrightarrow> rq_length rq = 0 \<or> rq_avail rq < rq_length rq \<Longrightarrow>
   \<exists>n. read_size d rq = Some n \<and> 0 < n"
  by (auto simp: read_size_def Let_def)

lemma prefix_parses:
  assumes "idle r0" "request_of enc d r0 sk0 (got @ rest) = Some r" "parse_lines enc d sk0 (ext got r0) = (st, sk1, rq1)"
  shows "(st = None \<or> st = Some SOCK_MORE) \<and>
    (st = None \<longrightarrow> rq_chunkStartOff rq1 = 0 \<and> rq_coff rq1 + rq_length rq1 \<le> length (got @ rest) \<and> req_line (rq_request rq1) \<noteq> None)"
  using parse_lines_ext [of "ext got r0" enc d sk0 rest] idle_framed [OF assms(1), of got] assms(2,3)
  by (auto simp: request_of_def split: prod.splits option.splits if_splits)

lemma memory_live:
  assumes i: "idle r0" "sk_tfd sk0 \<le> 0" "sk_tfile sk0 = None" and w: "request_of enc d r0 sk0 (got @ rest) = Some r"
    and p: "parse_lines enc d sk0 (ext got r0) = parse_lines enc d sk rq"
  shows "\<exists>st sk1 rq1. SockParse enc base d io sk rq = Some (st, sk1, rq1) \<and> (st = SOCK_READY \<or> st = SOCK_MORE \<and> rq_buffer rq1 = got)"
proof -
  obtain st1 sk1 rq1 where q: "parse_lines enc d sk rq = (st1, sk1, rq1)" by (cases "parse_lines enc d sk rq")
  then have p0: "parse_lines enc d sk0 (ext got r0) = (st1, sk1, rq1)" using p by simp
  note a = parse_arrived [OF i p0] and f = prefix_parses [OF i(1) w p0]
  show ?thesis
  proof (cases st1)
    case (Some st)
    then show ?thesis using SockParse_stop [of enc d sk rq st sk1 rq1] q a f by auto
  next
    case None
    have len: "rq_coff rq1 + rq_avail rq1 = length got" using parse_content [OF i(1)] p0 None by blast
    have s: "SockParse enc base d io sk rq =
        (if rq_length rq1 \<le> rq_avail rq1 then content_ready io sk1 rq1 else Some (SOCK_MORE, sk1, rq1))"
      using SockParse_plain [of enc d sk rq sk1 rq1] q None a f by (simp add: measured_def)
    show ?thesis
    proof (cases "rq_length rq1 \<le> rq_avail rq1")
      case True
      then show ?thesis using s deliver_buffer [of rq1 sk1] len a f None by (auto simp: content_ready_def)
    next
      case False
      then show ?thesis using s a None by simp
    qed
  qed
qed

lemma spooled_live:
  assumes "sk_tfd sk > 0" "length (sk_tdata sk) = rq_length rq" "req_line (rq_request rq) \<noteq> None" "io_mmap io"
  shows "\<exists>sk1 rq1. content_ready io sk rq = Some (SOCK_READY, sk1, rq1)"
  using assms by (auto simp: content_ready_def map_spool_def deliver_def Let_def split: option.splits)

text \<open>One call makes the request ready, or takes some bytes and asks for more.\<close>

definition advances :: "string \<Rightarrow> string \<Rightarrow> (SockState \<times> string \<times> DSock \<times> ReqBuf) option \<Rightarrow> bool" where
  "advances got inp res \<longleftrightarrow>
     (\<exists>st inp1 sk1 rq1. res = Some (st, inp1, sk1, rq1) \<and>
        (st = SOCK_READY \<or> st = SOCK_MORE \<and> length inp1 < length inp \<and> length (rq_buffer rq1) + length inp1 \<le> length got + length inp))"

lemma memory_advances:
  assumes i: "idle r0" "sk_tfd sk0 \<le> 0" "sk_tfile sk0 = None" "\<not> dv_noparse d" "request_of enc d r0 sk0 (got @ inp) = Some r"
    and p: "parse_lines enc d sk0 (ext got r0) = (st, sk, rq)" "st = None \<or> st = Some SOCK_MORE"
    and n: "prompt d (spooler, io)" "n > 0" "inp \<noteq> []"
  shows "advances got inp (read_step enc base junk d io (length (rq_buffer rq)) n inp sk rq)"
proof -
  note a = parse_arrived [OF i(1-3) p(1)]
  have w: "sk_tfd sk \<le> 0" "rq_woff rq = length (rq_buffer rq)" using a p(2) by auto
  obtain bs where b: "DriverRecv io n inp = Some bs" "bs \<noteq> []" using prompt_recv [OF n] by blast
  have inp: "inp = bs @ drop (length bs) inp" using DriverRecv_length [OF b(1)] by simp
  have "request_of enc d r0 sk0 ((got @ bs) @ drop (length bs) inp) = Some r" using i(5) DriverRecv_length [OF b(1)] by simp
  from memory_live [OF i(1-3) this parse_more [OF i(1) p], of base io]
  obtain st2 sk2 rq2 where s: "SockParse enc base d io sk (ext bs rq) = Some (st2, sk2, rq2)"
    "st2 = SOCK_READY \<or> st2 = SOCK_MORE \<and> rq_buffer rq2 = got @ bs" by blast
  obtain rest where r: "inp = bs @ rest" using inp by blast
  show ?thesis using b s unfolding r by (auto simp: read_step_memory [OF w i(4)] advances_def)
qed

lemma spool_advances:
  assumes i: "idle r0" "sk_tfd sk0 \<le> 0" "sk_tfile sk0 = None" "\<not> dv_noparse d" "request_of enc d r0 sk0 (got @ inp) = Some r"
    and sp: "spooling enc d sk0 r0 got sk rq" and n: "rq_avail rq + n \<le> rq_length rq" "prompt d (spooler, io)" "n > 0" "inp \<noteq> []"
    and l: "length (rq_buffer rq) \<le> length got"
  shows "advances got inp (read_step enc base junk d io len n inp sk rq)"
proof -
  obtain sk1 rq1 where p: "parse_lines enc d sk0 (ext got r0) = (None, sk1, rq1)" and h: "same_head rq1 rq" and t: "sk_tfd sk > 0"
    and dat: "sk_tdata sk = drop (rq_coff rq) got" "rq_avail rq = rq_avail rq1" using sp by (auto simp: spooling_def)
  note f = prefix_parses [OF i(1,5) p] and c = parse_content [OF i(1) p]
  obtain bs where b: "DriverRecv io (min n 16384) inp = Some bs" "bs \<noteq> []" using prompt_recv [OF n(2) _ n(4), of "min n 16384"] n(3) by auto
  have le: "rq_avail rq + length bs \<le> rq_length rq" using DriverRecv_length [OF b(1)] n(1) by simp
  obtain rest where inp: "inp = bs @ rest" using DriverRecv_length [OF b(1)] by metis
  have wr: "io_write_data io" "io_mmap io" using n(2) by (auto simp: prompt_def)
  have d: "length (sk_tdata sk @ bs) = rq_avail rq + length bs" using dat c h by (simp add: same_head_def)
  note r = read_step_spool [OF t i(4), of enc base junk io len n inp rq] and e = spooled_parse_eq [OF i(1-3) sp, of base io bs]
  show ?thesis
  proof (cases "rq_length rq \<le> rq_avail rq + length bs")
    case True
    obtain sk2 rq2 where "content_ready io (sk\<lparr>sk_tdata := sk_tdata sk @ bs\<rparr>)
        (rq\<lparr>rq_woff := rq_woff rq + length bs, rq_avail := rq_avail rq + length bs\<rparr>) = Some (SOCK_READY, sk2, rq2)"
      using spooled_live [of "sk\<lparr>sk_tdata := sk_tdata sk @ bs\<rparr>" "rq\<lparr>rq_woff := rq_woff rq + length bs, rq_avail := rq_avail rq + length bs\<rparr>" io]
        t d True le f h wr by (auto simp: same_head_def)
    then show ?thesis using r e b wr True by (simp add: advances_def)
  next
    case False
    then show ?thesis using r e b wr l unfolding inp by (auto simp: advances_def)
  qed
qed

lemma reading_unfinished:
  assumes "idle r0" "sk_tfd sk0 \<le> 0" "sk_tfile sk0 = None" "reading enc d sk0 r0 got sk rq" "request_of enc d r0 sk0 (got @ inp) = Some r"
  shows "inp \<noteq> []"
proof
  assume "inp = []"
  then have w: "request_of enc d r0 sk0 (got @ []) = Some r" using assms(5) by simp
  obtain st sk1 rq1 where p: "parse_lines enc d sk0 (ext got r0) = (st, sk1, rq1)" by (cases "parse_lines enc d sk0 (ext got r0)")
  have "st = None" "rq_chunkStartOff rq1 = 0" "rq_coff rq1 + rq_length rq1 \<le> length got"
    using w p by (auto simp: request_of_def split: option.splits if_splits)
  moreover from this p have "rq_coff rq1 + rq_avail rq1 = length got" using parse_content [OF assms(1)] by blast
  ultimately show False
    using assms(4) p by (auto simp: reading_def spooling_def chunked_at_def same_head_def)
qed

lemma read_request_advances:
  assumes i: "idle r0" "sk_tfd sk0 \<le> 0" "sk_tfile sk0 = None" "\<not> dv_noparse d" "request_of enc d r0 sk0 (got @ inp) = Some r"
    and r: "reading enc d sk0 r0 got sk rq" and n: "prompt d (spooler, io)" "0 < dv_bufsize d" "length (got @ inp) \<le> dv_maxinput d"
    and l: "length (rq_buffer rq) \<le> length got"
  shows "advances got inp (read_request enc base junk d io spooler inp sk rq)"
proof -
  have ne: "inp \<noteq> []" using reading_unfinished [OF i(1-3) r i(5)] .
  then have len: "length (rq_buffer rq) < dv_maxinput d" using n(3) l by (cases inp) auto
  consider (lines) "parse_lines enc d sk0 (ext got r0) = (Some SOCK_MORE, sk, rq)"
    | (mem) "parse_lines enc d sk0 (ext got r0) = (None, sk, rq)" "rq_chunkStartOff rq = 0" "rq_avail rq < rq_length rq"
    | (spool) "spooling enc d sk0 r0 got sk rq" | (chunk) "chunked_at enc d sk0 r0 got"
    using r by (auto simp: reading_def)
  then show ?thesis
  proof cases
    case lines
    have c: "rq_coff rq = 0" using parse_lines_ext [of "ext got r0" enc d sk0 "[]"] idle_framed [OF i(1), of got] lines by simp
    then have "rq_length rq = 0" using parse_arrived [OF i(1-3) lines] by (simp add: measured_def)
    then obtain k where "read_size d rq = Some k" "0 < k" using read_size_some [OF len n(2)] by blast
    then show ?thesis using memory_advances [OF i lines _ n(1) _ ne] c by (simp add: read_request_def must_spool_def)
  next
    case mem
    note a = parse_arrived [OF i(1-3) mem(1)]
    obtain k where k: "read_size d rq = Some k" "0 < k" using read_size_some [OF len n(2)] mem(3) by blast
    show ?thesis
    proof (cases "must_spool d sk rq")
      case True
      have "open_spool d io sk rq \<noteq> Inl e" for e using n(1) by (auto simp: open_spool_def Let_def prompt_def)
      then obtain sk1 rq1 where p: "open_spool d io sk rq = Inr (sk1, rq1)" by (cases "open_spool d io sk rq") auto
      have t: "io_tempfd io \<noteq> 0" "spooler \<or> dv_spoolers d = 0" using n(1) by (auto simp: prompt_def)
      have o: "spooling enc d sk0 r0 got sk1 rq1" "rq_length rq1 = rq_length rq" "rq_avail rq1 = rq_avail rq" "rq_buffer rq1 = []"
        using open_spool_spooling [OF i(1) mem(1) _ mem(2,3) p t(1)] a p by (auto simp: open_spool_def Let_def split: if_splits)
      have "rq_avail rq1 + k \<le> rq_length rq1" using read_size_left [OF k(1)] o mem(3) by auto
      then show ?thesis using spool_advances [OF i o(1) _ n(1) k(2) ne] o(4) True p k(1) t(2) by (auto simp: read_request_def)
    next
      case False
      then show ?thesis using memory_advances [OF i mem(1) _ n(1) k(2) ne] k(1) by (simp add: read_request_def)
    qed
  next
    case spool
    then have s: "\<not> must_spool d sk rq" "rq_avail rq < rq_length rq" by (auto simp: must_spool_def spooling_def)
    obtain k where k: "read_size d rq = Some k" "0 < k" using read_size_some [OF len n(2)] s(2) by blast
    have "rq_avail rq + k \<le> rq_length rq" using read_size_left [OF k(1)] s(2) by auto
    then show ?thesis using spool_advances [OF i spool _ n(1) k(2) ne l] s(1) k(1) by (simp add: read_request_def)
  next
    case chunk
    then show ?thesis
      using prefix_parses [OF i(1,5)] by (auto simp: chunked_at_def) (metis prod.exhaust_sel less_irrefl)
  qed
qed

lemma run_ends:
  assumes i: "idle r0" "sk_tfd sk0 \<le> 0" "sk_tfile sk0 = None" "\<not> dv_noparse d" "0 < dv_bufsize d"
    and "list_all (prompt d) ios" "length inp < length ios" "request_of enc d r0 sk0 (got @ inp) = Some r" "length (got @ inp) \<le> dv_maxinput d"
    "sk_req sk = Some rq" "sec (sk_acceptTime sk) \<noteq> 0" "reading enc d sk0 r0 got (sk\<lparr>sk_req := None\<rparr>) rq"
    "length (rq_buffer rq) \<le> length got"
  shows "\<exists>rest free1 sk1. sock_run enc base junk d ios inp free sk = Some (SOCK_READY, rest, free1, sk1)"
  using assms(6-)
proof (induction ios arbitrary: inp sk rq got)
  case (Cons p ios)
  obtain spooler io where p: "p = (spooler, io)" by (cases p)
  let ?sk = "sk\<lparr>sk_req := None\<rparr>"
  let ?r = "read_request enc base junk d io spooler inp ?sk rq"
  have pr: "prompt d (spooler, io)" "list_all (prompt d) ios" using Cons.prems(1) p by simp_all
  then have t: "io_tempfd io \<noteq> 0" by (auto simp: prompt_def)
  have adv: "advances got inp ?r" by (rule read_request_advances [OF i(1-4) Cons.prems(3,7) pr(1) i(5) Cons.prems(4,8)])
  then obtain st inp1 sk1 rq1 where res: "?r = Some (st, inp1, sk1, rq1)" by (auto simp: advances_def)
  show ?case
  proof (cases "st = SOCK_READY")
    case True
    then show ?thesis using res p Cons.prems(5,6) by (simp add: SockRead_on)
  next
    case False
    then have m: "st = SOCK_MORE" "length inp1 < length inp" "length (rq_buffer rq1) + length inp1 \<le> length got + length inp"
      using adv res by (auto simp: advances_def)
    obtain bs where b: "inp = bs @ inp1" "reading enc d sk0 r0 (got @ bs) sk1 rq1"
      using read_request_step [OF i(1-4) t Cons.prems(7), of inp base junk spooler] res m(1) by (auto simp: step_ok_def)
    have k: "sk_acceptTime sk1 = sk_acceptTime sk" "sk_req sk1 = None"
      using kept_read [of enc base junk d io spooler inp ?sk] res by (auto simp: sk_kept_def)
    then have e: "sk1\<lparr>sk_req := None\<rparr> = sk1" by (metis DSock.surjective DSock.update_convs(9))
    have "length inp1 < length ios" using m(2) Cons.prems(2) by simp
    then have "\<exists>rest free1 sk2. sock_run enc base junk d ios inp1 free (sk1\<lparr>sk_req := Some rq1\<rparr>) = Some (SOCK_READY, rest, free1, sk2)"
      by (intro Cons.IH [where got = "got @ bs" and rq = rq1]) (use pr(2) Cons.prems m b k in \<open>auto simp: e\<close>)
    then show ?thesis using res p m(1) Cons.prems(5,6) by (simp add: SockRead_on)
  qed
qed simp

lemma run_completes:
  assumes "begins d free sk ios" "0 < dv_bufsize d" "list_all (prompt d) ios" "length inp < length ios"
    "request_of enc d (next_request free) sk inp = Some r" "length inp \<le> dv_maxinput d"
  shows "\<exists>rest free1 sk1. sock_run enc base junk d ios inp free sk = Some (SOCK_READY, rest, free1, sk1)"
proof -
  obtain spooler io ios1 where ios: "ios = (spooler, io) # ios1" using assms(4) by (cases ios) auto
  let ?t = "if sec (sk_acceptTime sk) = 0 then io_now io else sk_acceptTime sk"
  let ?sk = "sk\<lparr>sk_acceptTime := ?t, sk_req := Some (next_request free)\<rparr>" and ?start = "sk\<lparr>sk_acceptTime := ?t, sk_req := None\<rparr>"
  have b: "idle (next_request free)" "sk_tfd ?start \<le> 0" "sk_tfile ?start = None" "\<not> dv_noparse d" "sk_req sk = None" "sec ?t \<noteq> 0"
    using assms(1) ios idle_next by (auto simp: begins_def list_all_iff)
  have e: "sock_run enc base junk d ios inp free sk = sock_run enc base junk d ios inp (tl free) ?sk"
    by (simp only: ios sock_run.simps SockRead_first [OF b(5)])
  have "reading enc d ?start (next_request free) [] (?sk\<lparr>sk_req := None\<rparr>) (next_request free)"
    using reading_start [OF b(1), of enc d ?start] by simp
  from run_ends [OF b(1-4) assms(2-4) _ _ _ _ this, of r base junk "tl free"] show ?thesis
    using assms(5,6) b(6) idle_sel(1) [OF b(1)] request_of_sock [of enc d "next_request free" sk inp ?start] unfolding e by simp
qed

section \<open>Chunked bodies\<close>

text \<open>The decoder on well-formed chunks: \<open>body\<close> has been decoded, \<open>enc\<close> waits behind it.\<close>

lemma strstr_hex: "strstr (show_hex n @ CRLF @ r) CRLF = Some (CRLF @ r)"
proof -
  have "strstr (s @ CRLF @ r) CRLF = Some (CRLF @ r)" if "\<forall>c \<in> set s. is_base_digit 16 c" for s
    using that
  proof (induction s)
    case (Cons c s)
    then have "c \<noteq> CHR 0x0D" by (auto simp: is_base_digit_def digit_val_def)
    then show ?case using Cons by (simp add: CRLF_def)
  qed (simp add: CRLF_def)
  then show ?thesis using show_hex_digits by blast
qed

lemma hex_not_nul: "CHR 0x00 \<notin> set (show_hex n)"
  using show_hex_digits [of n] by (auto simp: is_base_digit_def digit_val_def)

lemma cstr_prefix: "CHR 0x00 \<notin> set a \<Longrightarrow> cstr (a @ b) = a @ cstr b"
  by (simp add: cstr_def takeWhile_append)

lemma cstr_CRLF: "cstr (CRLF @ b) = CRLF @ cstr b"
  by (rule cstr_prefix) (simp add: CRLF_def)

lemma strtol_hex:
  assumes "int n \<le> LONG_MAX"
  shows "fst (strtol (show_hex n) 16) = int n"
proof -
  have d: "is_base_digit 16 c \<and> \<not> isspace c \<and> c \<noteq> CHR ''-'' \<and> c \<noteq> CHR ''+'' \<and> c \<noteq> CHR ''x'' \<and> c \<noteq> CHR ''X''" if "c \<in> set (show_hex n)" for c
    using bspec [OF show_hex_digits that] by (auto simp: is_base_digit_def digit_val_def isspace_def Let_def split: if_splits)
  have h: "hd (show_hex n) \<in> set (show_hex n)" by simp
  have dw: "dropWhile isspace (show_hex n) = show_hex n" using d [OF h] by (cases "show_hex n") auto
  have tw: "takeWhile (is_base_digit 16) (show_hex n) = show_hex n" using d by (simp add: takeWhile_eq_all_conv)
  have "2 < length (show_hex n) \<longrightarrow> show_hex n ! Suc 0 \<noteq> CHR ''x'' \<and> show_hex n ! Suc 0 \<noteq> CHR ''X''"
    using d [of "show_hex n ! Suc 0"] by simp
  then show ?thesis using d [OF h] assms by (auto simp: strtol_def Let_def dw tw digits_val_show_hex)
qed

lemma memmove_tail:
  assumes "memmove buf dst src (int n) = Some b" "dst + n < k" "k \<le> length buf"
  shows "length b = length buf \<and> take (dst + n) b = take dst buf @ take n (drop src buf) \<and> drop k (b[dst + n := x]) = drop k buf"
  using assms by (auto simp: memmove_def split: if_splits)

text \<open>One chunk is moved to the write offset; what follows it is as it was.\<close>

lemma decode_chunk:
  assumes s: "drop (rq_chunkStartOff rq) (rq_buffer rq) = show_hex (length b) @ CRLF @ b @ CRLF @ r"
    and w: "rq_chunkWriteOff rq \<le> rq_chunkStartOff rq" and a: "base + length (rq_buffer rq) < 2 ^ 63"
  shows "\<exists>rq1. ChunkedDecode base rq = ChunkedDecode base rq1 \<and> length (rq_buffer rq1) = length (rq_buffer rq) \<and>
    drop (rq_chunkStartOff rq1) (rq_buffer rq1) = r \<and> rq_chunkWriteOff rq1 = rq_chunkWriteOff rq + length b \<and>
    rq_chunkWriteOff rq1 \<le> rq_chunkStartOff rq1 \<and> rq_chunkStartOff rq1 \<le> length (rq_buffer rq) \<and>
    take (rq_chunkWriteOff rq1) (rq_buffer rq1) = take (rq_chunkWriteOff rq) (rq_buffer rq) @ b"
proof -
  let ?h = "show_hex (length b)" and ?s = "rq_chunkStartOff rq" and ?w = "rq_chunkWriteOff rq" and ?buf = "rq_buffer rq"
  let ?p = "?s + length ?h" and ?n = "length b"
  have len: "length ?buf = ?p + 2 + ?n + 2 + length r" and lt: "?s < length ?buf"
    using arg_cong [OF s, of length] by (auto simp: CRLF_facts(1))
  have cs: "cstr (drop ?s ?buf) = ?h @ CRLF @ cstr (b @ CRLF @ r)"
    by (simp only: s cstr_prefix [OF hex_not_nul] cstr_CRLF)
  have "int ?n \<le> LONG_MAX" using len a by simp
  then have n: "chunk_length ?h = int ?n" by (simp add: chunk_length_def strtol_hex)
  have pe: "\<not> past_end base ?p (int ?n) (length ?buf)" using len a by (simp add: past_end_def)
  have db: "take ?n (drop (?p + 2) ?buf) = b" "drop (?p + 2 + ?n + 2) ?buf = r"
  proof -
    have "drop (?p + 2) ?buf = b @ CRLF @ r" "drop (?p + 2 + ?n + 2) ?buf = drop (length ?h + 2 + ?n + 2) (drop ?s ?buf)"
      using arg_cong [OF s, of "drop (length ?h + 2)"] by (simp_all add: CRLF_facts(1) add.commute add.left_commute)
    then show "take ?n (drop (?p + 2) ?buf) = b" "drop (?p + 2 + ?n + 2) ?buf = r" using s by (simp_all add: CRLF_facts(1))
  qed
  obtain c where c: "memmove ?buf ?w (?p + 2) (int ?n) = Some c" using len w by (simp add: memmove_def)
  note t = memmove_tail [OF c, of "?p + 2 + ?n + 2" "CHR 0x00"]
  let ?rq = "rq\<lparr>rq_buffer := c[?w + ?n := CHR 0x00], rq_chunkWriteOff := ?w + ?n, rq_chunkStartOff := ?s + length ?h + 4 + ?n\<rparr>"
  have st: "strstr (cstr (drop ?s ?buf)) CRLF = Some (CRLF @ cstr (b @ CRLF @ r))" unfolding cs by (rule strstr_hex)
  have dd: "length (cstr (drop ?s ?buf)) - length (CRLF @ cstr (b @ CRLF @ r)) = length ?h" "take (length ?h) (cstr (drop ?s ?buf)) = ?h"
    unfolding cs by simp_all
  have four: "?s + length ?h + 4 + ?n = ?p + 2 + ?n + 2" by simp
  have "ChunkedDecode base rq = ChunkedDecode base ?rq"
    using lt pe c by (subst ChunkedDecode.simps) (simp only: Let_def st dd n option.case if_True if_False nat_int)
  moreover have "drop (rq_chunkStartOff ?rq) (rq_buffer ?rq) = r"
    using t db(2) w len by (simp only: four ReqBuf.select_convs ReqBuf.update_convs ReqBuf.simps) simp
  ultimately show ?thesis using t w len db(1) by (intro exI [of _ ?rq]) simp
qed

lemma decode_chunks:
  assumes "drop (rq_chunkStartOff rq) (rq_buffer rq) = concat (map chunk_text bs) @ last_chunk"
    "rq_chunkWriteOff rq \<le> rq_chunkStartOff rq" "base + length (rq_buffer rq) < 2 ^ 63"
  shows "\<exists>rq1. ChunkedDecode base rq = Some (1, rq1) \<and> rq_chunkWriteOff rq1 = rq_chunkWriteOff rq + length (concat bs) \<and>
    take (rq_chunkWriteOff rq1) (rq_buffer rq1) = take (rq_chunkWriteOff rq) (rq_buffer rq) @ concat bs"
  using assms
proof (induction bs arbitrary: rq)
  case Nil
  have "show_hex 0 = ''0''" by (simp add: show_hex.simps hex_digit_def char_of_eq_iff)
  then have "drop (rq_chunkStartOff rq) (rq_buffer rq) = show_hex (length []) @ CRLF @ [] @ CRLF @ []"
    using Nil(1) by (simp add: last_chunk_def)
  from decode_chunk [OF this Nil(2,3)] obtain rq1 where r: "ChunkedDecode base rq = ChunkedDecode base rq1"
    "drop (rq_chunkStartOff rq1) (rq_buffer rq1) = []" "rq_chunkWriteOff rq1 = rq_chunkWriteOff rq"
    "take (rq_chunkWriteOff rq1) (rq_buffer rq1) = take (rq_chunkWriteOff rq) (rq_buffer rq)" by auto
  have "ChunkedDecode base rq1 = Some (1, rq1)" using r(2) by (subst ChunkedDecode.simps) simp
  then show ?case using r by simp
next
  case (Cons b bs)
  show ?case
  proof (cases "b = []")
    case True
    then show ?thesis using Cons by (simp add: chunk_text_def)
  next
    case False
    then have "drop (rq_chunkStartOff rq) (rq_buffer rq) = show_hex (length b) @ CRLF @ b @ CRLF @ concat (map chunk_text bs) @ last_chunk"
      using Cons.prems(1) by (simp add: chunk_text_def [of b])
    from decode_chunk [OF this Cons.prems(2,3)] obtain rq1 where r: "ChunkedDecode base rq = ChunkedDecode base rq1"
      "length (rq_buffer rq1) = length (rq_buffer rq)" "drop (rq_chunkStartOff rq1) (rq_buffer rq1) = concat (map chunk_text bs) @ last_chunk"
      "rq_chunkWriteOff rq1 = rq_chunkWriteOff rq + length b" "rq_chunkWriteOff rq1 \<le> rq_chunkStartOff rq1"
      "take (rq_chunkWriteOff rq1) (rq_buffer rq1) = take (rq_chunkWriteOff rq) (rq_buffer rq) @ b" by auto
    show ?thesis using Cons.IH [OF r(3,5)] r Cons.prems(3) by auto
  qed
qed

section \<open>Properties\<close>

text \<open>A driver with small limits, a fresh socket, and a system that delivers \<open>k\<close> bytes.\<close>

definition small_driver :: DrvConf where
  "small_driver = \<lparr>dv_bufsize = 32, dv_maxinput = 200, dv_maxline = 80, dv_maxheaders = 10, dv_readahead = 4, dv_maxupload = 0,
     dv_spoolers = 0, dv_noparse = False, dv_uploadpath = ''/tmp''\<rparr>"

definition fresh_sock :: DSock where
  "fresh_sock = \<lparr>sk_keep = False, sk_flags = 0, sk_acceptTime = Ns_Time 0 0, sk_tfd = 0, sk_tfile = None, sk_tdata = [],
     sk_taddr = None, sk_tsize = 0, sk_req = None\<rparr>"

definition delivering :: "nat \<Rightarrow> bool \<times> read_io" where
  "delivering k = (True, \<lparr>io_recv = Some k, io_tempfd = 7, io_tempname = ''x'', io_write_head = True, io_write_data = True,
     io_write_nul = True, io_mmap = True, io_now = Ns_Time 1 0\<rparr>)"

definition lines_of :: "string list \<Rightarrow> string" where
  "lines_of ls = concat (map (\<lambda>l. l @ CRLF) ls)"

definition post_request :: string where
  "post_request = lines_of [''POST /a HTTP/1.0'', ''Content-Length: 6'', ''''] @ ''abcdefGET''"


definition four_reads :: "(bool \<times> read_io) list" where
  "four_reads = [delivering 20, delivering 22, delivering 3, delivering 9]"






text \<open>
  C17: Chunked encoding and decoding are inverse: a body that is chunked the way the server's own
  output is, and that is complete in the buffer, is decoded in place to the original bytes; what is
  before the body in the buffer is left alone.
\<close>

theorem chunked_round_trip:
  assumes "rq_buffer rq = pre @ concat (map chunk_text bs) @ last_chunk" "rq_chunkStartOff rq = length pre" "rq_chunkWriteOff rq = length pre"
    "base + length (rq_buffer rq) < 2 ^ 63"
  shows "\<exists>rq1. ChunkedDecode base rq = Some (1, rq1) \<and> rq_chunkWriteOff rq1 = length pre + length (concat bs) \<and>
    take (rq_chunkWriteOff rq1) (rq_buffer rq1) = pre @ concat bs"
  using decode_chunks [of rq bs base] assms by simp

lemma chunked_round_trip_witness:
  "\<exists>rq1. ChunkedDecode 4096 (new_request\<lparr>rq_buffer := ''H'' @ concat (map chunk_text [''abc'', ''de'']) @ last_chunk,
       rq_chunkStartOff := 1, rq_chunkWriteOff := 1\<rparr>) = Some (1, rq1) \<and>
     take (rq_chunkWriteOff rq1) (rq_buffer rq1) = ''Habcde''"
proof -
  have l: "length (''H'' @ concat (map chunk_text [''abc'', ''de'']) @ last_chunk) = 21" by code_simp
  show ?thesis
    using chunked_round_trip [of "new_request\<lparr>rq_buffer := ''H'' @ concat (map chunk_text [''abc'', ''de'']) @ last_chunk,
       rq_chunkStartOff := 1, rq_chunkWriteOff := 1\<rparr>" "''H''" "[''abc'', ''de'']" 4096] l by auto
qed


text \<open>
  The first part of a chunked body that arrives passes for the whole: \<open>ChunkedDecode\<close> returns -1 for
  incomplete data, \<open>SockParse\<close> tests for 0, and nothing looks for the last chunk.
\<close>

definition chunked_request :: string where
  "chunked_request = lines_of [''POST /a HTTP/1.0'', ''Transfer-Encoding: chunked'', '''', ''3'', ''abc'', ''2'', ''de'', ''0'', '''']"

lemma incomplete_chunks_accepted:
  "map_option (\<lambda>(st, rest, f, sk). (st, map_option (content_bytes sk) (sk_req sk)))
     (sock_run None 4096 (\<lambda>i. CHR ''?'') (small_driver\<lparr>dv_bufsize := 100\<rparr>) [delivering 59] chunked_request [] fresh_sock) =
   Some (SOCK_READY, Some ''abc'')"
  "map_option (\<lambda>(st, rest, f, sk). (st, map_option (content_bytes sk) (sk_req sk)))
     (sock_run None 4096 (\<lambda>i. CHR ''?'') (small_driver\<lparr>dv_bufsize := 100\<rparr>) [delivering 100] chunked_request [] fresh_sock) =
   Some (SOCK_READY, Some ''abcde'')"
  by code_simp+

text \<open>
  A transfer encoding other than chunked is read as a length, where it is a number.
\<close>

lemma transfer_encoding_as_length:
  "map_option (\<lambda>(r, h, b). b) (request_of None small_driver (next_request []) fresh_sock
     (lines_of [''POST /a HTTP/1.0'', ''Transfer-Encoding: 3'', ''''] @ ''abcdef'')) = Some ''abc''"
  by code_simp

text \<open>
  In a connection thread (\<open>NsGetRequest\<close>) content for the spool file is an error where spooler threads
  are configured: the answer \<open>SOCK_SPOOL\<close> is not \<open>SOCK_READY\<close>, and the request is dropped.
\<close>

lemma get_request_drops_spooled:
  "map_option (\<lambda>(r, rest, f, sk). r)
     (NsGetRequest None 4096 (\<lambda>i. CHR ''?'') (small_driver\<lparr>dv_spoolers := 1, dv_bufsize := 42\<rparr>) (map snd four_reads) post_request [] fresh_sock) =
   Some None"
  by code_simp

text \<open>A second request that the client has sent behind the first is not kept for the next one.\<close>

lemma pipelined_request_lost:
  "map_option (\<lambda>(st, rest, f, sk). (st, rest))
     (sock_run None 4096 (\<lambda>i. CHR ''?'') (small_driver\<lparr>dv_bufsize := 100\<rparr>) [delivering 100]
       (lines_of [''GET /a HTTP/1.0'', '''', ''GET /b HTTP/1.0'', '''']) [] fresh_sock) = Some (SOCK_READY, [])"
  by code_simp

end
