(* ===== verification/DrvThread.thy ===== *)
theory DrvThread
  imports ReadReq
begin

text \<open>
  The driver thread (\<open>DriverThread\<close> in \<open>nsd/driver.c\<close>) and the sockets it passes around.  A socket is a
  number; the linked lists through \<open>nextPtr\<close> are lists, with \<open>Push\<close> as \<open>#\<close>: sockets being
  read, sockets being closed and sockets that wait for a connection thread, local to the thread, and
  the sockets that connection threads give back, which the driver's lock protects.  Sockets that a
  connection thread or a spooler thread holds are listed as well, so that every socket can be
  accounted for.  What \<open>poll\<close>, \<open>recv\<close>, \<open>SockRead\<close>, \<open>NsQueueConn\<close> and the driver's callbacks answer during
  one turn of the loop is a record.
\<close>

section \<open>State\<close>

type_synonym sock = nat

record DrvState =
  ds_read :: "sock list"
  ds_close :: "sock list"
  ds_wait :: "sock list"
  ds_closing :: "sock list"
  ds_free :: "sock list"
  ds_queued :: "sock list"
  ds_spool :: "sock list"
  ds_next :: sock
  ds_queuesize :: int
  ds_timeout :: "sock \<Rightarrow> Ns_Time"
  ds_keep :: "sock \<Rightarrow> bool"

datatype accept_status = ACCEPT_ERROR | ACCEPT | ACCEPT_DATA | ACCEPT_QUEUE

record DrvParams =
  dp_async :: bool
  dp_recvwait :: int
  dp_keepwait :: int
  dp_closewait :: int
  dp_acceptsize :: nat
  dp_maxqueuesize :: int

text \<open>
  The answers of one turn: \<open>revents\<close> by the index in the poll array; the results of \<open>ns_recv\<close> into the
  drain buffer, of \<open>SockRead\<close>, of \<open>NsQueueConn\<close> for a request just read, for a waiting one and for an
  accepted one, and of \<open>shutdown\<close>, by socket; the accepted connections with the result of their
  first read; and the times before and after \<open>poll\<close>.
\<close>

record turn =
  tn_in :: "nat \<Rightarrow> bool"
  tn_hup :: "nat \<Rightarrow> bool"
  tn_drain :: "sock \<Rightarrow> int"
  tn_read :: "sock \<Rightarrow> SockState"
  tn_queue_read :: "sock \<Rightarrow> bool"
  tn_queue_wait :: "sock \<Rightarrow> bool"
  tn_queue_accept :: "sock \<Rightarrow> bool"
  tn_shutdown :: "sock \<Rightarrow> bool"
  tn_accepts :: "(accept_status \<times> SockState) list"
  tn_now :: Ns_Time
  tn_stop :: bool

section \<open>Operations on sockets\<close>

definition SockTimeout :: "DrvState \<Rightarrow> sock \<Rightarrow> Ns_Time \<Rightarrow> int \<Rightarrow> DrvState" where
  "SockTimeout s x now t = s\<lparr>ds_timeout := (ds_timeout s)(x := Ns_IncrTime now t 0)\<rparr>"

text \<open>\<open>keep\<close> is any non-zero value for yes or undecided; the driver's \<open>keepProc\<close> answers \<open>ok\<close>.\<close>

definition SockClose :: "DrvState \<Rightarrow> sock \<Rightarrow> bool \<Rightarrow> bool \<Rightarrow> DrvState" where
  "SockClose s x keep ok = s\<lparr>ds_keep := (ds_keep s)(x := keep \<and> ok)\<rparr>"

definition SockRelease :: "DrvState \<Rightarrow> sock \<Rightarrow> DrvState" where
  "SockRelease s x =
     (let s = SockClose s x False False
      in s\<lparr>ds_queuesize := ds_queuesize s - 1, ds_free := x # ds_free s\<rparr>)"

text \<open>A connection thread gives its socket back; the second component tells whether the driver is woken.\<close>

definition NsSockClose :: "DrvState \<Rightarrow> sock \<Rightarrow> bool \<Rightarrow> bool \<Rightarrow> DrvState \<times> bool" where
  "NsSockClose s x keep ok =
     (let s = SockClose s x keep ok; trigger = (ds_closing s = [])
      in (s\<lparr>ds_closing := x # ds_closing s\<rparr>, trigger))"

text \<open>\<open>SockQueue\<close> with the answer of \<open>NsQueueConn\<close>; the socket is with the connection threads on success.\<close>

definition SockQueue :: "DrvState \<Rightarrow> sock \<Rightarrow> bool \<Rightarrow> bool \<times> DrvState" where
  "SockQueue s x ok = (ok, if ok then s\<lparr>ds_queued := x # ds_queued s\<rparr> else s)"

definition SockSpoolerQueue :: "DrvState \<Rightarrow> sock \<Rightarrow> bool \<times> DrvState" where
  "SockSpoolerQueue s x = (True, s\<lparr>ds_spool := x # ds_spool s\<rparr>)"

text \<open>What becomes of a socket after a read or an accept that was no error.\<close>

definition dispatch :: "DrvParams \<Rightarrow> DrvState \<Rightarrow> sock \<Rightarrow> Ns_Time \<Rightarrow> SockState \<Rightarrow> bool \<Rightarrow> DrvState" where
  "dispatch dp s x now st ok =
     (case st of
        SOCK_SPOOL \<Rightarrow> (case SockSpoolerQueue s x of (queued, s) \<Rightarrow> if queued then s else s\<lparr>ds_read := x # ds_read s\<rparr>)
      | SOCK_MORE \<Rightarrow> (let s = SockTimeout s x now (dp_recvwait dp) in s\<lparr>ds_read := x # ds_read s\<rparr>)
      | SOCK_READY \<Rightarrow> (case SockQueue s x ok of (queued, s) \<Rightarrow> if queued then s else s\<lparr>ds_wait := x # ds_wait s\<rparr>)
      | _ \<Rightarrow> SockRelease s x)"

section \<open>Polling\<close>

text \<open>
  The poll array: the trigger, the listening socket where no connection waits, the sockets being
  read and the sockets being closed.
\<close>

definition first_index :: "DrvState \<Rightarrow> nat" where
  "first_index s = (if ds_wait s = [] then 2 else 1)"

fun index_of :: "sock \<Rightarrow> sock list \<Rightarrow> nat" where
  "index_of x [] = 0"
| "index_of x (y # ys) = (if x = y then 0 else Suc (index_of x ys))"

definition pidx :: "DrvState \<Rightarrow> sock \<Rightarrow> nat" where
  "pidx s x = first_index s + index_of x (ds_read s @ ds_close s)"

text \<open>\<open>PollSet\<close> keeps the earliest timeout; \<open>PollReset\<close> starts from the largest time.\<close>

definition TIME_T_MAX :: int where "TIME_T_MAX = 9223372036854775807"

fun poll_min :: "Ns_Time \<Rightarrow> Ns_Time list \<Rightarrow> Ns_Time" where
  "poll_min m [] = m"
| "poll_min m (t # ts) = poll_min (if fst (Ns_DiffTime t m) < 0 then t else m) ts"

definition pollto :: "DrvState \<Rightarrow> Ns_Time \<Rightarrow> int" where
  "pollto s now =
     (if ds_read s = [] \<and> ds_close s = [] then 10 * 1000
      else
        (case Ns_DiffTime (poll_min (Ns_Time TIME_T_MAX 0) (map (ds_timeout s) (ds_read s @ ds_close s))) now of
           (r, diff) \<Rightarrow> if r > 0 then sec diff * 1000 + usec diff sdiv 1000 + 1 else 0))"

definition expired :: "DrvState \<Rightarrow> turn \<Rightarrow> sock \<Rightarrow> bool" where
  "expired s tn x \<longleftrightarrow> fst (Ns_DiffTime (ds_timeout s x) (tn_now tn)) \<le> 0"

section \<open>One turn of the loop\<close>

text \<open>The bodies of the loops over the lists, each for one socket.\<close>

definition close_step :: "turn \<Rightarrow> (sock \<Rightarrow> nat) \<Rightarrow> sock \<Rightarrow> DrvState \<Rightarrow> DrvState" where
  "close_step tn ix x s =
     (if tn_hup tn (ix x) then SockRelease s x
      else if tn_in tn (ix x) then
        (if tn_drain tn x \<le> 0 then SockRelease s x else s\<lparr>ds_close := x # ds_close s\<rparr>)
      else if expired s tn x then SockRelease s x
      else s\<lparr>ds_close := x # ds_close s\<rparr>)"

definition ahead_step :: "DrvParams \<Rightarrow> turn \<Rightarrow> (sock \<Rightarrow> nat) \<Rightarrow> sock \<Rightarrow> DrvState \<Rightarrow> DrvState" where
  "ahead_step dp tn ix x s =
     (if tn_hup tn (ix x) then SockRelease s x
      else if \<not> tn_in tn (ix x) then
        (if expired s tn x then SockRelease s x else s\<lparr>ds_read := x # ds_read s\<rparr>)
      else if dp_async dp then dispatch dp s x (tn_now tn) (tn_read tn x) (tn_queue_read tn x)
      else if expired s tn x then SockRelease (s\<lparr>ds_keep := (ds_keep s)(x := False)\<rparr>) x
      else dispatch dp s x (tn_now tn) SOCK_READY (tn_queue_read tn x))"

definition wait_step :: "turn \<Rightarrow> sock \<Rightarrow> DrvState \<Rightarrow> DrvState" where
  "wait_step tn x s = (case SockQueue s x (tn_queue_wait tn x) of (queued, s) \<Rightarrow> if queued then s else s\<lparr>ds_wait := x # ds_wait s\<rparr>)"

text \<open>\<open>SockAccept\<close>: a socket structure from the free list or a new one; \<open>rd\<close> is what the first read answers.\<close>

definition SockAccept :: "DrvParams \<Rightarrow> DrvState \<Rightarrow> accept_status \<times> SockState \<Rightarrow> SockState \<times> sock \<times> DrvState" where
  "SockAccept dp s a =
     (case a of
        (status, rd) \<Rightarrow>
          (let (x, s) = (case ds_free s of
                   [] \<Rightarrow> (ds_next s, s\<lparr>ds_next := Suc (ds_next s)\<rparr>)
                 | y # ys \<Rightarrow> (y, s\<lparr>ds_free := ys, ds_keep := (ds_keep s)(y := False)\<rparr>))
           in if status = ACCEPT_ERROR then (SOCK_ERROR, x, s\<lparr>ds_free := x # ds_free s\<rparr>)
              else
                (let s = s\<lparr>ds_queuesize := ds_queuesize s + 1\<rparr>
                 in if status = ACCEPT_DATA then
                      (if dp_async dp then
                         (if rd = SOCK_READY \<or> rd = SOCK_MORE \<or> rd = SOCK_SPOOL then (rd, x, s)
                          else (SOCK_ERROR, x, SockRelease s x))
                       else (SOCK_READY, x, s))
                    else if status = ACCEPT_QUEUE then (SOCK_READY, x, s)
                    else (SOCK_MORE, x, s))))"

fun accept_loop :: "DrvParams \<Rightarrow> turn \<Rightarrow> (accept_status \<times> SockState) list \<Rightarrow> nat \<Rightarrow> DrvState \<Rightarrow> DrvState" where
  "accept_loop dp tn [] accepted s = s"
| "accept_loop dp tn (a # as) accepted s =
     (if accepted < dp_acceptsize dp \<and> ds_queuesize s < dp_maxqueuesize dp \<and> tn_in tn 1
      then (case SockAccept dp s a of
              (st, x, s) \<Rightarrow>
                if st = SOCK_ERROR then s
                else accept_loop dp tn as (accepted + 1) (dispatch dp s x (tn_now tn) st (tn_queue_accept tn x)))
      else s)"

definition closing_step :: "DrvParams \<Rightarrow> turn \<Rightarrow> sock \<Rightarrow> DrvState \<Rightarrow> DrvState" where
  "closing_step dp tn x s =
     (if ds_keep s x
      then (let s = SockTimeout s x (tn_now tn) (dp_keepwait dp) in s\<lparr>ds_read := x # ds_read s\<rparr>)
      else if \<not> tn_shutdown tn x then SockRelease s x
      else (let s = SockTimeout s x (tn_now tn) (dp_closewait dp) in s\<lparr>ds_close := x # ds_close s\<rparr>))"

text \<open>The turn, and the loop, which ends after the turn that finds the shutdown flag.\<close>

definition DriverThread_turn :: "DrvParams \<Rightarrow> turn \<Rightarrow> DrvState \<Rightarrow> DrvState" where
  "DriverThread_turn dp tn s =
     (let ix = pidx s;
          s = fold (close_step tn ix) (ds_close s) (s\<lparr>ds_close := []\<rparr>);
          s = fold (ahead_step dp tn ix) (ds_read s) (s\<lparr>ds_read := []\<rparr>);
          s = fold (wait_step tn) (rev (ds_wait s)) (s\<lparr>ds_wait := []\<rparr>);
          s = (if ds_wait s = [] then accept_loop dp tn (tn_accepts tn) 0 s else s)
      in fold (closing_step dp tn) (ds_closing s) (s\<lparr>ds_closing := []\<rparr>))"

fun DriverThread :: "DrvParams \<Rightarrow> turn list \<Rightarrow> DrvState \<Rightarrow> DrvState" where
  "DriverThread dp [] s = s"
| "DriverThread dp (tn # tns) s =
     (let s = DriverThread_turn dp tn s in if tn_stop tn then s else DriverThread dp tns s)"

section \<open>Spooler threads\<close>

text \<open>
  A spooler thread has its own lists, and a queue that the driver thread fills; \<open>queuesize\<close> is its own
  counter.  A turn of its loop works on these and on the state of the driver, which it releases
  sockets to and queues requests in.
\<close>

record SpState =
  sp_read :: "sock list"
  sp_wait :: "sock list"
  sp_queue :: "sock list"
  sp_queuesize :: int

type_synonym sp_pair = "SpState \<times> DrvState"

fun spool_read_loop :: "DrvParams \<Rightarrow> turn \<Rightarrow> (sock \<Rightarrow> nat) \<Rightarrow> sock list \<Rightarrow> sp_pair \<Rightarrow> sp_pair" where
  "spool_read_loop dp tn ix [] p = p"
| "spool_read_loop dp tn ix (x # xs) (q, s) =
     spool_read_loop dp tn ix xs
       (if tn_hup tn (ix x) then (q, SockRelease s x)
        else if \<not> tn_in tn (ix x) then
          (if expired s tn x then (q\<lparr>sp_queuesize := sp_queuesize q - 1\<rparr>, SockRelease s x)
           else (q\<lparr>sp_read := x # sp_read q\<rparr>, s))
        else if tn_read tn x = SOCK_MORE then (q\<lparr>sp_read := x # sp_read q\<rparr>, SockTimeout s x (tn_now tn) (dp_recvwait dp))
        else if tn_read tn x = SOCK_READY then (q\<lparr>sp_wait := x # sp_wait q\<rparr>, s)
        else (q\<lparr>sp_queuesize := sp_queuesize q - 1\<rparr>, SockRelease s x))"

fun spool_wait_loop :: "turn \<Rightarrow> sock list \<Rightarrow> sp_pair \<Rightarrow> sp_pair" where
  "spool_wait_loop tn [] p = p"
| "spool_wait_loop tn (x # xs) (q, s) =
     spool_wait_loop tn xs
       (case SockQueue s x (tn_queue_wait tn x) of
          (queued, s) \<Rightarrow> (if queued then q\<lparr>sp_queuesize := sp_queuesize q - 1\<rparr> else q\<lparr>sp_wait := x # sp_wait q\<rparr>, s))"

fun spool_take_loop :: "DrvParams \<Rightarrow> turn \<Rightarrow> sock list \<Rightarrow> sp_pair \<Rightarrow> sp_pair" where
  "spool_take_loop dp tn [] p = p"
| "spool_take_loop dp tn (x # xs) (q, s) =
     spool_take_loop dp tn xs
       (q\<lparr>sp_read := x # sp_read q, sp_queuesize := sp_queuesize q + 1\<rparr>, SockTimeout s x (tn_now tn) (dp_recvwait dp))"

definition SpoolerThread_turn :: "DrvParams \<Rightarrow> turn \<Rightarrow> sp_pair \<Rightarrow> sp_pair" where
  "SpoolerThread_turn dp tn p =
     (case p of
        (q, s) \<Rightarrow>
          (let ix = (\<lambda>x. 1 + index_of x (sp_read q));
               (q, s) = spool_read_loop dp tn ix (sp_read q) (q\<lparr>sp_read := []\<rparr>, s);
               (q, s) = spool_wait_loop tn (rev (sp_wait q)) (q\<lparr>sp_wait := []\<rparr>, s)
           in if sp_wait q = [] then spool_take_loop dp tn (sp_queue q) (q\<lparr>sp_queue := []\<rparr>, s) else (q, s)))"

definition spooler_pollto :: "SpState \<Rightarrow> int" where
  "spooler_pollto q = (if sp_read q = [] then 30 * 1000 else -1)"

text \<open>The queues of the spooler threads are used in turn; the index of the next is kept.\<close>

definition spooler_next :: "nat \<Rightarrow> nat \<Rightarrow> nat \<times> nat" where
  "spooler_next n cur = (let q = (if cur < n then cur else 0) in (q, q + 1))"

section \<open>Error replies\<close>

definition response_code :: "SockState \<Rightarrow> nat option" where
  "response_code reason =
     (case reason of
        SOCK_BADREQUEST \<Rightarrow> Some 400
      | SOCK_TOOMANYHEADERS \<Rightarrow> Some 414
      | SOCK_BADHEADER \<Rightarrow> Some 400
      | SOCK_ENTITYTOOLARGE \<Rightarrow> Some 413
      | SOCK_ERROR \<Rightarrow> Some 400
      | _ \<Rightarrow> None)"

definition SockSendResponse :: "nat \<Rightarrow> string" where
  "SockSendResponse code =
     (let response = (if code = 413 then ''Bad Request'' else if code = 414 then ''Request-URI Too Long'' else ''Bad Request'')
      in ''HTTP/1.0 '' @ show_nat code @ '' '' @ response @ CRLF @ CRLF)"

text \<open>What \<open>SockError\<close> sends to the client before the socket is closed.\<close>

definition SockError :: "SockState \<Rightarrow> string" where
  "SockError reason = (case response_code reason of None \<Rightarrow> [] | Some code \<Rightarrow> SockSendResponse code)"

section \<open>Virtual servers\<close>

record ServerMap =
  sm_server :: string
  sm_location :: string

text \<open>
  The server of a request: the driver's own, or the one the \<open>Host\<close> header maps to, or the default one.
  A request that has none, or that lacks the header although it is HTTP/1.1, gets the method \<open>BAD\<close>;
  the function always succeeds.
\<close>

definition SockSetServer :: "string option \<Rightarrow> string option \<Rightarrow> (string \<rightharpoonup> ServerMap) \<Rightarrow> ServerMap option \<Rightarrow> ReqBuf option
    \<Rightarrow> string option \<times> string option \<times> ReqBuf option" where
  "SockSetServer server location hosts defMap req =
     (let host = (case req of None \<Rightarrow> None | Some rq \<Rightarrow> Ns_SetIGet (rq_headers rq) (Some ''Host''));
          status = (case req of None \<Rightarrow> True | Some rq \<Rightarrow> \<not> (host = None \<and> req_version (rq_request rq) \<ge> 11 / 10));
          (server, location, status) =
            (if server \<noteq> None then (server, location, status)
             else
               (let m = (case host of None \<Rightarrow> None | Some h \<Rightarrow> hosts h);
                    m = (if m = None then defMap else m)
                in case m of
                     None \<Rightarrow> (None, location, False)
                   | Some sm \<Rightarrow> (Some (sm_server sm), Some (sm_location sm), status)))
      in (server, location,
          if status then req
          else map_option (\<lambda>rq. rq\<lparr>rq_request := (rq_request rq)\<lparr>req_method := Some ''BAD''\<rparr>\<rparr>) req))"

section \<open>Every socket has one owner\<close>

text \<open>
  The sockets in use, all sockets with the free ones, and the difference between the counter
  \<open>queuesize\<close> and the sockets in use.
\<close>

definition live :: "DrvState \<Rightarrow> sock list" where
  "live s = ds_read s @ ds_close s @ ds_wait s @ ds_closing s @ ds_queued s @ ds_spool s"

definition all_socks :: "DrvState \<Rightarrow> sock multiset" where
  "all_socks s = mset (live s) + mset (ds_free s)"

definition surplus :: "DrvState \<Rightarrow> int" where
  "surplus s = ds_queuesize s - int (length (live s))"

text \<open>An operation that takes a socket in hand and puts it into one of the lists.\<close>

definition puts :: "sock list \<Rightarrow> DrvState \<Rightarrow> DrvState \<Rightarrow> bool" where
  "puts xs s s1 \<longleftrightarrow> all_socks s1 = mset xs + all_socks s \<and> surplus s1 = surplus s - int (length xs) \<and> ds_next s1 = ds_next s"

lemmas own_defs = puts_def all_socks_def surplus_def live_def

lemma puts_Nil [simp]: "puts [] s s"
  by (simp add: puts_def)

lemma puts_trans: "puts xs s t \<Longrightarrow> puts ys t u \<Longrightarrow> puts (xs @ ys) s u"
  by (auto simp: puts_def)

lemma puts_Cons: "puts [x] s t \<Longrightarrow> puts xs t u \<Longrightarrow> puts (x # xs) s u"
  using puts_trans [of "[x]" s t xs u] by simp

lemma puts_push:
  "puts [x] s (s\<lparr>ds_read := x # ds_read s\<rparr>)" "puts [x] s (s\<lparr>ds_close := x # ds_close s\<rparr>)" "puts [x] s (s\<lparr>ds_wait := x # ds_wait s\<rparr>)"
  "puts [x] s (s\<lparr>ds_queued := x # ds_queued s\<rparr>)" "puts [x] s (s\<lparr>ds_spool := x # ds_spool s\<rparr>)" "puts [x] s (s\<lparr>ds_closing := x # ds_closing s\<rparr>)"
  by (simp_all add: own_defs)

lemma puts_release [simp]: "puts [x] s (SockRelease s x)"
  by (simp add: own_defs SockRelease_def SockClose_def)

lemma puts_keep [simp]: "puts xs (s\<lparr>ds_keep := k\<rparr>) t \<longleftrightarrow> puts xs s t"
  by (simp add: own_defs)

lemma puts_timeout [simp]: "puts xs (SockTimeout s x now n) t \<longleftrightarrow> puts xs s t"
  by (simp add: own_defs SockTimeout_def)

lemma puts_dispatch [simp]: "puts [x] s (dispatch dp s x now st ok)"
  using puts_push [of x s] puts_push(1) [of x "SockTimeout s x now (dp_recvwait dp)"]
  by (simp add: dispatch_def SockSpoolerQueue_def SockQueue_def Let_def split: SockState.split)

text \<open>
  The contract of the loop bodies: the socket in hand ends up in one list, and nothing else moves.  A
  loop over a list then disposes of the whole list.
\<close>

locale disposer =
  fixes step :: "sock \<Rightarrow> DrvState \<Rightarrow> DrvState"
  assumes step_puts: "puts [x] s (step x s)"
begin

lemma fold_puts: "puts xs s (fold step xs s)"
proof (induction xs arbitrary: s)
  case (Cons x xs)
  then show ?case using puts_Cons [OF step_puts Cons.IH] by simp
qed simp

lemma fold_keeps_next: "ds_next (fold step xs s) = ds_next s"
  using fold_puts by (simp add: puts_def)

end

interpretation closes: disposer "close_step tn ix"
  by unfold_locales (simp add: close_step_def puts_push)

lemma puts_release_keep: "puts [x] s (SockRelease (s\<lparr>ds_keep := k\<rparr>) x)"
  using puts_release [of x "s\<lparr>ds_keep := k\<rparr>"] by (simp del: puts_release)

interpretation reads: disposer "ahead_step dp tn ix"
  by unfold_locales (simp add: ahead_step_def puts_push puts_release_keep)

interpretation waits: disposer "wait_step tn"
  by unfold_locales (simp add: wait_step_def SockQueue_def puts_push)

lemma puts_push_timeout:
  "puts [x] s ((SockTimeout s x now n)\<lparr>ds_read := x # ds_read (SockTimeout s x now n)\<rparr>)"
  "puts [x] s ((SockTimeout s x now n)\<lparr>ds_close := x # ds_close (SockTimeout s x now n)\<rparr>)"
  using puts_push(1,2) [of x "SockTimeout s x now n"] by simp_all

interpretation closings: disposer "closing_step dp tn"
  by unfold_locales (simp add: closing_step_def Let_def puts_push_timeout)

definition issued :: "sock \<Rightarrow> sock multiset" where
  "issued n = mset [0..<n]"

lemma issued_Suc [simp]: "issued (Suc n) = add_mset n (issued n)"
  by (simp add: issued_def del: mset_upt)

text \<open>The sockets are the ones handed out so far, each in one place, and the counter counts those in use.\<close>

definition owned :: "DrvState \<Rightarrow> bool" where
  "owned s \<longleftrightarrow> all_socks s = issued (ds_next s) \<and> surplus s = 0"

text \<open>With the sockets \<open>xs\<close> in hand.\<close>

definition owned_but :: "sock list \<Rightarrow> DrvState \<Rightarrow> bool" where
  "owned_but xs s \<longleftrightarrow> all_socks s + mset xs = issued (ds_next s) \<and> surplus s = int (length xs)"

lemma owned_puts: "owned_but xs s \<Longrightarrow> puts xs s t \<Longrightarrow> owned t"
  by (auto simp: owned_but_def owned_def puts_def add.commute)

lemma owned_take:
  assumes "owned s"
  shows "owned_but (ds_read s) (s\<lparr>ds_read := []\<rparr>)" "owned_but (ds_close s) (s\<lparr>ds_close := []\<rparr>)"
    "owned_but (rev (ds_wait s)) (s\<lparr>ds_wait := []\<rparr>)" "owned_but (ds_closing s) (s\<lparr>ds_closing := []\<rparr>)"
  using assms by (auto simp: owned_def owned_but_def own_defs ac_simps)

lemma accept_owned:
  assumes "owned s" "SockAccept dp s a = (st, x, s1)"
  shows "if st = SOCK_ERROR then owned s1 else owned_but [x] s1"
  using assms
  by (auto simp: SockAccept_def owned_def owned_but_def own_defs SockRelease_def SockClose_def Let_def
      split: list.splits prod.splits if_splits)

lemma accept_loop_owned: "owned s \<Longrightarrow> owned (accept_loop dp tn as n s)"
proof (induction dp tn as n s rule: accept_loop.induct)
  case (2 dp tn a as n s)
  obtain st x s1 where a: "SockAccept dp s a = (st, x, s1)" by (cases "SockAccept dp s a")
  show ?case
  proof (cases "n < dp_acceptsize dp \<and> ds_queuesize s < dp_maxqueuesize dp \<and> tn_in tn 1 \<and> st \<noteq> SOCK_ERROR")
    case True
    then have "owned (dispatch dp s1 x (tn_now tn) st (tn_queue_accept tn x))"
      using accept_owned [OF 2(2) a] owned_puts [OF _ puts_dispatch] by simp
    then show ?thesis using 2(1) a True by simp
  next
    case False
    then show ?thesis using 2(2) a accept_owned [OF 2(2) a] by auto
  qed
qed simp

lemma turn_owned:
  assumes "owned s"
  shows "owned (DriverThread_turn dp tn s)"
proof -
  define s1 where "s1 = fold (close_step tn (pidx s)) (ds_close s) (s\<lparr>ds_close := []\<rparr>)"
  define s2 where "s2 = fold (ahead_step dp tn (pidx s)) (ds_read s1) (s1\<lparr>ds_read := []\<rparr>)"
  define s3 where "s3 = fold (wait_step tn) (rev (ds_wait s2)) (s2\<lparr>ds_wait := []\<rparr>)"
  define s4 where "s4 = (if ds_wait s3 = [] then accept_loop dp tn (tn_accepts tn) 0 s3 else s3)"
  have "owned s1" unfolding s1_def using owned_take(2) [OF assms] closes.fold_puts by (rule owned_puts)
  then have "owned s2" unfolding s2_def using owned_take(1) reads.fold_puts by (blast intro: owned_puts)
  then have "owned s3" unfolding s3_def using owned_take(3) waits.fold_puts by (blast intro: owned_puts)
  then have "owned s4" unfolding s4_def using accept_loop_owned by simp
  then have "owned (fold (closing_step dp tn) (ds_closing s4) (s4\<lparr>ds_closing := []\<rparr>))" using owned_take(4) closings.fold_puts by (blast intro: owned_puts)
  then show ?thesis by (simp only: DriverThread_turn_def Let_def s1_def s2_def s3_def s4_def)
qed

section \<open>Steps\<close>

text \<open>
  A driver and the threads it works with: the turns of the driver thread; connection threads giving
  their socket back; spooler threads releasing a socket, or queueing the request they have read.
\<close>

inductive drv_step :: "DrvParams \<Rightarrow> DrvState \<Rightarrow> DrvState \<Rightarrow> bool" for dp where
  turn: "drv_step dp s (DriverThread_turn dp tn s)"
| giveback: "x \<in> set (ds_queued s) \<Longrightarrow> drv_step dp s (fst (NsSockClose (s\<lparr>ds_queued := remove1 x (ds_queued s)\<rparr>) x keep ok))"
| spool_release: "x \<in> set (ds_spool s) \<Longrightarrow> drv_step dp s (SockRelease (s\<lparr>ds_spool := remove1 x (ds_spool s)\<rparr>) x)"
| spool_queue: "x \<in> set (ds_spool s) \<Longrightarrow> drv_step dp s (snd (SockQueue (s\<lparr>ds_spool := remove1 x (ds_spool s)\<rparr>) x True))"

inductive drv_reach :: "DrvParams \<Rightarrow> DrvState \<Rightarrow> DrvState \<Rightarrow> bool" for dp s0 where
  start: "drv_reach dp s0 s0"
| more: "drv_reach dp s0 s \<Longrightarrow> drv_step dp s t \<Longrightarrow> drv_reach dp s0 t"

definition drv_start :: DrvState where
  "drv_start = \<lparr>ds_read = [], ds_close = [], ds_wait = [], ds_closing = [], ds_free = [], ds_queued = [], ds_spool = [], ds_next = 0,
     ds_queuesize = 0, ds_timeout = (\<lambda>x. Ns_Time 0 0), ds_keep = (\<lambda>x. False)\<rparr>"

lemma remove1_split: "x \<in> set xs \<Longrightarrow> \<exists>ys zs. xs = ys @ x # zs \<and> remove1 x xs = ys @ zs"
  by (metis remove1_append remove1.simps(2) split_list_first)

lemma take_one:
  assumes "owned s"
  shows "x \<in> set (ds_queued s) \<Longrightarrow> owned_but [x] (s\<lparr>ds_queued := remove1 x (ds_queued s)\<rparr>)"
    and "x \<in> set (ds_spool s) \<Longrightarrow> owned_but [x] (s\<lparr>ds_spool := remove1 x (ds_spool s)\<rparr>)"
proof -
  assume "x \<in> set (ds_queued s)"
  then obtain ys zs where "ds_queued s = ys @ x # zs" "remove1 x (ds_queued s) = ys @ zs" using remove1_split by fast
  then show "owned_but [x] (s\<lparr>ds_queued := remove1 x (ds_queued s)\<rparr>)" using assms by (simp add: owned_def owned_but_def own_defs)
next
  assume "x \<in> set (ds_spool s)"
  then obtain ys zs where "ds_spool s = ys @ x # zs" "remove1 x (ds_spool s) = ys @ zs" using remove1_split by fast
  then show "owned_but [x] (s\<lparr>ds_spool := remove1 x (ds_spool s)\<rparr>)" using assms by (simp add: owned_def owned_but_def own_defs)
qed

lemma step_owned:
  assumes "drv_step dp s t" "owned s"
  shows "owned t"
  using assms
proof cases
  case (turn tn)
  then show ?thesis using turn_owned assms(2) by simp
next
  case (giveback x keep ok)
  then show ?thesis
    using owned_puts [OF take_one(1) [OF assms(2)], of x]
    by (simp add: NsSockClose_def SockClose_def Let_def own_defs)
next
  case (spool_release x)
  then show ?thesis using owned_puts [OF take_one(2) [OF assms(2)] puts_release] by simp
next
  case (spool_queue x)
  then show ?thesis using owned_puts [OF take_one(2) [OF assms(2)] puts_push(4)] by (simp add: SockQueue_def)
qed

lemma reach_owned: "drv_reach dp s0 s \<Longrightarrow> owned s0 \<Longrightarrow> owned s"
  by (induction rule: drv_reach.induct) (auto intro: step_owned)

lemma owned_distinct:
  assumes "owned s"
  shows "distinct (live s @ ds_free s)" "set (live s @ ds_free s) = {0..<ds_next s}"
proof -
  have m: "mset (live s @ ds_free s) = mset [0..<ds_next s]" using assms by (simp add: owned_def all_socks_def issued_def)
  show "distinct (live s @ ds_free s)" using m by (metis distinct_upt mset_eq_imp_distinct_iff)
  show "set (live s @ ds_free s) = {0..<ds_next s}" using m by (metis mset_eq_setD set_upt)
qed

section \<open>Timeouts\<close>

lemma poll_min_least:
  assumes "normal m" "list_all normal ts"
  shows "normal (poll_min m ts) \<and> (\<forall>t \<in> set (m # ts). poll_min m ts \<le> t) \<and> poll_min m ts \<in> set (m # ts)"
  using assms
proof (induction ts arbitrary: m)
  case (Cons t ts)
  let ?m = "if fst (Ns_DiffTime t m) < 0 then t else m"
  have "fst (Ns_DiffTime t m) = (if t < m then -1 else if t = m then 0 else 1)"
    using arg_cong [OF conjunct1 [OF DiffTime_normal [of t m]], of fst] Cons.prems by (simp only: fst_conv list.pred_inject)
  then have d: "fst (Ns_DiffTime t m) < 0 \<longleftrightarrow> t < m" by simp
  have "normal ?m" using Cons.prems by simp
  then have IH: "normal (poll_min ?m ts) \<and> (\<forall>u \<in> set (?m # ts). poll_min ?m ts \<le> u) \<and> poll_min ?m ts \<in> set (?m # ts)"
    using Cons by (intro Cons.IH) simp_all
  then show ?case using d by (auto split: if_splits)
qed simp

lemma sdiv_thousand: "0 \<le> u \<Longrightarrow> 1000 * (u sdiv 1000) \<le> u \<and> u < 1000 * (u sdiv 1000) + (1000 :: int)"
  by (simp add: signed_divide_int_def sgn_if) linarith

lemma pollto_reaches:
  assumes "ds_read s @ ds_close s \<noteq> []" "normal now" "list_all (\<lambda>x. normal (ds_timeout s x)) (ds_read s @ ds_close s)"
    "m = poll_min (Ns_Time TIME_T_MAX 0) (map (ds_timeout s) (ds_read s @ ds_close s))"
  shows "normal m \<and> micros m \<le> micros now + 1000 * pollto s now \<and> (micros now < micros m \<longrightarrow> micros now + 1000 * pollto s now \<le> micros m + 1000)
    \<and> (micros m \<le> micros now \<longrightarrow> pollto s now = 0)"
proof -
  have "normal (Ns_Time TIME_T_MAX 0)" by (simp add: normal_def)
  moreover have "list_all normal (map (ds_timeout s) (ds_read s @ ds_close s))" using assms(3) by (auto simp: list_all_iff)
  ultimately have n: "normal m" using poll_min_least assms(4) by blast
  obtain r diff where d: "Ns_DiffTime m now = (r, diff)" by (cases "Ns_DiffTime m now")
  have f: "r = (if m < now then -1 else if m = now then 0 else 1)" "normal diff" "micros diff = micros m - micros now"
    using DiffTime_normal [OF n assms(2)] d by simp_all
  have p: "pollto s now = (if r > 0 then sec diff * 1000 + usec diff sdiv 1000 + 1 else 0)"
    using assms(1,4) d by (auto simp: pollto_def)
  have "m < now \<longleftrightarrow> micros m < micros now" "m = now \<longleftrightarrow> micros m = micros now"
    using normal_less_iff [OF n assms(2)] normal_eq_iff [OF n assms(2)] by simp_all
  moreover have "0 \<le> usec diff" using f(2) by (simp add: normal_def)
  ultimately show ?thesis
    using n p f sdiv_thousand [of "usec diff"] unfolding micros_def [of diff] by (auto split: if_splits)
qed

section \<open>Waiting connections\<close>

lemma wait_loop_wait: "ds_wait (fold (wait_step tn) xs s) = rev (filter (\<lambda>x. \<not> tn_queue_wait tn x) xs) @ ds_wait s"
  by (induction xs arbitrary: s) (simp_all add: wait_step_def SockQueue_def)

lemma wait_loop_queued: "ds_queued (fold (wait_step tn) xs s) = rev (filter (tn_queue_wait tn) xs) @ ds_queued s"
  by (induction xs arbitrary: s) (simp_all add: wait_step_def SockQueue_def)

section \<open>Properties\<close>


definition small_params :: DrvParams where
  "small_params = \<lparr>dp_async = True, dp_recvwait = 30, dp_keepwait = 5, dp_closewait = 2, dp_acceptsize = 4, dp_maxqueuesize = 100\<rparr>"

definition quiet_turn :: turn where
  "quiet_turn = \<lparr>tn_in = (\<lambda>i. i = 1), tn_hup = (\<lambda>i. False), tn_drain = (\<lambda>x. 0), tn_read = (\<lambda>x. SOCK_MORE), tn_queue_read = (\<lambda>x. True),
     tn_queue_wait = (\<lambda>x. True), tn_queue_accept = (\<lambda>x. True), tn_shutdown = (\<lambda>x. True),
     tn_accepts = [(ACCEPT, SOCK_MORE), (ACCEPT_DATA, SOCK_READY), (ACCEPT_DATA, SOCK_BADREQUEST)], tn_now = Ns_Time 10 0,
     tn_stop = False\<rparr>"



definition two_timers :: DrvState where
  "two_timers = drv_start\<lparr>ds_read := [0], ds_close := [1], ds_timeout := (\<lambda>x. if x = 0 then Ns_Time 12 0 else Ns_Time 11 500)\<rparr>"


text \<open>
  Waiting connections keep their order: the oldest is offered to the connection threads first, the
  ones that are refused stay in the order they had, and no connection is lost on the way.
\<close>

theorem waiting_in_order:
  "ds_wait (fold (wait_step tn) (rev (ds_wait s)) (s\<lparr>ds_wait := []\<rparr>)) = filter (\<lambda>x. \<not> tn_queue_wait tn x) (ds_wait s) \<and>
   ds_queued (fold (wait_step tn) (rev (ds_wait s)) (s\<lparr>ds_wait := []\<rparr>)) = filter (tn_queue_wait tn) (ds_wait s) @ ds_queued s"
  by (simp add: wait_loop_wait wait_loop_queued rev_filter)

text \<open>
  A request that was read in this turn is offered before the ones that have been waiting, although
  the waiting list is reversed \<open>to ensure oldest connections are tried first\<close>: with one free
  connection thread the newcomer gets it.
\<close>

definition busy_turn :: turn where
  "busy_turn = quiet_turn\<lparr>tn_read := (\<lambda>x. SOCK_READY), tn_queue_read := (\<lambda>x. True), tn_queue_wait := (\<lambda>x. False), tn_accepts := []\<rparr>"

lemma waiting_overtaken:
  "let s = DriverThread_turn small_params busy_turn (drv_start\<lparr>ds_read := [1], ds_wait := [0], ds_next := 2, ds_queuesize := 2\<rparr>)
   in ds_queued s = [1] \<and> ds_wait s = [0]"
  by code_simp

text \<open>
  While connections wait the listening socket is not polled, but its index in the poll array is still
  asked: it then belongs to the first socket being read, whose input makes the driver accept.
\<close>

lemma stale_listen_index:
  "let s0 = drv_start\<lparr>ds_read := [1], ds_wait := [0], ds_next := 2, ds_queuesize := 2\<rparr>
   in pidx s0 1 = 1 \<and> ds_next (DriverThread_turn small_params (quiet_turn\<lparr>tn_accepts := [(ACCEPT, SOCK_MORE)]\<rparr>) s0) = 3"
  by code_simp

text \<open>
  The loop ends with the turn that finds the shutdown flag, whatever sockets it still has, and not
  when \<open>all connections are complete and gracefully closed\<close>.
\<close>

lemma shutdown_abandons:
  "let s = DriverThread small_params [quiet_turn\<lparr>tn_stop := True, tn_accepts := []\<rparr>]
       (drv_start\<lparr>ds_read := [0], ds_close := [1], ds_timeout := (\<lambda>x. Ns_Time 20 0), ds_next := 2, ds_queuesize := 2\<rparr>)
   in ds_read s = [0] \<and> ds_close s = [1]"
  by code_simp

text \<open>
  A spooler thread that has sockets to read waits without limit, so that their timeouts are not noticed
  while nothing arrives; and a socket whose peer has hung up is released without being uncounted.
\<close>

lemma spooler_waits_forever: "sp_read q \<noteq> [] \<Longrightarrow> spooler_pollto q = -1"
  by (simp add: spooler_pollto_def)

lemma spooler_count_leaks:
  "let (q, s) = SpoolerThread_turn small_params (quiet_turn\<lparr>tn_hup := (\<lambda>i. True)\<rparr>)
       (\<lparr>sp_read = [0], sp_wait = [], sp_queue = [], sp_queuesize = 1\<rparr>, drv_start\<lparr>ds_next := 1, ds_queuesize := 1\<rparr>)
   in sp_read q = [] \<and> sp_wait q = [] \<and> sp_queue q = [] \<and> sp_queuesize q = 1 \<and> ds_free s = [0]"
  by code_simp

text \<open>A request is never handed on without a server where the driver has one or a default is configured.\<close>

lemma server_always_set:
  "server \<noteq> None \<or> defMap \<noteq> None \<Longrightarrow> fst (SockSetServer server location hosts defMap req) \<noteq> None"
  by (auto simp: SockSetServer_def Let_def split: option.splits)

lemma entity_too_large_reply: "SockError SOCK_ENTITYTOOLARGE = ''HTTP/1.0 413 Bad Request'' @ CRLF @ CRLF"
  by (simp add: SockError_def response_code_def SockSendResponse_def show_nat.simps char_of_eq_iff)

end
