(* ===== verification/Spec2Isabelle.thy ===== *)
theory Spec2Isabelle
  imports Index UrlSpace NsSet NsTime Sched Cache NsStr UUEncode UrlEncode Pathname Html Request Url
    Sha1 Md5 Queue Range Cookies ReadReq DrvThread
begin

text \<open>
  A verification library for NaviServer, the multi-threaded web server with an embedded Tcl
  interpreter whose C sources are under \<open>src/\<close>.

  \<^bold>\<open>The program.\<close>  Drivers (\<open>nsd/driver.c\<close>, \<open>nssock\<close>) read requests from sockets, parse the request
  line and headers (\<open>nsd/request.c\<close>, with \<open>nsd/str.c\<close>, \<open>nsd/urlencode.c\<close> and \<open>nsd/pathname.c\<close>) and queue
  the connection for a pool of threads (\<open>nsd/queue.c\<close>).  A connection thread looks the URL up in the
  URL space (\<open>nsd/urlspace.c\<close>, built on \<open>nsd/index.c\<close>) to find the procedure, filter or access rule
  registered for it, and answers from files, templates or Tcl procedures.  Headers, forms and query
  data are name/value sets (\<open>nsd/set.c\<close>); results are kept in caches (\<open>nsd/cache.c\<close>); periodic work is
  run by the scheduler (\<open>nsd/sched.c\<close>), which computes with the times of \<open>nsthread/time.c\<close>.
  \<open>nsthread\<close> provides locks and threads.  Tcl commands give scripts access to all of this; the
  digests and HTML helpers of \<open>nsd/tclmisc.c\<close>, \<open>nsd/quotehtml.c\<close> and \<open>nsd/uuencode.c\<close> belong to them.

  \<^bold>\<open>Theories and sources.\<close>
  \<^item> \<open>Prelude\<close>: C strings and their comparison, checked array accesses, facts on lists.
    \<open>Codec\<close>: the contract of a character-wise encoder and its decoder, as a locale, interpreted for
    the two URL encoders and for HTML quoting.
  \<^item> \<open>Index\<close>, \<open>nsd/index.c\<close>: the sorted array with its growth and shifting, on checked arrays.  The
    locale \<open>index_order\<close> states what a comparison function must satisfy; it is interpreted for the
    string, integer, branch and channel indexes.
  \<^item> \<open>UrlSpace\<close>, \<open>nsd/urlspace.c\<close>: tries, channels and junctions as the code nests them, and the
    \<open>Ns_UrlSpecific\<close> operations; refinement to a registry map.
  \<^item> \<open>NsSet\<close>, \<open>nsd/set.c\<close>: sets as ordered lists of optional names and values with their capacity.
  \<^item> \<open>NsTime\<close>, \<open>nsthread/time.c\<close>: times as seconds and microseconds.
  \<^item> \<open>Sched\<close>, \<open>nsd/sched.c\<close>: the heap of events in its array, the table of ids, and the scheduler as a
    step relation over scheduling, cancelling, pausing, resuming, firing and the end of runs.
  \<^item> \<open>Cache\<close>, \<open>nsd/cache.c\<close>: the table, the doubly linked list in order of use, sizes and expiry.
  \<^item> \<open>NsStr\<close>, \<open>nsd/str.c\<close>: trimming, numbers, matching and host names, with \<open>strtol\<close>.
  \<^item> \<open>UrlEncode\<close>, \<open>nsd/urlencode.c\<close>: the two tables entry by entry, encoding and decoding.
  \<^item> \<open>Pathname\<close>, \<open>nsd/pathname.c\<close>: normalisation, construction and hashing of paths, server roots.
  \<^item> \<open>Request\<close>, \<open>nsd/request.c\<close>: request lines, URLs, headers, accepted encodings; it composes
    \<open>NsStr\<close>, \<open>UrlEncode\<close>, \<open>Pathname\<close> and \<open>NsSet\<close>.  \<open>Url\<close>, \<open>nsd/url.c\<close>: splitting and resolving URLs.
  \<^item> \<open>Html\<close>, \<open>nsd/quotehtml.c\<close> and parts of \<open>nsd/tclmisc.c\<close>: quoting, stripping, links.
  \<^item> \<open>UUEncode\<close>, \<open>nsd/uuencode.c\<close>; \<open>Sha1\<close> and \<open>Md5\<close>, \<open>nsd/tclmisc.c\<close>: on 8, 32 and 64-bit words.
  \<^item> \<open>Locks\<close>, \<open>nsthread/rwlock.c\<close>, \<open>sema.c\<close> and \<open>cslock.c\<close>: step relations over any number of
    threads; the locale \<open>invariant_system\<close> carries reachability for the three.

  \<^item> \<open>HttpTime\<close>, \<open>nsd/httptime.c\<close>: HTTP dates with the calendar functions of the C library.
  \<^item> \<open>SockVec\<close>, \<open>nsd/sock.c\<close> and \<open>NsDriverSend\<close>: vectors of buffers and sending them through a driver that
    may take any part.  The locale \<open>buffer_vector\<close> states what skipping sent bytes does; it is
    interpreted here and in \<open>FileVec\<close>, \<open>nsd/sockfile.c\<close>, for vectors of file and memory segments.
  \<^item> \<open>Conn\<close>, \<open>nsd/return.c\<close> and \<open>nsd/nsd.h\<close>: connections, their flags and output headers, the header block.
    \<open>ConnIO\<close>, \<open>nsd/connio.c\<close>: keep-alive, framing, chunked and compressed writing, closing, and reading
    of the buffered request; it composes \<open>Conn\<close>, \<open>SockVec\<close> and \<open>Request\<close>.
  \<^item> \<open>Range\<close>, \<open>nsd/range.c\<close> with \<open>ReturnRange\<close> and \<open>Ns_ConnReturnData\<close>: byte ranges and multipart answers; it
    composes \<open>ConnIO\<close> and \<open>FileVec\<close>.  \<open>Cookies\<close>, \<open>nsd/cookies.c\<close>, on \<open>NsSet\<close> and \<open>UrlEncode\<close>.
  \<^item> \<open>Queue\<close>, \<open>nsd/queue.c\<close>: drivers and connection threads as a step relation over the pool; schedules
    are executable lists of actions.
  \<^item> \<open>ReadReq\<close>, \<open>nsd/driver.c\<close>: reading a request, from the first byte to the content, in memory or in a
    spool file, and the chunked decoder; it composes \<open>Request\<close> and \<open>NsSet\<close>, and its decoder inverts the
    chunks of \<open>ConnIO\<close>.  \<open>DrvThread\<close>, \<open>nsd/driver.c\<close>: the turns of the driver thread and of spooler threads
    over their lists of sockets.  The locale \<open>disposer\<close> states that a loop body puts its socket into
    one list; it is interpreted for the four loops of the driver thread.

  \<^bold>\<open>Conventions.\<close>  Pointers to heap objects are addresses in an explicit store where the code shares
  or frees them (events, cache entries) and plain values elsewhere.  A pointer into a string is the
  rest of the string.  An access outside an allocation, a NULL dereference or another undefined
  access is \<open>None\<close>; error returns are values.  C \<open>int\<close> is \<open>int\<close> where no overflow can occur in
  practice, and a word of its width in the digests and encoders.  Loops are recursive functions
  with termination proofs.  Only \<open>Ns_SockSendBufs\<close>, which a driver that never takes a byte could
  keep busy, has fuel: \<open>ConnIO\<close> gives it two turns more than there are bytes, and
  \<open>send_bufs_all\<close> proves this enough for every driver that makes progress.

  \<^bold>\<open>What is shown.\<close>  For the URL space: the lookup rule (longest prefix, deepest match over the
  channels), registration and recursive removal as map operations, and the cases in which removal
  misses a wildcard.  For indexes, sets and times: order, content and bounds after each operation.
  For the scheduler: due events and only these fire, the heap order, no use of a freed event in any
  interleaving that does not resume a running event, and what goes wrong otherwise.  For the cache:
  eviction from the end of the list, lookup after storing, expiry.  For requests: whatever line is
  accepted, the stored URL has only clean segments, so no request names a path outside its root;
  well-formed lines are read back in full; normalisation equals a stack machine; the server root
  stays below the configured directory for every \<open>Host\<close> header.  Round trips hold for URL encoding,
  base64, HTML quoting and URL resolution, with buffer bounds.  SHA1 equals the standard; MD5 updates are
  independent of chunking, while its final step is wrong.  The locks exclude each other as they
  should and lose no wakeup.  For responses: the header block has one logical line per header
  whatever the values contain, a streamed response is the header block and chunks that decode to
  the bytes written, a connection kept alive has a framed body, and vectors of buffers and files
  are sent in order.  A range request is answered with exactly the bytes asked for.  Cookies are read
  back as they were set.  For the connection queue: no connection is in two places under any
  interleaving and the counters are right, and how a connection can be lost or stuck.  For the
  driver: a request that is ready is the one its bytes contain, however they arrived and wherever
  the content is kept; one that is sent in full becomes ready; no byte is written outside the buffer,
  except by the chunked decoder on a negative size; every socket is in exactly one list; the thread
  wakes in time.  Theorems named in a divergence section show where code and comment,
  or code and intention, differ.

  \<^bold>\<open>Not modelled.\<close>  The writer threads of the driver, socket callbacks, processes, the Tcl interpreter and its
  commands beyond those above, templates, configuration, logging, databases and the loadable modules;
  of the modelled files, memory release, printing and registration of callbacks, as each theory says.
  Tcl character encodings, zlib, the send and sendfile procedures of a driver and a registered
  server root callback are parameters.  Doubles (the HTTP
  version and q-values) are exact decimal numbers.
\<close>

end
